(* ===== verification/Prelude.thy ===== *)
theory Prelude
  imports Main "HOL-Library.Word" "HOL-Library.Multiset"
begin

text \<open>
  Shared material of the development: the machine integer types of the C sources, the
  collections of simplification rules the component theories extend, and generic lemmas
  on unsigned words, lists and sorted lists that no single component owns.
\<close>

subsection \<open>Machine integers\<close>

type_synonym u8 = "8 word"
type_synonym u16 = "16 word"
type_synonym u32 = "32 word"
type_synonym u64 = "64 word"

abbreviation ULLONG_MAX :: u64 where
  "ULLONG_MAX \<equiv> - 1"

named_theorems word_nat \<open>rules that read unsigned word arithmetic as arithmetic on nat\<close>

text \<open>
  Unsigned sums and differences that do not wrap are the sums and differences of the
  numbers the words stand for.
\<close>

lemma unat_add_nowrap [word_nat]:
  fixes a b :: "'a::len word"
  shows "a \<le> a + b \<Longrightarrow> unat (a + b) = unat a + unat b"
  by (simp add: unat_plus_simple)

lemma unat_diff_le [word_nat]:
  fixes a b :: "'a::len word"
  shows "b \<le> a \<Longrightarrow> unat (a - b) = unat a - unat b"
  by (rule unat_sub)

lemma unat_add_sub_cancel:
  fixes a b :: "'a::len word"
  shows "a \<le> b \<Longrightarrow> unat a + unat (b - a) = unat b"
  by (simp add: unat_diff_le word_le_nat_alt)

lemma not_add_less_nowrap:
  fixes a b :: "'a::len word"
  shows "\<not> a + b < a \<longleftrightarrow> unat (a + b) = unat a + unat b"
  by (simp add: not_less unat_plus_simple)

lemma unat_max:
  fixes a b :: "'a::len word"
  shows "unat (max a b) = max (unat a) (unat b)"
  by (simp add: max_def word_le_nat_alt)

lemma unat_min:
  fixes a b :: "'a::len word"
  shows "unat (min a b) = min (unat a) (unat b)"
  by (simp add: min_def word_le_nat_alt)

subsection \<open>Lists\<close>

lemma take_list_update_append:
  "n < length xs \<Longrightarrow> take (Suc n) (xs[n := x]) = take n xs @ [x]"
  by (simp add: take_Suc_conv_app_nth)

lemma take_list_update_same:
  "i < n \<Longrightarrow> n \<le> length xs \<Longrightarrow> take n (xs[i := x]) = (take n xs)[i := x]"
  by (simp add: take_update_swap)

lemma sorted_wrt_appendI:
  assumes "sorted_wrt P xs" and "sorted_wrt P ys"
    and "\<And>x y. x \<in> set xs \<Longrightarrow> y \<in> set ys \<Longrightarrow> P x y"
  shows "sorted_wrt P (xs @ ys)"
  using assms by (simp add: sorted_wrt_append)

lemma distinct_butlast_notin:
  assumes "distinct xs" and "xs \<noteq> []"
  shows "last xs \<notin> set (butlast xs)"
  using assms by (metis append_butlast_last_id distinct_append insertI1 disjoint_iff list.simps(15))

subsection \<open>Numbers as text\<close>

text \<open>The conversion \<open>%u\<close> of the C formatting routines.\<close>

fun decimal :: "nat \<Rightarrow> string" where
  "decimal n =
     (if n < 10 then [char_of (48 + n)] else decimal (n div 10) @ [char_of (48 + n mod 10)])"

declare decimal.simps [simp del]

subsection \<open>Sequences of operations\<close>

text \<open>
  A component with a state and operations that return a result, \<open>None\<close> when the code would
  leave its domain. A specification relates the abstract state before, the result and the
  abstract state after; it may allow several results, such as a failed allocation.
\<close>

fun run_ops :: "('o \<Rightarrow> 's \<Rightarrow> ('r \<times> 's) option) \<Rightarrow> 'o list \<Rightarrow> 's \<Rightarrow> ('r list \<times> 's) option" where
  "run_ops step [] s = Some ([], s)"
| "run_ops step (opn # ops) s =
     (case step opn s of
        None \<Rightarrow> None
      | Some (r, s') \<Rightarrow> map_option (\<lambda>(rs, s''). (r # rs, s'')) (run_ops step ops s'))"

inductive spec_run :: "('o \<Rightarrow> 'a \<Rightarrow> 'r \<Rightarrow> 'a \<Rightarrow> bool) \<Rightarrow> 'o list \<Rightarrow> 'a \<Rightarrow> 'r list \<Rightarrow> 'a \<Rightarrow> bool"
  for spec :: "'o \<Rightarrow> 'a \<Rightarrow> 'r \<Rightarrow> 'a \<Rightarrow> bool" where
  spec_nil: "spec_run spec [] a [] a"
| spec_cons: "spec opn a r a' \<Longrightarrow> spec_run spec ops a' rs a'' \<Longrightarrow> spec_run spec (opn # ops) a (r # rs) a''"

inductive_simps spec_run_simps [simp]: "spec_run spec [] a rs a'" "spec_run spec (opn # ops) a rs a'"

locale simulation =
  fixes step :: "'o \<Rightarrow> 's \<Rightarrow> ('r \<times> 's) option" and legal :: "'o \<Rightarrow> bool" and inv :: "'s \<Rightarrow> bool"
    and abs :: "'s \<Rightarrow> 'a" and spec :: "'o \<Rightarrow> 'a \<Rightarrow> 'r \<Rightarrow> 'a \<Rightarrow> bool"
  assumes simulates: "inv s \<Longrightarrow> legal opn \<Longrightarrow> \<exists>r s'. step opn s = Some (r, s') \<and> inv s' \<and> spec opn (abs s) r (abs s')"
begin

lemma run_refines:
  "inv s \<Longrightarrow> list_all legal ops \<Longrightarrow>
     \<exists>rs s'. run_ops step ops s = Some (rs, s') \<and> inv s' \<and> spec_run spec ops (abs s) rs (abs s')"
proof (induction ops arbitrary: s)
  case (Cons opn ops)
  then obtain r s' where s': "step opn s = Some (r, s')" "inv s'" "spec opn (abs s) r (abs s')"
    using simulates[of s opn] by auto
  moreover obtain rs s'' where "run_ops step ops s' = Some (rs, s'')" "inv s''" "spec_run spec ops (abs s') rs (abs s'')"
    using Cons.IH[OF s'(2)] Cons.prems(2) by auto
  ultimately show ?case by auto
qed auto

end

subsection \<open>Code that may not return\<close>

text \<open>
  What a computation with an optional result ensures: partial correctness, or that it returns
  as well when \<open>must\<close> is set.
\<close>

definition returns :: "bool \<Rightarrow> 'a option \<Rightarrow> ('a \<Rightarrow> bool) \<Rightarrow> bool" where
  "returns must m Q = (case m of None \<Rightarrow> \<not> must | Some x \<Rightarrow> Q x)"

lemma returns_Some [simp]: "returns must (Some x) Q = Q x"
  by (simp add: returns_def)

lemma returns_None [simp]: "returns must None Q = (\<not> must)"
  by (simp add: returns_def)

lemma returns_bind [simp]: "returns must (Option.bind m f) Q = returns must m (\<lambda>x. returns must (f x) Q)"
  by (cases m) simp_all

lemma returns_mono: "returns must m P \<Longrightarrow> (\<And>x. P x \<Longrightarrow> Q x) \<Longrightarrow> returns must m Q"
  by (cases m) simp_all

lemma returns_partial: "returns False m Q \<longleftrightarrow> (\<forall>x. m = Some x \<longrightarrow> Q x)"
  by (cases m) simp_all

lemma returns_total: "returns True m Q \<longleftrightarrow> (\<exists>x. m = Some x \<and> Q x)"
  by (cases m) simp_all

lemma returns_if:
  "(c \<Longrightarrow> returns must x Q) \<Longrightarrow> (\<not> c \<Longrightarrow> returns must y Q) \<Longrightarrow> returns must (if c then x else y) Q"
  by simp

text \<open>
  A computation that returns at least where another does, with the same result: what more fuel
  gives.
\<close>

definition approx :: "'a option \<Rightarrow> 'a option \<Rightarrow> bool" where
  "approx m m' \<longleftrightarrow> m = None \<or> m = m'"

named_theorems approx_intro \<open>rules that show that a computation returns at least where another does\<close>

lemma approx_refl [approx_intro]: "approx m m"
  by (simp add: approx_def)

lemma approx_Some: "approx (Some x) m \<longleftrightarrow> m = Some x"
  by (auto simp: approx_def)

lemma approx_bind [approx_intro]:
  "approx m m' \<Longrightarrow> (\<And>x. approx (f x) (f' x)) \<Longrightarrow> approx (Option.bind m f) (Option.bind m' f')"
  unfolding approx_def by (cases m) force+

lemma approx_if [approx_intro]: "approx x x' \<Longrightarrow> approx y y' \<Longrightarrow> approx (if c then x else y) (if c then x' else y')"
  by simp

lemma approx_option [approx_intro]:
  "approx x x' \<Longrightarrow> (\<And>v. approx (f v) (f' v)) \<Longrightarrow>
     approx (case m of None \<Rightarrow> x | Some v \<Rightarrow> f v) (case m of None \<Rightarrow> x' | Some v \<Rightarrow> f' v)"
  by (cases m) simp_all

lemma approx_prod [approx_intro]:
  "(\<And>a b. approx (f a b) (f' a b)) \<Longrightarrow> approx (case p of (a, b) \<Rightarrow> f a b) (case p of (a, b) \<Rightarrow> f' a b)"
  by (cases p) simp

lemma approx_let [approx_intro]: "(\<And>x. approx (f x) (f' x)) \<Longrightarrow> approx (let x = a in f x) (let x = a in f' x)"
  by simp

end
