(* ===== verification/E820.thy ===== *)
theory E820
  imports Prelude
begin

text \<open>
  The E820 memory map of \<^verbatim>\<open>arch/x86/kernel/e820.c\<close>: the table and its entries, the
  queries, the range operations and the sanitizing pass, and the abstract reading of a
  table as the types recorded at each physical address.

  A table is the C structure: an array \<open>entries\<close> of fixed size (\<open>ARRAY_SIZE\<close> is the
  length of the list) of which the first \<open>nr_entries\<close> are valid. Addresses and sizes are
  64-bit words and wrap as in C; a type is the 32-bit value of the C enum, because firmware
  and the command line may store values the enum does not name. A \<open>BUG_ON\<close> that fires, and
  an array access outside its bounds, is the result \<open>None\<close>.
\<close>

unbundle bit_operations_syntax

subsection \<open>Data\<close>

abbreviation E820_TYPE_RAM :: u32 where "E820_TYPE_RAM \<equiv> 1"
abbreviation E820_TYPE_RESERVED :: u32 where "E820_TYPE_RESERVED \<equiv> 2"
abbreviation E820_TYPE_ACPI :: u32 where "E820_TYPE_ACPI \<equiv> 3"
abbreviation E820_TYPE_NVS :: u32 where "E820_TYPE_NVS \<equiv> 4"
abbreviation E820_TYPE_UNUSABLE :: u32 where "E820_TYPE_UNUSABLE \<equiv> 5"
abbreviation E820_TYPE_PMEM :: u32 where "E820_TYPE_PMEM \<equiv> 7"
abbreviation E820_TYPE_PRAM :: u32 where "E820_TYPE_PRAM \<equiv> 12"
abbreviation E820_TYPE_SOFT_RESERVED :: u32 where "E820_TYPE_SOFT_RESERVED \<equiv> 0xefffffff"
abbreviation E820_TYPE_RESERVED_KERN :: u32 where "E820_TYPE_RESERVED_KERN \<equiv> 128"

record e820_entry =
  e_addr :: u64
  e_size :: u64
  e_type :: u32

record e820_table =
  nr_entries :: nat
  entries :: "e820_entry list"

definition mk_entry :: "u64 \<Rightarrow> u64 \<Rightarrow> u32 \<Rightarrow> e820_entry" where
  "mk_entry a s ty = \<lparr>e_addr = a, e_size = s, e_type = ty\<rparr>"

definition valid_entries :: "e820_table \<Rightarrow> e820_entry list" where
  "valid_entries t = take (nr_entries t) (entries t)"

definition set_entry :: "e820_table \<Rightarrow> nat \<Rightarrow> e820_entry \<Rightarrow> e820_table" where
  "set_entry t i e = t\<lparr>entries := (entries t)[i := e]\<rparr>"

subsection \<open>Queries\<close>

fun mapped_any_loop :: "e820_entry list \<Rightarrow> u64 \<Rightarrow> u64 \<Rightarrow> u32 \<Rightarrow> bool" where
  "mapped_any_loop [] start stop ty = False"
| "mapped_any_loop (entry # es) start stop ty =
     (if ty \<noteq> 0 \<and> e_type entry \<noteq> ty then mapped_any_loop es start stop ty
      else if e_addr entry \<ge> stop \<or> e_addr entry + e_size entry \<le> start
      then mapped_any_loop es start stop ty
      else True)"

definition tab_e820__mapped_any :: "e820_table \<Rightarrow> u64 \<Rightarrow> u64 \<Rightarrow> u32 \<Rightarrow> bool" where
  "tab_e820__mapped_any table start stop ty = mapped_any_loop (valid_entries table) start stop ty"

fun mapped_all_loop :: "e820_entry list \<Rightarrow> u64 \<Rightarrow> u64 \<Rightarrow> u32 \<Rightarrow> e820_entry option" where
  "mapped_all_loop [] start stop ty = None"
| "mapped_all_loop (entry # es) start stop ty =
     (if ty \<noteq> 0 \<and> e_type entry \<noteq> ty then mapped_all_loop es start stop ty
      else if e_addr entry \<ge> stop \<or> e_addr entry + e_size entry \<le> start
      then mapped_all_loop es start stop ty
      else
        let start' = (if e_addr entry \<le> start then e_addr entry + e_size entry else start)
        in if start' \<ge> stop then Some entry else mapped_all_loop es start' stop ty)"

definition tab_e820__mapped_all :: "e820_table \<Rightarrow> u64 \<Rightarrow> u64 \<Rightarrow> u32 \<Rightarrow> e820_entry option" where
  "tab_e820__mapped_all table start stop ty = mapped_all_loop (valid_entries table) start stop ty"

subsection \<open>Adding, updating and removing ranges\<close>

definition tab_e820__range_add :: "e820_table \<Rightarrow> u64 \<Rightarrow> u64 \<Rightarrow> u32 \<Rightarrow> e820_table" where
  "tab_e820__range_add table start sz ty =
     (let x = nr_entries table in
      if x \<ge> length (entries table) then table
      else table\<lparr>entries := (entries table)[x := mk_entry start sz ty], nr_entries := x + 1\<rparr>)"

text \<open>
  The body of the loop of \<open>__e820__range_update\<close> for the entry with index \<open>i\<close>: the size
  added to \<open>real_updated_size\<close> and the table after the iteration.
\<close>

definition range_update_step ::
  "u64 \<Rightarrow> u64 \<Rightarrow> u64 \<Rightarrow> u32 \<Rightarrow> u32 \<Rightarrow> nat \<Rightarrow> e820_table \<Rightarrow> u64 \<times> e820_table" where
  "range_update_step start sz stop old_type new_type i table =
     (let entry = entries table ! i; entry_end = e_addr entry + e_size entry in
      if e_type entry \<noteq> old_type then (0, table)
      else if e_addr entry \<ge> start \<and> entry_end \<le> stop
      then (e_size entry, set_entry table i (entry\<lparr>e_type := new_type\<rparr>))
      else if e_addr entry < start \<and> entry_end > stop
      then
        let t1 = tab_e820__range_add table start sz new_type;
            t2 = tab_e820__range_add t1 stop (entry_end - stop) (e_type entry)
        in (sz, set_entry t2 i (entry\<lparr>e_size := start - e_addr entry\<rparr>))
      else
        let final_start = max start (e_addr entry); final_end = min stop entry_end in
        if final_start \<ge> final_end then (0, table)
        else
          let t1 = tab_e820__range_add table final_start (final_end - final_start) new_type;
              entry' = entry\<lparr>e_size := e_size entry - (final_end - final_start)\<rparr>
          in (final_end - final_start,
              set_entry t1 i (if e_addr entry < final_start then entry'
                              else entry'\<lparr>e_addr := final_end\<rparr>)))"

lemma length_entries_range_add [simp]:
  "length (entries (tab_e820__range_add t s z ty)) = length (entries t)"
  by (simp add: tab_e820__range_add_def Let_def)

lemma length_entries_set_entry [simp]: "length (entries (set_entry t i e)) = length (entries t)"
  by (simp add: set_entry_def)

lemma length_entries_update_step [simp]:
  "length (entries (snd (range_update_step start sz stop old new i t))) = length (entries t)"
  by (simp add: range_update_step_def Let_def)

function range_update_loop ::
  "nat \<Rightarrow> u64 \<Rightarrow> u64 \<Rightarrow> u64 \<Rightarrow> u32 \<Rightarrow> u32 \<Rightarrow> u64 \<Rightarrow> e820_table \<Rightarrow> (u64 \<times> e820_table) option" where
  "range_update_loop i start sz stop old_type new_type real_updated_size table =
     (if i \<ge> nr_entries table then Some (real_updated_size, table)
      else if i \<ge> length (entries table) then None
      else
        let r = range_update_step start sz stop old_type new_type i table in
        range_update_loop (i + 1) start sz stop old_type new_type
          (real_updated_size + fst r) (snd r))"
  by pat_completeness auto
termination
  by (relation "measure (\<lambda>(i, start, sz, stop, ot, nt, acc, t). length (entries t) - i)") auto

declare range_update_loop.simps [simp del]

definition tab_e820__range_update ::
  "e820_table \<Rightarrow> u64 \<Rightarrow> u64 \<Rightarrow> u32 \<Rightarrow> u32 \<Rightarrow> (u64 \<times> e820_table) option" where
  "tab_e820__range_update table start size0 old_type new_type =
     (if old_type = new_type then None
      else
        let sz = (if size0 > ULLONG_MAX - start then ULLONG_MAX - start else size0);
            stop = start + sz
        in range_update_loop 0 start sz stop old_type new_type 0 table)"

definition range_remove_step ::
  "u64 \<Rightarrow> u64 \<Rightarrow> u64 \<Rightarrow> u32 \<Rightarrow> bool \<Rightarrow> nat \<Rightarrow> e820_table \<Rightarrow> u64 \<times> e820_table" where
  "range_remove_step start sz stop old_type check_type i table =
     (let entry = entries table ! i; entry_end = e_addr entry + e_size entry in
      if check_type \<and> e_type entry \<noteq> old_type then (0, table)
      else if e_addr entry \<ge> start \<and> entry_end \<le> stop
      then (e_size entry, set_entry table i (mk_entry 0 0 0))
      else if e_addr entry < start \<and> entry_end > stop
      then
        let t1 = tab_e820__range_add table stop (entry_end - stop) (e_type entry)
        in (sz, set_entry t1 i (entry\<lparr>e_size := start - e_addr entry\<rparr>))
      else
        let final_start = max start (e_addr entry); final_end = min stop entry_end in
        if final_start \<ge> final_end then (0, table)
        else
          let entry' = entry\<lparr>e_size := e_size entry - (final_end - final_start)\<rparr>
          in (final_end - final_start,
              set_entry table i (if e_addr entry < final_start then entry'
                                 else entry'\<lparr>e_addr := final_end\<rparr>)))"

lemma length_entries_remove_step [simp]:
  "length (entries (snd (range_remove_step start sz stop old chk i t))) = length (entries t)"
  by (simp add: range_remove_step_def Let_def)

function range_remove_loop ::
  "nat \<Rightarrow> u64 \<Rightarrow> u64 \<Rightarrow> u64 \<Rightarrow> u32 \<Rightarrow> bool \<Rightarrow> u64 \<Rightarrow> e820_table \<Rightarrow> (u64 \<times> e820_table) option" where
  "range_remove_loop i start sz stop old_type check_type real_removed_size table =
     (if i \<ge> nr_entries table then Some (real_removed_size, table)
      else if i \<ge> length (entries table) then None
      else
        let r = range_remove_step start sz stop old_type check_type i table in
        range_remove_loop (i + 1) start sz stop old_type check_type
          (real_removed_size + fst r) (snd r))"
  by pat_completeness auto
termination
  by (relation "measure (\<lambda>(i, start, sz, stop, ot, chk, acc, t). length (entries t) - i)") auto

declare range_remove_loop.simps [simp del]

definition tab_e820__range_remove ::
  "e820_table \<Rightarrow> u64 \<Rightarrow> u64 \<Rightarrow> u32 \<Rightarrow> bool \<Rightarrow> (u64 \<times> e820_table) option" where
  "tab_e820__range_remove table start size0 old_type check_type =
     (let sz = (if size0 > ULLONG_MAX - start then ULLONG_MAX - start else size0);
          stop = start + sz
      in range_remove_loop 0 start sz stop old_type check_type 0 table)"

subsection \<open>Sanitizing the table\<close>

text \<open>
  A change point refers to its entry by the entry's index in the array, where the C code
  holds a pointer to it. The library routine \<open>sort\<close> of the kernel is a parameter.
\<close>

record change_member =
  cm_entry :: nat
  cm_addr :: u64

type_synonym sort_fn =
  "(change_member \<Rightarrow> change_member \<Rightarrow> int) \<Rightarrow> change_member list \<Rightarrow> change_member list"

definition cpcompare :: "e820_entry list \<Rightarrow> change_member \<Rightarrow> change_member \<Rightarrow> int" where
  "cpcompare es ap bp =
     (if cm_addr ap \<noteq> cm_addr bp then (if cm_addr ap > cm_addr bp then 1 else -1)
      else of_bool (cm_addr ap \<noteq> e_addr (es ! cm_entry ap))
         - of_bool (cm_addr bp \<noteq> e_addr (es ! cm_entry bp)))"

definition e820_nomerge :: "u32 \<Rightarrow> bool" where
  "e820_nomerge ty =
     (if ty = E820_TYPE_PRAM then True
      else if ty = E820_TYPE_SOFT_RESERVED then True
      else False)"

fun change_points_from :: "nat \<Rightarrow> e820_entry list \<Rightarrow> change_member list" where
  "change_points_from i [] = []"
| "change_points_from i (e # es) =
     (if e_size e \<noteq> 0
      then [\<lparr>cm_entry = i, cm_addr = e_addr e\<rparr>, \<lparr>cm_entry = i, cm_addr = e_addr e + e_size e\<rparr>]
      else []) @ change_points_from (i + 1) es"

text \<open>
  The state of the sweep over the change points: the valid part of \<open>overlap_list\<close>, the
  finished slots of \<open>new_entries\<close> (so \<open>new_nr_entries\<close> is their number), the slot that is
  being filled, and the two variables \<open>last_type\<close> and \<open>last_addr\<close>.
\<close>

record sweep =
  overlap_list :: "nat list"
  new_entries :: "e820_entry list"
  new_slot :: e820_entry
  last_type :: u32
  last_addr :: u64

definition overlap_update :: "e820_entry list \<Rightarrow> change_member \<Rightarrow> nat list \<Rightarrow> nat list option" where
  "overlap_update es cp ol =
     (if cm_addr cp = e_addr (es ! cm_entry cp) then Some (ol @ [cm_entry cp])
      else if ol = [] then None
      else Some (butlast (map (\<lambda>i. if i = cm_entry cp then last ol else i) ol)))"

fun current_type_of :: "e820_entry list \<Rightarrow> nat list \<Rightarrow> u32 \<Rightarrow> u32" where
  "current_type_of es [] ty = ty"
| "current_type_of es (i # ol) ty =
     current_type_of es ol (if e_type (es ! i) > ty then e_type (es ! i) else ty)"

definition sweep_emit :: "nat \<Rightarrow> change_member \<Rightarrow> u32 \<Rightarrow> sweep \<Rightarrow> bool \<times> sweep" where
  "sweep_emit max_nr_entries cp current_type s =
     (if current_type \<noteq> last_type s \<or> e820_nomerge current_type then
        let s1 = (if last_type s \<noteq> 0
                  then s\<lparr>new_slot := (new_slot s)\<lparr>e_size := cm_addr cp - last_addr s\<rparr>\<rparr> else s);
            advance = (last_type s \<noteq> 0 \<and> e_size (new_slot s1) \<noteq> 0);
            s2 = (if advance then s1\<lparr>new_entries := new_entries s1 @ [new_slot s1]\<rparr> else s1)
        in if advance \<and> length (new_entries s2) \<ge> max_nr_entries then (True, s2)
           else
             let s3 = (if current_type \<noteq> 0
                       then s2\<lparr>new_slot := (new_slot s2)\<lparr>e_addr := cm_addr cp, e_type := current_type\<rparr>,
                               last_addr := cm_addr cp\<rparr>
                       else s2)
             in (False, s3\<lparr>last_type := current_type\<rparr>)
      else (False, s))"

fun sweep_loop :: "e820_entry list \<Rightarrow> nat \<Rightarrow> change_member list \<Rightarrow> sweep \<Rightarrow> sweep option" where
  "sweep_loop es max_nr_entries [] s = Some s"
| "sweep_loop es max_nr_entries (cp # cps) s =
     (case overlap_update es cp (overlap_list s) of
        None \<Rightarrow> None
      | Some ol \<Rightarrow>
          (case sweep_emit max_nr_entries cp (current_type_of es ol 0) (s\<lparr>overlap_list := ol\<rparr>) of
             (True, s') \<Rightarrow> Some s'
           | (False, s') \<Rightarrow> sweep_loop es max_nr_entries cps s'))"

definition sweep_init :: sweep where
  "sweep_init = \<lparr>overlap_list = [], new_entries = [], new_slot = mk_entry 0 0 0,
                 last_type = 0, last_addr = 0\<rparr>"

definition e820__update_table :: "sort_fn \<Rightarrow> e820_table \<Rightarrow> (int \<times> e820_table) option" where
  "e820__update_table ksort table =
     (let max_nr_entries = length (entries table); es = valid_entries table in
      if nr_entries table < 2 then Some (-1, table)
      else if nr_entries table > max_nr_entries then None
      else if list_ex (\<lambda>e. e_addr e + e_size e < e_addr e) es then Some (-1, table)
      else
        (case sweep_loop es max_nr_entries (ksort (cpcompare es) (change_points_from 0 es)) sweep_init of
           None \<Rightarrow> None
         | Some s \<Rightarrow>
             Some (0, table\<lparr>nr_entries := length (new_entries s),
                            entries := new_entries s @ drop (length (new_entries s)) (entries table)\<rparr>)))"

subsection \<open>The abstract reading of a table\<close>

text \<open>
  What a list of entries says of a physical address: the entries that cover it, and the
  type the sanitizing pass gives it, which is the largest type among them (0 when none
  covers it). Ranges are compared as numbers, so an entry that would wrap covers no
  address below its start.
\<close>

definition covers :: "e820_entry \<Rightarrow> u64 \<Rightarrow> bool" where
  "covers e a \<longleftrightarrow> unat (e_addr e) \<le> unat a \<and> unat a < unat (e_addr e) + unat (e_size e)"

fun type_at :: "e820_entry list \<Rightarrow> u64 \<Rightarrow> u32" where
  "type_at [] a = 0"
| "type_at (e # es) a = (if covers e a then max (e_type e) (type_at es a) else type_at es a)"

definition types_at :: "e820_entry list \<Rightarrow> u64 \<Rightarrow> u32 multiset" where
  "types_at es a = mset (map e_type (filter (\<lambda>e. covers e a) es))"

definition nowrap :: "e820_entry \<Rightarrow> bool" where
  "nowrap e \<longleftrightarrow> \<not> e_addr e + e_size e < e_addr e"

text \<open>The order the sanitized table is in: each entry ends before the next one starts.\<close>

definition before :: "e820_entry \<Rightarrow> e820_entry \<Rightarrow> bool" where
  "before e f \<longleftrightarrow> unat (e_addr e) + unat (e_size e) \<le> unat (e_addr f)"

definition sanitized :: "e820_entry list \<Rightarrow> bool" where
  "sanitized es \<longleftrightarrow>
     sorted_wrt before es \<and> (\<forall>e \<in> set es. nowrap e \<and> e_size e \<noteq> 0 \<and> e_type e \<noteq> 0)"

text \<open>The contract of the library routine \<open>sort\<close>: a permutation, in the order of the comparison.\<close>

definition sort_contract :: "sort_fn \<Rightarrow> bool" where
  "sort_contract ksort \<longleftrightarrow>
     (\<forall>cmp. (\<forall>x y. cmp x y \<le> 0 \<or> cmp y x \<le> 0) \<longrightarrow>
        (\<forall>x y z. cmp x y \<le> 0 \<longrightarrow> cmp y z \<le> 0 \<longrightarrow> cmp x z \<le> 0) \<longrightarrow>
        (\<forall>xs. mset (ksort cmp xs) = mset xs \<and> sorted_wrt (\<lambda>x y. cmp x y \<le> 0) (ksort cmp xs)))"

lemma nowrap_end: "nowrap e \<Longrightarrow> unat (e_addr e + e_size e) = unat (e_addr e) + unat (e_size e)"
  by (simp add: nowrap_def not_add_less_nowrap)

lemma type_at_eq_Max: "type_at es a = Max (insert 0 (e_type ` {e \<in> set es. covers e a}))"
proof (induction es)
  case Nil
  then show ?case by simp
next
  case (Cons e es)
  let ?S = "e_type ` {e \<in> set es. covers e a}"
  have "{x \<in> set (e # es). covers x a} =
      (if covers e a then insert e {x \<in> set es. covers x a} else {x \<in> set es. covers x a})"
    by auto
  then have "insert 0 (e_type ` {x \<in> set (e # es). covers x a}) =
      (if covers e a then insert (e_type e) (insert 0 ?S) else insert 0 ?S)"
    by auto
  then show ?case using Cons.IH by (simp add: max_def)
qed

lemma type_at_append: "type_at (xs @ ys) a = max (type_at xs a) (type_at ys a)"
  by (induction xs) (auto simp: max.assoc)

lemma type_at_none: "(\<And>e. e \<in> set es \<Longrightarrow> \<not> covers e a) \<Longrightarrow> type_at es a = 0"
  by (induction es) auto

lemma type_at_types_at: "type_at es a = Max (insert 0 (set_mset (types_at es a)))"
  by (simp add: type_at_eq_Max types_at_def)

end
