(* ===== verification/E820_Boot.thy ===== *)
theory E820_Boot
  imports E820 "HOL-Library.Monad_Syntax"
begin

text \<open>
  The boot-time clients of the E820 table in \<^verbatim>\<open>arch/x86/kernel/e820.c\<close>, configured for
  64-bit x86 with ACPI and memory hotplug: the firmware map is copied and sanitized, boot
  options change it, the boot loader's data nodes are reserved in it, and it is handed to the
  resource manager, to hibernation and to memblock.

  The global variables are the record \<open>boot_state\<close>. \<open>None\<close> is a stop of the kernel (a
  \<open>BUG_ON\<close>, a panic, an access outside an array) or, for the loop over the data nodes, also a
  loop that never ends. Calls into other subsystems are values of \<open>ext_call\<close> in the order
  the code makes them; their results are parameters, as are the parsers \<open>memparse\<close> and
  \<open>simple_strtoull\<close>, which return the number and how many characters they consumed, and
  \<open>sort\<close>. Messages on the console are left out, apart from the text printed for a type.
\<close>

subsection \<open>State\<close>

record boot_e820_entry =
  be_addr :: u64
  be_size :: u64
  be_type :: u32

record resource =
  res_start :: u64
  res_end :: u64
  res_name :: string
  res_flags :: u64
  res_desc :: u64

datatype ext_call =
    register_nosave_region u64 u64
  | acpi_nvs_register u64 u64
  | insert_resource resource
  | insert_resource_expand_to_fit resource
  | reserve_region_with_split u64 u64 string
  | firmware_map_add_early u64 u64 string
  | memblock_allow_resize
  | memblock_reserve u64 u64
  | memblock_add u64 u64
  | memblock_trim_memory u64

record boot_state =
  e820_main :: e820_table
  e820_kexec :: e820_table
  e820_firmware :: e820_table
  pci_mem_start :: u64
  userdef :: bool
  max_mem_size :: u64
  e820_res :: "resource list"

definition EINVAL :: int where
  "EINVAL = 22"

definition PAGE_SHIFT :: nat where
  "PAGE_SHIFT = 12"

definition PAGE_SIZE :: u64 where
  "PAGE_SIZE = push_bit PAGE_SHIFT 1"

definition PFN_UP :: "u64 \<Rightarrow> u64" where
  "PFN_UP x = drop_bit PAGE_SHIFT (x + PAGE_SIZE - 1)"

definition PFN_DOWN :: "u64 \<Rightarrow> u64" where
  "PFN_DOWN x = drop_bit PAGE_SHIFT x"

definition round_up :: "u64 \<Rightarrow> u64 \<Rightarrow> u64" where
  "round_up x y = ((x - 1) OR (y - 1)) + 1"

subsection \<open>Queries and range operations on the global tables\<close>

definition e820__mapped_raw_any :: "boot_state \<Rightarrow> u64 \<Rightarrow> u64 \<Rightarrow> u32 \<Rightarrow> bool" where
  "e820__mapped_raw_any s start stop ty = tab_e820__mapped_any (e820_firmware s) start stop ty"

definition e820__mapped_any :: "boot_state \<Rightarrow> u64 \<Rightarrow> u64 \<Rightarrow> u32 \<Rightarrow> bool" where
  "e820__mapped_any s start stop ty = tab_e820__mapped_any (e820_main s) start stop ty"

definition e820__mapped_all :: "boot_state \<Rightarrow> u64 \<Rightarrow> u64 \<Rightarrow> u32 \<Rightarrow> bool" where
  "e820__mapped_all s start stop ty = (tab_e820__mapped_all (e820_main s) start stop ty \<noteq> None)"

definition e820__get_entry_type :: "boot_state \<Rightarrow> u64 \<Rightarrow> u64 \<Rightarrow> int" where
  "e820__get_entry_type s start stop =
     (case tab_e820__mapped_all (e820_main s) start stop 0 of
        Some entry \<Rightarrow> sint (e_type entry)
      | None \<Rightarrow> - EINVAL)"

definition e820__range_add :: "boot_state \<Rightarrow> u64 \<Rightarrow> u64 \<Rightarrow> u32 \<Rightarrow> boot_state" where
  "e820__range_add s start sz ty = s\<lparr>e820_main := tab_e820__range_add (e820_main s) start sz ty\<rparr>"

definition e820__range_update :: "boot_state \<Rightarrow> u64 \<Rightarrow> u64 \<Rightarrow> u32 \<Rightarrow> u32 \<Rightarrow> (u64 \<times> boot_state) option" where
  "e820__range_update s start sz old_type new_type = do {
     (n, t) \<leftarrow> tab_e820__range_update (e820_main s) start sz old_type new_type;
     Some (n, s\<lparr>e820_main := t\<rparr>) }"

definition e820__range_update_kexec ::
  "boot_state \<Rightarrow> u64 \<Rightarrow> u64 \<Rightarrow> u32 \<Rightarrow> u32 \<Rightarrow> (u64 \<times> boot_state) option" where
  "e820__range_update_kexec s start sz old_type new_type = do {
     (n, t) \<leftarrow> tab_e820__range_update (e820_kexec s) start sz old_type new_type;
     Some (n, s\<lparr>e820_kexec := t\<rparr>) }"

definition e820__range_remove :: "boot_state \<Rightarrow> u64 \<Rightarrow> u64 \<Rightarrow> u32 \<Rightarrow> bool \<Rightarrow> (u64 \<times> boot_state) option" where
  "e820__range_remove s start sz old_type check_type = do {
     (n, t) \<leftarrow> tab_e820__range_remove (e820_main s) start sz old_type check_type;
     Some (n, s\<lparr>e820_main := t\<rparr>) }"

definition update_main :: "sort_fn \<Rightarrow> boot_state \<Rightarrow> (int \<times> boot_state) option" where
  "update_main ksort s = do {
     (r, t) \<leftarrow> e820__update_table ksort (e820_main s);
     Some (r, s\<lparr>e820_main := t\<rparr>) }"

definition e820__update_table_kexec :: "sort_fn \<Rightarrow> boot_state \<Rightarrow> boot_state option" where
  "e820__update_table_kexec ksort s = do {
     (r, t) \<leftarrow> e820__update_table ksort (e820_kexec s);
     Some (s\<lparr>e820_kexec := t\<rparr>) }"

definition e820_print_type :: "u32 \<Rightarrow> string" where
  "e820_print_type ty =
     (if ty = E820_TYPE_RAM \<or> ty = E820_TYPE_RESERVED_KERN then ''usable''
      else if ty = E820_TYPE_RESERVED then ''reserved''
      else if ty = E820_TYPE_SOFT_RESERVED then ''soft reserved''
      else if ty = E820_TYPE_ACPI then ''ACPI data''
      else if ty = E820_TYPE_NVS then ''ACPI NVS''
      else if ty = E820_TYPE_UNUSABLE then ''unusable''
      else if ty = E820_TYPE_PMEM \<or> ty = E820_TYPE_PRAM 
      then ''persistent (type '' @ decimal (unat ty) @ '')''
      else ''type '' @ decimal (unat ty))"

definition e820__print_table :: "boot_state \<Rightarrow> string \<Rightarrow> (string \<times> u64 \<times> u64 \<times> string) list" where
  "e820__print_table s who =
     map (\<lambda>e. (who, e_addr e, e_addr e + e_size e - 1, e820_print_type (e_type e)))
       (valid_entries (e820_main s))"

definition e820__update_table_print ::
  "sort_fn \<Rightarrow> boot_state \<Rightarrow> (boot_state \<times> (string \<times> u64 \<times> u64 \<times> string) list) option" where
  "e820__update_table_print ksort s = do {
     (r, s') \<leftarrow> update_main ksort s;
     if r \<noteq> 0 then Some (s', [])
     else Some (s', e820__print_table s' ''modified'') }"

subsection \<open>Copying the firmware map\<close>

text \<open>
  The array of the boot loader and the number of entries to copy. The routine stops at the
  first entry that overflows; the entries before it have been added.
\<close>

fun tab_append_e820_table :: "boot_state \<Rightarrow> boot_e820_entry list \<Rightarrow> nat \<Rightarrow> (int \<times> boot_state) option" where
  "tab_append_e820_table s bs 0 = Some (0, s)"
| "tab_append_e820_table s [] (Suc n) = None"
| "tab_append_e820_table s (entry # bs) (Suc n) =
     (let start = be_addr entry; sz = be_size entry; stop = start + sz - 1 in
      if start > stop \<and> sz \<noteq> 0 then Some (-1, s)
      else tab_append_e820_table (e820__range_add s start sz (be_type entry)) bs n)"

definition append_e820_table :: "boot_state \<Rightarrow> boot_e820_entry list \<Rightarrow> nat \<Rightarrow> (int \<times> boot_state) option" where
  "append_e820_table s bs n = (if n < 2 then Some (-1, s) else tab_append_e820_table s bs n)"

record boot_params =
  bp_e820_table :: "boot_e820_entry list"
  bp_e820_entries :: u8
  bp_alt_mem_k :: u32
  bp_ext_mem_k :: u16
  bp_setup_data :: u64

definition LOWMEMSIZE :: u64 where
  "LOWMEMSIZE = 0x9f000"

definition HIGH_MEMORY :: u64 where
  "HIGH_MEMORY = 0x00100000"

definition fake_memory_map :: "boot_params \<Rightarrow> boot_state \<Rightarrow> string \<times> boot_state" where
  "fake_memory_map bp s =
     (let less = unat (bp_alt_mem_k bp) < unat (bp_ext_mem_k bp);
          mem_size = (if less then ucast (bp_ext_mem_k bp) else ucast (bp_alt_mem_k bp)) :: u64;
          who = (if less then ''BIOS-88'' else ''BIOS-e801'');
          s1 = s\<lparr>e820_main := (e820_main s)\<lparr>nr_entries := 0\<rparr>\<rparr>;
          s2 = e820__range_add s1 0 LOWMEMSIZE E820_TYPE_RAM
      in (who, e820__range_add s2 HIGH_MEMORY (push_bit 10 mem_size) E820_TYPE_RAM))"

definition e820__memory_setup_default ::
  "sort_fn \<Rightarrow> boot_params \<Rightarrow> boot_state \<Rightarrow> (string \<times> boot_state) option" where
  "e820__memory_setup_default ksort bp s = do {
     (r, s1) \<leftarrow> append_e820_table s (bp_e820_table bp) (unat (bp_e820_entries bp));
     let (who, s2) = (if r < 0 then fake_memory_map bp s1 else (''BIOS-e820'', s1));
     (_, s3) \<leftarrow> update_main ksort s2;
     Some (who, s3) }"

text \<open>\<open>x86_init.resources.memory_setup\<close> is a pointer to the routine; platforms may replace it.\<close>

definition e820__memory_setup ::
  "(boot_state \<Rightarrow> (string \<times> boot_state) option) \<Rightarrow> boot_state \<Rightarrow> (string \<times> boot_state) option" where
  "e820__memory_setup memory_setup s = do {
     (who, s1) \<leftarrow> memory_setup s;
     Some (who, s1\<lparr>e820_kexec := e820_main s1, e820_firmware := e820_main s1\<rparr>) }"

text \<open>
  The data node at a physical address, as \<open>early_memremap\<close> maps it; the entries are the payload
  read as an array, and \<open>len\<close> is in bytes.
\<close>

definition e820__memory_setup_extended ::
  "sort_fn \<Rightarrow> u32 \<Rightarrow> boot_e820_entry list \<Rightarrow> boot_state \<Rightarrow> boot_state option" where
  "e820__memory_setup_extended ksort len extmap s = do {
     (_, s1) \<leftarrow> tab_append_e820_table s extmap (unat len div 20);
     (_, s2) \<leftarrow> update_main ksort s1;
     Some (s2\<lparr>e820_kexec := e820_main s2, e820_firmware := e820_main s2\<rparr>) }"

subsection \<open>The gap for PCI devices\<close>

definition MAX_GAP_END :: u64 where
  "MAX_GAP_END = 0x100000000"

record gap =
  gap_found :: bool
  gapstart :: u64
  gapsize :: u64

text \<open>The loop runs from the last entry to the first.\<close>

fun search_gap_loop :: "e820_entry list \<Rightarrow> u64 \<Rightarrow> gap \<Rightarrow> gap" where
  "search_gap_loop [] lst g = g"
| "search_gap_loop (e # es) lst g =
     (let start = e_addr e; stop = start + e_size e; gsz = lst - stop;
          g' = (if lst > stop \<and> gsz \<ge> gapsize g
                then \<lparr>gap_found = True, gapstart = stop, gapsize = gsz\<rparr> else g)
      in search_gap_loop es (if start < lst then start else lst) g')"

definition e820_search_gap :: "boot_state \<Rightarrow> u64 \<Rightarrow> u64 \<Rightarrow> gap" where
  "e820_search_gap s gstart gsize =
     search_gap_loop (rev (valid_entries (e820_main s))) MAX_GAP_END
       \<lparr>gap_found = False, gapstart = gstart, gapsize = gsize\<rparr>"

text \<open>The start of the gap is not initialised in the code: \<open>junk\<close> stands for its value.\<close>

definition e820__setup_pci_gap :: "u64 \<Rightarrow> u64 \<Rightarrow> boot_state \<Rightarrow> boot_state" where
  "e820__setup_pci_gap max_pfn junk s =
     (let g = e820_search_gap s junk 0x400000;
          start = (if gap_found g then gapstart g
                   else push_bit PAGE_SHIFT max_pfn + 1024 * 1024)
      in s\<lparr>pci_mem_start := start\<rparr>)"

definition dup_table :: "bool \<Rightarrow> e820_table \<Rightarrow> e820_table option" where
  "dup_table kmemdup_ok t =
     (if \<not> kmemdup_ok \<or> nr_entries t > length (entries t) then None
      else Some (t\<lparr>entries := take (nr_entries t) (entries t)\<rparr>))"

definition e820__reallocate_tables :: "bool \<Rightarrow> bool \<Rightarrow> bool \<Rightarrow> boot_state \<Rightarrow> boot_state option" where
  "e820__reallocate_tables ok1 ok2 ok3 s = do {
     n1 \<leftarrow> dup_table ok1 (e820_main s);
     n2 \<leftarrow> dup_table ok2 (e820_kexec s);
     n3 \<leftarrow> dup_table ok3 (e820_firmware s);
     Some (s\<lparr>e820_main := n1, e820_kexec := n2, e820_firmware := n3\<rparr>) }"

subsection \<open>Hibernation, ACPI and the page frame limits\<close>

fun nosave_loop :: "u64 \<Rightarrow> u64 \<Rightarrow> e820_entry list \<Rightarrow> ext_call list" where
  "nosave_loop limit_pfn pfn [] = []"
| "nosave_loop limit_pfn pfn (e # es) =
     (let before = (if pfn < PFN_UP (e_addr e)
                    then [register_nosave_region pfn (PFN_UP (e_addr e))] else []);
          pfn' = PFN_DOWN (e_addr e + e_size e);
          inside = (if e_type e \<noteq> E820_TYPE_RAM \<and> e_type e \<noteq> E820_TYPE_RESERVED_KERN
                    then [register_nosave_region (PFN_UP (e_addr e)) pfn'] else [])
      in before @ inside @ (if pfn' \<ge> limit_pfn then [] else nosave_loop limit_pfn pfn' es))"

definition e820__register_nosave_regions :: "boot_state \<Rightarrow> u64 \<Rightarrow> ext_call list" where
  "e820__register_nosave_regions s limit_pfn = nosave_loop limit_pfn 0 (valid_entries (e820_main s))"

definition e820__register_nvs_regions :: "boot_state \<Rightarrow> int \<times> ext_call list" where
  "e820__register_nvs_regions s =
     (0, map (\<lambda>e. acpi_nvs_register (e_addr e) (e_size e))
           (filter (\<lambda>e. e_type e = E820_TYPE_NVS) (valid_entries (e820_main s))))"

text \<open>The address \<open>memblock_phys_alloc\<close> returns, 0 when it fails, is a parameter.\<close>

definition e820__memblock_alloc_reserved ::
  "sort_fn \<Rightarrow> (u64 \<Rightarrow> u64 \<Rightarrow> u64) \<Rightarrow> u64 \<Rightarrow> u64 \<Rightarrow> boot_state \<Rightarrow> (u64 \<times> boot_state) option" where
  "e820__memblock_alloc_reserved ksort memblock_phys_alloc sz align s =
     (let addr = memblock_phys_alloc sz align in
      if addr \<noteq> 0 then do {
        (_, s1) \<leftarrow> e820__range_update_kexec s addr sz E820_TYPE_RAM E820_TYPE_RESERVED;
        s2 \<leftarrow> e820__update_table_kexec ksort s1;
        Some (addr, s2) }
      else Some (addr, s))"

fun end_pfn_loop :: "u64 \<Rightarrow> u32 \<Rightarrow> u64 \<Rightarrow> e820_entry list \<Rightarrow> u64" where
  "end_pfn_loop limit_pfn ty last_pfn [] = last_pfn"
| "end_pfn_loop limit_pfn ty last_pfn (e # es) =
     (let start_pfn = drop_bit PAGE_SHIFT (e_addr e);
          end_pfn = drop_bit PAGE_SHIFT (e_addr e + e_size e)
      in if e_type e \<noteq> ty then end_pfn_loop limit_pfn ty last_pfn es
         else if start_pfn \<ge> limit_pfn then end_pfn_loop limit_pfn ty last_pfn es
         else if end_pfn > limit_pfn then limit_pfn
         else end_pfn_loop limit_pfn ty (if end_pfn > last_pfn then end_pfn else last_pfn) es)"

definition e820_end_pfn :: "u64 \<Rightarrow> boot_state \<Rightarrow> u64 \<Rightarrow> u32 \<Rightarrow> u64" where
  "e820_end_pfn max_arch_pfn s limit_pfn ty =
     (let last_pfn = end_pfn_loop limit_pfn ty 0 (valid_entries (e820_main s)) in
      if last_pfn > max_arch_pfn then max_arch_pfn else last_pfn)"

definition e820__end_of_ram_pfn :: "u64 \<Rightarrow> boot_state \<Rightarrow> u64" where
  "e820__end_of_ram_pfn max_arch_pfn s = e820_end_pfn max_arch_pfn s max_arch_pfn E820_TYPE_RAM"

definition e820__end_of_low_ram_pfn :: "u64 \<Rightarrow> boot_state \<Rightarrow> u64" where
  "e820__end_of_low_ram_pfn max_arch_pfn s =
     e820_end_pfn max_arch_pfn s (push_bit (32 - PAGE_SHIFT) 1) E820_TYPE_RAM"

subsection \<open>Boot options\<close>

text \<open>
  A parser takes the rest of the option and returns the number and how many characters it
  consumed. A string has no final NUL in the model: \<open>cur\<close> is what the pointer sees.
\<close>

type_synonym num_parser = "string \<Rightarrow> u64 \<times> nat"

definition cur :: "string \<Rightarrow> char" where
  "cur p = (case p of [] \<Rightarrow> CHR 0x00 | c # _ \<Rightarrow> c)"

definition parse_memopt :: "num_parser \<Rightarrow> boot_state \<Rightarrow> string option \<Rightarrow> (int \<times> boot_state) option" where
  "parse_memopt memparse s arg =
     (case arg of
        None \<Rightarrow> Some (- EINVAL, s)
      | Some p \<Rightarrow>
          if p = ''nopentium'' then Some (- EINVAL, s)
          else
            let s1 = s\<lparr>userdef := True\<rparr>; mem_size = fst (memparse p) in
            if mem_size = 0 then Some (- EINVAL, s1)
            else do {
              (_, s2) \<leftarrow> e820__range_remove s1 mem_size (ULLONG_MAX - mem_size) E820_TYPE_RAM True;
              Some (0, s2\<lparr>max_mem_size := mem_size\<rparr>) })"

text \<open>The branch of \<open>parse_memmap_one\<close> for an option of the form \<open>size%start-from+to\<close>.\<close>

definition memmap_percent ::
  "num_parser \<Rightarrow> num_parser \<Rightarrow> u64 \<Rightarrow> string \<Rightarrow> boot_state \<Rightarrow> (int \<times> boot_state) option" where
  "memmap_percent memparse simple_strtoull mem_size p s =
     (let start_at = fst (memparse (tl p));
          p1 = drop (snd (memparse (tl p))) (tl p);
          from = (if cur p1 = CHR ''-'' then ucast (fst (simple_strtoull (tl p1))) else 0) :: u32;
          p2 = (if cur p1 = CHR ''-'' then drop (snd (simple_strtoull (tl p1))) (tl p1) else p1);
          to = (if cur p2 = CHR ''+'' then ucast (fst (simple_strtoull (tl p2))) else 0) :: u32;
          p3 = (if cur p2 = CHR ''+'' then drop (snd (simple_strtoull (tl p2))) (tl p2) else p2)
      in if cur p3 \<noteq> CHR 0x00 then Some (- EINVAL, s)
         else if from \<noteq> 0 \<and> to \<noteq> 0 then do {
           (_, s1) \<leftarrow> e820__range_update s start_at mem_size from to; Some (0, s1) }
         else if to \<noteq> 0 then Some (0, e820__range_add s start_at mem_size to)
         else if from \<noteq> 0 then do {
           (_, s1) \<leftarrow> e820__range_remove s start_at mem_size from True; Some (0, s1) }
         else do {
           (_, s1) \<leftarrow> e820__range_remove s start_at mem_size 0 False; Some (0, s1) })"

definition memmap_add_type :: "char \<Rightarrow> u32 option" where
  "memmap_add_type c =
     (if c = CHR ''@'' then Some E820_TYPE_RAM
      else if c = CHR ''#'' then Some E820_TYPE_ACPI
      else if c = CHR ''$'' then Some E820_TYPE_RESERVED
      else if c = CHR ''!'' then Some E820_TYPE_PRAM
      else None)"

definition parse_memmap_one ::
  "num_parser \<Rightarrow> num_parser \<Rightarrow> boot_state \<Rightarrow> string option \<Rightarrow> (int \<times> boot_state) option" where
  "parse_memmap_one memparse simple_strtoull s arg =
     (case arg of
        None \<Rightarrow> Some (- EINVAL, s)
      | Some oldp \<Rightarrow>
          if take 8 oldp = ''exactmap''
          then Some (0, s\<lparr>e820_main := (e820_main s)\<lparr>nr_entries := 0\<rparr>, userdef := True\<rparr>)
          else
            let mem_size = fst (memparse oldp); p = drop (snd (memparse oldp)) oldp in
            if snd (memparse oldp) = 0 then Some (- EINVAL, s)
            else
              let s1 = s\<lparr>userdef := True\<rparr> in
              (case memmap_add_type (cur p) of
                 Some ty \<Rightarrow>
                   let start_at = fst (memparse (tl p));
                       p1 = drop (snd (memparse (tl p))) (tl p)
                   in Some (if cur p1 = CHR 0x00 then 0 else - EINVAL,
                            e820__range_add s1 start_at mem_size ty)
               | None \<Rightarrow>
                   if cur p = CHR ''%'' then memmap_percent memparse simple_strtoull mem_size p s1
                   else do {
                     (_, s2) \<leftarrow> e820__range_remove s1 mem_size (ULLONG_MAX - mem_size) E820_TYPE_RAM True;
                     Some (if cur p = CHR 0x00 then 0 else - EINVAL, s2) }))"

function parse_memmap_opt ::
  "num_parser \<Rightarrow> num_parser \<Rightarrow> boot_state \<Rightarrow> string option \<Rightarrow> (int \<times> boot_state) option" where
  "parse_memmap_opt memparse simple_strtoull s None = Some (0, s)"
| "parse_memmap_opt memparse simple_strtoull s (Some str) =
     (let k = dropWhile (\<lambda>c. c \<noteq> CHR '','') str in do {
        (_, s1) \<leftarrow> parse_memmap_one memparse simple_strtoull s (Some (takeWhile (\<lambda>c. c \<noteq> CHR '','') str));
        parse_memmap_opt memparse simple_strtoull s1 (if k = [] then None else Some (tl k)) })"
  by pat_completeness auto
termination
  by (relation "measure (\<lambda>(mp, st, s, str). case str of None \<Rightarrow> 0 | Some cs \<Rightarrow> Suc (length cs))")
    (auto simp: less_Suc_eq_le length_dropWhile_le split: option.splits
      intro: le_trans[OF diff_le_self length_dropWhile_le])

text \<open>A panic is the result \<open>None\<close>.\<close>

definition e820__finish_early_params :: "sort_fn \<Rightarrow> boot_state \<Rightarrow> boot_state option" where
  "e820__finish_early_params ksort s =
     (if userdef s then do {
        (r, s1) \<leftarrow> update_main ksort s;
        if r < 0 then None else Some s1 }
      else Some s)"

subsection \<open>The data nodes of the boot loader\<close>

record setup_data =
  sd_next :: u64
  sd_type :: u32
  sd_len :: u32
  ind_type :: u32
  ind_len :: u64
  ind_addr :: u64

abbreviation SETUP_EFI :: u32 where "SETUP_EFI \<equiv> 4"
abbreviation SETUP_IMA :: u32 where "SETUP_IMA \<equiv> 8"
abbreviation SETUP_RNG_SEED :: u32 where "SETUP_RNG_SEED \<equiv> 9"
abbreviation SETUP_INDIRECT :: u32 where "SETUP_INDIRECT \<equiv> 0x80000000"

text \<open>
  \<open>early_memremap\<close> maps a number of bytes at a physical address, or fails: the header of the
  node there, and behind it the payload read as a \<open>setup_indirect\<close>.
\<close>

type_synonym memremap = "u64 \<Rightarrow> u64 \<Rightarrow> setup_data option"

definition sizeof_setup_data :: u64 where
  "sizeof_setup_data = 16"

definition reserve_node :: "u64 \<Rightarrow> setup_data \<Rightarrow> boot_state \<Rightarrow> boot_state option" where
  "reserve_node pa_data sd s = do {
     (_, s1) \<leftarrow> e820__range_update s pa_data (sizeof_setup_data + ucast (sd_len sd))
                 E820_TYPE_RAM E820_TYPE_RESERVED_KERN;
     if sd_type sd \<noteq> SETUP_EFI \<and> sd_type sd \<noteq> SETUP_IMA \<and> sd_type sd \<noteq> SETUP_RNG_SEED then do {
       (_, s2) \<leftarrow> e820__range_update_kexec s1 pa_data (sizeof_setup_data + ucast (sd_len sd))
                   E820_TYPE_RAM E820_TYPE_RESERVED_KERN;
       Some s2 }
     else Some s1 }"

definition reserve_indirect :: "setup_data \<Rightarrow> boot_state \<Rightarrow> boot_state option" where
  "reserve_indirect sd s =
     (if ind_type sd \<noteq> SETUP_INDIRECT then do {
        (_, s1) \<leftarrow> e820__range_update s (ind_addr sd) (ind_len sd) E820_TYPE_RAM E820_TYPE_RESERVED_KERN;
        (_, s2) \<leftarrow> e820__range_update_kexec s1 (ind_addr sd) (ind_len sd)
                    E820_TYPE_RAM E820_TYPE_RESERVED_KERN;
        Some s2 }
      else Some s)"

text \<open>
  One iteration: \<open>Inl\<close> is the early return when a mapping fails, \<open>Inr\<close> the address of the
  next node. The length of an indirect mapping is a 32-bit sum.
\<close>

definition setup_data_step ::
  "memremap \<Rightarrow> u64 \<Rightarrow> boot_state \<Rightarrow> (boot_state + u64 \<times> boot_state) option" where
  "setup_data_step early_memremap pa_data s =
     (case early_memremap pa_data sizeof_setup_data of
        None \<Rightarrow> Some (Inl s)
      | Some sd \<Rightarrow> do {
          s1 \<leftarrow> reserve_node pa_data sd s;
          if sd_type sd = SETUP_INDIRECT then
            (case early_memremap pa_data (ucast (ucast sizeof_setup_data + sd_len sd :: u32)) of
               None \<Rightarrow> Some (Inl s1)
             | Some sd' \<Rightarrow> do { s2 \<leftarrow> reserve_indirect sd' s1; Some (Inr (sd_next sd, s2)) })
          else Some (Inr (sd_next sd, s1)) })"

partial_function (option) setup_data_loop ::
  "memremap \<Rightarrow> u64 \<Rightarrow> boot_state \<Rightarrow> (bool \<times> boot_state) option" where
  "setup_data_loop early_memremap pa_data s =
     (if pa_data = 0 then Some (True, s)
      else Option.bind (setup_data_step early_memremap pa_data s)
        (\<lambda>r. case r of Inl s1 \<Rightarrow> Some (False, s1)
             | Inr ps \<Rightarrow> setup_data_loop early_memremap (fst ps) (snd ps)))"

definition e820__reserve_setup_data ::
  "sort_fn \<Rightarrow> memremap \<Rightarrow> boot_params \<Rightarrow> boot_state \<Rightarrow> boot_state option" where
  "e820__reserve_setup_data ksort early_memremap bp s =
     (if bp_setup_data bp = 0 then Some s
      else do {
        (finished, s1) \<leftarrow> setup_data_loop early_memremap (bp_setup_data bp) s;
        if \<not> finished then Some s1
        else do {
          (_, s2) \<leftarrow> update_main ksort s1;
          e820__update_table_kexec ksort s2 } })"

subsection \<open>The resource manager and memblock\<close>

definition e820_type_to_string :: "e820_entry \<Rightarrow> string" where
  "e820_type_to_string e =
     (let ty = e_type e in
      if ty = E820_TYPE_RESERVED_KERN \<or> ty = E820_TYPE_RAM then ''System RAM''
      else if ty = E820_TYPE_ACPI then ''ACPI Tables''
      else if ty = E820_TYPE_NVS then ''ACPI Non-volatile Storage''
      else if ty = E820_TYPE_UNUSABLE then ''Unusable memory''
      else if ty = E820_TYPE_PRAM then ''Persistent Memory (legacy)''
      else if ty = E820_TYPE_PMEM then ''Persistent Memory''
      else if ty = E820_TYPE_RESERVED then ''Reserved''
      else if ty = E820_TYPE_SOFT_RESERVED then ''Soft Reserved''
      else ''Unknown E820 type'')"

abbreviation IORESOURCE_MEM :: u64 where "IORESOURCE_MEM \<equiv> 0x00000200"
abbreviation IORESOURCE_SYSTEM_RAM :: u64 where "IORESOURCE_SYSTEM_RAM \<equiv> 0x00000200 OR 0x01000000"
abbreviation IORESOURCE_BUSY :: u64 where "IORESOURCE_BUSY \<equiv> 0x80000000"

definition e820_type_to_iomem_type :: "e820_entry \<Rightarrow> u64" where
  "e820_type_to_iomem_type e =
     (if e_type e = E820_TYPE_RESERVED_KERN \<or> e_type e = E820_TYPE_RAM
      then IORESOURCE_SYSTEM_RAM else IORESOURCE_MEM)"

definition e820_type_to_iores_desc :: "e820_entry \<Rightarrow> u64" where
  "e820_type_to_iores_desc e =
     (let ty = e_type e in
      if ty = E820_TYPE_ACPI then 2
      else if ty = E820_TYPE_NVS then 3
      else if ty = E820_TYPE_PMEM then 4
      else if ty = E820_TYPE_PRAM then 5
      else if ty = E820_TYPE_RESERVED then 7
      else if ty = E820_TYPE_SOFT_RESERVED then 8
      else 0)"

definition do_mark_busy :: "u32 \<Rightarrow> resource \<Rightarrow> bool" where
  "do_mark_busy ty res =
     (if res_start res < push_bit 20 1 then True
      else \<not> (ty = E820_TYPE_RESERVED \<or> ty = E820_TYPE_SOFT_RESERVED \<or>
              ty = E820_TYPE_PRAM \<or> ty = E820_TYPE_PMEM))"

definition entry_resource :: "e820_entry \<Rightarrow> resource" where
  "entry_resource e =
     \<lparr>res_start = e_addr e, res_end = e_addr e + e_size e - 1, res_name = e820_type_to_string e,
      res_flags = e820_type_to_iomem_type e, res_desc = e820_type_to_iores_desc e\<rparr>"

text \<open>
  Physical addresses have 64 bits, so the code's test that the end fits a \<open>resource_size_t\<close>
  always holds and is left out.
\<close>

definition reserve_entry :: "e820_entry \<Rightarrow> resource \<times> ext_call list" where
  "reserve_entry e =
     (let res = entry_resource e in
      if do_mark_busy (e_type e) res
      then let res' = res\<lparr>res_flags := res_flags res OR IORESOURCE_BUSY\<rparr> in (res', [insert_resource res'])
      else (res, []))"

definition e820__reserve_resources :: "bool \<Rightarrow> boot_state \<Rightarrow> (boot_state \<times> ext_call list) option" where
  "e820__reserve_resources alloc_ok s =
     (if \<not> alloc_ok then None
      else
        let rs = map reserve_entry (valid_entries (e820_main s)) in
        Some (s\<lparr>e820_res := map fst rs\<rparr>,
              concat (map snd rs) @
              map (\<lambda>e. firmware_map_add_early (e_addr e) (e_addr e + e_size e) (e820_type_to_string e))
                (valid_entries (e820_firmware s))))"

definition ram_alignment :: "u64 \<Rightarrow> u64" where
  "ram_alignment pos =
     (let mb = drop_bit 20 pos in
      if mb = 0 then 64 * 1024
      else if mb < 16 then 1024 * 1024
      else 64 * 1024 * 1024)"

text \<open>\<open>has_parent i\<close> tells that the resource with index \<open>i\<close> has been inserted by then.\<close>

definition late_insertions :: "(nat \<Rightarrow> bool) \<Rightarrow> boot_state \<Rightarrow> ext_call list option" where
  "late_insertions has_parent s =
     (if nr_entries (e820_main s) > length (e820_res s) then None
      else Some (map (\<lambda>i. insert_resource_expand_to_fit (e820_res s ! i))
             (filter (\<lambda>i. \<not> has_parent i \<and> res_end (e820_res s ! i) \<noteq> 0) [0..<nr_entries (e820_main s)])))"

definition ram_buffer :: "e820_entry \<Rightarrow> ext_call list" where
  "ram_buffer e =
     (if e_type e \<noteq> E820_TYPE_RAM then []
      else
        let start = e_addr e + e_size e; stop = round_up start (ram_alignment start) - 1 in
        if start \<ge> stop then [] else [reserve_region_with_split start stop ''RAM buffer''])"

definition e820__reserve_resources_late :: "(nat \<Rightarrow> bool) \<Rightarrow> boot_state \<Rightarrow> ext_call list option" where
  "e820__reserve_resources_late has_parent s = do {
     cs \<leftarrow> late_insertions has_parent s;
     Some (cs @ concat (map ram_buffer (valid_entries (e820_main s)))) }"

definition memblock_entry :: "e820_entry \<Rightarrow> ext_call list" where
  "memblock_entry e =
     (if e_type e = E820_TYPE_SOFT_RESERVED then [memblock_reserve (e_addr e) (e_size e)] else []) @
     (if e_type e \<noteq> E820_TYPE_RAM \<and> e_type e \<noteq> E820_TYPE_RESERVED_KERN then []
      else [memblock_add (e_addr e) (e_size e)])"

definition e820__memblock_setup :: "boot_state \<Rightarrow> ext_call list" where
  "e820__memblock_setup s =
     memblock_allow_resize # concat (map memblock_entry (valid_entries (e820_main s))) @
     [memblock_trim_memory PAGE_SIZE]"

end
