(* ===== verification/List_Sort.thy ===== *)
theory List_Sort
  imports Prelude
begin

text \<open>
  The bottom-up merge sort of \<^verbatim>\<open>tools/lib/list_sort.c\<close>. A null-terminated singly linked
  list is the HOL list of its elements, and \<open>pending\<close>, the prev-linked list of sorted
  sublists, is the list of these lists, newest first. Following a NULL pointer is the
  result \<open>None\<close>; that it never happens is part of what is proved here.
\<close>

subsection \<open>The routines\<close>

fun merge :: "('a \<Rightarrow> 'a \<Rightarrow> int) \<Rightarrow> 'a list \<Rightarrow> 'a list \<Rightarrow> 'a list" where
  "merge cmp (a # as) (b # bs) =
     (if cmp a b \<le> 0 then a # (if as = [] then b # bs else merge cmp as (b # bs))
      else b # (if bs = [] then a # as else merge cmp (a # as) bs))"
| "merge cmp [] bs = bs"
| "merge cmp as [] = as"

text \<open>
  \<open>merge_final\<close> merges like \<open>merge\<close> and then links the remainder of the longer list, which
  restores the \<open>prev\<close> pointers and closes the ring: the elements of the ring, from its head.
\<close>

fun merge_final :: "('a \<Rightarrow> 'a \<Rightarrow> int) \<Rightarrow> 'a list \<Rightarrow> 'a list \<Rightarrow> 'a list" where
  "merge_final cmp (a # as) (b # bs) =
     (if cmp a b \<le> 0 then a # (if as = [] then b # bs else merge_final cmp as (b # bs))
      else b # (if bs = [] then a # as else merge_final cmp (a # as) bs))"
| "merge_final cmp [] bs = bs"
| "merge_final cmp as [] = as"

text \<open>Finding the two sublists the lowest clear bit of \<open>count\<close> selects, and merging them in place.\<close>

fun merge_pending ::
  "('a \<Rightarrow> 'a \<Rightarrow> int) \<Rightarrow> nat \<Rightarrow> 'a list list \<Rightarrow> 'a list list option" where
  "merge_pending cmp bits pending =
     (if odd bits then
        (case pending of
           [] \<Rightarrow> None
         | p # rest \<Rightarrow> map_option ((#) p) (merge_pending cmp (bits div 2) rest))
      else if bits \<noteq> 0 then
        (case pending of
           a # b # rest \<Rightarrow> Some (merge cmp b a # rest)
         | _ \<Rightarrow> None)
      else Some pending)"

declare merge_pending.simps [simp del]

fun pending_loop ::
  "('a \<Rightarrow> 'a \<Rightarrow> int) \<Rightarrow> nat \<Rightarrow> 'a list list \<Rightarrow> 'a list \<Rightarrow> 'a list list option" where
  "pending_loop cmp cnt pending [] = Some pending"
| "pending_loop cmp cnt pending (x # list) =
     (case merge_pending cmp cnt pending of
        None \<Rightarrow> None
      | Some pending' \<Rightarrow> pending_loop cmp (cnt + 1) ([x] # pending') list)"

fun merge_all_pending :: "('a \<Rightarrow> 'a \<Rightarrow> int) \<Rightarrow> 'a list \<Rightarrow> 'a list list \<Rightarrow> 'a list option" where
  "merge_all_pending cmp list [] = None"
| "merge_all_pending cmp list [p] = Some (merge_final cmp p list)"
| "merge_all_pending cmp list (p # next # rest) =
     merge_all_pending cmp (merge cmp p list) (next # rest)"

definition list_sort :: "('a \<Rightarrow> 'a \<Rightarrow> int) \<Rightarrow> 'a list \<Rightarrow> 'a list option" where
  "list_sort cmp head =
     (if length head \<le> 1 then Some head
      else
        (case pending_loop cmp 0 [] head of
           Some (list # pending) \<Rightarrow> merge_all_pending cmp list pending
         | _ \<Rightarrow> None))"

subsection \<open>The sublists that are pending after \<open>count\<close> elements\<close>

text \<open>
  The exponents of the sizes of the pending sublists as a function of \<open>count\<close>, read from
  the bits of \<open>count\<close>: level \<open>k\<close> has one sublist if bit \<open>k\<close> is clear and one if
  bit \<open>k - 1\<close> is set (bit \<open>- 1\<close> counts as set), as long as \<open>count\<close> reaches that level.
\<close>

fun pending_exps :: "nat \<Rightarrow> bool \<Rightarrow> nat \<Rightarrow> nat list" where
  "pending_exps k b m =
     (if m = 0 then []
      else (if b then [k] else []) @ (if even m then [k] else []) @
        pending_exps (Suc k) (odd m) (m div 2))"

declare pending_exps.simps [simp del]

lemma pending_exps_0 [simp]: "pending_exps k b 0 = []"
  by (simp add: pending_exps.simps)

lemma pending_exps_True: "m \<noteq> 0 \<Longrightarrow> pending_exps k True m = k # pending_exps k False m"
  by (simp add: pending_exps.simps[of k True] pending_exps.simps[of k False])

function merge_exps :: "nat \<Rightarrow> nat list \<Rightarrow> nat list" where
  "merge_exps m es =
     (if odd m then hd es # merge_exps (m div 2) (tl es)
      else if m \<noteq> 0 then Suc (hd es) # tl (tl es)
      else es)"
  by pat_completeness auto
termination
  by (relation "measure fst") (auto dest: odd_pos)

declare merge_exps.simps [simp del]

text \<open>
  Merging the two sublists of the level of the lowest clear bit and pushing a new sublist of
  one element takes the pending sublists of \<open>m\<close> to those of \<open>m + 1\<close>.
\<close>

lemma merge_exps_step:
  "merge_exps m (pending_exps k True m) = tl (pending_exps k True (Suc m))"
proof (induction m arbitrary: k rule: less_induct)
  case (less m)
  show ?case
  proof (cases "odd m")
    case True
    then have m: "m \<noteq> 0" "m div 2 < m" "Suc m div 2 = Suc (m div 2)" by (auto dest: odd_pos)
    have "pending_exps k True m = k # pending_exps (Suc k) True (m div 2)"
      using True m(1) by (simp add: pending_exps.simps[of k True m])
    moreover have "pending_exps k True (Suc m) = k # k # pending_exps (Suc k) False (Suc (m div 2))"
      using True m(3) by (simp add: pending_exps.simps[of k True "Suc m"])
    moreover have "tl (pending_exps (Suc k) True (Suc (m div 2))) =
        pending_exps (Suc k) False (Suc (m div 2))"
      by (simp add: pending_exps_True)
    ultimately show ?thesis
      using True less.IH[OF m(2), of "Suc k"] by (simp add: merge_exps.simps[of m])
  next
    case False
    show ?thesis
    proof (cases "m = 0")
      case True
      then show ?thesis by (simp add: merge_exps.simps pending_exps.simps[of k True "Suc 0"])
    next
      case nz: False
      with False have m: "m div 2 \<noteq> 0" "Suc m div 2 = m div 2" by (auto elim: evenE)
      have "pending_exps k True m = k # k # pending_exps (Suc k) False (m div 2)"
        using False nz by (simp add: pending_exps.simps[of k True m])
      moreover have "pending_exps k True (Suc m) = k # pending_exps (Suc k) True (m div 2)"
        using False m by (simp add: pending_exps.simps[of k True "Suc m"])
      ultimately show ?thesis
        using False nz m by (simp add: merge_exps.simps[of m] pending_exps_True)
    qed
  qed
qed

lemma length_merge [simp]: "length (merge cmp as bs) = length as + length bs"
  by (induction cmp as bs rule: merge.induct) auto

definition sized :: "nat list \<Rightarrow> 'a list list \<Rightarrow> bool" where
  "sized es ps \<longleftrightarrow> map length ps = map (\<lambda>e. 2 ^ e) es"

lemma sized_Cons: "sized (e # es) ps \<longleftrightarrow> (\<exists>p ps'. ps = p # ps' \<and> length p = 2 ^ e \<and> sized es ps')"
  by (cases ps) (auto simp: sized_def)

lemma merge_pending_sized:
  assumes "sized (pending_exps k True m) ps"
  shows "\<exists>ps'. merge_pending cmp m ps = Some ps' \<and> sized (merge_exps m (pending_exps k True m)) ps'"
  using assms
proof (induction m arbitrary: k ps rule: less_induct)
  case (less m)
  show ?case
  proof (cases "odd m")
    case True
    then have m: "m \<noteq> 0" "m div 2 < m" by (auto dest: odd_pos)
    have e: "pending_exps k True m = k # pending_exps (Suc k) True (m div 2)"
      using True m(1) by (simp add: pending_exps.simps[of k True m])
    with less.prems obtain p ps1 where ps: "ps = p # ps1" "length p = 2 ^ k"
      "sized (pending_exps (Suc k) True (m div 2)) ps1"
      by (auto simp: sized_Cons)
    from less.IH[OF m(2) ps(3)] show ?thesis
      using True e ps by (auto simp: merge_pending.simps[of cmp m] merge_exps.simps[of m] sized_Cons)
  next
    case False
    show ?thesis
    proof (cases "m = 0")
      case True
      with less.prems show ?thesis
        by (simp add: merge_pending.simps[of cmp 0] merge_exps.simps[of 0])
    next
      case nz: False
      have "pending_exps k True m = k # k # pending_exps (Suc k) False (m div 2)"
        using False nz by (simp add: pending_exps.simps[of k True m])
      with less.prems show ?thesis
        using False nz
        by (auto simp: merge_pending.simps[of cmp m] merge_exps.simps[of m] sized_Cons)
    qed
  qed
qed

text \<open>The loop over the input never follows a NULL pointer, and keeps the sublist sizes.\<close>

lemma pending_loop_sized:
  assumes "sized (pending_exps 0 True cnt) ps"
  shows "\<exists>ps'. pending_loop cmp cnt ps xs = Some ps' \<and>
           sized (pending_exps 0 True (cnt + length xs)) ps'"
  using assms
proof (induction xs arbitrary: cnt ps)
  case Nil
  then show ?case by simp
next
  case (Cons x xs)
  obtain ps1 where ps1: "merge_pending cmp cnt ps = Some ps1"
    "sized (tl (pending_exps 0 True (Suc cnt))) ps1"
    using merge_pending_sized[OF Cons.prems, of cmp] by (auto simp: merge_exps_step)
  have "pending_exps 0 True (Suc cnt) = 0 # tl (pending_exps 0 True (Suc cnt))"
    by (simp add: pending_exps_True)
  then have "sized (pending_exps 0 True (Suc cnt)) ([x] # ps1)"
    using ps1(2) by (metis One_nat_def length_Cons list.size(3) power_0 sized_Cons)
  from Cons.IH[OF this] ps1(1) show ?case by simp
qed

lemma pending_exps_two: "2 \<le> n \<Longrightarrow> \<exists>e e' es. pending_exps 0 True n = e # e' # es"
  by (auto simp: pending_exps.simps[of 0 True n] pending_exps_True dest: oddE)

lemma merge_induct [case_names both Nil1 Nil2]:
  fixes cmp :: "'a \<Rightarrow> 'a \<Rightarrow> int"
  assumes "\<And>a as b bs. (cmp a b \<le> 0 \<Longrightarrow> as \<noteq> [] \<Longrightarrow> P as (b # bs)) \<Longrightarrow>
      (\<not> cmp a b \<le> 0 \<Longrightarrow> bs \<noteq> [] \<Longrightarrow> P (a # as) bs) \<Longrightarrow> P (a # as) (b # bs)"
    and "\<And>bs. P [] bs" and "\<And>a as. P (a # as) []"
  shows "P as bs"
proof -
  have "c = cmp \<longrightarrow> P as bs" for c
    by (induction c as bs rule: merge.induct) (use assms in auto)
  then show ?thesis by simp
qed

lemma merge_set: "set (merge cmp as bs) = set as \<union> set bs"
  by (induction cmp as bs rule: merge.induct) auto

lemma merge_mset [simp]: "mset (merge cmp as bs) = mset as + mset bs"
  by (induction cmp as bs rule: merge.induct) auto

lemma merge_final_merge: "merge_final cmp as bs = merge cmp as bs"
  by (induction cmp as bs rule: merge.induct) auto

subsection \<open>Sorting: the interface of the comparison routine and the guarantee\<close>

text \<open>
  What a client promises of its comparison routine: it orders any two elements, and
  \<open>cmp a b \<le> 0\<close> ("a does not sort after b") is transitive.
\<close>

locale list_cmp =
  fixes cmp :: "'a \<Rightarrow> 'a \<Rightarrow> int"
  assumes cmp_total: "cmp a b \<le> 0 \<or> cmp b a \<le> 0"
    and cmp_trans: "cmp a b \<le> 0 \<Longrightarrow> cmp b c \<le> 0 \<Longrightarrow> cmp a c \<le> 0"
begin

abbreviation ordered :: "'a list \<Rightarrow> bool" where
  "ordered \<equiv> sorted_wrt (\<lambda>a b. cmp a b \<le> 0)"

definition same :: "'a \<Rightarrow> 'a \<Rightarrow> bool" where
  "same a b \<longleftrightarrow> cmp a b \<le> 0 \<and> cmp b a \<le> 0"

lemma set_merge: "set (merge cmp as bs) = set as \<union> set bs"
  by (rule merge_set)

lemma ordered_merge: "ordered as \<Longrightarrow> ordered bs \<Longrightarrow> ordered (merge cmp as bs)"
proof (induction as bs rule: merge_induct[where cmp = cmp])
  case (both a as b bs)
  have ord: "ordered as" "ordered bs" "x \<in> set as \<Longrightarrow> cmp a x \<le> 0" "x \<in> set bs \<Longrightarrow> cmp b x \<le> 0" for x
    using both.prems by auto
  show ?case
  proof (cases "cmp a b \<le> 0")
    case True
    then have "cmp a x \<le> 0" if "x \<in> set as \<union> set (b # bs)" for x
      using that ord cmp_trans[of a b x] by auto
    then show ?thesis using True both by (auto simp: set_merge)
  next
    case False
    then have ba: "cmp b a \<le> 0" using cmp_total by blast
    have "cmp b x \<le> 0" if "x \<in> set (a # as) \<union> set bs" for x
      using that ord ba cmp_trans[of b a x] by auto
    then show ?thesis using False both by (auto simp: set_merge)
  qed
qed auto

text \<open>
  Stability: among the elements that compare as the same as \<open>x\<close>, those of the first list
  come first, each list in its own order.
\<close>

lemma filter_same_merge:
  "ordered as \<Longrightarrow> ordered bs \<Longrightarrow>
     filter (same x) (merge cmp as bs) = filter (same x) as @ filter (same x) bs"
proof (induction as bs rule: merge_induct[where cmp = cmp])
  case (both a as b bs)
  show ?case
  proof (cases "cmp a b \<le> 0")
    case True
    then show ?thesis using both by auto
  next
    case False
    have none: "filter (same x) (a # as) = []" if "same x b"
    proof -
      have "\<not> same x y" if y: "y \<in> set (a # as)" for y
      proof
        assume "same x y"
        then have "cmp y b \<le> 0" using \<open>same x b\<close> cmp_trans[of y x b] by (simp add: same_def)
        moreover have "cmp a y \<le> 0"
          using y both.prems(1) cmp_total[of a a] by auto
        ultimately show False using False cmp_trans by blast
      qed
      then show ?thesis by (simp add: filter_empty_conv)
    qed
    show ?thesis
    proof (cases "same x b")
      case True
      then show ?thesis using False both none by auto
    next
      case nsame: False
      then show ?thesis using False both by auto
    qed
  qed
qed auto

text \<open>
  What the pending sublists say of the input consumed so far: each is in order, together they
  hold its elements, and oldest first they keep the order of the elements that compare
  as the same.
\<close>

definition holds :: "'a list \<Rightarrow> 'a list list \<Rightarrow> bool" where
  "holds seen ps \<longleftrightarrow>
     (\<forall>p \<in> set ps. ordered p) \<and> mset (concat ps) = mset seen \<and>
     (\<forall>x. filter (same x) (concat (rev ps)) = filter (same x) seen)"

lemma merge_pending_holds:
  "merge_pending cmp m ps = Some ps' \<Longrightarrow> \<forall>p \<in> set ps. ordered p \<Longrightarrow>
     (\<forall>p \<in> set ps'. ordered p) \<and> mset (concat ps') = mset (concat ps) \<and>
     (\<forall>x. filter (same x) (concat (rev ps')) = filter (same x) (concat (rev ps)))"
proof (induction ps arbitrary: m ps')
  case Nil
  then show ?case by (auto simp: merge_pending.simps[of cmp m] split: if_splits)
next
  case (Cons p ps)
  show ?case
  proof (cases "odd m")
    case True
    with Cons.prems(1) obtain ps1 where "merge_pending cmp (m div 2) ps = Some ps1" "ps' = p # ps1"
      by (auto simp: merge_pending.simps[of cmp m])
    with Cons.IH[of "m div 2" ps1] Cons.prems(2) show ?thesis by simp
  next
    case False
    with Cons.prems show ?thesis
      by (auto simp: merge_pending.simps[of cmp m] ordered_merge filter_same_merge
          split: if_splits list.splits)
  qed
qed

lemma pending_loop_holds:
  "pending_loop cmp n ps xs = Some ps' \<Longrightarrow> holds seen ps \<Longrightarrow> holds (seen @ xs) ps'"
proof (induction xs arbitrary: n ps seen)
  case Nil
  then show ?case by simp
next
  case (Cons x xs)
  then obtain ps1 where step: "merge_pending cmp n ps = Some ps1"
    and rest: "pending_loop cmp (n + 1) ([x] # ps1) xs = Some ps'"
    by (auto split: option.splits)
  from merge_pending_holds[OF step] Cons.prems(2) have "holds (seen @ [x]) ([x] # ps1)"
    by (auto simp: holds_def)
  from Cons.IH[OF rest this] show ?case by simp
qed

lemma merge_all_pending_result:
  "ps \<noteq> [] \<Longrightarrow> ordered list \<Longrightarrow> \<forall>p \<in> set ps. ordered p \<Longrightarrow>
     \<exists>ys. merge_all_pending cmp list ps = Some ys \<and> ordered ys \<and>
       mset ys = mset list + mset (concat ps) \<and>
       (\<forall>x. filter (same x) ys = filter (same x) (concat (rev ps)) @ filter (same x) list)"
proof (induction ps arbitrary: list)
  case Nil
  then show ?case by simp
next
  case (Cons p ps)
  show ?case
  proof (cases ps)
    case Nil
    then show ?thesis
      using Cons.prems by (simp add: merge_final_merge ordered_merge filter_same_merge)
  next
    case (Cons q qs)
    have "ordered (merge cmp p list)" using Cons.prems by (simp add: ordered_merge)
    from Cons.IH[OF _ this] Cons.prems Cons show ?thesis
      by (auto simp: filter_same_merge)
  qed
qed

lemma list_sort_result:
  "\<exists>ys. list_sort cmp xs = Some ys \<and> ordered ys \<and> mset ys = mset xs \<and>
     (\<forall>x. filter (same x) ys = filter (same x) xs)"
proof (cases "length xs \<le> 1")
  case True
  then have "ordered xs" by (cases xs) auto
  with True show ?thesis by (simp add: list_sort_def)
next
  case False
  obtain ps where ps: "pending_loop cmp 0 [] xs = Some ps"
    and sz: "sized (pending_exps 0 True (length xs)) ps"
    using pending_loop_sized[of 0 "[]" cmp xs] by (auto simp: sized_def)
  from False obtain e e' es where "pending_exps 0 True (length xs) = e # e' # es"
    using pending_exps_two[of "length xs"] by auto
  with sz obtain p q qs where split: "ps = p # q # qs" by (auto simp: sized_Cons)
  have "holds ([] @ xs) ps"
    by (rule pending_loop_holds[OF ps]) (simp add: holds_def)
  then have h: "\<forall>r \<in> set (p # q # qs). ordered r" "mset (concat (p # q # qs)) = mset xs"
    "\<And>x. filter (same x) (concat (rev (p # q # qs))) = filter (same x) xs"
    by (simp_all add: holds_def split)
  from merge_all_pending_result[of "q # qs" p] h(1) obtain ys where ys:
    "merge_all_pending cmp p (q # qs) = Some ys" "ordered ys" "mset ys = mset p + mset (concat (q # qs))"
    "\<And>x. filter (same x) ys = filter (same x) (concat (rev (q # qs))) @ filter (same x) p"
    by auto
  from ys h False ps split show ?thesis by (simp add: list_sort_def)
qed

end

text \<open>
  \<^bold>\<open>C5.\<close> For every comparison routine that orders any two elements transitively,
  \<open>list_sort\<close> finishes without following a NULL pointer and returns a permutation of its
  input, in order, in which elements that compare as the same keep their input order.
\<close>

theorem list_sort_stable_sort:
  assumes "\<And>a b. cmp a b \<le> 0 \<or> cmp b a \<le> 0"
    and "\<And>a b c. cmp a b \<le> 0 \<Longrightarrow> cmp b c \<le> 0 \<Longrightarrow> cmp a c \<le> 0"
  shows "\<exists>ys. list_sort cmp xs = Some ys \<and> sorted_wrt (\<lambda>a b. cmp a b \<le> 0) ys \<and> mset ys = mset xs \<and>
    (\<forall>x. filter (\<lambda>y. cmp x y \<le> 0 \<and> cmp y x \<le> 0) ys = filter (\<lambda>y. cmp x y \<le> 0 \<and> cmp y x \<le> 0) xs)"
proof -
  have l: "list_cmp cmp" using assms by unfold_locales blast+
  have "list_cmp.same cmp x = (\<lambda>y. cmp x y \<le> 0 \<and> cmp y x \<le> 0)" for x
    by (rule ext) (simp add: list_cmp.same_def[OF l])
  with list_cmp.list_sort_result[OF l, of xs] show ?thesis by simp
qed

theorem list_sort_stable_sort_witness:
  "\<exists>ys. list_sort (\<lambda>a b. a - b) [3, 1, 2, 1 :: int] = Some ys \<and> sorted_wrt (\<lambda>a b. a - b \<le> 0) ys \<and>
     mset ys = mset [3, 1, 2, 1 :: int] \<and>
     (\<forall>x. filter (\<lambda>y. x - y \<le> 0 \<and> y - x \<le> 0) ys = filter (\<lambda>y. x - y \<le> 0 \<and> y - x \<le> 0) [3, 1, 2, 1])"
  by (rule list_sort_stable_sort) auto

text \<open>
  After \<open>n\<close> elements have been moved to the pending lists, the sizes of the
  pending lists are powers of two that depend on \<open>n\<close> alone, read from its bits, and no
  merge of the loop meets a missing sublist.
\<close>

theorem pending_loop_sizes:
  "\<exists>ps. pending_loop cmp 0 [] xs = Some ps \<and>
     map length ps = map (\<lambda>e. 2 ^ e) (pending_exps 0 True (length xs))"
  using pending_loop_sized[of 0 "[]" cmp xs] by (auto simp: sized_def)

end
