(* ===== verification/E820_Sanitize.thy ===== *)
theory E820_Sanitize
  imports E820 List_Sort
begin

text \<open>
  Correctness of the sanitizing pass \<open>e820__update_table\<close>: the sweep over the sorted change
  points keeps the type of every address, and produces a sorted table without overlaps.
\<close>

subsection \<open>The change points\<close>

definition cp_start :: "e820_entry list \<Rightarrow> nat \<Rightarrow> change_member" where
  "cp_start es i = \<lparr>cm_entry = i, cm_addr = e_addr (es ! i)\<rparr>"

definition cp_end :: "e820_entry list \<Rightarrow> nat \<Rightarrow> change_member" where
  "cp_end es i = \<lparr>cm_entry = i, cm_addr = e_addr (es ! i) + e_size (es ! i)\<rparr>"

definition live :: "e820_entry list \<Rightarrow> nat set" where
  "live es = {i. i < length es \<and> e_size (es ! i) \<noteq> 0}"

lemma set_change_points_aux:
  "set (change_points_from k es) =
     (\<Union>i \<in> live es. {(cp_start es i)\<lparr>cm_entry := k + i\<rparr>, (cp_end es i)\<lparr>cm_entry := k + i\<rparr>})"
proof (induction es arbitrary: k)
  case Nil
  then show ?case by (simp add: live_def)
next
  case (Cons e es)
  have "live (e # es) = (if e_size e \<noteq> 0 then {0} else {}) \<union> Suc ` live es"
    by (auto simp: live_def image_iff less_Suc_eq_0_disj)
  then show ?case
    by (auto simp: Cons.IH cp_start_def cp_end_def)
qed

lemma set_change_points:
  "set (change_points_from 0 es) = (\<Union>i \<in> live es. {cp_start es i, cp_end es i})"
  by (simp add: set_change_points_aux cp_start_def cp_end_def)

lemma cp_start_neq_end [simp]: "i \<in> live es \<Longrightarrow> cp_start es j \<noteq> cp_end es i"
  by (auto simp: cp_start_def cp_end_def live_def)

lemma distinct_change_points: "distinct (change_points_from k es)"
proof (induction es arbitrary: k)
  case Nil
  then show ?case by simp
next
  case (Cons e es)
  have "cp \<in> set (change_points_from (k + 1) es) \<Longrightarrow> k < cm_entry cp" for cp
    by (auto simp: set_change_points_aux cp_start_def cp_end_def)
  then show ?case using Cons.IH[of "k + 1"] by force
qed

lemma cpcompare_total: "cpcompare es x y \<le> 0 \<or> cpcompare es y x \<le> 0"
  by (auto simp: cpcompare_def)

lemma cpcompare_trans:
  "cpcompare es x y \<le> 0 \<Longrightarrow> cpcompare es y z \<le> 0 \<Longrightarrow> cpcompare es x z \<le> 0"
  by (auto simp: cpcompare_def split: if_splits)

lemma cpcompare_addr: "cpcompare es x y \<le> 0 \<Longrightarrow> cm_addr x \<le> cm_addr y"
  by (auto simp: cpcompare_def split: if_splits)

lemma sort_contract_points:
  assumes "sort_contract ksort"
  shows "mset (ksort (cpcompare es) cps) = mset cps"
    and "sorted_wrt (\<lambda>x y. cpcompare es x y \<le> 0) (ksort (cpcompare es) cps)"
  using assms cpcompare_total[of es] cpcompare_trans[of es] unfolding sort_contract_def by blast+

subsection \<open>The entries open at a point of the sweep\<close>

definition opened :: "e820_entry list \<Rightarrow> change_member list \<Rightarrow> nat set" where
  "opened es seen = {i \<in> live es. cp_start es i \<in> set seen \<and> cp_end es i \<notin> set seen}"

text \<open>The change points of a table without wrapping entries, sorted by address.\<close>

definition sweep_order :: "e820_entry list \<Rightarrow> change_member list \<Rightarrow> bool" where
  "sweep_order es cps \<longleftrightarrow>
     (\<forall>e \<in> set es. nowrap e) \<and> distinct cps \<and> set cps = set (change_points_from 0 es) \<and>
     sorted_wrt (\<lambda>x y. cm_addr x \<le> cm_addr y) cps"

lemma live_end:
  assumes "\<forall>e \<in> set es. nowrap e" and "i \<in> live es"
  shows "unat (cm_addr (cp_end es i)) = unat (e_addr (es ! i)) + unat (e_size (es ! i))"
    and "unat (cm_addr (cp_start es i)) < unat (cm_addr (cp_end es i))"
proof -
  from assms have "nowrap (es ! i)" by (simp add: live_def)
  then show "unat (cm_addr (cp_end es i)) = unat (e_addr (es ! i)) + unat (e_size (es ! i))"
    by (simp add: cp_end_def nowrap_end)
  moreover have "unat (e_size (es ! i)) > 0"
    using assms(2) by (simp add: live_def unat_gt_0)
  ultimately show "unat (cm_addr (cp_start es i)) < unat (cm_addr (cp_end es i))"
    by (simp add: cp_start_def)
qed

lemma opened_covers:
  assumes order: "sweep_order es (seen @ rest)"
    and seen: "\<And>c. c \<in> set seen \<Longrightarrow> unat (cm_addr c) \<le> unat a"
    and rest: "\<And>c. c \<in> set rest \<Longrightarrow> unat a < unat (cm_addr c)"
  shows "opened es seen = {i. i < length es \<and> covers (es ! i) a}"
proof (rule set_eqI)
  fix i
  have nw: "\<forall>e \<in> set es. nowrap e" and pts: "set seen \<union> set rest = set (change_points_from 0 es)"
    using order by (auto simp: sweep_order_def)
  show "i \<in> opened es seen \<longleftrightarrow> i \<in> {i. i < length es \<and> covers (es ! i) a}"
  proof (cases "i \<in> live es")
    case True
    then have "cp_start es i \<in> set seen \<union> set rest" and "cp_end es i \<in> set seen \<union> set rest"
      unfolding pts by (auto simp: set_change_points)
    then have "cp_start es i \<in> set seen \<longleftrightarrow> unat (e_addr (es ! i)) \<le> unat a"
      and "cp_end es i \<in> set seen \<longleftrightarrow> unat (cm_addr (cp_end es i)) \<le> unat a"
      using seen rest by (fastforce simp: cp_start_def)+
    with True live_end(1)[OF nw True] show ?thesis
      by (auto simp: opened_def covers_def live_def)
  next
    case False
    then show ?thesis by (auto simp: opened_def live_def covers_def)
  qed
qed

lemma current_type_of_Max:
  "current_type_of es ol ty = Max (insert ty ((\<lambda>i. e_type (es ! i)) ` set ol))"
proof (induction ol arbitrary: ty)
  case Nil
  then show ?case by simp
next
  case (Cons i ol)
  have "current_type_of es (i # ol) ty = current_type_of es ol (max ty (e_type (es ! i)))"
    by (auto simp: max_def)
  also have "\<dots> = Max (insert ty (insert (e_type (es ! i)) ((\<lambda>i. e_type (es ! i)) ` set ol)))"
    by (cases "set ol = {}") (simp_all add: Cons.IH max.assoc)
  finally show ?case by simp
qed

lemma type_at_opened:
  assumes "set ol = {i. i < length es \<and> covers (es ! i) a}"
  shows "type_at es a = current_type_of es ol 0"
proof -
  have "{e \<in> set es. covers e a} = (!) es ` {i. i < length es \<and> covers (es ! i) a}"
    by (auto simp: in_set_conv_nth)
  then show ?thesis
    unfolding type_at_eq_Max current_type_of_Max assms by (simp add: image_image)
qed

lemma current_type_of_cong: "set ol = set ol' \<Longrightarrow> current_type_of es ol 0 = current_type_of es ol' 0"
  by (simp add: current_type_of_Max)

lemma swap_out_last:
  assumes "distinct ol" and "i \<in> set ol"
  shows "distinct (butlast (map (\<lambda>j. if j = i then last ol else j) ol))"
    and "set (butlast (map (\<lambda>j. if j = i then last ol else j) ol)) = set ol - {i}"
proof -
  obtain xs x where ol: "ol = xs @ [x]"
    using assms(2) by (cases ol rule: rev_cases) auto
  have *: "butlast (map (\<lambda>j. if j = i then last ol else j) ol) = map (\<lambda>j. if j = i then x else j) xs"
    by (simp add: ol)
  show "distinct (butlast (map (\<lambda>j. if j = i then last ol else j) ol))"
    using assms unfolding * by (auto simp: ol distinct_map inj_on_def)
  show "set (butlast (map (\<lambda>j. if j = i then last ol else j) ol)) = set ol - {i}"
    using assms unfolding * by (auto simp: ol)
qed

text \<open>A start point opens its entry and an end point closes it: entries do not close before they open.\<close>

lemma opened_step:
  assumes order: "sweep_order es (seen @ cp # rest)"
  obtains (opens) i where "i \<in> live es" and "cp = cp_start es i" and "i \<notin> opened es seen"
      and "opened es (seen @ [cp]) = insert i (opened es seen)"
    | (closes) i where "i \<in> live es" and "cp = cp_end es i" and "i \<in> opened es seen"
      and "opened es (seen @ [cp]) = opened es seen - {i}"
proof -
  have nw: "\<forall>e \<in> set es. nowrap e" and dist: "distinct (seen @ cp # rest)"
    and pts: "set (seen @ cp # rest) = (\<Union>i \<in> live es. {cp_start es i, cp_end es i})"
    and sorted: "sorted_wrt (\<lambda>x y. cm_addr x \<le> cm_addr y) (seen @ cp # rest)"
    using order by (auto simp: sweep_order_def set_change_points)
  from pts obtain i where i: "i \<in> live es" and cp: "cp = cp_start es i \<or> cp = cp_end es i"
    by auto
  have lt: "cm_addr (cp_start es i) < cm_addr (cp_end es i)"
    using live_end(2)[OF nw i] by (simp add: word_less_nat_alt)
  have both: "cp_start es i \<in> set (seen @ cp # rest)" "cp_end es i \<in> set (seen @ cp # rest)"
    using i unfolding pts by auto
  show thesis
  proof (cases "cp = cp_start es i")
    case True
    with lt sorted both have "cp_end es i \<notin> set seen"
      by (force simp: sorted_wrt_append)
    moreover have "cp_end es i \<noteq> cp" using True i by (metis cp_start_neq_end)
    ultimately have "opened es (seen @ [cp]) = insert i (opened es seen)"
      using i by (auto simp: opened_def True cp_start_def cp_end_def)
    moreover have "i \<notin> opened es seen" using dist by (simp add: opened_def True)
    ultimately show thesis using opens i True by blast
  next
    case False
    with cp have cp: "cp = cp_end es i" by simp
    with lt sorted both False have "cp_start es i \<in> set seen"
      by (force simp: sorted_wrt_append)
    with dist i cp have "i \<in> opened es seen" by (simp add: opened_def)
    moreover have "opened es (seen @ [cp]) = opened es seen - {i}"
      using i False by (auto simp: opened_def cp cp_start_def cp_end_def live_def)
    ultimately show thesis using closes i cp by blast
  qed
qed

text \<open>One step of the sweep updates the overlap list to the entries that are open after it.\<close>

lemma overlap_update_opened:
  assumes order: "sweep_order es (seen @ cp # rest)"
    and ol: "distinct ol" "set ol = opened es seen"
  obtains ol' where "overlap_update es cp ol = Some ol'" and "distinct ol'"
    and "set ol' = opened es (seen @ [cp])"
  using order
proof (cases rule: opened_step)
  case (opens i)
  then show thesis
    using that[of "ol @ [i]"] ol by (simp add: overlap_update_def cp_start_def)
next
  case (closes i)
  then have mem: "i \<in> set ol" and "cm_addr cp \<noteq> e_addr (es ! i)" "cm_entry cp = i"
    by (auto simp: ol cp_end_def live_def)
  then have "overlap_update es cp ol = Some (butlast (map (\<lambda>j. if j = i then last ol else j) ol))"
    by (auto simp: overlap_update_def)
  then show thesis using that swap_out_last[OF ol(1) mem] ol(2) closes by simp
qed

subsection \<open>The invariant of the sweep\<close>

definition seen_pos :: "change_member list \<Rightarrow> nat" where
  "seen_pos seen = (if seen = [] then 0 else unat (cm_addr (last seen)))"

definition out_upto :: "e820_entry list \<Rightarrow> nat \<Rightarrow> bool" where
  "out_upto es b \<longleftrightarrow> sanitized es \<and> (\<forall>e \<in> set es. unat (e_addr e) + unat (e_size e) \<le> b)"

text \<open>
  Below the position \<open>b\<close> the finished entries, together with the range that is still open
  when \<open>last_type\<close> is not 0, give every address the type the original entries give it.
\<close>

definition agrees_below :: "e820_entry list \<Rightarrow> nat \<Rightarrow> sweep \<Rightarrow> bool" where
  "agrees_below es b s \<longleftrightarrow>
     (\<forall>a. unat a < b \<longrightarrow>
        type_at es a = (if last_type s \<noteq> 0 \<and> last_addr s \<le> a then last_type s
                        else type_at (new_entries s) a))"

definition sweep_inv :: "e820_entry list \<Rightarrow> change_member list \<Rightarrow> sweep \<Rightarrow> bool" where
  "sweep_inv es seen s \<longleftrightarrow>
     distinct (overlap_list s) \<and> set (overlap_list s) = opened es seen \<and>
     last_type s = current_type_of es (overlap_list s) 0 \<and>
     (last_type s \<noteq> 0 \<longrightarrow>
        e_addr (new_slot s) = last_addr s \<and> e_type (new_slot s) = last_type s \<and>
        unat (last_addr s) \<le> seen_pos seen \<and> out_upto (new_entries s) (unat (last_addr s))) \<and>
     out_upto (new_entries s) (seen_pos seen) \<and> agrees_below es (seen_pos seen) s \<and>
     length (new_entries s) \<le> length seen - 1"

lemma out_upto_mono: "out_upto es b \<Longrightarrow> b \<le> c \<Longrightarrow> out_upto es c"
  by (auto simp: out_upto_def)

lemma out_upto_type_at: "out_upto es b \<Longrightarrow> b \<le> unat a \<Longrightarrow> type_at es a = 0"
  by (rule type_at_none) (auto simp: out_upto_def covers_def)

lemma out_upto_snoc:
  assumes "out_upto es (unat (e_addr f))" and "nowrap f" and "e_size f \<noteq> 0" and "e_type f \<noteq> 0"
  shows "out_upto (es @ [f]) (unat (e_addr f) + unat (e_size f))"
  using assms by (auto simp: out_upto_def sanitized_def sorted_wrt_append before_def)

lemma sweep_inv_init: "sweep_inv es [] sweep_init"
  by (simp add: sweep_inv_def sweep_init_def opened_def seen_pos_def out_upto_def sanitized_def
      agrees_below_def)

lemma sweep_order_pos:
  assumes "sweep_order es (seen @ cp # rest)"
  shows "seen_pos seen \<le> unat (cm_addr cp)"
    and "c \<in> set seen \<Longrightarrow> unat (cm_addr c) \<le> seen_pos seen"
    and "c \<in> set (cp # rest) \<Longrightarrow> unat (cm_addr cp) \<le> unat (cm_addr c)"
proof -
  have sorted: "sorted_wrt (\<lambda>x y. cm_addr x \<le> cm_addr y) (seen @ cp # rest)"
    using assms by (simp add: sweep_order_def)
  then show "seen_pos seen \<le> unat (cm_addr cp)"
    by (cases seen rule: rev_cases) (auto simp: seen_pos_def sorted_wrt_append word_le_nat_alt)
  show "c \<in> set seen \<Longrightarrow> unat (cm_addr c) \<le> seen_pos seen"
    using sorted
    by (cases seen rule: rev_cases) (auto simp: seen_pos_def sorted_wrt_append word_le_nat_alt)
  show "c \<in> set (cp # rest) \<Longrightarrow> unat (cm_addr cp) \<le> unat (cm_addr c)"
    using sorted by (auto simp: sorted_wrt_append word_le_nat_alt)
qed

text \<open>Between two change points the open entries are the ones that cover, so agreement extends.\<close>

lemma agrees_below_next:
  assumes inv: "sweep_inv es seen s" and order: "sweep_order es (seen @ cp # rest)"
  shows "agrees_below es (unat (cm_addr cp)) s"
  unfolding agrees_below_def
proof (intro allI impI)
  fix a :: u64
  assume a: "unat a < unat (cm_addr cp)"
  show "type_at es a = (if last_type s \<noteq> 0 \<and> last_addr s \<le> a then last_type s
      else type_at (new_entries s) a)"
  proof (cases "unat a < seen_pos seen")
    case True
    then show ?thesis using inv by (simp add: sweep_inv_def agrees_below_def)
  next
    case False
    have "opened es seen = {i. i < length es \<and> covers (es ! i) a}"
    proof (rule opened_covers[OF order])
      show "unat (cm_addr c) \<le> unat a" if "c \<in> set seen" for c
        using sweep_order_pos(2)[OF order that] False by simp
      show "unat a < unat (cm_addr c)" if "c \<in> set (cp # rest)" for c
        using sweep_order_pos(3)[OF order that] a by simp
    qed
    then have "type_at es a = last_type s"
      using inv type_at_opened[of "overlap_list s" es a] by (simp add: sweep_inv_def)
    moreover have "type_at (new_entries s) a = 0"
      using inv False out_upto_type_at[of "new_entries s" "seen_pos seen" a]
      by (simp add: sweep_inv_def)
    moreover have "last_addr s \<le> a" if "last_type s \<noteq> 0"
      using inv that False by (simp add: sweep_inv_def word_le_nat_alt)
    ultimately show ?thesis by auto
  qed
qed

text \<open>Closing the open range at a change point: what the pass appends to the finished entries.\<close>

definition flushed :: "sweep \<Rightarrow> change_member \<Rightarrow> e820_entry list" where
  "flushed s cp =
     (if last_type s \<noteq> 0 \<and> cm_addr cp - last_addr s \<noteq> 0
      then new_entries s @ [(new_slot s)\<lparr>e_size := cm_addr cp - last_addr s\<rparr>]
      else new_entries s)"

lemma flushed_out:
  assumes inv: "sweep_inv es seen s" and order: "sweep_order es (seen @ cp # rest)"
  shows "out_upto (flushed s cp) (unat (cm_addr cp))"
    and "unat a < unat (cm_addr cp) \<Longrightarrow> type_at (flushed s cp) a = type_at es a"
proof -
  let ?q = "cm_addr cp" and ?L = "last_addr s"
  let ?f = "(new_slot s)\<lparr>e_size := ?q - ?L\<rparr>"
  have pos: "seen_pos seen \<le> unat ?q" by (rule sweep_order_pos(1)[OF order])
  have agree: "agrees_below es (unat ?q) s" by (rule agrees_below_next[OF inv order])
  show "out_upto (flushed s cp) (unat ?q)"
    and "unat a < unat ?q \<Longrightarrow> type_at (flushed s cp) a = type_at es a"
  proof (atomize (full), cases "last_type s \<noteq> 0 \<and> ?q - ?L \<noteq> 0")
    case True
    then have L: "e_addr ?f = ?L" "e_type ?f = last_type s" "?L \<le> ?q" "e_size ?f = ?q - ?L"
      and out: "out_upto (new_entries s) (unat ?L)"
      using inv pos by (auto simp: sweep_inv_def word_le_nat_alt)
    have e: "unat ?L + unat (?q - ?L) = unat ?q" using L(3) by (rule unat_add_sub_cancel)
    have "nowrap ?f" using L(3) by (simp add: nowrap_def L not_less)
    then have "out_upto (new_entries s @ [?f]) (unat ?q)"
      using out_upto_snoc[of "new_entries s" ?f] out True L e by simp
    moreover have "type_at (new_entries s @ [?f]) a = type_at es a" if "unat a < unat ?q"
    proof (cases "?L \<le> a")
      case True
      then have "type_at (new_entries s) a = 0"
        using out_upto_type_at[OF out] by (simp add: word_le_nat_alt)
      then show ?thesis
        using True that agree \<open>last_type s \<noteq> 0 \<and> _\<close> L e
        by (simp add: type_at_append covers_def word_le_nat_alt agrees_below_def)
    next
      case False
      then show ?thesis
        using that agree L by (simp add: type_at_append covers_def word_le_nat_alt agrees_below_def)
    qed
    ultimately show "out_upto (flushed s cp) (unat ?q) \<and>
        (unat a < unat ?q \<longrightarrow> type_at (flushed s cp) a = type_at es a)"
      using True by (simp add: flushed_def)
  next
    case False
    then have "flushed s cp = new_entries s" by (auto simp: flushed_def)
    moreover have "out_upto (new_entries s) (unat ?q)"
      using inv pos out_upto_mono by (auto simp: sweep_inv_def)
    moreover have "type_at es a = type_at (new_entries s) a" if "unat a < unat ?q"
      using that agree False by (auto simp: agrees_below_def word_le_nat_alt)
    ultimately show "out_upto (flushed s cp) (unat ?q) \<and>
        (unat a < unat ?q \<longrightarrow> type_at (flushed s cp) a = type_at es a)"
      by simp
  qed
qed

lemma sweep_emit_cases:
  "sweep_emit mx cp ty s =
     (if ty \<noteq> last_type s \<or> e820_nomerge ty then
        if flushed s cp \<noteq> new_entries s \<and> length (flushed s cp) \<ge> mx
        then (True, s\<lparr>new_slot := (new_slot s)\<lparr>e_size := cm_addr cp - last_addr s\<rparr>,
                      new_entries := flushed s cp\<rparr>)
        else (False, s\<lparr>new_entries := flushed s cp,
               new_slot := (let sl = (if last_type s \<noteq> 0
                                     then (new_slot s)\<lparr>e_size := cm_addr cp - last_addr s\<rparr>
                                     else new_slot s)
                            in if ty \<noteq> 0 then sl\<lparr>e_addr := cm_addr cp, e_type := ty\<rparr> else sl),
               last_addr := (if ty \<noteq> 0 then cm_addr cp else last_addr s), last_type := ty\<rparr>)
      else (False, s))"
  by (cases s) (auto simp: sweep_emit_def flushed_def Let_def)

lemma flushed_length: "length (flushed s cp) \<le> Suc (length (new_entries s))"
  by (simp add: flushed_def)

text \<open>An iteration of the sweep that does not run out of slots keeps the invariant.\<close>

lemma sweep_emit_inv:
  assumes inv: "sweep_inv es seen s" and order: "sweep_order es (seen @ cp # rest)"
    and ol: "distinct ol" "set ol = opened es (seen @ [cp])"
    and emit: "sweep_emit mx cp (current_type_of es ol 0) (s\<lparr>overlap_list := ol\<rparr>) = (False, s')"
  shows "sweep_inv es (seen @ [cp]) s'"
proof -
  let ?ty = "current_type_of es ol 0" and ?q = "cm_addr cp"
  have pos [simp]: "seen_pos (seen @ [cp]) = unat ?q" by (simp add: seen_pos_def)
  have le: "seen_pos seen \<le> unat ?q" by (rule sweep_order_pos(1)[OF order])
  have empty: "last_type s = 0" if "seen = []"
    using inv that by (simp add: sweep_inv_def opened_def)
  have flush [simp]: "flushed (s\<lparr>overlap_list := ol\<rparr>) cp = flushed s cp" by (simp add: flushed_def)
  have len: "length (flushed s cp) \<le> length seen"
    using inv empty by (cases seen) (auto simp: flushed_def sweep_inv_def)
  show ?thesis
  proof (cases "?ty \<noteq> last_type s \<or> e820_nomerge ?ty")
    case True
    then have s': "new_entries s' = flushed s cp" "overlap_list s' = ol" "last_type s' = ?ty"
      "?ty \<noteq> 0 \<Longrightarrow> last_addr s' = ?q"
      "?ty \<noteq> 0 \<Longrightarrow> e_addr (new_slot s') = ?q \<and> e_type (new_slot s') = ?ty"
      using emit by (auto simp: sweep_emit_cases split: if_splits)
    have "agrees_below es (unat ?q) s'"
      using flushed_out(2)[OF inv order] s'
      by (fastforce simp: agrees_below_def word_le_nat_alt)
    then show ?thesis
      using flushed_out(1)[OF inv order] s' ol len by (simp add: sweep_inv_def)
  next
    case False
    then have "s' = s\<lparr>overlap_list := ol\<rparr>"
      using emit by (simp add: sweep_emit_cases)
    moreover have "agrees_below es (unat ?q) (s\<lparr>overlap_list := ol\<rparr>)"
      using agrees_below_next[OF inv order] by (simp add: agrees_below_def)
    moreover have "out_upto (new_entries s) (unat ?q)"
      using inv le out_upto_mono by (auto simp: sweep_inv_def)
    ultimately show ?thesis
      using inv False ol le by (auto simp: sweep_inv_def)
  qed
qed

text \<open>
  The whole sweep: either every change point is processed, or the table is full and
  the finished entries agree with the original ones up to the point reached.
\<close>

definition cut_off :: "e820_entry list \<Rightarrow> nat \<Rightarrow> e820_entry list \<Rightarrow> bool" where
  "cut_off es mx out \<longleftrightarrow>
     length out = mx \<and>
     (\<exists>q. out_upto out q \<and> (\<forall>a. unat a < q \<longrightarrow> type_at out a = type_at es a))"

lemma sweep_loop_result:
  assumes "sweep_inv es seen s" and "sweep_order es (seen @ cps)" and "length (new_entries s) < mx"
  shows "\<exists>s'. sweep_loop es mx cps s = Some s' \<and>
           (sweep_inv es (seen @ cps) s' \<and> length (new_entries s') < mx \<or>
            cut_off es mx (new_entries s') \<and> mx < length (seen @ cps))"
  using assms
proof (induction cps arbitrary: seen s)
  case Nil
  then show ?case by auto
next
  case (Cons cp cps)
  note inv = Cons.prems(1) and order = Cons.prems(2)
  obtain ol where ol: "overlap_update es cp (overlap_list s) = Some ol" "distinct ol"
    "set ol = opened es (seen @ [cp])"
    using inv by (auto simp: sweep_inv_def intro: overlap_update_opened[OF order])
  obtain stop s1 where emit:
    "sweep_emit mx cp (current_type_of es ol 0) (s\<lparr>overlap_list := ol\<rparr>) = (stop, s1)"
    by fastforce
  have flush [simp]: "flushed (s\<lparr>overlap_list := ol\<rparr>) cp = flushed s cp" by (simp add: flushed_def)
  show ?case
  proof (cases stop)
    case True
    then have s1: "new_entries s1 = flushed s cp" "flushed s cp \<noteq> new_entries s"
      and "mx \<le> length (flushed s cp)"
      using emit by (auto simp: sweep_emit_cases split: if_splits)
    then have "length (flushed s cp) = mx" using Cons.prems(3) flushed_length[of s cp] by simp
    moreover have "length (flushed s cp) \<le> length seen"
    proof -
      have "last_type s \<noteq> 0" using s1(2) by (auto simp: flushed_def split: if_splits)
      then have "seen \<noteq> []" using inv by (auto simp: sweep_inv_def opened_def)
      then show ?thesis using inv flushed_length[of s cp] by (cases seen) (auto simp: sweep_inv_def)
    qed
    ultimately have "cut_off es mx (new_entries s1) \<and> mx < length (seen @ cp # cps)"
      using flushed_out[OF inv order] s1(1) by (auto simp: cut_off_def)
    then show ?thesis using ol(1) emit True by simp
  next
    case False
    then have inv1: "sweep_inv es (seen @ [cp]) s1"
      using sweep_emit_inv[OF inv order ol(2,3)] emit by simp
    have "length (new_entries s1) < mx"
      using emit False Cons.prems(3) flushed_length[of s cp]
      by (cases "flushed s cp = new_entries s") (auto simp: sweep_emit_cases split: if_splits)
    then show ?thesis
      using Cons.IH[OF inv1] order ol(1) emit False by simp
  qed
qed

lemma opened_all: "set (change_points_from 0 es) \<subseteq> set seen \<Longrightarrow> opened es seen = {}"
  by (auto simp: opened_def set_change_points)

text \<open>When every change point is processed no range is open and the agreement is complete.\<close>

lemma sweep_inv_complete:
  assumes inv: "sweep_inv es cps s" and order: "sweep_order es cps"
  shows "sanitized (new_entries s)" and "type_at (new_entries s) a = type_at es a"
proof -
  show "sanitized (new_entries s)" using inv by (simp add: sweep_inv_def out_upto_def)
  have none: "opened es cps = {}" using order by (simp add: opened_all sweep_order_def)
  then have last: "last_type s = 0" using inv by (simp add: sweep_inv_def)
  show "type_at (new_entries s) a = type_at es a"
  proof (cases "unat a < seen_pos cps")
    case True
    then show ?thesis using inv last by (simp add: sweep_inv_def agrees_below_def)
  next
    case False
    have "sorted_wrt (\<lambda>x y. cm_addr x \<le> cm_addr y) cps" using order by (simp add: sweep_order_def)
    then have le: "unat (cm_addr c) \<le> unat a" if "c \<in> set cps" for c
      using False that
      by (cases cps rule: rev_cases) (auto simp: seen_pos_def sorted_wrt_append word_le_nat_alt)
    have "opened es cps = {i. i < length es \<and> covers (es ! i) a}"
      by (rule opened_covers[of es cps "[]"]) (use order le in auto)
    then have "type_at es a = 0" using none type_at_opened[of "[]" es a] by simp
    then show ?thesis
      using inv False out_upto_type_at[of "new_entries s" "seen_pos cps" a]
      by (simp add: sweep_inv_def)
  qed
qed

subsection \<open>The whole pass\<close>

lemma length_change_points: "length (change_points_from k es) \<le> 2 * length es"
proof (induction es arbitrary: k)
  case Nil
  then show ?case by simp
next
  case (Cons e es)
  show ?case using Cons.IH[of "k + 1"] by simp
qed

lemma sorted_points_order:
  assumes "sort_contract ksort" and "\<forall>e \<in> set es. nowrap e"
  defines "cps \<equiv> ksort (cpcompare es) (change_points_from 0 es)"
  shows "sweep_order es cps" and "length cps \<le> 2 * length es"
proof -
  have m: "mset cps = mset (change_points_from 0 es)"
    and s: "sorted_wrt (\<lambda>x y. cpcompare es x y \<le> 0) cps"
    unfolding cps_def by (rule sort_contract_points[OF assms(1)])+
  have "sorted_wrt (\<lambda>x y. cm_addr x \<le> cm_addr y) cps"
    by (rule sorted_wrt_mono_rel[OF _ s]) (rule cpcompare_addr)
  moreover have "distinct cps"
    using m distinct_change_points[of 0 es] by (metis mset_eq_imp_distinct_iff)
  moreover have "set cps = set (change_points_from 0 es)" using m by (rule mset_eq_setD)
  ultimately show "sweep_order es cps" using assms(2) by (simp add: sweep_order_def)
  show "length cps \<le> 2 * length es"
    using m length_change_points[of 0 es] by (metis size_mset)
qed

lemma cut_off_prefix:
  assumes "cut_off es mx out"
  shows "sanitized out" and "type_at out a = type_at es a \<or> type_at out a = 0"
proof -
  from assms obtain q where q: "out_upto out q" "unat a < q \<Longrightarrow> type_at out a = type_at es a"
    by (auto simp: cut_off_def)
  then show "sanitized out" by (simp add: out_upto_def)
  show "type_at out a = type_at es a \<or> type_at out a = 0"
    using q out_upto_type_at[of out q a] by (cases "unat a < q") auto
qed

lemma update_table_cases:
  assumes sort: "sort_contract ksort" and nr: "2 \<le> nr_entries t" "nr_entries t \<le> length (entries t)"
    and nw: "\<forall>e \<in> set (valid_entries t). nowrap e"
  obtains t' where "e820__update_table ksort t = Some (0, t')"
    and "length (entries t') = length (entries t)" and "nr_entries t' \<le> length (entries t)"
    and "(nr_entries t' < length (entries t) \<and> nr_entries t' < 2 * nr_entries t \<and>
           sanitized (valid_entries t') \<and>
           (\<forall>a. type_at (valid_entries t') a = type_at (valid_entries t) a)) \<or>
         (length (entries t) < 2 * nr_entries t \<and>
           cut_off (valid_entries t) (length (entries t)) (valid_entries t'))"
proof -
  define es where "es = valid_entries t"
  define cps where "cps = ksort (cpcompare es) (change_points_from 0 es)"
  have order: "sweep_order es ([] @ cps)" and len: "length cps \<le> 2 * nr_entries t"
    using sorted_points_order[OF sort nw] nr(2) by (simp_all add: es_def cps_def valid_entries_def)
  have "length (new_entries sweep_init) < length (entries t)"
    using nr by (cases "entries t") (auto simp: sweep_init_def)
  from sweep_loop_result[OF sweep_inv_init order this] obtain s where
    loop: "sweep_loop es (length (entries t)) cps sweep_init = Some s" and
    s: "sweep_inv es cps s \<and> length (new_entries s) < length (entries t) \<or>
        cut_off es (length (entries t)) (new_entries s) \<and> length (entries t) < length cps"
    by auto
  define t' where "t' = t\<lparr>nr_entries := length (new_entries s),
    entries := new_entries s @ drop (length (new_entries s)) (entries t)\<rparr>"
  have bound: "length (new_entries s) \<le> length (entries t)" using s by (auto simp: cut_off_def)
  have "\<not> list_ex (\<lambda>e. e_addr e + e_size e < e_addr e) es"
    using nw by (auto simp: list_ex_iff nowrap_def es_def)
  then have upd: "e820__update_table ksort t = Some (0, t')"
    using nr loop by (simp add: e820__update_table_def Let_def t'_def es_def cps_def)
  have v: "valid_entries t' = new_entries s" "nr_entries t' = length (new_entries s)"
    by (simp_all add: t'_def valid_entries_def)
  show thesis
  proof (rule that[OF upd])
    show "length (entries t') = length (entries t)" using bound by (simp add: t'_def)
    show "nr_entries t' \<le> length (entries t)" using bound v by simp
    from s show "(nr_entries t' < length (entries t) \<and> nr_entries t' < 2 * nr_entries t \<and>
           sanitized (valid_entries t') \<and>
           (\<forall>a. type_at (valid_entries t') a = type_at (valid_entries t) a)) \<or>
         (length (entries t) < 2 * nr_entries t \<and>
           cut_off (valid_entries t) (length (entries t)) (valid_entries t'))"
    proof
      assume inv: "sweep_inv es cps s \<and> length (new_entries s) < length (entries t)"
      then have "length (new_entries s) < 2 * nr_entries t"
        using len nr by (auto simp: sweep_inv_def)
      then show ?thesis
        using inv sweep_inv_complete[of es cps s] order by (simp add: v es_def)
    next
      assume "cut_off es (length (entries t)) (new_entries s) \<and> length (entries t) < length cps"
      then show ?thesis using len by (simp add: v es_def)
    qed
  qed
qed

subsection \<open>Adjacent entries are merged\<close>

text \<open>
  Two entries could have been one: the first ends where the second starts, they have the same
  type, and the type is one that is merged. The sanitized table has no such pair. This is where
  the order of change points at the same address matters: because starts come before ends, the
  type at an address first rises and then falls, and never returns to an earlier value.
\<close>

definition touches :: "e820_entry \<Rightarrow> u64 \<Rightarrow> u32 \<Rightarrow> bool" where
  "touches e q ty \<longleftrightarrow>
     unat (e_addr e) + unat (e_size e) = unat q \<and> e_type e = ty \<and> \<not> e820_nomerge ty"

definition merged :: "e820_entry list \<Rightarrow> bool" where
  "merged es \<longleftrightarrow> sorted_wrt (\<lambda>e f. \<not> touches e (e_addr f) (e_type f)) es"

definition past_type :: "e820_entry list \<Rightarrow> change_member list \<Rightarrow> u32 \<Rightarrow> u32 \<Rightarrow> bool" where
  "past_type es seen u ty \<longleftrightarrow>
     (\<exists>i \<in> opened es seen. cm_addr (cp_start es i) = cm_addr (last seen) \<and> e_type (es ! i) > u) \<or>
     (ty < u \<and> cm_addr (last seen) \<noteq> e_addr (es ! cm_entry (last seen))) \<or>
     (ty = u \<and> e820_nomerge u)"

definition merge_inv :: "e820_entry list \<Rightarrow> change_member list \<Rightarrow> sweep \<Rightarrow> bool" where
  "merge_inv es seen s \<longleftrightarrow>
     merged (new_entries s) \<and>
     (last_type s \<noteq> 0 \<longrightarrow> (\<forall>e \<in> set (new_entries s). \<not> touches e (last_addr s) (last_type s))) \<and>
     (\<forall>e \<in> set (new_entries s). unat (e_addr e) + unat (e_size e) = seen_pos seen \<longrightarrow>
        past_type es seen (e_type e) (last_type s))"

lemma merged_snoc:
  "merged (es @ [f]) \<longleftrightarrow> merged es \<and> (\<forall>e \<in> set es. \<not> touches e (e_addr f) (e_type f))"
  by (auto simp: merged_def sorted_wrt_append)

lemma merge_inv_init: "merge_inv es [] sweep_init"
  by (simp add: merge_inv_def merged_def sweep_init_def)

lemma merged_flushed:
  assumes "sweep_inv es seen s" and "merge_inv es seen s"
  shows "merged (flushed s cp)"
  using assms by (auto simp: flushed_def merged_snoc merge_inv_def sweep_inv_def)

text \<open>How the current type changes when an entry opens or closes.\<close>

lemma current_type_insert:
  assumes "set ol' = insert i (set ol)"
  shows "current_type_of es ol' 0 = max (current_type_of es ol 0) (e_type (es ! i))"
proof -
  have "insert 0 ((\<lambda>i. e_type (es ! i)) ` set ol') =
      insert (e_type (es ! i)) (insert 0 ((\<lambda>i. e_type (es ! i)) ` set ol))"
    by (auto simp: assms)
  then show ?thesis
    unfolding current_type_of_Max by (simp only: Max_insert max.commute finite_insert
        finite_imageI finite_set insert_not_empty simp_thms)
qed

lemma current_type_mono:
  assumes "set ol' \<subseteq> set ol"
  shows "current_type_of es ol' 0 \<le> current_type_of es ol 0"
  unfolding current_type_of_Max using assms by (intro Max_mono) auto

lemma current_type_ge: "i \<in> set ol \<Longrightarrow> e_type (es ! i) \<le> current_type_of es ol 0"
  unfolding current_type_of_Max by (rule Max_ge) auto

lemma past_type_neq:
  assumes "past_type es seen u ty" and "ty = current_type_of es ol 0" and "set ol = opened es seen"
    and "ty = u"
  shows "e820_nomerge u"
  using assms current_type_ge[of _ ol es] by (fastforce simp: past_type_def)

lemma past_type_flushed:
  assumes order: "sweep_order es (seen @ cp # rest)"
    and ol: "set ol = opened es seen" and ol': "set ol' = opened es (seen @ [cp])"
    and u: "u = current_type_of es ol 0"
    and emit: "current_type_of es ol' 0 \<noteq> u \<or> e820_nomerge (current_type_of es ol' 0)"
  shows "past_type es (seen @ [cp]) u (current_type_of es ol' 0)"
  using order
proof (cases rule: opened_step)
  case (opens i)
  then have "current_type_of es ol' 0 = max u (e_type (es ! i))"
    using ol ol' u by (simp add: current_type_insert)
  then show ?thesis using emit opens by (auto simp: past_type_def max_def split: if_splits)
next
  case (closes i)
  then have "current_type_of es ol' 0 \<le> u" using ol ol' u by (auto intro: current_type_mono)
  moreover have "cm_addr cp \<noteq> e_addr (es ! cm_entry cp)"
    using closes by (simp add: cp_end_def live_def)
  ultimately show ?thesis using emit by (auto simp: past_type_def)
qed

lemma past_type_step:
  assumes order: "sweep_order es (seen @ cp # rest)"
    and sorted: "sorted_wrt (\<lambda>x y. cpcompare es x y \<le> 0) (seen @ cp # rest)"
    and ol: "set ol = opened es seen" and ol': "set ol' = opened es (seen @ [cp])"
    and past: "past_type es seen u (current_type_of es ol 0)"
    and same: "seen \<noteq> []" "cm_addr cp = cm_addr (last seen)"
  shows "past_type es (seen @ [cp]) u (current_type_of es ol' 0)"
proof -
  let ?ty = "current_type_of es ol 0"
  have tie: "cm_addr cp \<noteq> e_addr (es ! cm_entry cp)"
    if "cm_addr (last seen) \<noteq> e_addr (es ! cm_entry (last seen))"
  proof -
    have "cpcompare es (last seen) cp \<le> 0"
      using sorted same(1) by (auto simp: sorted_wrt_append)
    with same(2) that show ?thesis by (auto simp: cpcompare_def split: if_splits)
  qed
  show ?thesis
    using order
  proof (cases rule: opened_step)
    case (opens i)
    have ty': "current_type_of es ol' 0 = max ?ty (e_type (es ! i))"
      using opens ol ol' by (simp add: current_type_insert)
    have "cm_addr cp = e_addr (es ! cm_entry cp)" using opens by (simp add: cp_start_def)
    with tie past consider
        (riser) j where "j \<in> opened es seen" "cm_addr (cp_start es j) = cm_addr (last seen)" "e_type (es ! j) > u"
      | (keep) "?ty = u" "e820_nomerge u"
      unfolding past_type_def by blast
    then show ?thesis
    proof cases
      case riser
      then show ?thesis using opens same by (auto simp: past_type_def)
    next
      case keep
      show ?thesis
      proof (cases "e_type (es ! i) > u")
        case True
        then show ?thesis using opens by (auto simp: past_type_def)
      next
        case False
        then show ?thesis using keep ty' by (simp add: past_type_def max_def)
      qed
    qed
  next
    case (closes i)
    have le: "current_type_of es ol' 0 \<le> ?ty" using closes ol ol' by (auto intro: current_type_mono)
    have isend: "cm_addr cp \<noteq> e_addr (es ! cm_entry cp)"
      using closes by (simp add: cp_end_def live_def)
    from past[unfolded past_type_def] show ?thesis
    proof (elim disjE bexE conjE)
      fix j
      assume j: "j \<in> opened es seen" "cm_addr (cp_start es j) = cm_addr (last seen)" "e_type (es ! j) > u"
      have "cm_addr (cp_start es i) \<noteq> cm_addr cp"
        using closes(1,2) by (simp add: cp_start_def cp_end_def live_def)
      then have "j \<noteq> i" using j(2) same(2) by auto
      then show ?thesis using j closes(4) same(2) by (auto simp: past_type_def)
    next
      assume "?ty < u"
      with le have "current_type_of es ol' 0 < u" by (rule le_less_trans)
      then show ?thesis using isend by (simp add: past_type_def)
    next
      assume "?ty = u" and "e820_nomerge u"
      then show ?thesis using le isend by (auto simp: past_type_def)
    qed
  qed
qed

lemma merge_inv_step:
  assumes inv: "sweep_inv es seen s" and minv: "merge_inv es seen s"
    and order: "sweep_order es (seen @ cp # rest)"
    and sorted: "sorted_wrt (\<lambda>x y. cpcompare es x y \<le> 0) (seen @ cp # rest)"
    and ol: "set ol = opened es (seen @ [cp])"
    and emit: "sweep_emit mx cp (current_type_of es ol 0) (s\<lparr>overlap_list := ol\<rparr>) = (False, s')"
  shows "merge_inv es (seen @ [cp]) s'"
proof -
  let ?ty = "current_type_of es ol 0" and ?q = "cm_addr cp"
  have lt: "last_type s = current_type_of es (overlap_list s) 0"
    and open0: "set (overlap_list s) = opened es seen"
    using inv by (simp_all add: sweep_inv_def)
  have pos: "seen_pos (seen @ [cp]) = unat ?q" by (simp add: seen_pos_def)
  have flush [simp]: "flushed (s\<lparr>overlap_list := ol\<rparr>) cp = flushed s cp" by (simp add: flushed_def)
  have old: "past_type es (seen @ [cp]) (e_type e) ?ty"
    if e: "e \<in> set (new_entries s)" "unat (e_addr e) + unat (e_size e) = unat ?q" for e
  proof -
    have "unat (e_addr e) + unat (e_size e) \<le> seen_pos seen"
      using inv e(1) by (auto simp: sweep_inv_def out_upto_def)
    then have at: "seen_pos seen = unat ?q" using e(2) sweep_order_pos(1)[OF order] by simp
    have ne: "seen \<noteq> []" using inv e(1) by (auto simp: sweep_inv_def)
    with at have "cm_addr cp = cm_addr (last seen)" by (simp add: seen_pos_def word_unat_eq_iff)
    moreover have "past_type es seen (e_type e) (last_type s)"
      using minv e at by (simp add: merge_inv_def)
    ultimately show ?thesis
      using past_type_step[OF order sorted open0 ol] ne by (simp add: lt)
  qed
  show ?thesis
  proof (cases "?ty \<noteq> last_type s \<or> e820_nomerge ?ty")
    case True
    then have s': "new_entries s' = flushed s cp" "last_type s' = ?ty" "?ty \<noteq> 0 \<Longrightarrow> last_addr s' = ?q"
      using emit by (auto simp: sweep_emit_cases split: if_splits)
    have past: "past_type es (seen @ [cp]) (e_type e) ?ty"
      if e: "e \<in> set (flushed s cp)" "unat (e_addr e) + unat (e_size e) = unat ?q" for e
    proof (cases "e \<in> set (new_entries s)")
      case True
      then show ?thesis using old e by blast
    next
      case False
      then have "e_type e = last_type s"
        using e(1) inv by (auto simp: flushed_def sweep_inv_def split: if_splits)
      then show ?thesis using past_type_flushed[OF order open0 ol lt] True by simp
    qed
    have "\<not> touches e ?q ?ty" if "e \<in> set (flushed s cp)" for e
      using past[OF that] past_type_neq[OF _ refl ol] by (auto simp: touches_def)
    then show ?thesis
      using merged_flushed[OF inv minv, of cp] past s' by (simp add: merge_inv_def pos)
  next
    case False
    then have "s' = s\<lparr>overlap_list := ol\<rparr>" using emit by (simp add: sweep_emit_cases)
    then show ?thesis using minv old False by (simp add: merge_inv_def pos)
  qed
qed

lemma sweep_loop_merged:
  assumes "sweep_inv es seen s" and "merge_inv es seen s" and "sweep_order es (seen @ cps)"
    and "sorted_wrt (\<lambda>x y. cpcompare es x y \<le> 0) (seen @ cps)"
    and "sweep_loop es mx cps s = Some s'"
  shows "merged (new_entries s')"
  using assms
proof (induction cps arbitrary: seen s)
  case Nil
  then show ?case by (simp add: merge_inv_def)
next
  case (Cons cp cps)
  note inv = Cons.prems(1) and minv = Cons.prems(2) and order = Cons.prems(3) and sorted = Cons.prems(4)
  obtain ol where ol: "overlap_update es cp (overlap_list s) = Some ol" "distinct ol"
    "set ol = opened es (seen @ [cp])"
    using inv by (auto simp: sweep_inv_def intro: overlap_update_opened[OF order])
  obtain stop s1 where emit:
    "sweep_emit mx cp (current_type_of es ol 0) (s\<lparr>overlap_list := ol\<rparr>) = (stop, s1)"
    by fastforce
  show ?case
  proof (cases stop)
    case True
    then have "new_entries s' = flushed s cp"
      using emit ol(1) Cons.prems(5) by (auto simp: sweep_emit_cases flushed_def split: if_splits)
    then show ?thesis using merged_flushed[OF inv minv] by simp
  next
    case False
    then show ?thesis
      using Cons.IH[OF sweep_emit_inv[OF inv order ol(2,3)] merge_inv_step[OF inv minv order sorted ol(3)]]
        emit order sorted ol(1) Cons.prems(5) by simp
  qed
qed

subsection \<open>A sorting routine that meets the contract\<close>

text \<open>
  The comparison of change points meets the interface of \<open>list_sort\<close>, and the merge sort meets
  the contract the sanitizing pass puts on the kernel's \<open>sort\<close>.
\<close>

interpretation cp: list_cmp "cpcompare es" for es
  by unfold_locales (rule cpcompare_total, erule (1) cpcompare_trans)

definition by_list_sort :: sort_fn where
  "by_list_sort cmp xs = (case list_sort cmp xs of Some ys \<Rightarrow> ys | None \<Rightarrow> xs)"

lemma sort_contract_by_list_sort: "sort_contract by_list_sort"
  unfolding sort_contract_def
proof (intro allI impI)
  fix cmp :: "change_member \<Rightarrow> change_member \<Rightarrow> int" and xs
  assume "\<forall>x y. cmp x y \<le> 0 \<or> cmp y x \<le> 0"
    and "\<forall>x y z. cmp x y \<le> 0 \<longrightarrow> cmp y z \<le> 0 \<longrightarrow> cmp x z \<le> 0"
  then have "list_cmp cmp" by unfold_locales blast+
  from list_cmp.list_sort_result[OF this, of xs]
  show "mset (by_list_sort cmp xs) = mset xs \<and> sorted_wrt (\<lambda>x y. cmp x y \<le> 0) (by_list_sort cmp xs)"
    by (auto simp: by_list_sort_def)
qed

subsection \<open>The guarantees of \<open>e820__update_table\<close>\<close>

text \<open>Two overlapping ranges and an empty one, in a table with room to spare.\<close>

definition overlap_example :: e820_table where
  "overlap_example =
     \<lparr>nr_entries = 3,
      entries = [mk_entry 0 0x2000 E820_TYPE_RAM, mk_entry 0x1000 0x2000 E820_TYPE_RESERVED,
                 mk_entry 0x4000 0 E820_TYPE_RAM,
                 mk_entry 0 0 0, mk_entry 0 0 0, mk_entry 0 0 0]\<rparr>"

lemma overlap_example_ok:
  "2 \<le> nr_entries overlap_example" "nr_entries overlap_example \<le> length (entries overlap_example)"
  "2 * nr_entries overlap_example \<le> length (entries overlap_example)"
  "\<forall>e \<in> set (valid_entries overlap_example). nowrap e"
  by (simp_all add: overlap_example_def valid_entries_def nowrap_def mk_entry_def)

text \<open>
  \<^bold>\<open>C1.\<close> When the table has room for twice its entries and no entry wraps around,
  \<open>e820__update_table\<close> succeeds; the result is sorted, without overlaps and without empty
  entries, has fewer than twice as many entries, and gives every physical address the
  largest type any of the original entries gave it.
\<close>

theorem update_table_preserves_types:
  assumes "sort_contract ksort" and "2 \<le> nr_entries t" and "2 * nr_entries t \<le> length (entries t)"
    and "\<forall>e \<in> set (valid_entries t). nowrap e"
  shows "\<exists>t'. e820__update_table ksort t = Some (0, t') \<and> sanitized (valid_entries t') \<and>
    nr_entries t' < 2 * nr_entries t \<and> length (entries t') = length (entries t) \<and>
    (\<forall>a. type_at (valid_entries t') a = type_at (valid_entries t) a)"
proof -
  have "nr_entries t \<le> length (entries t)" using assms(3) by simp
  then show ?thesis
    using update_table_cases[OF assms(1,2) _ assms(4)] assms(3) by (metis not_less)
qed

theorem update_table_preserves_types_witness:
  "\<exists>t'. e820__update_table by_list_sort overlap_example = Some (0, t') \<and> sanitized (valid_entries t') \<and>
    nr_entries t' < 2 * nr_entries overlap_example \<and>
    length (entries t') = length (entries overlap_example) \<and>
    (\<forall>a. type_at (valid_entries t') a = type_at (valid_entries overlap_example) a)"
  by (rule update_table_preserves_types[OF sort_contract_by_list_sort overlap_example_ok(1,3,4)])



text \<open>
  The sanitized table is merged: no entry ends exactly where another one of the same
  type starts, unless the type is one that the code keeps apart (persistent or soft reserved
  memory).
\<close>

theorem update_table_merges:
  assumes "sort_contract ksort" and "\<forall>e \<in> set (valid_entries t). nowrap e"
    and "e820__update_table ksort t = Some (0, t')"
  shows "merged (valid_entries t')"
proof -
  define es where "es = valid_entries t"
  define cps where "cps = ksort (cpcompare es) (change_points_from 0 es)"
  obtain s where s: "sweep_loop es (length (entries t)) cps sweep_init = Some s"
    "valid_entries t' = new_entries s"
    using assms(3)
    by (auto simp: e820__update_table_def Let_def es_def cps_def valid_entries_def
        split: if_splits option.splits)
  have "sweep_order es ([] @ cps)"
    using sorted_points_order(1)[OF assms(1,2)] by (simp add: es_def cps_def)
  moreover have "sorted_wrt (\<lambda>x y. cpcompare es x y \<le> 0) ([] @ cps)"
    using sort_contract_points(2)[OF assms(1)] by (simp add: cps_def)
  ultimately show ?thesis
    using sweep_loop_merged[OF sweep_inv_init merge_inv_init] s by metis
qed

theorem update_table_merges_witness:
  "e820__update_table by_list_sort
     \<lparr>nr_entries = 2, entries = [mk_entry 0x1000 0x1000 1, mk_entry 0 0x1000 1, mk_entry 0 0 0]\<rparr> =
   Some (0, \<lparr>nr_entries = 1, entries = [mk_entry 0 0x2000 1, mk_entry 0 0x1000 1, mk_entry 0 0 0]\<rparr>) \<and>
   merged [mk_entry 0 0x2000 1]"
proof -
  let ?t = "\<lparr>nr_entries = 2, entries = [mk_entry 0x1000 0x1000 1, mk_entry 0 0x1000 1, mk_entry 0 0 0]\<rparr>"
  let ?t' = "\<lparr>nr_entries = 1, entries = [mk_entry 0 0x2000 1, mk_entry 0 0x1000 1, mk_entry 0 0 0]\<rparr>"
  have run: "e820__update_table by_list_sort ?t = Some (0, ?t')" by code_simp
  have nw: "\<forall>e \<in> set (valid_entries ?t). nowrap e"
    by (simp add: valid_entries_def nowrap_def mk_entry_def)
  have "merged (valid_entries ?t')"
    by (rule update_table_merges[OF sort_contract_by_list_sort nw run])
  with run show ?thesis by (simp add: valid_entries_def)
qed

text \<open>
  On a table that fits its array \<open>e820__update_table\<close> always returns; it returns -1
  exactly when there are fewer than two entries or some entry wraps around the address space,
  and then the table is unchanged.
\<close>

theorem update_table_rejects:
  assumes "sort_contract ksort" and "nr_entries t \<le> length (entries t)"
  shows "\<exists>r t'. e820__update_table ksort t = Some (r, t') \<and> r \<in> {0, -1} \<and> (r = -1 \<longrightarrow> t' = t) \<and>
    (r = -1 \<longleftrightarrow> nr_entries t < 2 \<or> (\<exists>e \<in> set (valid_entries t). \<not> nowrap e))"
proof (cases "nr_entries t < 2 \<or> (\<exists>e \<in> set (valid_entries t). \<not> nowrap e)")
  case True
  then have "e820__update_table ksort t = Some (-1, t)"
    using assms(2) by (auto simp: e820__update_table_def Let_def nowrap_def list_ex_iff)
  with True show ?thesis by simp
next
  case False
  then obtain t' where "e820__update_table ksort t = Some (0, t')"
    using update_table_cases[OF assms(1) _ assms(2)] by (metis not_less)
  with False show ?thesis by auto
qed

theorem update_table_rejects_witness:
  "\<exists>r t'. e820__update_table by_list_sort overlap_example = Some (r, t') \<and> r \<in> {0, -1} \<and>
    (r = -1 \<longrightarrow> t' = overlap_example) \<and>
    (r = -1 \<longleftrightarrow> nr_entries overlap_example < 2 \<or>
       (\<exists>e \<in> set (valid_entries overlap_example). \<not> nowrap e))"
  by (rule update_table_rejects[OF sort_contract_by_list_sort overlap_example_ok(2)])

end
