(* ===== verification/E820_Ranges.thy ===== *)
theory E820_Ranges
  imports E820
begin

text \<open>
  Correctness of the range operations of the E820 table. Updating and removing a range are
  passes of the same shape over a table that grows while it is walked: each entry is replaced
  by a remainder and further pieces are appended, which the pass then meets again. The
  locale \<open>range_pass\<close> states what one iteration promises; its lemmas give the result of the
  whole pass, and both operations are interpretations of it.
\<close>

subsection \<open>Tables and the types at an address\<close>

lemma types_at_Nil [simp]: "types_at [] a = {#}"
  by (simp add: types_at_def)

lemma types_at_Cons:
  "types_at (e # es) a = (if covers e a then add_mset (e_type e) (types_at es a) else types_at es a)"
  by (simp add: types_at_def)

lemma types_at_append [simp]: "types_at (xs @ ys) a = types_at xs a + types_at ys a"
  by (simp add: types_at_def)

lemma types_at_regroup:
  "types_at (p # ps @ qs @ rs) a = types_at (p # qs) a + (types_at ps a + types_at rs a)"
  by (simp add: types_at_def)

lemma types_at_mono: "mset xs \<subseteq># mset ys \<Longrightarrow> types_at xs a \<subseteq># types_at ys a"
  by (simp add: types_at_def image_mset_subseteq_mono multiset_filter_mono)

definition add_entry :: "e820_table \<Rightarrow> e820_entry \<Rightarrow> e820_table" where
  "add_entry t e = tab_e820__range_add t (e_addr e) (e_size e) (e_type e)"

lemma add_entry_room:
  assumes "nr_entries t < length (entries t)"
  shows "valid_entries (add_entry t e) = valid_entries t @ [e]"
    and "nr_entries (add_entry t e) = Suc (nr_entries t)"
    and "i < nr_entries t \<Longrightarrow> entries (add_entry t e) ! i = entries t ! i"
  using assms
  by (simp_all add: add_entry_def tab_e820__range_add_def valid_entries_def mk_entry_def Let_def
      take_list_update_append)

lemma length_add_entry [simp]: "length (entries (add_entry t e)) = length (entries t)"
  by (simp add: add_entry_def)

lemma length_add_entries [simp]: "length (entries (foldl add_entry t as)) = length (entries t)"
  by (induction as arbitrary: t) auto

lemma add_entries_room:
  assumes "nr_entries t + length as \<le> length (entries t)"
  shows "valid_entries (foldl add_entry t as) = valid_entries t @ as"
    and "nr_entries (foldl add_entry t as) = nr_entries t + length as"
proof (atomize (full))
  show "valid_entries (foldl add_entry t as) = valid_entries t @ as \<and>
      nr_entries (foldl add_entry t as) = nr_entries t + length as"
    using assms
  proof (induction as arbitrary: t)
    case Nil
    then show ?case by simp
  next
    case (Cons a as)
    then have r: "nr_entries t < length (entries t)" by simp
    from Cons.IH[of "add_entry t a"] Cons.prems show ?case
      by (simp add: add_entry_room[OF r])
  qed
qed

text \<open>Without room for all of them, some of the entries are dropped, the last ones first.\<close>

lemma add_entry_full: "\<not> nr_entries t < length (entries t) \<Longrightarrow> add_entry t e = t"
  by (simp add: add_entry_def tab_e820__range_add_def Let_def)

lemma add_entries_some:
  assumes "nr_entries t \<le> length (entries t)"
  shows "\<exists>bs. mset bs \<subseteq># mset as \<and> valid_entries (foldl add_entry t as) = valid_entries t @ bs \<and>
    nr_entries (foldl add_entry t as) = nr_entries t + length bs \<and>
    nr_entries t + length bs \<le> length (entries t)"
proof -
  let ?bs = "take (length (entries t) - nr_entries t) as"
  let ?cs = "drop (length (entries t) - nr_entries t) as"
  have room: "nr_entries t + length ?bs \<le> length (entries t)" using assms by auto
  note b = add_entries_room[OF room]
  have "foldl add_entry u cs = u" if "\<not> nr_entries u < length (entries u)" for u cs
    using that by (induction cs) (simp_all add: add_entry_full)
  then have "foldl add_entry (foldl add_entry t ?bs) ?cs = foldl add_entry t ?bs"
    using assms by (cases "length as \<le> length (entries t) - nr_entries t") (simp_all add: b)
  then have "foldl add_entry t as = foldl add_entry t ?bs"
    by (metis append_take_drop_id foldl_append)
  moreover have "mset ?bs \<subseteq># mset as"
    by (metis append_take_drop_id mset_append mset_subset_eq_add_left)
  ultimately show ?thesis using b room by metis
qed

lemma valid_set_entry:
  assumes "i < nr_entries t" and "nr_entries t \<le> length (entries t)"
  shows "valid_entries (set_entry t i e) = (valid_entries t)[i := e]"
  using assms by (simp add: set_entry_def valid_entries_def take_list_update_same)

lemma nr_set_entry [simp]: "nr_entries (set_entry t i e) = nr_entries t"
  by (simp add: set_entry_def)

lemma set_entry_same [simp]: "set_entry t i (entries t ! i) = t"
  by (simp add: set_entry_def)

lemma valid_entries_at:
  assumes "valid_entries t = pre @ e # post" and "nr_entries t \<le> length (entries t)"
  shows "length pre < nr_entries t" and "entries t ! length pre = e"
proof -
  have "nr_entries t = length (pre @ e # post)"
    using assms(2) unfolding assms(1)[symmetric] by (simp add: valid_entries_def)
  then show i: "length pre < nr_entries t" by simp
  then have "entries t ! length pre = valid_entries t ! length pre"
    by (simp add: valid_entries_def)
  then show "entries t ! length pre = e" by (simp add: assms(1))
qed

subsection \<open>A pass over a growing table\<close>

definition retyped :: "(u32 \<Rightarrow> u32 option) \<Rightarrow> u32 multiset \<Rightarrow> u32 multiset" where
  "retyped f M = image_mset (\<lambda>ty. the (f ty)) (filter_mset (\<lambda>ty. f ty \<noteq> None) M)"

lemma retyped_add [simp]: "retyped f (M + N) = retyped f M + retyped f N"
  by (simp add: retyped_def)

lemma retyped_empty [simp]: "retyped f {#} = {#}"
  by (simp add: retyped_def)

locale range_pass =
  fixes bug :: bool
    and pass :: "nat \<Rightarrow> u64 \<Rightarrow> e820_table \<Rightarrow> (u64 \<times> e820_table) option"
    and step :: "nat \<Rightarrow> e820_table \<Rightarrow> u64 \<times> e820_table"
    and split :: "e820_entry \<Rightarrow> u64 \<times> e820_entry \<times> e820_entry list"
    and retype :: "u64 \<Rightarrow> u32 \<Rightarrow> u32 option"
    and amount :: "e820_entry \<Rightarrow> nat"
  assumes pass_unfold:
      "pass i acc t =
         (if i \<ge> nr_entries t then Some (acc, t)
          else if i \<ge> length (entries t) then None
          else pass (i + 1) (acc + fst (step i t)) (snd (step i t)))"
    and step_split:
      "\<not> bug \<Longrightarrow> i < nr_entries t \<Longrightarrow> nr_entries t \<le> length (entries t) \<Longrightarrow>
         nowrap (entries t ! i) \<Longrightarrow> split (entries t ! i) = (n, e', as) \<Longrightarrow>
         step i t = (n, set_entry (foldl add_entry t as) i e')"
    and split_settled:
      "\<not> bug \<Longrightarrow> nowrap e \<Longrightarrow> split e = (n, e', as) \<Longrightarrow> a \<in> set as \<Longrightarrow> split a = (0, a, [])"
    and split_types:
      "\<not> bug \<Longrightarrow> nowrap e \<Longrightarrow> split e = (n, e', as) \<Longrightarrow>
         types_at (e' # as) x = retyped (retype x) (types_at [e] x)"
    and split_nowrap:
      "\<not> bug \<Longrightarrow> nowrap e \<Longrightarrow> split e = (n, e', as) \<Longrightarrow> p \<in> set (e' # as) \<Longrightarrow> nowrap p"
    and split_amount:
      "\<not> bug \<Longrightarrow> nowrap e \<Longrightarrow> split e = (n, e', as) \<Longrightarrow> unat n = amount e"
begin

definition remainder :: "e820_entry \<Rightarrow> e820_entry" where
  "remainder e = fst (snd (split e))"

definition pieces :: "e820_entry \<Rightarrow> e820_entry list" where
  "pieces e = snd (snd (split e))"

lemma split_eq: "split e = (fst (split e), remainder e, pieces e)"
  by (simp add: remainder_def pieces_def)

lemma pass_settled:
  assumes "\<not> bug" and "valid_entries t = pre @ post" and "length pre = i"
    and "nr_entries t \<le> length (entries t)" 
    and "\<forall>e \<in> set post. nowrap e \<and> split e = (0, e, [])"
  shows "pass i acc t = Some (acc, t)"
  using assms(2,3,5)
proof (induction post arbitrary: pre i)
  case Nil
  then have "nr_entries t \<le> i" using assms(4) by (auto simp: valid_entries_def)
  then show ?case by (subst pass_unfold) simp
next
  case (Cons e post)
  have i: "i < nr_entries t" and e: "entries t ! i = e"
    using valid_entries_at[OF Cons.prems(1) assms(4)] Cons.prems(2) by simp_all
  have "step i t = (0, t)"
    using step_split[OF assms(1) i assms(4), of 0 e "[]"] Cons.prems(3) e
    by (simp add: set_entry_same[of t i, unfolded e])
  then have "pass i acc t = pass (Suc i) acc t"
    using i assms(4) by (subst pass_unfold) simp
  also have "\<dots> = Some (acc, t)" using Cons.IH[of "pre @ [e]" "Suc i"] Cons.prems by simp
  finally show ?case .
qed

lemma pass_result:
  assumes "\<not> bug" and "valid_entries t = pre @ post @ settled" and "length pre = i"
    and "nr_entries t + length (concat (map pieces post)) \<le> length (entries t)"
    and "\<forall>e \<in> set post. nowrap e" and "\<forall>e \<in> set settled. nowrap e \<and> split e = (0, e, [])"
  shows "\<exists>t'. pass i acc t = Some (acc + sum_list (map (fst \<circ> split) post), t') \<and>
    valid_entries t' = pre @ map remainder post @ settled @ concat (map pieces post) \<and>
    nr_entries t' = nr_entries t + length (concat (map pieces post)) \<and>
    length (entries t') = length (entries t)"
  using assms(2-)
proof (induction post arbitrary: pre i t settled acc)
  case Nil
  then have "pass i acc t = Some (acc, t)"
    by (intro pass_settled[OF assms(1), where pre = pre and post = settled]) auto
  then show ?case using Nil by simp
next
  case (Cons e post)
  let ?t = "set_entry (foldl add_entry t (pieces e)) i (remainder e)"
  have nr: "nr_entries t \<le> length (entries t)"
    and room: "nr_entries t + length (pieces e) \<le> length (entries t)"
    using Cons.prems(3) by auto
  have i: "i < nr_entries t" and e: "entries t ! i = e"
    using valid_entries_at[of t pre e "post @ settled"] Cons.prems(1,2) nr by simp_all
  note t = add_entries_room[OF room]
  have v: "valid_entries ?t = (pre @ [remainder e]) @ post @ (settled @ pieces e)"
    using i room Cons.prems(1,2) by (subst valid_set_entry) (auto simp: t)
  have "step i t = (fst (split e), ?t)"
    using step_split[OF assms(1) i nr] split_eq[of e] e Cons.prems(4) by simp
  then have p: "pass i acc t = pass (Suc i) (acc + fst (split e)) ?t"
    using i nr by (subst pass_unfold) simp
  have "\<forall>a \<in> set (settled @ pieces e). nowrap a \<and> split a = (0, a, [])"
    using Cons.prems(4,5) split_settled[OF assms(1) _ split_eq[of e]]
      split_nowrap[OF assms(1) _ split_eq[of e]] by auto
  with Cons.IH[of ?t "pre @ [remainder e]" "settled @ pieces e" "Suc i" "acc + fst (split e)"]
  show ?case unfolding p using v Cons.prems by (auto simp: t add.assoc)
qed

lemma pass_result_full:
  assumes "\<not> bug" and "valid_entries t = pre @ post @ settled" and "length pre = i"
    and "nr_entries t \<le> length (entries t)"
    and "\<forall>e \<in> set post. nowrap e" and "\<forall>e \<in> set settled. nowrap e \<and> split e = (0, e, [])"
  shows "\<exists>t' rest. pass i acc t = Some (acc + sum_list (map (fst \<circ> split) post), t') \<and>
    valid_entries t' = pre @ map remainder post @ settled @ rest \<and>
    mset rest \<subseteq># mset (concat (map pieces post)) \<and>
    nr_entries t \<le> nr_entries t' \<and> nr_entries t' \<le> length (entries t') \<and>
    length (entries t') = length (entries t)"
  using assms(2-)
proof (induction post arbitrary: pre i t settled acc)
  case Nil
  then have "pass i acc t = Some (acc, t)"
    by (intro pass_settled[OF assms(1), where pre = pre and post = settled]) auto
  then show ?case using Nil by (intro exI[of _ t] exI[of _ "[]"]) simp
next
  case (Cons e post)
  note nr = Cons.prems(3)
  let ?t = "set_entry (foldl add_entry t (pieces e)) i (remainder e)"
  from add_entries_some[OF nr, of "pieces e"] obtain bs where
    bs: "mset bs \<subseteq># mset (pieces e)" and v: "valid_entries (foldl add_entry t (pieces e)) = valid_entries t @ bs"
    and n: "nr_entries (foldl add_entry t (pieces e)) = nr_entries t + length bs"
    and room: "nr_entries t + length bs \<le> length (entries t)" by blast
  have i: "i < nr_entries t" and e: "entries t ! i = e"
    using valid_entries_at[of t pre e "post @ settled"] Cons.prems(1,2) nr by simp_all
  have v': "valid_entries ?t = (pre @ [remainder e]) @ post @ (settled @ bs)"
    using i room Cons.prems(1,2) by (subst valid_set_entry) (auto simp: v n)
  have "step i t = (fst (split e), ?t)"
    using step_split[OF assms(1) i nr] split_eq[of e] e Cons.prems(4) by simp
  then have p: "pass i acc t = pass (Suc i) (acc + fst (split e)) ?t"
    using i nr by (subst pass_unfold) simp
  have "set bs \<subseteq> set (pieces e)" using set_mset_mono[OF bs] by simp
  then have "\<forall>a \<in> set (settled @ bs). nowrap a \<and> split a = (0, a, [])"
    using Cons.prems(4,5) split_settled[OF assms(1) _ split_eq[of e]]
      split_nowrap[OF assms(1) _ split_eq[of e]] by auto
  with Cons.IH[OF v', of "Suc i" "acc + fst (split e)"] obtain t' rest where
    "pass (Suc i) (acc + fst (split e)) ?t =
      Some (acc + fst (split e) + sum_list (map (fst \<circ> split) post), t')"
    "valid_entries t' = pre @ map remainder (e # post) @ settled @ bs @ rest"
    "mset rest \<subseteq># mset (concat (map pieces post))"
    "nr_entries t \<le> nr_entries t'" "nr_entries t' \<le> length (entries t')"
    "length (entries t') = length (entries t)"
    using Cons.prems room by (auto simp: n o_def)
  then show ?case unfolding p using bs
    by (intro exI[of _ t'] exI[of _ "bs @ rest"]) (simp add: add.assoc subset_mset.add_mono o_def)
qed

lemma pieces_types:
  assumes "\<not> bug" and "\<forall>e \<in> set es. nowrap e"
  shows "types_at (map remainder es @ concat (map pieces es)) x = retyped (retype x) (types_at es x)"
  using assms(2)
proof (induction es)
  case Nil
  then show ?case by simp
next
  case (Cons e es)
  from Cons.prems have "types_at (remainder e # pieces e) x = retyped (retype x) (types_at [e] x)"
    using split_types[OF assms(1) _ split_eq] by simp
  moreover have "types_at (e # es) x = types_at [e] x + types_at es x"
    by (simp add: types_at_def)
  ultimately show ?case using Cons by (simp add: types_at_regroup)
qed

lemma pieces_nowrap:
  "\<not> bug \<Longrightarrow> \<forall>e \<in> set es. nowrap e \<Longrightarrow>
   p \<in> set (map remainder es @ concat (map pieces es)) \<Longrightarrow> nowrap p"
  using split_nowrap[OF _ _ split_eq] by auto

lemma total_amount:
  "\<not> bug \<Longrightarrow> \<forall>e \<in> set es. nowrap e \<Longrightarrow>
   sum_list (map (fst \<circ> split) es) = of_nat (sum_list (map amount es))"
proof (induction es)
  case (Cons e es)
  then have "unat (fst (split e)) = amount e" using split_amount[OF _ _ split_eq] by simp
  then have "of_nat (amount e) = fst (split e)" by (metis of_nat_unat ucast_id)
  with Cons show ?case by simp
qed simp

lemma pass_safe:
  assumes "\<not> bug" and "\<forall>e \<in> set (valid_entries t). nowrap e"
    and "nr_entries t \<le> length (entries t)"
  shows "\<exists>t'. pass 0 0 t = Some (of_nat (sum_list (map amount (valid_entries t))), t') \<and>
    (\<forall>x. types_at (valid_entries t') x \<subseteq># retyped (retype x) (types_at (valid_entries t) x)) \<and>
    (\<forall>e \<in> set (valid_entries t'). nowrap e) \<and>
    nr_entries t \<le> nr_entries t' \<and> nr_entries t' \<le> length (entries t') \<and>
    length (entries t') = length (entries t)"
proof -
  let ?es = "valid_entries t"
  from pass_result_full[OF assms(1) _ _ assms(3,2), of "[]" "[]" 0 0] obtain t' rest where
    t': "pass 0 0 t = Some (sum_list (map (fst \<circ> split) ?es), t')"
    "valid_entries t' = map remainder ?es @ rest"
    "nr_entries t \<le> nr_entries t'" "nr_entries t' \<le> length (entries t')"
    "length (entries t') = length (entries t)"
    and r: "mset rest \<subseteq># mset (concat (map pieces ?es))"
    by auto
  have "set rest \<subseteq> set (concat (map pieces ?es))" using set_mset_mono[OF r] by simp
  then have "\<forall>e \<in> set (valid_entries t'). nowrap e"
    using pieces_nowrap[OF assms(1,2)] unfolding t'(2) by auto
  moreover have "types_at (valid_entries t') x \<subseteq># retyped (retype x) (types_at ?es x)" for x
    using types_at_mono[of "map remainder ?es @ rest" "map remainder ?es @ concat (map pieces ?es)" x] r
    unfolding t'(2) pieces_types[OF assms(1,2), symmetric] by simp
  ultimately show ?thesis
    using total_amount[OF assms(1,2)] t' by (intro exI[of _ t']) simp
qed

lemma pass_correct:
  assumes "\<not> bug" and "\<forall>e \<in> set (valid_entries t). nowrap e"
    and "nr_entries t + length (concat (map pieces (valid_entries t))) \<le> length (entries t)"
  shows "\<exists>t'. pass 0 0 t = Some (of_nat (sum_list (map amount (valid_entries t))), t') \<and>
    (\<forall>x. types_at (valid_entries t') x = retyped (retype x) (types_at (valid_entries t) x)) \<and>
    (\<forall>e \<in> set (valid_entries t'). nowrap e) \<and>
    nr_entries t' = nr_entries t + length (concat (map pieces (valid_entries t))) \<and>
    length (entries t') = length (entries t)"
proof -
  from pass_result[OF assms(1) _ _ assms(3,2), of "[]" "[]" 0 0] obtain t' where
    "pass 0 0 t = Some (sum_list (map (fst \<circ> split) (valid_entries t)), t')"
    and v: "valid_entries t' = map remainder (valid_entries t) @ concat (map pieces (valid_entries t))"
    and "nr_entries t' = nr_entries t + length (concat (map pieces (valid_entries t)))"
    and "length (entries t') = length (entries t)"
    by auto
  then show ?thesis
    using total_amount[OF assms(1,2)] pieces_types[OF assms(1,2)] pieces_nowrap[OF assms(1,2)]
    by (intro exI[of _ t']) (simp add: v)
qed

end

subsection \<open>Updating and removing split an entry\<close>

definition range_len :: "u64 \<Rightarrow> u64 \<Rightarrow> u64" where
  "range_len start size0 = (if size0 > ULLONG_MAX - start then ULLONG_MAX - start else size0)"

text \<open>The first address after a range, which saturates at the largest address.\<close>

definition range_stop :: "u64 \<Rightarrow> u64 \<Rightarrow> u64" where
  "range_stop start size0 = start + range_len start size0"

definition entry_end :: "e820_entry \<Rightarrow> u64" where
  "entry_end e = e_addr e + e_size e"

text \<open>
  What one iteration does to an entry whose type is selected: the part inside the range gets
  the type \<open>hit\<close>, or is dropped when \<open>hit\<close> is \<open>None\<close>. The result is the size handled, the entry
  that stays at its index and the entries that are appended.
\<close>

definition hit_range :: "u32 option \<Rightarrow> u64 \<Rightarrow> u64 \<Rightarrow> e820_entry list" where
  "hit_range hit a b = (case hit of None \<Rightarrow> [] | Some ty \<Rightarrow> [mk_entry a (b - a) ty])"

definition split_entry ::
  "u64 \<Rightarrow> u64 \<Rightarrow> (u32 \<Rightarrow> bool) \<Rightarrow> u32 option \<Rightarrow> e820_entry \<Rightarrow> u64 \<times> e820_entry \<times> e820_entry list" where
  "split_entry start stop sel hit e =
     (let a = e_addr e; b = entry_end e; ty = e_type e in
      if \<not> sel ty then (0, e, [])
      else if start \<le> a \<and> b \<le> stop
      then (e_size e, (case hit of None \<Rightarrow> mk_entry 0 0 0 | Some ty' \<Rightarrow> e\<lparr>e_type := ty'\<rparr>), [])
      else if a < start \<and> stop < b
      then (stop - start, mk_entry a (start - a) ty,
            hit_range hit start stop @ [mk_entry stop (b - stop) ty])
      else if min stop b \<le> max start a then (0, e, [])
      else if a < start then (b - start, mk_entry a (start - a) ty, hit_range hit start b)
      else (stop - a, mk_entry stop (b - stop) ty, hit_range hit a stop))"

lemma unat_ULLONG_MAX_diff: "unat (ULLONG_MAX - start) = 2 ^ 64 - 1 - unat start"
  by (subst unat_diff_le) (simp_all add: unsigned_minus_1_eq_mask mask_eq_exp_minus_1)

lemma unat_range_stop: "unat (range_stop start size0) = min (unat start + unat size0) (2 ^ 64 - 1)"
proof -
  have "unat start < 2 ^ 64" using unsigned_less[of start] by simp
  then show ?thesis
    unfolding range_stop_def range_len_def
    by (subst unat_add_lem[THEN iffD1]) (auto simp: word_less_nat_alt unat_ULLONG_MAX_diff)
qed

lemma range_stop_ge: "start \<le> range_stop start size0"
proof -
  have "unat start < 2 ^ 64" using unsigned_less[of start] by simp
  then show ?thesis by (simp add: word_le_nat_alt unat_range_stop)
qed

lemma mk_entry_sel [simp]:
  "e_addr (mk_entry a s ty) = a" "e_size (mk_entry a s ty) = s" "e_type (mk_entry a s ty) = ty"
  by (simp_all add: mk_entry_def)

lemma entry_end_mk [simp]: "entry_end (mk_entry a (b - a) ty) = b"
  by (simp add: entry_end_def)

lemma nowrap_mk [simp]: "a \<le> b \<Longrightarrow> nowrap (mk_entry a (b - a) ty)"
  by (simp add: nowrap_def)

lemma covers_nowrap: "nowrap e \<Longrightarrow> covers e x \<longleftrightarrow> e_addr e \<le> x \<and> x < entry_end e"
  by (simp add: covers_def entry_end_def word_le_nat_alt word_less_nat_alt nowrap_end)

lemma covers_mk [simp]: "a \<le> b \<Longrightarrow> covers (mk_entry a (b - a) ty) x \<longleftrightarrow> a \<le> x \<and> x < b"
  using covers_nowrap[OF nowrap_mk, of a b ty x] by simp

lemma nowrap_le: "nowrap e \<longleftrightarrow> e_addr e \<le> entry_end e"
  by (simp add: nowrap_def entry_end_def not_less)

lemma entry_eq: "e = mk_entry (e_addr e) (entry_end e - e_addr e) (e_type e)"
  by (simp add: mk_entry_def entry_end_def)

lemma entry_type_update [simp]:
  "entry_end (e\<lparr>e_type := ty\<rparr>) = entry_end e" "nowrap (e\<lparr>e_type := ty\<rparr>) = nowrap e"
  "covers (e\<lparr>e_type := ty\<rparr>) x = covers e x"
  by (simp_all add: entry_end_def nowrap_def covers_def)

lemma covers_empty [simp]: "\<not> covers (mk_entry a 0 ty) x"
  by (simp add: covers_def)

text \<open>How an entry from \<open>a\<close> to \<open>b\<close> can lie relative to the range from \<open>start\<close> to \<open>stop\<close>.\<close>

lemma region_cases [consumes 2, case_names inside spans apart low high]:
  fixes a b start stop :: "'a::linorder"
  assumes "a \<le> b" "start \<le> stop"
  obtains (inside) "start \<le> a" "b \<le> stop"
  | (spans) "a < start" "stop < b"
  | (apart) "\<not> (start \<le> a \<and> b \<le> stop)" "\<not> (a < start \<and> stop < b)" "min stop b \<le> max start a"
  | (low) "a < start" "start < b" "b \<le> stop"
  | (high) "start \<le> a" "a < stop" "stop < b"
  using assms by (cases "a < start"; cases "stop < b"; cases "min stop b \<le> max start a")
    (auto simp: min_def max_def not_less split: if_splits)

lemma low_region:
  fixes a b start stop :: "'a::linorder"
  assumes "a < start" "start < b" "b \<le> stop"
  shows "\<not> start \<le> a" "\<not> stop < b" "\<not> b \<le> start" "max start a = start" "min stop b = b"
  using assms by (auto simp: min_def max_def)

lemma high_region:
  fixes a b start stop :: "'a::linorder"
  assumes "start \<le> a" "a < stop" "stop < b"
  shows "\<not> a < start" "\<not> b \<le> stop" "\<not> stop \<le> a" "max start a = a" "min stop b = stop"
  using assms by (auto simp: min_def max_def)

lemma apart_disjoint:
  fixes a b start stop :: "'a::linorder"
  assumes "min stop b \<le> max start a"
  shows "\<not> (a \<le> x \<and> x < b \<and> start \<le> x \<and> x < stop)"
  using assms by (auto simp: min_def max_def split: if_splits)

lemma split_entry_cases [consumes 3, case_names other inside spans apart low high]:
  assumes "nowrap e" "start \<le> stop" "split_entry start stop sel hit e = (n, e', as)"
  obtains (other) "\<not> sel (e_type e)" "n = 0" "e' = e" "as = []"
  | (inside) "sel (e_type e)" "start \<le> e_addr e" "entry_end e \<le> stop" "n = e_size e"
      "e' = (case hit of None \<Rightarrow> mk_entry 0 0 0 | Some ty \<Rightarrow> e\<lparr>e_type := ty\<rparr>)" "as = []"
  | (spans) "sel (e_type e)" "e_addr e < start" "stop < entry_end e" "n = stop - start"
      "e' = mk_entry (e_addr e) (start - e_addr e) (e_type e)"
      "as = hit_range hit start stop @ [mk_entry stop (entry_end e - stop) (e_type e)]"
  | (apart) "sel (e_type e)" "\<not> (start \<le> e_addr e \<and> entry_end e \<le> stop)"
      "\<not> (e_addr e < start \<and> stop < entry_end e)"
      "min stop (entry_end e) \<le> max start (e_addr e)" "n = 0" "e' = e" "as = []"
  | (low) "sel (e_type e)" "e_addr e < start" "start < entry_end e" "entry_end e \<le> stop"
      "n = entry_end e - start" "e' = mk_entry (e_addr e) (start - e_addr e) (e_type e)"
      "as = hit_range hit start (entry_end e)"
  | (high) "sel (e_type e)" "start \<le> e_addr e" "e_addr e < stop" "stop < entry_end e"
      "n = stop - e_addr e" "e' = mk_entry stop (entry_end e - stop) (e_type e)"
      "as = hit_range hit (e_addr e) stop"
proof (cases "sel (e_type e)")
  case False
  show thesis by (rule that(1)) (use False assms(3) in \<open>auto simp: split_entry_def\<close>)
next
  case True
  note eq = assms(3)[unfolded split_entry_def Let_def]
  have "e_addr e \<le> entry_end e" using assms(1) by (simp add: nowrap_le)
  from this assms(2) show thesis
  proof (cases rule: region_cases)
    case inside
    show thesis by (rule that(2)) (use inside True eq in auto)
  next
    case spans
    then have "\<not> start \<le> e_addr e" by simp
    then show thesis by (intro that(3)) (use spans True eq in auto)
  next
    case apart
    then show thesis by (intro that(4)) (use True eq in \<open>auto split: if_splits\<close>)
  next
    case low
    then show thesis by (intro that(5)) (use low_region[OF low] True eq in auto)
  next
    case high
    then show thesis by (intro that(6)) (use high_region[OF high] True eq in auto)
  qed
qed

definition unselected :: "(u32 \<Rightarrow> bool) \<Rightarrow> u32 option \<Rightarrow> bool" where
  "unselected sel hit \<longleftrightarrow> (\<forall>ty. hit = Some ty \<longrightarrow> \<not> sel ty)"

definition retype_range :: "u64 \<Rightarrow> u64 \<Rightarrow> (u32 \<Rightarrow> bool) \<Rightarrow> u32 option \<Rightarrow> u64 \<Rightarrow> u32 \<Rightarrow> u32 option" where
  "retype_range start stop sel hit x ty =
     (if sel ty \<and> start \<le> x \<and> x < stop then hit else Some ty)"

text \<open>The number of addresses of an entry that lie in the range.\<close>

definition overlap_size :: "u64 \<Rightarrow> u64 \<Rightarrow> (u32 \<Rightarrow> bool) \<Rightarrow> e820_entry \<Rightarrow> nat" where
  "overlap_size start stop sel e =
     (if sel (e_type e)
      then min (unat stop) (unat (e_addr e) + unat (e_size e)) - max (unat start) (unat (e_addr e))
      else 0)"

lemma types_at_hit_range:
  "a \<le> b \<Longrightarrow> types_at (hit_range hit a b) x =
     (if a \<le> x \<and> x < b then (case hit of None \<Rightarrow> {#} | Some ty \<Rightarrow> {#ty#}) else {#})"
  by (cases hit) (simp_all add: hit_range_def types_at_Cons)

lemma hit_range_nowrap: "a \<le> b \<Longrightarrow> p \<in> set (hit_range hit a b) \<Longrightarrow> nowrap p"
  by (auto simp: hit_range_def split: option.splits)

lemma retyped_single: "retyped f {#ty#} = (case f ty of None \<Rightarrow> {#} | Some ty' \<Rightarrow> {#ty'#})"
  by (auto simp: retyped_def split: option.splits)

lemma split_entry_types:
  assumes "nowrap e" "start \<le> stop" "split_entry start stop sel hit e = (n, e', as)"
  shows "types_at (e' # as) x = retyped (retype_range start stop sel hit x) (types_at [e] x)"
  using assms(1-3)
proof (cases rule: split_entry_cases)
  case other
  then show ?thesis by (simp add: types_at_Cons retyped_single retype_range_def)
next
  case inside
  then have "covers e x \<Longrightarrow> start \<le> x \<and> x < stop" using assms(1) by (auto simp: covers_nowrap)
  with inside show ?thesis
    by (auto simp: types_at_Cons retyped_single retype_range_def split: option.splits)
next
  case spans
  have "covers e x \<longleftrightarrow> e_addr e \<le> x \<and> x < entry_end e" using assms(1) by (rule covers_nowrap)
  with spans show ?thesis using assms(2)
    by (auto simp: types_at_Cons types_at_hit_range retyped_single retype_range_def)
next
  case apart
  have "covers e x \<Longrightarrow> \<not> (start \<le> x \<and> x < stop)"
    using apart_disjoint[OF apart(4), of x] assms(1) by (simp add: covers_nowrap)
  with apart show ?thesis by (auto simp: types_at_Cons retyped_single retype_range_def)
next
  case low
  have "covers e x \<longleftrightarrow> e_addr e \<le> x \<and> x < entry_end e" using assms(1) by (rule covers_nowrap)
  with low show ?thesis
    by (auto simp: types_at_Cons types_at_hit_range retyped_single retype_range_def)
next
  case high
  have "covers e x \<longleftrightarrow> e_addr e \<le> x \<and> x < entry_end e" using assms(1) by (rule covers_nowrap)
  with high show ?thesis
    by (auto simp: types_at_Cons types_at_hit_range retyped_single retype_range_def)
qed

lemma split_entry_nowrap:
  assumes "nowrap e" "start \<le> stop" "split_entry start stop sel hit e = (n, e', as)"
    "p \<in> set (e' # as)"
  shows "nowrap p"
  using assms(1-3)
proof (cases rule: split_entry_cases)
  case inside
  then show ?thesis using assms(1,4) by (auto simp: nowrap_le[of "mk_entry 0 0 0"] split: option.splits)
qed (use assms in \<open>auto dest: hit_range_nowrap[rotated]\<close>)

lemma unselected_settled:
  "unselected sel hit \<Longrightarrow> p \<in> set (hit_range hit a b) \<Longrightarrow> split_entry start stop sel hit p = (0, p, [])"
  by (auto simp: unselected_def hit_range_def split_entry_def Let_def split: option.splits)

lemma split_entry_settled:
  assumes "unselected sel hit" "nowrap e" "start \<le> stop"
    "split_entry start stop sel hit e = (n, e', as)" "p \<in> set as"
  shows "split_entry start stop sel hit p = (0, p, [])"
  using assms(2-4)
proof (cases rule: split_entry_cases)
  case spans
  have "split_entry start stop sel hit (mk_entry stop (entry_end e - stop) (e_type e)) =
      (0, mk_entry stop (entry_end e - stop) (e_type e), [])"
    using spans(3) assms(3) by (auto simp: split_entry_def Let_def)
  then show ?thesis using spans(6) assms(5) unselected_settled[OF assms(1)] by auto
qed (use assms(5) unselected_settled[OF assms(1)] in auto)

lemma split_entry_amount:
  assumes "nowrap e" "start \<le> stop" "split_entry start stop sel hit e = (n, e', as)"
  shows "unat n = overlap_size start stop sel e"
proof -
  have E: "unat (e_addr e) + unat (e_size e) = unat (entry_end e)"
    using nowrap_end[OF assms(1)] by (simp add: entry_end_def)
  note le = word_le_nat_alt word_less_nat_alt
  from assms show ?thesis
  proof (cases rule: split_entry_cases)
    case inside
    then show ?thesis using E by (simp add: overlap_size_def le)
  next
    case apart
    then show ?thesis by (auto simp: overlap_size_def E le unat_min unat_max min_def max_def split: if_splits)
  qed (use assms(2) E in \<open>auto simp: overlap_size_def E le unat_diff_le\<close>)
qed

subsection \<open>Both operations are such passes\<close>

lemma entry_size_update [simp]: "e\<lparr>e_size := z\<rparr> = mk_entry (e_addr e) z (e_type e)"
  by (simp add: mk_entry_def)

lemma mk_entry_update [simp]:
  "(mk_entry a z ty)\<lparr>e_addr := b\<rparr> = mk_entry b z ty"
  by (simp_all add: mk_entry_def)

lemma size_minus [simp]:
  "e_size e - (entry_end e - a) = a - e_addr e" "e_size e - (a - e_addr e) = entry_end e - a"
  by (simp_all add: entry_end_def algebra_simps)

lemma update_step_split:
  assumes "start \<le> stop" "nowrap (entries t ! i)"
    "split_entry start stop (\<lambda>ty. ty = old) (Some new) (entries t ! i) = (n, e', as)"
  shows "range_update_step start (stop - start) stop old new i t
    = (n, set_entry (foldl add_entry t as) i e')"
  using assms(2,1,3)
proof (cases rule: split_entry_cases)
  case other
  then show ?thesis by (simp add: range_update_step_def Let_def)
next
  case inside
  then show ?thesis by (simp add: range_update_step_def Let_def entry_end_def)
next
  case spans
  then have "\<not> start \<le> e_addr (entries t ! i)" by simp
  with spans show ?thesis
    by (simp add: range_update_step_def Let_def entry_end_def[symmetric] hit_range_def add_entry_def)
next
  case apart
  then show ?thesis
    unfolding range_update_step_def Let_def entry_end_def[symmetric] by (auto split: if_splits)
next
  case low
  with low_region[OF low(2-4)] show ?thesis
    by (simp add: range_update_step_def Let_def entry_end_def[symmetric] hit_range_def add_entry_def)
next
  case high
  with high_region[OF high(2-4)] show ?thesis
    by (simp add: range_update_step_def Let_def entry_end_def[symmetric] hit_range_def add_entry_def)
qed

lemma remove_step_split:
  assumes "start \<le> stop" "nowrap (entries t ! i)"
    "split_entry start stop (\<lambda>ty. chk \<longrightarrow> ty = old) None (entries t ! i) = (n, e', as)"
  shows "range_remove_step start (stop - start) stop old chk i t
    = (n, set_entry (foldl add_entry t as) i e')"
  using assms(2,1,3)
proof (cases rule: split_entry_cases)
  case other
  then show ?thesis by (auto simp: range_remove_step_def Let_def)
next
  case inside
  then show ?thesis by (auto simp: range_remove_step_def Let_def entry_end_def)
next
  case spans
  then have "\<not> start \<le> e_addr (entries t ! i)" by simp
  with spans show ?thesis
    by (auto simp: range_remove_step_def Let_def entry_end_def[symmetric] hit_range_def add_entry_def)
next
  case apart
  then show ?thesis
    unfolding range_remove_step_def Let_def entry_end_def[symmetric] by (auto split: if_splits)
next
  case low
  with low_region[OF low(2-4)] show ?thesis
    by (auto simp: range_remove_step_def Let_def entry_end_def[symmetric] hit_range_def add_entry_def)
next
  case high
  with high_region[OF high(2-4)] show ?thesis
    by (auto simp: range_remove_step_def Let_def entry_end_def[symmetric] hit_range_def add_entry_def)
qed

interpretation update_pass: range_pass
  "old = new"
  "\<lambda>i acc t. range_update_loop i start (range_len start size0) (range_stop start size0) old new acc t"
  "range_update_step start (range_len start size0) (range_stop start size0) old new"
  "split_entry start (range_stop start size0) (\<lambda>ty. ty = old) (Some new)"
  "retype_range start (range_stop start size0) (\<lambda>ty. ty = old) (Some new)"
  "overlap_size start (range_stop start size0) (\<lambda>ty. ty = old)"
  for start size0 old new
proof unfold_locales
  fix i acc and t :: e820_table
  show "range_update_loop i start (range_len start size0) (range_stop start size0) old new acc t = 
    (if i \<ge> nr_entries t then Some (acc, t) else if i \<ge> length (entries t) then None
     else range_update_loop (i + 1) start (range_len start size0) (range_stop start size0) old new
       (acc + fst (range_update_step start (range_len start size0) (range_stop start size0) old new i t))
       (snd (range_update_step start (range_len start size0) (range_stop start size0) old new i t)))"
    by (subst range_update_loop.simps) (simp add: Let_def)
next
  fix i n e' as and t :: e820_table
  assume "nowrap (entries t ! i)"
    "split_entry start (range_stop start size0) (\<lambda>ty. ty = old) (Some new) (entries t ! i) = (n, e', as)"
  from update_step_split[OF range_stop_ge this] show
    "range_update_step start (range_len start size0) (range_stop start size0) old new i t =
      (n, set_entry (foldl add_entry t as) i e')"
    by (simp add: range_stop_def)
qed (auto intro: split_entry_settled split_entry_types split_entry_nowrap split_entry_amount
      range_stop_ge simp: unselected_def)

interpretation remove_pass: range_pass
  False
  "\<lambda>i acc t. range_remove_loop i start (range_len start size0) (range_stop start size0) old chk acc t"
  "range_remove_step start (range_len start size0) (range_stop start size0) old chk"
  "split_entry start (range_stop start size0) (\<lambda>ty. chk \<longrightarrow> ty = old) None"
  "retype_range start (range_stop start size0) (\<lambda>ty. chk \<longrightarrow> ty = old) None"
  "overlap_size start (range_stop start size0) (\<lambda>ty. chk \<longrightarrow> ty = old)"
  for start size0 old chk
proof unfold_locales
  fix i acc and t :: e820_table
  show "range_remove_loop i start (range_len start size0) (range_stop start size0) old chk acc t = 
    (if i \<ge> nr_entries t then Some (acc, t) else if i \<ge> length (entries t) then None
     else range_remove_loop (i + 1) start (range_len start size0) (range_stop start size0) old chk
       (acc + fst (range_remove_step start (range_len start size0) (range_stop start size0) old chk i t))
       (snd (range_remove_step start (range_len start size0) (range_stop start size0) old chk i t)))"
    by (subst range_remove_loop.simps) (simp add: Let_def)
next
  fix i n e' as and t :: e820_table
  assume "nowrap (entries t ! i)"
    "split_entry start (range_stop start size0) (\<lambda>ty. chk \<longrightarrow> ty = old) None (entries t ! i) = (n, e', as)"
  from remove_step_split[OF range_stop_ge this] show
    "range_remove_step start (range_len start size0) (range_stop start size0) old chk i t =
      (n, set_entry (foldl add_entry t as) i e')"
    by (simp add: range_stop_def)
qed (auto intro: split_entry_settled split_entry_types split_entry_nowrap split_entry_amount
      range_stop_ge simp: unselected_def)

text \<open>The entries a pass appends, which is the room the table must have.\<close>

definition range_growth :: "u64 \<Rightarrow> u64 \<Rightarrow> (u32 \<Rightarrow> bool) \<Rightarrow> u32 option \<Rightarrow> e820_entry list \<Rightarrow> nat" where
  "range_growth start size0 sel hit es =
     length (concat (map (\<lambda>e. snd (snd (split_entry start (range_stop start size0) sel hit e))) es))"

lemma range_growth_le: "range_growth start size0 sel hit es \<le> (if hit = None then 1 else 2) * length es"
proof -
  have "length (snd (snd (split_entry start stop sel hit e))) \<le> (if hit = None then 1 else 2)" for stop e
    by (cases hit) (auto simp: split_entry_def Let_def hit_range_def)
  then show ?thesis
    unfolding range_growth_def by (induction es) (auto simp: add_mono)
qed

lemma retyped_Some: "retyped (\<lambda>ty. Some (f ty)) M = image_mset f M"
  by (simp add: retyped_def)

lemma retyped_None: "retyped (\<lambda>ty. if P ty then None else Some ty) M = filter_mset (\<lambda>ty. \<not> P ty) M"
  by (induction M) (auto simp: retyped_def)

text \<open>
  C3: updating a range from one type to another changes exactly the types it should: at
  every address inside the range each record of the old type becomes one of the new type,
  every other record at every address stays, and the returned size is the number of
  addresses changed, summed over the entries. It needs no fuel, and the table only has to
  have room for the entries that are split.
\<close>

theorem range_update_retypes:
  assumes "old \<noteq> new" and "\<forall>e \<in> set (valid_entries t). nowrap e"
    and "nr_entries t + range_growth start size0 (\<lambda>ty. ty = old) (Some new) (valid_entries t)
      \<le> length (entries t)"
  shows "\<exists>t'. tab_e820__range_update t start size0 old new = Some (of_nat
      (\<Sum>e\<leftarrow>valid_entries t. overlap_size start (range_stop start size0) (\<lambda>ty. ty = old) e), t') \<and>
    (\<forall>x. types_at (valid_entries t') x =
      image_mset (\<lambda>ty. if ty = old \<and> start \<le> x \<and> x < range_stop start size0 then new else ty)
        (types_at (valid_entries t) x)) \<and>
    (\<forall>e \<in> set (valid_entries t'). nowrap e)"
proof -
  have r: "retype_range start stop (\<lambda>ty. ty = old) (Some new) x =
      (\<lambda>ty. Some (if ty = old \<and> start \<le> x \<and> x < stop then new else ty))" for stop x
    by (auto simp: retype_range_def)
  have "update_pass.pieces start size0 old new =
      (\<lambda>e. snd (snd (split_entry start (range_stop start size0) (\<lambda>ty. ty = old) (Some new) e)))"
    by (rule ext) (rule update_pass.pieces_def)
  with update_pass.pass_correct[OF assms(1,2), of start size0] assms(1,3) show ?thesis
    by (auto simp: tab_e820__range_update_def Let_def range_growth_def
        range_len_def[symmetric] range_stop_def[symmetric] r retyped_Some)
qed

lemma range_update_full:
  assumes "old \<noteq> new" and "\<forall>e \<in> set (valid_entries t). nowrap e"
    and "nr_entries t \<le> length (entries t)"
  shows "\<exists>n t'. tab_e820__range_update t start size0 old new = Some (n, t') \<and>
    (\<forall>x. types_at (valid_entries t') x \<subseteq>#
      image_mset (\<lambda>ty. if ty = old \<and> start \<le> x \<and> x < range_stop start size0 then new else ty)
        (types_at (valid_entries t) x)) \<and>
    (\<forall>e \<in> set (valid_entries t'). nowrap e) \<and>
    nr_entries t \<le> nr_entries t' \<and> nr_entries t' \<le> length (entries t') \<and>
    length (entries t') = length (entries t)"
proof -
  have r: "retype_range start stop (\<lambda>ty. ty = old) (Some new) x =
      (\<lambda>ty. Some (if ty = old \<and> start \<le> x \<and> x < stop then new else ty))" for stop x
    by (auto simp: retype_range_def)
  from update_pass.pass_safe[OF assms(1-3), of start size0] assms(1) show ?thesis
    by (auto simp: tab_e820__range_update_def Let_def
        range_len_def[symmetric] range_stop_def[symmetric] r retyped_Some)
qed

text \<open>
  When the table has no room for the split entries the update still succeeds and is
  safe: records may be lost, but no address gets a record it should not have. In particular
  no record of the old type survives inside the range.
\<close>

theorem range_update_full_is_safe:
  assumes "old \<noteq> new" and "\<forall>e \<in> set (valid_entries t). nowrap e"
    and "nr_entries t \<le> length (entries t)"
  shows "\<exists>n t'. tab_e820__range_update t start size0 old new = Some (n, t') \<and>
    (\<forall>x. types_at (valid_entries t') x \<subseteq>#
      image_mset (\<lambda>ty. if ty = old \<and> start \<le> x \<and> x < range_stop start size0 then new else ty)
        (types_at (valid_entries t) x)) \<and>
    (\<forall>x. start \<le> x \<and> x < range_stop start size0 \<longrightarrow> old \<notin># types_at (valid_entries t') x)"
proof -
  obtain n t' where t': "tab_e820__range_update t start size0 old new = Some (n, t')"
    and s: "\<And>x. types_at (valid_entries t') x \<subseteq>#
      image_mset (\<lambda>ty. if ty = old \<and> start \<le> x \<and> x < range_stop start size0 then new else ty)
        (types_at (valid_entries t) x)"
    using range_update_full[OF assms, of start size0] by blast
  have "old \<notin># types_at (valid_entries t') x" if "start \<le> x" "x < range_stop start size0" for x
    using mset_subset_eqD[OF s[of x], of old] that assms(1) by (auto split: if_splits)
  then show ?thesis using t' s by auto
qed

text \<open>A full table: the update splits its entry and has room for neither of the new ones.\<close>

theorem range_update_full_is_safe_witness:
  "\<exists>n t'. tab_e820__range_update \<lparr>nr_entries = 1, entries = [mk_entry 0 0x3000 1]\<rparr> 0x1000 0x1000 1 2 = Some (n, t') \<and>
    (\<forall>x. types_at (valid_entries t') x \<subseteq>#
      image_mset (\<lambda>ty. if ty = 1 \<and> 0x1000 \<le> x \<and> x < range_stop 0x1000 0x1000 then 2 else ty)
        (types_at (valid_entries \<lparr>nr_entries = 1, entries = [mk_entry 0 0x3000 1]\<rparr>) x)) \<and>
    (\<forall>x. 0x1000 \<le> x \<and> x < range_stop 0x1000 0x1000 \<longrightarrow> 1 \<notin># types_at (valid_entries t') x)"
proof (rule range_update_full_is_safe)
  show "\<forall>e \<in> set (valid_entries \<lparr>nr_entries = 1, entries = [mk_entry 0 0x3000 1]\<rparr>). nowrap e" by code_simp
qed simp_all

text \<open>
  C4: removing a range deletes exactly the records inside it that have the given type (or
  any type, when the type is not checked) and keeps every other record at every address;
  the returned size is the number of addresses removed, summed over the entries.
\<close>

theorem range_remove_clears:
  assumes "\<forall>e \<in> set (valid_entries t). nowrap e"
    and "nr_entries t + range_growth start size0 (\<lambda>ty. chk \<longrightarrow> ty = old) None (valid_entries t)
      \<le> length (entries t)"
  shows "\<exists>t'. tab_e820__range_remove t start size0 old chk = Some (of_nat
      (\<Sum>e\<leftarrow>valid_entries t. overlap_size start (range_stop start size0)
         (\<lambda>ty. chk \<longrightarrow> ty = old) e), t') \<and>
    (\<forall>x. types_at (valid_entries t') x =
      filter_mset (\<lambda>ty. \<not> ((chk \<longrightarrow> ty = old) \<and> start \<le> x \<and> x < range_stop start size0))
        (types_at (valid_entries t) x)) \<and>
    (\<forall>e \<in> set (valid_entries t'). nowrap e)"
proof -
  have r: "retype_range start stop (\<lambda>ty. chk \<longrightarrow> ty = old) None x =
      (\<lambda>ty. if (chk \<longrightarrow> ty = old) \<and> start \<le> x \<and> x < stop then None else Some ty)" for stop x
    by (auto simp: retype_range_def)
  have "remove_pass.pieces start size0 chk old =
      (\<lambda>e. snd (snd (split_entry start (range_stop start size0) (\<lambda>ty. chk \<longrightarrow> ty = old) None e)))"
    by (rule ext) (rule remove_pass.pieces_def)
  with remove_pass.pass_correct[OF _ assms(1), of start size0 chk old] assms(2) show ?thesis
    by (auto simp: tab_e820__range_remove_def Let_def range_growth_def
        range_len_def[symmetric] range_stop_def[symmetric] r retyped_None)
qed

definition range_example :: e820_table where
  "range_example = \<lparr>nr_entries = 2, entries =
     [mk_entry 0 0x1000 1, mk_entry 0x2000 0x1000 1, mk_entry 0 0 0, mk_entry 0 0 0, mk_entry 0 0 0]\<rparr>"

theorem range_update_retypes_witness:
  "nr_entries range_example + range_growth 0x400 0x2000 (\<lambda>ty. ty = 1) (Some 2) (valid_entries range_example)
     \<le> length (entries range_example) \<and>
   (\<exists>t'. tab_e820__range_update range_example 0x400 0x2000 1 2 = Some (of_nat
      (\<Sum>e\<leftarrow>valid_entries range_example. overlap_size 0x400 (range_stop 0x400 0x2000) (\<lambda>ty. ty = 1) e), t') \<and>
    (\<forall>x. types_at (valid_entries t') x =
      image_mset (\<lambda>ty. if ty = 1 \<and> 0x400 \<le> x \<and> x < range_stop 0x400 0x2000 then 2 else ty)
        (types_at (valid_entries range_example) x)) \<and>
    (\<forall>e \<in> set (valid_entries t'). nowrap e))"
proof -
  have h: "\<forall>e \<in> set (valid_entries range_example). nowrap e"
    "nr_entries range_example + range_growth 0x400 0x2000 (\<lambda>ty. ty = 1) (Some 2) (valid_entries range_example)
     \<le> length (entries range_example)"
    by code_simp+
  then show ?thesis using range_update_retypes[of 1 2 range_example "0x400" "0x2000"] by simp
qed

theorem range_remove_clears_witness:
  "nr_entries range_example + range_growth 0x400 0x800 (\<lambda>ty. True \<longrightarrow> ty = 1) None (valid_entries range_example)
     \<le> length (entries range_example) \<and>
   (\<exists>t'. tab_e820__range_remove range_example 0x400 0x800 1 True = Some (of_nat
      (\<Sum>e\<leftarrow>valid_entries range_example. overlap_size 0x400 (range_stop 0x400 0x800)
         (\<lambda>ty. True \<longrightarrow> ty = 1) e), t') \<and>
    (\<forall>x. types_at (valid_entries t') x =
      filter_mset (\<lambda>ty. \<not> ((True \<longrightarrow> ty = 1) \<and> 0x400 \<le> x \<and> x < range_stop 0x400 0x800))
        (types_at (valid_entries range_example) x)) \<and>
    (\<forall>e \<in> set (valid_entries t'). nowrap e))"
proof -
  have h: "\<forall>e \<in> set (valid_entries range_example). nowrap e"
    "nr_entries range_example + range_growth 0x400 0x800 (\<lambda>ty. True \<longrightarrow> ty = 1) None (valid_entries range_example)
     \<le> length (entries range_example)"
    by code_simp+
  then show ?thesis using range_remove_clears[of range_example "0x400" "0x800" True 1] by simp
qed

subsection \<open>Queries\<close>

definition wanted :: "u32 \<Rightarrow> e820_entry \<Rightarrow> bool" where
  "wanted ty e \<longleftrightarrow> ty = 0 \<or> e_type e = ty"

lemma sanitized_Cons:
  "sanitized (e # es) \<longleftrightarrow>
     nowrap e \<and> e_size e \<noteq> 0 \<and> e_type e \<noteq> 0 \<and> (\<forall>f \<in> set es. before e f) \<and> sanitized es"
  by (auto simp: sanitized_def)

lemma before_alt: "nowrap e \<Longrightarrow> before e f \<longleftrightarrow> entry_end e \<le> e_addr f"
  by (simp add: before_def entry_end_def word_le_nat_alt nowrap_end)

lemma nonempty_entry: "nowrap e \<Longrightarrow> e_size e \<noteq> 0 \<Longrightarrow> e_addr e < entry_end e"
  by (simp add: nowrap_le order.strict_iff_order entry_end_def)

lemma mapped_any_loop_iff:
  assumes "start < stop" "\<forall>e \<in> set es. nowrap e \<and> e_size e \<noteq> 0"
  shows "mapped_any_loop es start stop ty \<longleftrightarrow>
    (\<exists>x. start \<le> x \<and> x < stop \<and> (\<exists>e \<in> set es. wanted ty e \<and> covers e x))"
  using assms(2)
proof (induction es)
  case Nil
  then show ?case by simp
next
  case (Cons e es)
  have lt: "e_addr e < entry_end e" using Cons.prems by (simp add: nonempty_entry)
  have cov: "covers e x \<longleftrightarrow> e_addr e \<le> x \<and> x < entry_end e" for x
    using Cons.prems by (simp add: covers_nowrap)
  have hit: "\<not> (e_addr e \<ge> stop \<or> entry_end e \<le> start) \<longleftrightarrow> (\<exists>x. start \<le> x \<and> x < stop \<and> covers e x)"
  proof
    assume "\<not> (e_addr e \<ge> stop \<or> entry_end e \<le> start)"
    then have "start \<le> max start (e_addr e) \<and> max start (e_addr e) < stop \<and> covers e (max start (e_addr e))"
      using assms(1) lt by (auto simp: cov max_def)
    then show "\<exists>x. start \<le> x \<and> x < stop \<and> covers e x" by blast
  qed (auto simp: cov)
  show ?case
  proof (cases "wanted ty e \<and> (\<exists>x. start \<le> x \<and> x < stop \<and> covers e x)")
    case True
    then show ?thesis
      using hit by (auto simp: wanted_def entry_end_def)
  next
    case False
    then have "mapped_any_loop (e # es) start stop ty = mapped_any_loop es start stop ty"
      using hit by (auto simp: wanted_def entry_end_def)
    then show ?thesis using False Cons by auto
  qed
qed

lemma mapped_all_loop_iff:
  assumes "sanitized es" "start < stop"
  shows "(mapped_all_loop es start stop ty \<noteq> None) \<longleftrightarrow>
    (\<forall>x. start \<le> x \<longrightarrow> x < stop \<longrightarrow> (\<exists>e \<in> set es. wanted ty e \<and> covers e x))"
  using assms
proof (induction es arbitrary: start)
  case Nil
  then show ?case by auto
next
  case (Cons e es)
  let ?cov = "\<lambda>es x. \<exists>e \<in> set es. wanted ty e \<and> covers e x"
  have nw: "nowrap e" and lt: "e_addr e < entry_end e" and es: "sanitized es"
    and later: "\<And>f. f \<in> set es \<Longrightarrow> entry_end e \<le> e_addr f \<and> nowrap f"
    using Cons.prems(1) by (auto simp: sanitized_Cons nonempty_entry before_alt sanitized_def)
  have cov: "covers e x \<longleftrightarrow> e_addr e \<le> x \<and> x < entry_end e" for x
    using nw by (rule covers_nowrap)
  have low: "\<not> ?cov es x" if "x < entry_end e" for x
    using later that by (force simp: covers_nowrap)
  consider (skip) "\<not> wanted ty e \<or> stop \<le> e_addr e \<or> entry_end e \<le> start"
    | (gap) "wanted ty e" "e_addr e < stop" "start < entry_end e" "start < e_addr e"
    | (complete) "wanted ty e" "e_addr e < stop" "start < entry_end e" "e_addr e \<le> start" "stop \<le> entry_end e"
    | (more) "wanted ty e" "e_addr e < stop" "start < entry_end e" "e_addr e \<le> start" "entry_end e < stop"
    by force
  then show ?case
  proof cases
    case skip
    then have "mapped_all_loop (e # es) start stop ty = mapped_all_loop es start stop ty"
      by (auto simp: wanted_def entry_end_def)
    moreover have "\<not> (wanted ty e \<and> covers e x)" if "start \<le> x" "x < stop" for x
      using skip that by (auto simp: cov)
    ultimately show ?thesis using Cons.IH[OF es Cons.prems(2)] by auto
  next
    case gap
    then have "mapped_all_loop (e # es) start stop ty = mapped_all_loop es start stop ty"
      using Cons.prems(2) by (auto simp: wanted_def entry_end_def)
    moreover have "\<not> ?cov (e # es) start" using low[of start] gap by (auto simp: cov)
    ultimately show ?thesis using Cons.IH[OF es Cons.prems(2)] Cons.prems(2) by auto
  next
    case complete
    then have "mapped_all_loop (e # es) start stop ty = Some e"
      by (auto simp: wanted_def entry_end_def)
    then show ?thesis using complete by (auto simp: cov)
  next
    case more
    then have "mapped_all_loop (e # es) start stop ty = mapped_all_loop es (entry_end e) stop ty"
      by (auto simp: wanted_def entry_end_def Let_def)
    moreover have "?cov (e # es) x \<longleftrightarrow> (entry_end e \<le> x \<longrightarrow> ?cov es x)" if "start \<le> x" for x
      using more that low[of x] by (auto simp: cov)
    ultimately show ?thesis using Cons.IH[OF es more(5)] more by auto
  qed
qed

lemma mapped_all_loop_Some:
  "mapped_all_loop es start stop ty = Some e \<Longrightarrow> start < stop \<Longrightarrow>
     e \<in> set es \<and> wanted ty e \<and> e_addr e < stop \<and> stop \<le> entry_end e"
  by (induction es arbitrary: start)
    (auto simp: wanted_def entry_end_def Let_def not_le split: if_splits)

text \<open>
  On a sanitized table the query whether a whole range has a given type (0 for any)
  succeeds exactly if every address of the range is covered by an entry of that type.
\<close>

theorem mapped_all_iff:
  assumes "sanitized (valid_entries t)" and "start < stop"
  shows "(tab_e820__mapped_all t start stop ty \<noteq> None) \<longleftrightarrow>
    (\<forall>x. start \<le> x \<longrightarrow> x < stop \<longrightarrow>
       (\<exists>e \<in> set (valid_entries t). (ty = 0 \<or> e_type e = ty) \<and> covers e x))"
  using mapped_all_loop_iff[OF assms] by (simp add: tab_e820__mapped_all_def wanted_def)

text \<open>
  The query whether some part of a range has a given type (0 for any) succeeds exactly
  if some address of the range is covered by an entry of that type; the table need not be
  sorted or free of overlaps.
\<close>

theorem mapped_any_iff:
  assumes "\<forall>e \<in> set (valid_entries t). nowrap e \<and> e_size e \<noteq> 0" and "start < stop"
  shows "tab_e820__mapped_any t start stop ty \<longleftrightarrow>
    (\<exists>x. start \<le> x \<and> x < stop \<and>
       (\<exists>e \<in> set (valid_entries t). (ty = 0 \<or> e_type e = ty) \<and> covers e x))"
  using mapped_any_loop_iff[OF assms(2,1)] by (simp add: tab_e820__mapped_any_def wanted_def)

theorem mapped_all_iff_witness:
  "sanitized (valid_entries range_example) \<and> (0x2000 :: u64) < 0x2800 \<and>
   ((tab_e820__mapped_all range_example 0x2000 0x2800 1 \<noteq> None) \<longleftrightarrow>
    (\<forall>x. 0x2000 \<le> x \<longrightarrow> x < 0x2800 \<longrightarrow>
       (\<exists>e \<in> set (valid_entries range_example). (1 = (0 :: u32) \<or> e_type e = 1) \<and> covers e x)))"
proof -
  have "sanitized (valid_entries range_example)" by code_simp
  then show ?thesis using mapped_all_iff[of range_example "0x2000" "0x2800" 1] by simp
qed

theorem mapped_any_iff_witness:
  "(0x800 :: u64) < 0x2800 \<and>
   (tab_e820__mapped_any range_example 0x800 0x2800 1 \<longleftrightarrow>
    (\<exists>x. 0x800 \<le> x \<and> x < 0x2800 \<and>
       (\<exists>e \<in> set (valid_entries range_example). (1 = (0 :: u32) \<or> e_type e = 1) \<and> covers e x)))"
proof -
  have "\<forall>e \<in> set (valid_entries range_example). nowrap e \<and> e_size e \<noteq> 0" by code_simp
  then show ?thesis using mapped_any_iff[of range_example "0x800" "0x2800" 1] by simp
qed

end
