(* ===== verification/E820_Boot_Correct.thy ===== *)
theory E820_Boot_Correct
  imports E820_Boot E820_Sanitize E820_Ranges
begin

text \<open>
  What the boot code achieves with the E820 table: memory the boot loader's data nodes occupy
  is never left as usable RAM, the gap handed to PCI is free and the largest, the page frame
  limits and the regions hibernation skips are the right ones, the boot options do what they
  say, and a table copied from the firmware or made up without one is as expected.
\<close>

subsection \<open>Tables that stay well formed\<close>

definition table_ok :: "e820_table \<Rightarrow> bool" where
  "table_ok t \<longleftrightarrow> nr_entries t \<le> length (entries t) \<and> (\<forall>e \<in> set (valid_entries t). nowrap e)"

lemma type_at_RAM: "ty \<notin># types_at es x \<Longrightarrow> ty \<noteq> 0 \<Longrightarrow> type_at es x \<noteq> ty"
  using Max_in[of "insert 0 (set_mset (types_at es x))"] by (auto simp: type_at_types_at)

lemma update_table_ok:
  assumes "sort_contract ksort" and "table_ok t"
  obtains r t' where "e820__update_table ksort t = Some (r, t')" "table_ok t'"
    "length (entries t') = length (entries t)"
    "\<And>a. type_at (valid_entries t') a \<in> {type_at (valid_entries t) a, 0}"
proof (cases "nr_entries t < 2")
  case True
  then have "e820__update_table ksort t = Some (-1, t)" by (simp add: e820__update_table_def Let_def)
  then show thesis using that assms(2) by auto
next
  case False
  then obtain t' where t': "e820__update_table ksort t = Some (0, t')"
    "length (entries t') = length (entries t)" "nr_entries t' \<le> length (entries t)"
    and c: "(nr_entries t' < length (entries t) \<and> nr_entries t' < 2 * nr_entries t \<and>
           sanitized (valid_entries t') \<and>
           (\<forall>a. type_at (valid_entries t') a = type_at (valid_entries t) a)) \<or>
         (length (entries t) < 2 * nr_entries t \<and>
           cut_off (valid_entries t) (length (entries t)) (valid_entries t'))"
    using update_table_cases[OF assms(1), of t] assms(2) unfolding table_ok_def by (metis not_less)
  then have s: "sanitized (valid_entries t') \<and>
      (\<forall>a. type_at (valid_entries t') a \<in> {type_at (valid_entries t) a, 0})"
    using cut_off_prefix by force
  then have "table_ok t'" using t' by (simp add: table_ok_def sanitized_def)
  then show thesis using that t' s by blast
qed

lemma range_update_ok:
  assumes "table_ok t" and "old \<noteq> new"
  obtains n t' where "tab_e820__range_update t start sz old new = Some (n, t')" "table_ok t'"
    "\<And>x ty. ty \<in># types_at (valid_entries t') x \<Longrightarrow> ty \<in># types_at (valid_entries t) x \<or> ty = new"
    "\<And>x. start \<le> x \<Longrightarrow> x < range_stop start sz \<Longrightarrow> old \<notin># types_at (valid_entries t') x"
proof -
  obtain n t' where t': "tab_e820__range_update t start sz old new = Some (n, t')"
    and s: "\<And>x. types_at (valid_entries t') x \<subseteq>#
      image_mset (\<lambda>ty. if ty = old \<and> start \<le> x \<and> x < range_stop start sz then new else ty)
        (types_at (valid_entries t) x)"
    and ok: "table_ok t'"
    using range_update_full[OF assms(2), of t start sz] assms(1) unfolding table_ok_def by blast
  have "ty \<in># types_at (valid_entries t) x \<or> ty = new" if "ty \<in># types_at (valid_entries t') x" for x ty
    using mset_subset_eqD[OF s that] by (auto split: if_splits)
  moreover have "old \<notin># types_at (valid_entries t') x" if "start \<le> x" "x < range_stop start sz" for x
    using mset_subset_eqD[OF s[of x], of old] that assms(2) by (auto split: if_splits)
  ultimately show thesis using that t' ok by blast
qed

subsection \<open>Data nodes\<close>

text \<open>The list of data nodes that starts at an address, with every mapping succeeding.\<close>

fun setup_chain :: "memremap \<Rightarrow> u64 \<Rightarrow> u64 list \<Rightarrow> bool" where
  "setup_chain rm pa [] = (pa = 0)"
| "setup_chain rm pa (p # ps) =
     (pa = p \<and> p \<noteq> 0 \<and>
      (case rm p sizeof_setup_data of
         None \<Rightarrow> False
       | Some sd \<Rightarrow>
           (sd_type sd = SETUP_INDIRECT \<longrightarrow>
              rm p (ucast (ucast sizeof_setup_data + sd_len sd :: u32)) \<noteq> None) \<and>
           setup_chain rm (sd_next sd) ps))"

text \<open>The addresses a node occupies, and those of the data an indirect node refers to.\<close>

definition node_holds :: "memremap \<Rightarrow> u64 \<Rightarrow> u64 \<Rightarrow> bool" where
  "node_holds rm p x \<longleftrightarrow>
     (case rm p sizeof_setup_data of
        None \<Rightarrow> False
      | Some sd \<Rightarrow> p \<le> x \<and> x < range_stop p (sizeof_setup_data + ucast (sd_len sd)))"

definition indirect_holds :: "memremap \<Rightarrow> u64 \<Rightarrow> u64 \<Rightarrow> bool" where
  "indirect_holds rm p x \<longleftrightarrow>
     (case rm p sizeof_setup_data of
        None \<Rightarrow> False
      | Some sd \<Rightarrow> sd_type sd = SETUP_INDIRECT \<and>
          (case rm p (ucast (ucast sizeof_setup_data + sd_len sd :: u32)) of
             None \<Rightarrow> False
           | Some sd' \<Rightarrow> ind_type sd' \<noteq> SETUP_INDIRECT \<and>
               ind_addr sd' \<le> x \<and> x < range_stop (ind_addr sd') (ind_len sd')))"

definition no_ram :: "boot_state \<Rightarrow> u64 \<Rightarrow> bool" where
  "no_ram s x \<longleftrightarrow> E820_TYPE_RAM \<notin># types_at (valid_entries (e820_main s)) x"

definition state_ok :: "boot_state \<Rightarrow> bool" where
  "state_ok s \<longleftrightarrow> table_ok (e820_main s) \<and> table_ok (e820_kexec s)"

lemma update_main_range_ok:
  assumes "state_ok s"
  obtains n s' where "e820__range_update s start sz E820_TYPE_RAM E820_TYPE_RESERVED_KERN = Some (n, s')"
    "state_ok s'" "\<And>x. no_ram s x \<Longrightarrow> no_ram s' x"
    "\<And>x. start \<le> x \<Longrightarrow> x < range_stop start sz \<Longrightarrow> no_ram s' x"
proof -
  from assms have "table_ok (e820_main s)" by (simp add: state_ok_def)
  then obtain n t' where t': "tab_e820__range_update (e820_main s) start sz E820_TYPE_RAM E820_TYPE_RESERVED_KERN
      = Some (n, t')" "table_ok t'"
    "\<And>x ty. ty \<in># types_at (valid_entries t') x \<Longrightarrow>
       ty \<in># types_at (valid_entries (e820_main s)) x \<or> ty = E820_TYPE_RESERVED_KERN"
    "\<And>x. start \<le> x \<Longrightarrow> x < range_stop start sz \<Longrightarrow> E820_TYPE_RAM \<notin># types_at (valid_entries t') x"
    by (rule range_update_ok[where old = E820_TYPE_RAM and new = E820_TYPE_RESERVED_KERN
          and start = start and sz = sz]) (simp, blast)
  have "E820_TYPE_RAM \<notin># types_at (valid_entries t') x"
    if "E820_TYPE_RAM \<notin># types_at (valid_entries (e820_main s)) x" for x
    using t'(3)[of E820_TYPE_RAM x] that by auto
  then show thesis
    using assms t'(1,2,4) by (intro that[of n "s\<lparr>e820_main := t'\<rparr>"])
      (simp_all add: e820__range_update_def no_ram_def state_ok_def)
qed

lemma update_kexec_range_ok:
  assumes "state_ok s"
  obtains n s' where "e820__range_update_kexec s start sz E820_TYPE_RAM E820_TYPE_RESERVED_KERN = Some (n, s')"
    "state_ok s'" "e820_main s' = e820_main s"
proof -
  from assms have "table_ok (e820_kexec s)" by (simp add: state_ok_def)
  then obtain n t' where "tab_e820__range_update (e820_kexec s) start sz E820_TYPE_RAM E820_TYPE_RESERVED_KERN
      = Some (n, t')" "table_ok t'"
    by (rule range_update_ok[where old = E820_TYPE_RAM and new = E820_TYPE_RESERVED_KERN
          and start = start and sz = sz]) (simp, blast)
  then show thesis
    using assms by (intro that[of n "s\<lparr>e820_kexec := t'\<rparr>"])
      (auto simp: e820__range_update_kexec_def state_ok_def)
qed

lemma reserve_node_ok:
  assumes "state_ok s"
  obtains s' where "reserve_node p sd s = Some s'" "state_ok s'" "\<And>x. no_ram s x \<Longrightarrow> no_ram s' x"
    "\<And>x. p \<le> x \<Longrightarrow> x < range_stop p (sizeof_setup_data + ucast (sd_len sd)) \<Longrightarrow> no_ram s' x"
proof -
  let ?n = "sizeof_setup_data + ucast (sd_len sd) :: u64"
  from assms obtain n s1 where s1:
    "e820__range_update s p ?n E820_TYPE_RAM E820_TYPE_RESERVED_KERN = Some (n, s1)" "state_ok s1"
    "\<And>x. no_ram s x \<Longrightarrow> no_ram s1 x" "\<And>x. p \<le> x \<Longrightarrow> x < range_stop p ?n \<Longrightarrow> no_ram s1 x"
    by (rule update_main_range_ok[where start = p and sz = ?n]) blast
  from s1(2) obtain n2 s2 where s2:
    "e820__range_update_kexec s1 p ?n E820_TYPE_RAM E820_TYPE_RESERVED_KERN = Some (n2, s2)" "state_ok s2"
    "e820_main s2 = e820_main s1"
    by (rule update_kexec_range_ok[where start = p and sz = ?n]) blast
  show thesis
  proof (cases "sd_type sd \<noteq> SETUP_EFI \<and> sd_type sd \<noteq> SETUP_IMA \<and> sd_type sd \<noteq> SETUP_RNG_SEED")
    case True
    then show thesis using s1 s2 by (intro that[of s2]) (simp_all add: reserve_node_def no_ram_def)
  next
    case False
    then have "reserve_node p sd s = Some s1" using s1(1) by (simp only: reserve_node_def if_False) simp
    then show thesis using s1 that by blast
  qed
qed

lemma reserve_indirect_ok:
  assumes "state_ok s"
  obtains s' where "reserve_indirect sd s = Some s'" "state_ok s'" "\<And>x. no_ram s x \<Longrightarrow> no_ram s' x"
    "\<And>x. ind_type sd \<noteq> SETUP_INDIRECT \<Longrightarrow> ind_addr sd \<le> x \<Longrightarrow>
       x < range_stop (ind_addr sd) (ind_len sd) \<Longrightarrow> no_ram s' x"
proof (cases "ind_type sd = SETUP_INDIRECT")
  case True
  then show thesis using that[of s] assms by (simp add: reserve_indirect_def)
next
  case False
  from assms obtain n s1 where s1:
    "e820__range_update s (ind_addr sd) (ind_len sd) E820_TYPE_RAM E820_TYPE_RESERVED_KERN = Some (n, s1)"
    "state_ok s1" "\<And>x. no_ram s x \<Longrightarrow> no_ram s1 x"
    "\<And>x. ind_addr sd \<le> x \<Longrightarrow> x < range_stop (ind_addr sd) (ind_len sd) \<Longrightarrow> no_ram s1 x"
    by (rule update_main_range_ok[where start = "ind_addr sd" and sz = "ind_len sd"]) blast
  from s1(2) obtain n2 s2 where
    "e820__range_update_kexec s1 (ind_addr sd) (ind_len sd) E820_TYPE_RAM E820_TYPE_RESERVED_KERN = Some (n2, s2)"
    "state_ok s2" "e820_main s2 = e820_main s1"
    by (rule update_kexec_range_ok[where start = "ind_addr sd" and sz = "ind_len sd"]) blast
  then show thesis using s1 False by (intro that[of s2]) (simp_all add: reserve_indirect_def no_ram_def)
qed

lemma setup_data_step_ok:
  assumes "state_ok s" and "setup_chain rm pa (p # ps)"
  obtains q s' where "setup_data_step rm pa s = Some (Inr (q, s'))" "setup_chain rm q ps" "state_ok s'"
    "\<And>x. no_ram s x \<Longrightarrow> no_ram s' x"
    "\<And>x. node_holds rm p x \<or> indirect_holds rm p x \<Longrightarrow> no_ram s' x"
proof -
  obtain sd where sd: "rm p sizeof_setup_data = Some sd" "setup_chain rm (sd_next sd) ps" "pa = p"
    using assms(2) by (auto split: option.splits)
  from assms(1) obtain s1 where s1: "reserve_node p sd s = Some s1" "state_ok s1"
    "\<And>x. no_ram s x \<Longrightarrow> no_ram s1 x"
    "\<And>x. p \<le> x \<Longrightarrow> x < range_stop p (sizeof_setup_data + ucast (sd_len sd)) \<Longrightarrow> no_ram s1 x"
    by (rule reserve_node_ok[where p = p and sd = sd]) blast
  show thesis
  proof (cases "sd_type sd = SETUP_INDIRECT")
    case True
    then obtain sd' where sd': "rm p (ucast (ucast sizeof_setup_data + sd_len sd :: u32)) = Some sd'"
      using assms(2) sd(1) by auto
    from s1(2) obtain s2 where s2: "reserve_indirect sd' s1 = Some s2" "state_ok s2"
      "\<And>x. no_ram s1 x \<Longrightarrow> no_ram s2 x"
      "\<And>x. ind_type sd' \<noteq> SETUP_INDIRECT \<Longrightarrow> ind_addr sd' \<le> x \<Longrightarrow>
         x < range_stop (ind_addr sd') (ind_len sd') \<Longrightarrow> no_ram s2 x"
      by (rule reserve_indirect_ok[where sd = sd']) blast
    have "setup_data_step rm pa s = Some (Inr (sd_next sd, s2))"
      using sd sd' s1(1) s2(1) True by (simp add: setup_data_step_def)
    then show thesis
      using that[OF _ sd(2) s2(2)] s1(3,4) s2(3,4) sd(1) sd' True
      by (auto simp: node_holds_def indirect_holds_def)
  next
    case False
    then have "setup_data_step rm pa s = Some (Inr (sd_next sd, s1))"
      using sd s1(1) by (simp add: setup_data_step_def)
    then show thesis
      using that[OF _ sd(2) s1(2)] s1(3,4) sd(1) False by (auto simp: node_holds_def indirect_holds_def)
  qed
qed

lemma setup_data_loop_ok:
  assumes "state_ok s" and "setup_chain rm pa ps"
  shows "\<exists>s'. setup_data_loop rm pa s = Some (True, s') \<and> state_ok s' \<and>
    (\<forall>x. no_ram s x \<longrightarrow> no_ram s' x) \<and>
    (\<forall>p \<in> set ps. \<forall>x. node_holds rm p x \<or> indirect_holds rm p x \<longrightarrow> no_ram s' x)"
  using assms
proof (induction ps arbitrary: pa s)
  case Nil
  then show ?case by (subst setup_data_loop.simps) simp
next
  case (Cons p ps)
  from Cons.prems obtain q s1 where q: "setup_data_step rm pa s = Some (Inr (q, s1))" "setup_chain rm q ps"
    "state_ok s1" "\<And>x. no_ram s x \<Longrightarrow> no_ram s1 x"
    "\<And>x. node_holds rm p x \<or> indirect_holds rm p x \<Longrightarrow> no_ram s1 x"
    by (rule setup_data_step_ok) blast
  have "pa \<noteq> 0" using Cons.prems(2) by simp
  then have "setup_data_loop rm pa s = setup_data_loop rm q s1"
    by (subst setup_data_loop.simps) (simp add: q(1))
  then show ?case using Cons.IH[OF q(3,2)] q(4,5) by auto
qed

text \<open>
  C35: after \<open>e820__reserve_setup_data\<close> no address of any of the boot loader's data nodes, nor
  of the data an indirect node refers to, is usable RAM in the E820 table. The routine
  returns for every list of nodes that ends, whether or not the table has room for the
  entries it splits.
\<close>

theorem setup_data_never_ram:
  assumes "sort_contract ksort" and "state_ok s" and "setup_chain rm (bp_setup_data bp) ps"
  shows "\<exists>s'. e820__reserve_setup_data ksort rm bp s = Some s' \<and>
    (\<forall>p \<in> set ps. \<forall>x. node_holds rm p x \<or> indirect_holds rm p x \<longrightarrow>
       type_at (valid_entries (e820_main s')) x \<noteq> E820_TYPE_RAM)"
proof (cases "bp_setup_data bp = 0")
  case True
  then have "ps = []" using assms(3) by (cases ps) auto
  then show ?thesis using True by (simp add: e820__reserve_setup_data_def)
next
  case False
  from setup_data_loop_ok[OF assms(2,3)] obtain s1 where s1:
    "setup_data_loop rm (bp_setup_data bp) s = Some (True, s1)" "state_ok s1"
    "\<And>p x. p \<in> set ps \<Longrightarrow> node_holds rm p x \<or> indirect_holds rm p x \<Longrightarrow> no_ram s1 x"
    by blast
  from s1(2) obtain r t where t: "e820__update_table ksort (e820_main s1) = Some (r, t)"
    "\<And>a. type_at (valid_entries t) a \<in> {type_at (valid_entries (e820_main s1)) a, 0}"
    unfolding state_ok_def by (metis update_table_ok[OF assms(1)])
  from s1(2) obtain r2 t2 where t2: "e820__update_table ksort (e820_kexec s1) = Some (r2, t2)"
    unfolding state_ok_def by (metis update_table_ok[OF assms(1)])
  have "e820__reserve_setup_data ksort rm bp s = Some (s1\<lparr>e820_main := t, e820_kexec := t2\<rparr>)"
    using False s1(1) t(1) t2
    by (simp add: e820__reserve_setup_data_def update_main_def e820__update_table_kexec_def)
  moreover have "type_at (valid_entries t) x \<noteq> E820_TYPE_RAM" if "no_ram s1 x" for x
    using t(2)[of x] type_at_RAM[of E820_TYPE_RAM] that unfolding no_ram_def by force
  ultimately show ?thesis using s1(3) by auto
qed

definition setup_example :: memremap where
  "setup_example p n =
     (if p = 0x1000 then Some \<lparr>sd_next = 0x3000, sd_type = SETUP_INDIRECT, sd_len = 24,
        ind_type = 1, ind_len = 0x1000, ind_addr = 0x8000\<rparr>
      else if p = 0x3000 then Some \<lparr>sd_next = 0, sd_type = SETUP_EFI, sd_len = 8,
        ind_type = 0, ind_len = 0, ind_addr = 0\<rparr>
      else None)"

definition boot_example :: boot_state where
  "boot_example =
     (let t = \<lparr>nr_entries = 2, entries = [mk_entry 0 0x10000 1, mk_entry 0x20000 0x1000 2, mk_entry 0 0 0]\<rparr>
      in \<lparr>e820_main = t, e820_kexec = t, e820_firmware = t, pci_mem_start = 0, userdef = False,
         max_mem_size = 0, e820_res = []\<rparr>)"

definition params_example :: boot_params where
  "params_example = \<lparr>bp_e820_table = [], bp_e820_entries = 0, bp_alt_mem_k = 0, bp_ext_mem_k = 0,
     bp_setup_data = 0x1000\<rparr>"

theorem setup_data_never_ram_witness:
  "\<exists>s'. e820__reserve_setup_data by_list_sort setup_example params_example boot_example = Some s' \<and>
    (\<forall>p \<in> set [0x1000, 0x3000]. \<forall>x. node_holds setup_example p x \<or> indirect_holds setup_example p x \<longrightarrow>
       type_at (valid_entries (e820_main s')) x \<noteq> E820_TYPE_RAM)"
proof (rule setup_data_never_ram[OF sort_contract_by_list_sort])
  show "state_ok boot_example" by code_simp
  show "setup_chain setup_example (bp_setup_data params_example) [0x1000, 0x3000]" by code_simp
qed

subsection \<open>The gap for PCI devices\<close>

definition uncovered :: "e820_entry list \<Rightarrow> u64 \<Rightarrow> bool" where
  "uncovered es x \<longleftrightarrow> (\<forall>e \<in> set es. \<not> covers e x)"

text \<open>The gap is at least as large as every free stretch below 4 GB that follows one of the entries.\<close>

definition no_larger_gap :: "e820_entry list \<Rightarrow> e820_entry list \<Rightarrow> gap \<Rightarrow> bool" where
  "no_larger_gap es seen g \<longleftrightarrow>
     (\<forall>a b. b \<le> MAX_GAP_END \<and> (\<exists>e \<in> set seen. entry_end e \<le> a) \<and> (\<forall>x. a \<le> x \<and> x < b \<longrightarrow> uncovered es x)
        \<longrightarrow> unat b - unat a \<le> unat (gapsize g))"

definition free_gap :: "e820_entry list \<Rightarrow> gap \<Rightarrow> bool" where
  "free_gap es g \<longleftrightarrow>
     unat (gapstart g) + unat (gapsize g) \<le> 2 ^ 32 \<and>
     (\<forall>x. gapstart g \<le> x \<and> unat x < unat (gapstart g) + unat (gapsize g) \<longrightarrow> uncovered es x)"

lemma sanitized_snoc:
  assumes "sanitized (xs @ e # ys)"
  shows "nowrap e" "e_addr e < entry_end e" "\<And>f. f \<in> set xs \<Longrightarrow> nowrap f \<and> entry_end f \<le> e_addr e"
    "\<And>f. f \<in> set ys \<Longrightarrow> nowrap f \<and> entry_end e \<le> e_addr f"
  using assms by (auto simp: sanitized_def sorted_wrt_append before_alt nonempty_entry)

lemma step_largest:
  assumes "sanitized (xs @ e # ys)" "lst \<le> MAX_GAP_END" "no_larger_gap (xs @ e # ys) ys g"
    "lst < MAX_GAP_END \<Longrightarrow> ys \<noteq> [] \<and> lst = e_addr (hd ys)"
    "g' = (if lst > entry_end e \<and> lst - entry_end e \<ge> gapsize g
           then \<lparr>gap_found = True, gapstart = entry_end e, gapsize = lst - entry_end e\<rparr> else g)"
  shows "no_larger_gap (xs @ e # ys) (e # ys) g'"
  unfolding no_larger_gap_def
proof (intro allI impI)
  fix a b
  assume ab: "b \<le> MAX_GAP_END \<and> (\<exists>f \<in> set (e # ys). entry_end f \<le> a) \<and>
    (\<forall>x. a \<le> x \<and> x < b \<longrightarrow> uncovered (xs @ e # ys) x)"
  have grow: "unat (gapsize g) \<le> unat (gapsize g')"
    using assms(5) by (auto simp: word_le_nat_alt)
  have old: "unat b - unat a \<le> unat (gapsize g')" if "\<exists>f \<in> set ys. entry_end f \<le> a"
    using assms(3) ab that grow unfolding no_larger_gap_def by (meson le_trans)
  show "unat b - unat a \<le> unat (gapsize g')"
  proof (cases "b \<le> a \<or> (\<exists>f \<in> set ys. entry_end f \<le> a)")
    case True
    then show ?thesis using old by (auto simp: word_le_nat_alt)
  next
    case False
    then have e: "entry_end e \<le> a" "a < b" using ab by auto
    have "b \<le> lst"
    proof (rule ccontr)
      assume "\<not> b \<le> lst"
      then have lt: "lst < b" by simp
      also have "b \<le> MAX_GAP_END" using ab by blast
      finally have ys: "ys \<noteq> []" "lst = e_addr (hd ys)" "lst < b" using assms(4) lt by auto
      let ?f = "hd ys"
      have f: "sanitized ((xs @ [e]) @ ?f # tl ys)" using assms(1) ys(1) by simp
      have cov: "covers ?f x \<longleftrightarrow> e_addr ?f \<le> x \<and> x < entry_end ?f" for x
        using sanitized_snoc(1)[OF f] by (rule covers_nowrap)
      have "\<not> entry_end ?f \<le> a" using False ys(1) by auto
      then have "covers ?f (max a lst)" using sanitized_snoc(2)[OF f] ys(2) by (auto simp: cov max_def)
      moreover have "uncovered (xs @ e # ys) (max a lst)" using ab e(2) ys(3) by (simp add: max_def)
      ultimately show False using ys(1) by (auto simp: uncovered_def)
    qed
    then have "unat b - unat a \<le> unat (lst - entry_end e)" "entry_end e < lst"
      using e by (auto simp: word_le_nat_alt word_less_nat_alt unat_diff_le)
    then show ?thesis using assms(5) by (auto simp: word_le_nat_alt not_le)
  qed
qed

lemma step_free:
  assumes "sanitized (xs @ e # ys)" "lst \<le> MAX_GAP_END" "\<And>f. f \<in> set ys \<Longrightarrow> lst \<le> e_addr f"
    "entry_end e < lst"
  shows "free_gap (xs @ e # ys) \<lparr>gap_found = True, gapstart = entry_end e, gapsize = lst - entry_end e\<rparr>"
proof -
  have sum: "unat (entry_end e) + unat (lst - entry_end e) = unat lst"
    using assms(4) by (simp add: unat_add_sub_cancel)
  have "unat lst \<le> 2 ^ 32" using assms(2) by (simp add: MAX_GAP_END_def word_le_nat_alt)
  moreover have "uncovered (xs @ e # ys) x" if x: "entry_end e \<le> x" "unat x < unat lst" for x
  proof -
    note san = sanitized_snoc[OF assms(1)]
    have lt: "x < lst" using x(2) by (simp add: word_less_nat_alt)
    have "\<not> covers f x" if "f \<in> set xs" for f
      using san(3)[OF that] san(2) x(1) by (auto simp: covers_nowrap)
    moreover have "\<not> covers f x" if "f \<in> set ys" for f
      using san(4)[OF that] assms(3)[OF that] lt by (auto simp: covers_nowrap)
    ultimately show ?thesis using san(1) x(1) by (auto simp: uncovered_def covers_nowrap)
  qed
  ultimately show ?thesis by (simp add: free_gap_def sum)
qed

lemma search_gap_loop_correct:
  assumes "sanitized (xs @ ys)" "lst \<le> MAX_GAP_END" "\<And>f. f \<in> set ys \<Longrightarrow> lst \<le> e_addr f"
    "lst < MAX_GAP_END \<Longrightarrow> ys \<noteq> [] \<and> lst = e_addr (hd ys)"
    "no_larger_gap (xs @ ys) ys g" "gap_found g \<Longrightarrow> free_gap (xs @ ys) g"
  shows "no_larger_gap (xs @ ys) (xs @ ys) (search_gap_loop (rev xs) lst g) \<and>
    gapsize g \<le> gapsize (search_gap_loop (rev xs) lst g) \<and>
    (gap_found (search_gap_loop (rev xs) lst g) \<longrightarrow> free_gap (xs @ ys) (search_gap_loop (rev xs) lst g))"
  using assms
proof (induction xs arbitrary: ys lst g rule: rev_induct)
  case Nil
  then show ?case by simp
next
  case (snoc e xs)
  define g' where "g' = (if lst > entry_end e \<and> lst - entry_end e \<ge> gapsize g
    then \<lparr>gap_found = True, gapstart = entry_end e, gapsize = lst - entry_end e\<rparr> else g)"
  let ?lst = "if e_addr e < lst then e_addr e else lst"
  have san: "sanitized (xs @ e # ys)" using snoc.prems(1) by simp
  have loop: "search_gap_loop (rev (xs @ [e])) lst g = search_gap_loop (rev xs) ?lst g'"
    by (simp add: g'_def Let_def entry_end_def)
  have "no_larger_gap (xs @ e # ys) (e # ys) g'"
    using step_largest[OF san snoc.prems(2) _ snoc.prems(4) g'_def] snoc.prems(5) by simp
  moreover have "free_gap (xs @ e # ys) g'" if "gap_found g'"
    using step_free[OF san snoc.prems(2,3)] snoc.prems(6) that by (auto simp: g'_def split: if_splits)
  moreover have "?lst \<le> e_addr f" if "f \<in> set (e # ys)" for f
    using snoc.prems(3) that by force
  moreover have "?lst \<le> MAX_GAP_END" using snoc.prems(2) by auto
  moreover have "e # ys \<noteq> [] \<and> ?lst = e_addr (hd (e # ys))" if "?lst < MAX_GAP_END"
  proof (cases "e_addr e < lst")
    case False
    then have "ys \<noteq> []" "lst = e_addr (hd ys)" using snoc.prems(4) that by simp_all
    then have "entry_end e \<le> lst" using sanitized_snoc(4)[OF san, of "hd ys"] by simp
    then show ?thesis using sanitized_snoc(2)[OF san] False by simp
  qed simp
  moreover have "gapsize g \<le> gapsize g'" by (simp add: g'_def)
  ultimately show ?case
    using snoc.IH[of "e # ys" ?lst g'] san unfolding loop by (auto intro: order_trans)
qed



subsection \<open>Page frames\<close>

lemma unat_PFN_DOWN: "unat (PFN_DOWN x) = unat x div 4096"
  by (simp add: PFN_DOWN_def PAGE_SHIFT_def drop_bit_eq_div unat_div)

lemma unat_PFN_UP:
  assumes "unat x + 4095 < 2 ^ 64"
  shows "unat (PFN_UP x) = (unat x + 4095) div 4096"
proof -
  have "PFN_UP x = drop_bit 12 (x + 4095)"
    by (simp add: PFN_UP_def PAGE_SIZE_def PAGE_SHIFT_def add.commute)
  moreover have "unat (x + 4095) = unat x + 4095"
    using unat_add_lem[THEN iffD1, of x 4095] assms by simp
  ultimately show ?thesis by (simp add: drop_bit_eq_div unat_div)
qed

definition end_pfns :: "u64 \<Rightarrow> u32 \<Rightarrow> e820_entry list \<Rightarrow> u64 set" where
  "end_pfns limit ty es =
     (\<lambda>e. min limit (PFN_DOWN (entry_end e))) ` {e \<in> set es. e_type e = ty \<and> PFN_DOWN (e_addr e) < limit}"

lemma end_pfns_Cons:
  "end_pfns limit ty (e # es) =
     (if e_type e = ty \<and> PFN_DOWN (e_addr e) < limit
      then insert (min limit (PFN_DOWN (entry_end e))) (end_pfns limit ty es) else end_pfns limit ty es)"
  by (auto simp: end_pfns_def)

lemma finite_end_pfns [simp]: "finite (end_pfns limit ty es)"
  by (simp add: end_pfns_def)

lemma end_pfn_loop_Max:
  assumes "lst \<le> limit"
  shows "end_pfn_loop limit ty lst es = Max (insert lst (end_pfns limit ty es))"
  using assms
proof (induction es arbitrary: lst)
  case Nil
  then show ?case by (simp add: end_pfns_def)
next
  case (Cons e es)
  let ?E = "PFN_DOWN (entry_end e)"
  have loop: "end_pfn_loop limit ty lst (e # es) =
      (if e_type e \<noteq> ty \<or> limit \<le> PFN_DOWN (e_addr e) then end_pfn_loop limit ty lst es
       else if limit < ?E then limit else end_pfn_loop limit ty (max ?E lst) es)"
    by (auto simp: Let_def PFN_DOWN_def entry_end_def max_def)
  consider (skip) "e_type e \<noteq> ty \<or> limit \<le> PFN_DOWN (e_addr e)"
    | (clip) "e_type e = ty" "PFN_DOWN (e_addr e) < limit" "limit < ?E"
    | (inside) "e_type e = ty" "PFN_DOWN (e_addr e) < limit" "?E \<le> limit"
    by force
  then show ?case
  proof cases
    case skip
    then show ?thesis unfolding loop end_pfns_Cons using Cons by auto
  next
    case clip
    have "Max (insert lst (insert limit (end_pfns limit ty es))) = limit"
      using Cons.prems by (intro Max_eqI) (auto simp: end_pfns_def)
    then show ?thesis unfolding loop end_pfns_Cons using clip by auto
  next
    case inside
    have "Max (insert lst (insert ?E (end_pfns limit ty es))) = Max (insert (max ?E lst) (end_pfns limit ty es))"
      by (cases "end_pfns limit ty es = {}") (simp_all add: max.assoc max.left_commute max.commute)
    then show ?thesis
      unfolding loop end_pfns_Cons using inside Cons.IH[of "max ?E lst"] Cons.prems by auto
  qed
qed

text \<open>
  \<open>e820_end_pfn\<close> returns the highest page frame below the limits where memory of the type
  ends: the maximum over all entries of the type that start below the limit, although the
  loop stops at the first entry that crosses it.
\<close>

theorem end_pfn_is_maximum:
  "e820_end_pfn max_arch_pfn s limit_pfn ty =
     min max_arch_pfn (Max (insert 0
       ((\<lambda>e. min limit_pfn (PFN_DOWN (entry_end e))) `
          {e \<in> set (valid_entries (e820_main s)). e_type e = ty \<and> PFN_DOWN (e_addr e) < limit_pfn})))"
proof -
  have cap: "(if x > m then m else x) = min m x" for x m :: u64 by (auto simp: min_def)
  have "(0 :: u64) \<le> limit_pfn" by simp
  from end_pfn_loop_Max[OF this, of ty "valid_entries (e820_main s)"] show ?thesis
    unfolding e820_end_pfn_def Let_def cap end_pfns_def by (rule arg_cong)
qed

subsection \<open>Pages that hibernation does not save\<close>

definition registered :: "ext_call list \<Rightarrow> u64 \<Rightarrow> bool" where
  "registered cs p \<longleftrightarrow> (\<exists>a b. register_nosave_region a b \<in> set cs \<and> a \<le> p \<and> p < b)"

definition ram_like :: "e820_entry \<Rightarrow> bool" where
  "ram_like e \<longleftrightarrow> e_type e = E820_TYPE_RAM \<or> e_type e = E820_TYPE_RESERVED_KERN"

text \<open>A page that lies as a whole in one entry of RAM.\<close>

definition ram_page :: "e820_entry list \<Rightarrow> u64 \<Rightarrow> bool" where
  "ram_page es p \<longleftrightarrow>
     (\<exists>e \<in> set es. ram_like e \<and> PFN_UP (e_addr e) \<le> p \<and> p < PFN_DOWN (entry_end e))"

definition no_page_wrap :: "e820_entry \<Rightarrow> bool" where
  "no_page_wrap e \<longleftrightarrow> unat (e_addr e) + unat (e_size e) + 4095 < 2 ^ 64"

lemma registered_append [simp]: "registered (xs @ ys) p \<longleftrightarrow> registered xs p \<or> registered ys p"
  by (auto simp: registered_def)

lemma registered_region [simp]:
  "registered [register_nosave_region a b] p \<longleftrightarrow> a \<le> p \<and> p < b" "\<not> registered [] p"
  by (auto simp: registered_def)

lemma registered_if [simp]:
  "registered (if c then cs else []) p \<longleftrightarrow> c \<and> registered cs p"
  "registered (if c then [] else cs) p \<longleftrightarrow> \<not> c \<and> registered cs p"
  by auto

lemma page_order:
  assumes "no_page_wrap e" "no_page_wrap f" "nowrap e" "before e f"
  shows "PFN_UP (e_addr e) \<le> PFN_UP (e_addr f)" "PFN_DOWN (entry_end e) \<le> PFN_DOWN (e_addr f)"
    "PFN_DOWN (e_addr f) \<le> PFN_UP (e_addr f)"
  using assms
  by (auto simp: no_page_wrap_def before_def entry_end_def word_le_nat_alt unat_PFN_UP unat_PFN_DOWN
      nowrap_end div_le_mono)

lemma nosave_loop_Cons:
  "registered (nosave_loop limit pfn (e # es)) p \<longleftrightarrow>
     pfn \<le> p \<and> p < PFN_UP (e_addr e) \<or>
     \<not> ram_like e \<and> PFN_UP (e_addr e) \<le> p \<and> p < PFN_DOWN (entry_end e) \<or>
     PFN_DOWN (entry_end e) < limit \<and> registered (nosave_loop limit (PFN_DOWN (entry_end e)) es) p"
  by (auto simp: Let_def ram_like_def entry_end_def not_le)

lemma nosave_loop_sound:
  assumes "sanitized es" "\<forall>e \<in> set es. no_page_wrap e" "\<forall>e \<in> set es. pfn \<le> PFN_DOWN (e_addr e)"
    "registered (nosave_loop limit pfn es) p"
  shows "pfn \<le> p \<and> \<not> ram_page es p"
  using assms
proof (induction es arbitrary: pfn)
  case Nil
  then show ?case by simp
next
  case (Cons e es)
  let ?E = "PFN_DOWN (entry_end e)"
  have o: "PFN_UP (e_addr e) \<le> PFN_UP (e_addr f)" "?E \<le> PFN_DOWN (e_addr f)" "?E \<le> PFN_UP (e_addr f)"
    if "f \<in> set es" for f
    using page_order[of e f] Cons.prems(1,2) that by (auto simp: sanitized_Cons)
  have up: "pfn \<le> PFN_UP (e_addr e)" "pfn \<le> ?E"
    using Cons.prems(1-3)
    by (auto simp: sanitized_Cons no_page_wrap_def word_le_nat_alt unat_PFN_UP unat_PFN_DOWN entry_end_def
        nowrap_end intro: order_trans[OF _ div_le_mono])
  from Cons.prems(4) consider (gap) "pfn \<le> p" "p < PFN_UP (e_addr e)"
    | (entry) "\<not> ram_like e" "PFN_UP (e_addr e) \<le> p" "p < ?E"
    | (rest) "registered (nosave_loop limit ?E es) p"
    unfolding nosave_loop_Cons by blast
  then show ?case
  proof cases
    case gap
    then show ?thesis using o(1) by (auto simp: ram_page_def not_le intro: less_le_trans)
  next
    case entry
    then show ?thesis using o(3) up by (auto simp: ram_page_def not_le intro: less_le_trans order_trans)
  next
    case rest
    then have "?E \<le> p \<and> \<not> ram_page es p"
      using Cons.IH[of ?E] Cons.prems(1,2) o(2) by (simp add: sanitized_Cons)
    then show ?thesis using up(2) by (auto simp: ram_page_def)
  qed
qed

lemma nosave_loop_complete:
  assumes "es \<noteq> []" "p < PFN_DOWN (entry_end (last es))" "pfn \<le> p" "p < limit" "\<not> ram_page es p"
  shows "registered (nosave_loop limit pfn es) p"
  using assms
proof (induction es arbitrary: pfn)
  case (Cons e es)
  let ?E = "PFN_DOWN (entry_end e)"
  consider (gap) "p < PFN_UP (e_addr e)" | (entry) "PFN_UP (e_addr e) \<le> p" "p < ?E" | (rest) "?E \<le> p"
    by force
  then show ?case
  proof cases
    case gap
    then show ?thesis using Cons.prems(3) by (simp add: nosave_loop_Cons del: nosave_loop.simps)
  next
    case entry
    then have "\<not> ram_like e" using Cons.prems(5) by (auto simp: ram_page_def)
    then show ?thesis using entry by (simp add: nosave_loop_Cons del: nosave_loop.simps)
  next
    case rest
    then have "es \<noteq> []" using Cons.prems(2) by auto
    moreover have "\<not> ram_page es p" using Cons.prems(5) by (auto simp: ram_page_def)
    ultimately have "registered (nosave_loop limit ?E es) p"
      using Cons.IH[of ?E] Cons.prems(2,4) rest by simp
    then show ?thesis
      using rest Cons.prems(4) by (auto simp: nosave_loop_Cons simp del: nosave_loop.simps)
  qed
qed simp

text \<open>
  On a sanitized table \<open>e820__register_nosave_regions\<close> registers no page that lies inside
  RAM, and it registers every other page below the limit and below the end of the table.
\<close>

theorem nosave_regions_exact:
  assumes "sanitized (valid_entries (e820_main s))" and "\<forall>e \<in> set (valid_entries (e820_main s)). no_page_wrap e"
    and "valid_entries (e820_main s) \<noteq> []"
    and "p < limit" and "p < PFN_DOWN (entry_end (last (valid_entries (e820_main s))))"
  shows "registered (e820__register_nosave_regions s limit) p \<longleftrightarrow> \<not> ram_page (valid_entries (e820_main s)) p"
proof
  have "\<forall>e \<in> set (valid_entries (e820_main s)). 0 \<le> PFN_DOWN (e_addr e)" by simp
  from nosave_loop_sound[OF assms(1,2) this, of limit p]
  show "registered (e820__register_nosave_regions s limit) p \<Longrightarrow> \<not> ram_page (valid_entries (e820_main s)) p"
    by (simp add: e820__register_nosave_regions_def)
next
  show "\<not> ram_page (valid_entries (e820_main s)) p \<Longrightarrow> registered (e820__register_nosave_regions s limit) p"
    using nosave_loop_complete[OF assms(3,5) _ assms(4), of 0]
    by (simp add: e820__register_nosave_regions_def)
qed

theorem nosave_regions_exact_witness:
  "registered (e820__register_nosave_regions boot_example 0x1000) 0x12 \<longleftrightarrow>
   \<not> ram_page (valid_entries (e820_main boot_example)) 0x12"
proof (rule nosave_regions_exact)
  show "sanitized (valid_entries (e820_main boot_example))"
    by (simp add: boot_example_def Let_def valid_entries_def sanitized_def before_def nowrap_def)
qed (simp_all add: boot_example_def Let_def valid_entries_def no_page_wrap_def entry_end_def PFN_DOWN_def PAGE_SHIFT_def)

subsection \<open>Boot options\<close>

lemma range_stop_ULLONG_MAX: "range_stop n (ULLONG_MAX - n) = ULLONG_MAX"
  by (simp add: range_stop_def range_len_def)

lemma no_growth_to_max: "range_growth n (ULLONG_MAX - n) sel None es = 0"
  by (auto simp: range_growth_def range_stop_ULLONG_MAX split_entry_def Let_def hit_range_def)

lemma retype_range_None:
  "retype_range start stop (\<lambda>ty. chk \<longrightarrow> ty = old) None x =
     (\<lambda>ty. if (chk \<longrightarrow> ty = old) \<and> start \<le> x \<and> x < stop then None else Some ty)"
  by (auto simp: retype_range_def)

lemma remove_to_max:
  assumes "table_ok t"
  shows "\<exists>n t'. tab_e820__range_remove t start (ULLONG_MAX - start) ty True = Some (n, t') \<and> table_ok t' \<and>
    (\<forall>x. types_at (valid_entries t') x =
       filter_mset (\<lambda>ty'. \<not> (ty' = ty \<and> start \<le> x \<and> x < ULLONG_MAX)) (types_at (valid_entries t) x))"
proof -
  have "remove_pass.pieces start (ULLONG_MAX - start) True ty =
      (\<lambda>e. snd (snd (split_entry start (range_stop start (ULLONG_MAX - start)) (\<lambda>ty'. True \<longrightarrow> ty' = ty) None e)))"
    by (rule ext) (rule remove_pass.pieces_def)
  then have "length (concat (map (remove_pass.pieces start (ULLONG_MAX - start) True ty) (valid_entries t))) = 0"
    using no_growth_to_max[of start "\<lambda>ty'. True \<longrightarrow> ty' = ty" "valid_entries t"]
    by (simp only: range_growth_def)
  then have room: "nr_entries t + length (concat (map
      (remove_pass.pieces start (ULLONG_MAX - start) True ty) (valid_entries t))) \<le> length (entries t)"
    using assms by (simp only: table_ok_def add_0_right)
  have "range_len start (ULLONG_MAX - start) = ULLONG_MAX - start" by (simp add: range_len_def)
  with remove_pass.pass_correct[OF _ _ room] room assms show ?thesis
    by (auto simp: tab_e820__range_remove_def range_stop_ULLONG_MAX
        retype_range_None[of _ _ True, simplified] retyped_None table_ok_def)
qed

text \<open>
  The boot option \<open>mem=\<close> with a valid size removes all RAM from that address on (up to
  the last address), and nothing else, whether or not the table has room; the map counts as
  user-defined from then on.
\<close>

theorem memopt_limits_ram:
  assumes "table_ok (e820_main s)" and "p \<noteq> ''nopentium''" and "fst (memparse p) \<noteq> 0"
  shows "\<exists>s'. parse_memopt memparse s (Some p) = Some (0, s') \<and> userdef s' \<and> max_mem_size s' = fst (memparse p) \<and>
    (\<forall>x. types_at (valid_entries (e820_main s')) x =
       filter_mset (\<lambda>ty. \<not> (ty = E820_TYPE_RAM \<and> fst (memparse p) \<le> x \<and> x < ULLONG_MAX))
         (types_at (valid_entries (e820_main s)) x))"
  using remove_to_max[OF assms(1), of "fst (memparse p)" E820_TYPE_RAM] assms(2,3)
  by (auto simp: parse_memopt_def e820__range_remove_def Let_def)

theorem memopt_limits_ram_witness:
  "\<exists>s'. parse_memopt (\<lambda>_. (0x8000, 2)) boot_example (Some ''32K'') = Some (0, s') \<and> userdef s' \<and>
    max_mem_size s' = fst (0x8000 :: u64, 2 :: nat) \<and>
    (\<forall>x. types_at (valid_entries (e820_main s')) x =
       filter_mset (\<lambda>ty. \<not> (ty = E820_TYPE_RAM \<and> fst (0x8000 :: u64, 2 :: nat) \<le> x \<and> x < ULLONG_MAX))
         (types_at (valid_entries (e820_main boot_example)) x))"
proof (rule memopt_limits_ram)
  show "table_ok (e820_main boot_example)" by code_simp
qed simp_all

text \<open>
  C40: a \<open>memmap=\<close> option that changes a type into itself stops the kernel: the option
  \<open>size%start-from+to\<close> with the same number twice reaches the \<open>BUG_ON\<close> of the range update.
\<close>

theorem memmap_same_type_stops:
  assumes "take 8 p \<noteq> ''exactmap''" and "memparse p = (mem_size, n)" and "n \<noteq> 0"
    and "drop n p = CHR ''%'' # q" and "drop (snd (memparse q)) q = CHR ''-'' # r"
    and "simple_strtoull r = (v, k)" and "drop k r = CHR ''+'' # u"
    and "simple_strtoull u = (w, l)" and "drop l u = []"
    and "ucast v = (ucast w :: u32)" and "ucast w \<noteq> (0 :: u32)"
  shows "parse_memmap_one memparse simple_strtoull s (Some p) = None"
  using assms
  by (simp add: parse_memmap_one_def memmap_add_type_def memmap_percent_def Let_def cur_def
      e820__range_update_def tab_e820__range_update_def)

theorem memmap_same_type_stops_witness:
  "parse_memmap_one (\<lambda>p. (0x100000, 2)) (\<lambda>p. (2, 1)) boot_example (Some ''1M%1M-2+2'') = None"
  by (rule memmap_same_type_stops[where q = "''1M-2+2''" and r = "''2+2''" and u = "''2''"
        and n = 2 and k = 1 and l = 1 and v = 2 and w = 2]) simp_all

text \<open>
  After the boot options, a map the user changed must have two entries at least and none
  that wraps around; otherwise the kernel stops, also for a map of one valid region. In all
  other cases the routine returns.
\<close>

theorem finish_early_params_stops_iff:
  assumes "sort_contract ksort" and "nr_entries (e820_main s) \<le> length (entries (e820_main s))"
  shows "e820__finish_early_params ksort s = None \<longleftrightarrow>
    userdef s \<and> (nr_entries (e820_main s) < 2 \<or> (\<exists>e \<in> set (valid_entries (e820_main s)). \<not> nowrap e))"
proof (cases "nr_entries (e820_main s) < 2 \<or> (\<exists>e \<in> set (valid_entries (e820_main s)). \<not> nowrap e)")
  case True
  then have "e820__update_table ksort (e820_main s) = Some (-1, e820_main s)"
    using assms(2) by (auto simp: e820__update_table_def Let_def nowrap_def list_ex_iff)
  with True show ?thesis by (simp add: e820__finish_early_params_def update_main_def)
next
  case False
  then obtain t' where "e820__update_table ksort (e820_main s) = Some (0, t')"
    using update_table_cases[OF assms(1) _ assms(2)] by (metis not_less)
  with False show ?thesis by (simp add: e820__finish_early_params_def update_main_def)
qed

theorem finish_early_params_stops_iff_witness:
  "e820__finish_early_params by_list_sort (boot_example\<lparr>userdef := True\<rparr>) = None \<longleftrightarrow>
    userdef (boot_example\<lparr>userdef := True\<rparr>) \<and>
    (nr_entries (e820_main (boot_example\<lparr>userdef := True\<rparr>)) < 2 \<or>
     (\<exists>e \<in> set (valid_entries (e820_main (boot_example\<lparr>userdef := True\<rparr>))). \<not> nowrap e))"
  by (rule finish_early_params_stops_iff[OF sort_contract_by_list_sort])
    (simp add: boot_example_def Let_def)

subsection \<open>The firmware map\<close>

definition entry_overflows :: "boot_e820_entry \<Rightarrow> bool" where
  "entry_overflows b \<longleftrightarrow> be_addr b > be_addr b + be_size b - 1 \<and> be_size b \<noteq> 0"

definition add_boot_entry :: "boot_state \<Rightarrow> boot_e820_entry \<Rightarrow> boot_state" where
  "add_boot_entry s b = e820__range_add s (be_addr b) (be_size b) (be_type b)"

text \<open>
  The routine that copies the firmware map adds the entries up to the first one that
  overflows, and only those: the entries behind it are lost, also the valid ones.
\<close>

theorem append_stops_at_overflow:
  assumes "n \<le> length bs"
  shows "tab_append_e820_table s bs n =
    Some (if list_ex entry_overflows (take n bs) then -1 else 0,
          foldl add_boot_entry s (takeWhile (\<lambda>b. \<not> entry_overflows b) (take n bs)))"
  using assms
proof (induction s bs n rule: tab_append_e820_table.induct)
  case (3 s entry bs n)
  then show ?case
    by (auto simp: Let_def entry_overflows_def add_boot_entry_def)
qed simp_all

theorem append_stops_at_overflow_witness:
  "tab_append_e820_table boot_example
     [\<lparr>be_addr = 0x2000, be_size = ULLONG_MAX, be_type = 1\<rparr>, \<lparr>be_addr = 0x1000, be_size = 0x1000, be_type = 1\<rparr>] 2 =
   Some (-1, boot_example)"
  using append_stops_at_overflow[of 2
      "[\<lparr>be_addr = 0x2000, be_size = ULLONG_MAX, be_type = 1\<rparr>, \<lparr>be_addr = 0x1000, be_size = 0x1000, be_type = 1\<rparr>]"
      boot_example]
  by (simp add: entry_overflows_def)

lemma unat_ucast_32: "unat (ucast (x :: u32) :: u64) = unat x"
  by (simp add: unsigned_ucast_eq take_bit_nat_eq_self_iff order_less_le_trans[OF unsigned_less])

lemma unat_ucast_16: "unat (ucast (x :: u16) :: u64) = unat x"
  by (simp add: unsigned_ucast_eq take_bit_nat_eq_self_iff order_less_le_trans[OF unsigned_less])

lemma unat_kilobytes:
  assumes "unat (m :: u64) < 2 ^ 32"
  shows "unat (push_bit 10 m) = 1024 * unat m"
  using assms unat_mult_lem[THEN iffD1, of m 1024] by (simp add: push_bit_eq_mult mult.commute)

lemma fake_map_entries:
  assumes "4 \<le> length (entries (e820_main s))"
  shows "nr_entries (e820_main (snd (fake_memory_map bp s))) = 2"
    and "length (entries (e820_main (snd (fake_memory_map bp s)))) = length (entries (e820_main s))"
    and "valid_entries (e820_main (snd (fake_memory_map bp s))) =
      [mk_entry 0 LOWMEMSIZE E820_TYPE_RAM,
       mk_entry HIGH_MEMORY (push_bit 10 (if unat (bp_alt_mem_k bp) < unat (bp_ext_mem_k bp)
          then ucast (bp_ext_mem_k bp) else ucast (bp_alt_mem_k bp))) E820_TYPE_RAM]"
proof -
  obtain x y zs where "entries (e820_main s) = x # y # zs"
    using assms by (cases "entries (e820_main s)"; cases "tl (entries (e820_main s))") auto
  then show "nr_entries (e820_main (snd (fake_memory_map bp s))) = 2"
    "length (entries (e820_main (snd (fake_memory_map bp s)))) = length (entries (e820_main s))"
    "valid_entries (e820_main (snd (fake_memory_map bp s))) =
      [mk_entry 0 LOWMEMSIZE E820_TYPE_RAM,
       mk_entry HIGH_MEMORY (push_bit 10 (if unat (bp_alt_mem_k bp) < unat (bp_ext_mem_k bp)
          then ucast (bp_ext_mem_k bp) else ucast (bp_alt_mem_k bp))) E820_TYPE_RAM]"
    by (simp_all add: fake_memory_map_def Let_def e820__range_add_def tab_e820__range_add_def valid_entries_def
        del: push_bit_numeral)
qed

text \<open>
  Without a usable firmware map the fallback declares exactly the conventional memory
  and the memory above 1 MB as RAM, with the larger of the two sizes the boot code found.
\<close>

theorem fallback_map_types:
  assumes "sort_contract ksort" and "4 \<le> length (entries (e820_main s))" and "unat (bp_e820_entries bp) < 2"
  shows "\<exists>who s'. e820__memory_setup_default ksort bp s = Some (who, s') \<and>
    sanitized (valid_entries (e820_main s')) \<and>
    (\<forall>x. type_at (valid_entries (e820_main s')) x =
       (if unat x < 0x9f000 \<or>
           0x100000 \<le> unat x \<and> unat x < 0x100000 + 1024 * max (unat (bp_alt_mem_k bp)) (unat (bp_ext_mem_k bp))
        then E820_TYPE_RAM else 0))"
proof -
  define m :: u64 where "m = (if unat (bp_alt_mem_k bp) < unat (bp_ext_mem_k bp)
    then ucast (bp_ext_mem_k bp) else ucast (bp_alt_mem_k bp))"
  define t where "t = e820_main (snd (fake_memory_map bp s))"
  note t = fake_map_entries[OF assms(2), of bp, folded m_def t_def]
  have m: "unat m = max (unat (bp_alt_mem_k bp)) (unat (bp_ext_mem_k bp))"
    by (simp add: m_def unat_ucast_32 unat_ucast_16)
  have "unat (bp_alt_mem_k bp) < 2 ^ 32" "unat (bp_ext_mem_k bp) < 2 ^ 16"
    using unsigned_less[of "bp_alt_mem_k bp"] unsigned_less[of "bp_ext_mem_k bp"] by simp_all
  then have lt: "unat m < 2 ^ 32" by (simp add: m)
  then have kb: "unat (push_bit 10 m) = 1024 * unat m" by (rule unat_kilobytes)
  have nw: "\<forall>e \<in> set (valid_entries t). nowrap e"
    using lt kb unat_add_lem[THEN iffD1, of HIGH_MEMORY "push_bit 10 m"]
    by (auto simp: t nowrap_def not_add_less_nowrap LOWMEMSIZE_def HIGH_MEMORY_def mk_entry_def)
  have "2 \<le> nr_entries t" "nr_entries t \<le> length (entries t)" using t(1,2) assms(2) by simp_all
  from update_table_cases[OF assms(1) this nw] obtain t' where t':
    "e820__update_table ksort t = Some (0, t')" "sanitized (valid_entries t')"
    "\<And>a. type_at (valid_entries t') a = type_at (valid_entries t) a"
    using t(1,2) assms(2) by (metis mult_2 numeral_Bit0 not_less)
  obtain who s2 where "fake_memory_map bp s = (who, s2)" by fastforce
  then have "e820__memory_setup_default ksort bp s = Some (who, s2\<lparr>e820_main := t'\<rparr>)"
    using assms(3) t'(1)
    by (simp add: e820__memory_setup_default_def append_e820_table_def update_main_def t_def)
  moreover have "type_at (valid_entries t) x = (if unat x < 0x9f000 \<or> 0x100000 \<le> unat x \<and>
      unat x < 0x100000 + 1024 * unat m then E820_TYPE_RAM else 0)" for x
    by (auto simp: t(3) covers_def kb mk_entry_def LOWMEMSIZE_def HIGH_MEMORY_def max_def)
  ultimately show ?thesis using t'(2,3) by (auto simp: m)
qed

theorem fallback_map_types_witness:
  "\<exists>who s'. e820__memory_setup_default by_list_sort (params_example\<lparr>bp_alt_mem_k := 0x400\<rparr>)
      (boot_example\<lparr>e820_main := overlap_example\<rparr>) = Some (who, s') \<and>
    sanitized (valid_entries (e820_main s')) \<and>
    (\<forall>x. type_at (valid_entries (e820_main s')) x =
       (if unat x < 0x9f000 \<or> 0x100000 \<le> unat x \<and> unat x < 0x100000 + 1024 *
          max (unat (bp_alt_mem_k (params_example\<lparr>bp_alt_mem_k := 0x400\<rparr>)))
              (unat (bp_ext_mem_k (params_example\<lparr>bp_alt_mem_k := 0x400\<rparr>)))
        then E820_TYPE_RAM else 0))"
  by (rule fallback_map_types[OF sort_contract_by_list_sort])
    (simp_all add: overlap_example_def params_example_def)

subsection \<open>The buffer behind RAM\<close>

lemma nat_or_mask: "(m :: nat) OR mask n = m div 2 ^ n * 2 ^ n + 2 ^ n - 1"
proof -
  have "m OR mask n = push_bit n (drop_bit n (m OR mask n)) + take_bit n (m OR mask n)"
    by (simp only: bits_ident)
  also have "drop_bit n (m OR mask n) = drop_bit n m" by (simp add: drop_bit_or drop_bit_mask_eq)
  also have "take_bit n (m OR mask n) = mask n"
    by (rule bit_eqI) (auto simp: bit_simps)
  finally show ?thesis by (simp add: push_bit_eq_mult drop_bit_eq_div mask_eq_exp_minus_1)
qed

lemma unat_mask_64: "k \<le> 64 \<Longrightarrow> unat (mask k :: u64) = mask k"
proof -
  assume k: "k \<le> 64"
  have "(mask k :: u64) = of_nat (mask k)" by (simp add: of_nat_mask_eq)
  then have "unat (mask k :: u64) = take_bit 64 (mask k)" by (simp only: unsigned_of_nat) simp
  then show ?thesis using k by (simp add: min_def)
qed

lemma unat_exp_below: "k < 64 \<Longrightarrow> unat (2 ^ k :: u64) = 2 ^ k"
proof -
  assume k: "k < 64"
  have "(2 ^ k :: u64) = of_nat (2 ^ k)" by simp
  then have "unat (2 ^ k :: u64) = take_bit 64 (2 ^ k)" by (simp only: unsigned_of_nat) simp
  then show ?thesis using k by (simp add: take_bit_of_exp)
qed

lemma unat_round_up:
  assumes "x \<noteq> 0" "k < 64" "unat x + 2 ^ k \<le> 2 ^ 64"
  shows "unat (round_up x (2 ^ k)) = (unat x + 2 ^ k - 1) div 2 ^ k * 2 ^ k"
proof -
  define m where "m = unat x - 1"
  have x: "unat x = Suc m" using assms(1) by (simp add: m_def unat_gt_0)
  have "unat ((x - 1) OR (2 ^ k - 1)) = m OR mask k"
    using assms(1) assms(2)
    by (simp add: unsigned_or_eq m_def unat_minus_one mask_eq_exp_minus_1[symmetric] unat_mask_64)
  then have o: "unat ((x - 1) OR (2 ^ k - 1)) + 1 = m div 2 ^ k * 2 ^ k + 2 ^ k"
    by (simp add: nat_or_mask)
  have le: "m div 2 ^ k * 2 ^ k \<le> m" by simp
  have "unat ((x - 1) OR (2 ^ k - 1)) + 1 < 2 ^ 64" unfolding o using le assms(3) x by linarith
  then have "unat (round_up x (2 ^ k)) = m div 2 ^ k * 2 ^ k + 2 ^ k"
    using unat_add_lem[THEN iffD1, of "(x - 1) OR (2 ^ k - 1)" 1] o by (simp add: round_up_def)
  also have "\<dots> = (unat x + 2 ^ k - 1) div 2 ^ k * 2 ^ k" by (simp add: x div_add_self2 algebra_simps)
  finally show ?thesis .
qed

lemma ram_alignment_cases: "\<exists>k. ram_alignment pos = 2 ^ k \<and> k \<le> 26"
proof -
  have "ram_alignment pos = 2 ^ 16 \<or> ram_alignment pos = 2 ^ 20 \<or> ram_alignment pos = 2 ^ 26"
    by (simp add: ram_alignment_def Let_def)
  then show ?thesis by (elim disjE) (rule exI, erule conjI, simp)+
qed

text \<open>
  The buffer reserved behind a region of RAM starts where the region ends, ends at a
  multiple of the alignment for that address, and is shorter than the alignment.
\<close>

theorem ram_buffer_aligned:
  assumes "reserve_region_with_split a b name \<in> set (ram_buffer e)"
    and "entry_end e \<noteq> 0" and "unat (entry_end e) + 2 ^ 26 \<le> 2 ^ 64"
  shows "a = entry_end e \<and> unat a < unat b \<and> unat (ram_alignment a) dvd unat b + 1 \<and>
    unat b + 1 - unat a < unat (ram_alignment a)"
proof -
  have a: "a = entry_end e" and lt: "a < b" and b: "b = round_up a (ram_alignment a) - 1"
    using assms(1) by (auto simp: ram_buffer_def Let_def entry_end_def not_le split: if_splits)
  obtain k where k: "ram_alignment a = 2 ^ k" "k \<le> 26" using ram_alignment_cases by blast
  have "(2 :: nat) ^ k \<le> 2 ^ 26" using k(2) by (intro power_increasing) simp_all
  then have "unat a + 2 ^ k \<le> 2 ^ 64" unfolding a using assms(3) by linarith
  then have r: "unat (round_up a (2 ^ k)) = (unat a + 2 ^ k - 1) div 2 ^ k * 2 ^ k"
    using unat_round_up[of a k] assms(2) a k(2) by simp
  have u: "unat (ram_alignment a) = 2 ^ k" using k by (simp add: unat_exp_below)
  have pos: "1 \<le> unat a" using assms(2) a unat_gt_0[of a] by simp
  then have "(unat a + 2 ^ k - 1) div 2 ^ k \<noteq> 0" by (simp add: div_eq_0_iff)
  then have "round_up a (2 ^ k) \<noteq> 0" using r by auto
  then have "unat b + 1 = unat (round_up a (2 ^ k))"
    using unat_gt_0[of "round_up a (2 ^ k)"] by (simp add: b k unat_minus_one)
  then have e: "unat b + 1 = (unat a + 2 ^ k - 1) div 2 ^ k * 2 ^ k" using r by (rule trans)
  have "(unat a + 2 ^ k - 1) div 2 ^ k * 2 ^ k \<le> unat a + 2 ^ k - 1" by simp
  then have "unat b + 1 - unat a < 2 ^ k" 
    unfolding e using pos zero_less_power[of "2 :: nat" k] by linarith
  then show ?thesis using a lt e unfolding u word_less_nat_alt by simp
qed

theorem ram_buffer_aligned_witness:
  "0x9fc00 = entry_end (mk_entry 0 0x9fc00 1) \<and> unat (0x9fc00 :: u64) < unat (0x9ffff :: u64) \<and>
   unat (ram_alignment 0x9fc00) dvd unat (0x9ffff :: u64) + 1 \<and>
   unat (0x9ffff :: u64) + 1 - unat (0x9fc00 :: u64) < unat (ram_alignment 0x9fc00)"
proof (rule ram_buffer_aligned)
  show "reserve_region_with_split 0x9fc00 0x9ffff ''RAM buffer'' \<in> set (ram_buffer (mk_entry 0 0x9fc00 1))"
    by (simp add: ram_buffer_def Let_def ram_alignment_def round_up_def)
qed (simp_all add: entry_end_def)

end
