(* ===== verification/Kconfig_Expr.thy ===== *)
theory Kconfig_Expr
  imports Prelude
begin

text \<open>
  The expressions of the configuration language, \<^verbatim>\<open>scripts/kconfig/expr.c\<close> and
  \<^verbatim>\<open>scripts/kconfig/expr.h\<close>: their values, and the operations that compare, simplify, join
  and rewrite them.

  An expression tree is a value of \<open>expr\<close>; a pointer that may be \<open>NULL\<close> is an \<open>expr option\<close>.
  The parser uses the node types for choice lists and ranges only as whole expressions, so
  they are constructors of \<open>expr_node\<close> around the trees of logical operators. A symbol is
  referred to by its address: the three constant symbols and all others. What the
  configuration says of a symbol is the environment \<open>kenv\<close>. An operation that changes a tree
  in place returns the changed tree.
\<close>

subsection \<open>Tristate values\<close>

datatype tristate = tri_no | tri_mod | tri_yes

fun tri_int :: "tristate \<Rightarrow> int" where
  "tri_int tri_no = 0"
| "tri_int tri_mod = 1"
| "tri_int tri_yes = 2"

instantiation tristate :: linorder
begin

definition less_eq_tristate :: "tristate \<Rightarrow> tristate \<Rightarrow> bool" where
  "less_eq_tristate a b \<longleftrightarrow> tri_int a \<le> tri_int b"

definition less_tristate :: "tristate \<Rightarrow> tristate \<Rightarrow> bool" where
  "less_tristate a b \<longleftrightarrow> tri_int a < tri_int b"

instance
proof
  fix x y :: tristate
  show "x \<le> y \<Longrightarrow> y \<le> x \<Longrightarrow> x = y"
    by (cases x; cases y) (simp_all add: less_eq_tristate_def)
qed (auto simp: less_eq_tristate_def less_tristate_def)

end

definition EXPR_OR :: "tristate \<Rightarrow> tristate \<Rightarrow> tristate" where
  "EXPR_OR dep1 dep2 = (if dep1 > dep2 then dep1 else dep2)"

definition EXPR_AND :: "tristate \<Rightarrow> tristate \<Rightarrow> tristate" where
  "EXPR_AND dep1 dep2 = (if dep1 < dep2 then dep1 else dep2)"

fun EXPR_NOT :: "tristate \<Rightarrow> tristate" where
  "EXPR_NOT tri_no = tri_yes"
| "EXPR_NOT tri_mod = tri_mod"
| "EXPR_NOT tri_yes = tri_no"

subsection \<open>Symbols and expressions\<close>

datatype symbol_type = S_UNKNOWN | S_BOOLEAN | S_TRISTATE | S_INT | S_HEX | S_STRING

datatype symbol = symbol_yes | symbol_mod | symbol_no | Sym nat

record sym_info =
  si_name :: "string option"
  si_type :: symbol_type
  si_const :: bool
  si_tri :: tristate
  si_val :: string

type_synonym kenv = "nat \<Rightarrow> sym_info"

fun sym_info_of :: "kenv \<Rightarrow> symbol \<Rightarrow> sym_info" where
  "sym_info_of env symbol_yes =
     \<lparr>si_name = Some ''y'', si_type = S_TRISTATE, si_const = True, si_tri = tri_yes, si_val = ''y''\<rparr>"
| "sym_info_of env symbol_mod =
     \<lparr>si_name = Some ''m'', si_type = S_TRISTATE, si_const = True, si_tri = tri_mod, si_val = ''m''\<rparr>"
| "sym_info_of env symbol_no =
     \<lparr>si_name = Some ''n'', si_type = S_TRISTATE, si_const = True, si_tri = tri_no, si_val = ''n''\<rparr>"
| "sym_info_of env (Sym i) = env i"

abbreviation type_of :: "kenv \<Rightarrow> symbol \<Rightarrow> symbol_type" where
  "type_of env s \<equiv> si_type (sym_info_of env s)"

abbreviation tri_of :: "kenv \<Rightarrow> symbol \<Rightarrow> tristate" where
  "tri_of env s \<equiv> si_tri (sym_info_of env s)"

datatype cmp_type = E_EQUAL | E_UNEQUAL | E_LTH | E_LEQ | E_GTH | E_GEQ

datatype expr =
    E_OR expr expr
  | E_AND expr expr
  | E_NOT expr
  | E_COMP cmp_type symbol symbol
  | E_SYMBOL symbol

datatype expr_node = Node expr | E_LIST "symbol list" | E_RANGE symbol symbol

subsection \<open>Building expressions\<close>

definition expr_alloc_symbol :: "symbol \<Rightarrow> expr" where
  "expr_alloc_symbol s = E_SYMBOL s"

definition expr_alloc_comp :: "cmp_type \<Rightarrow> symbol \<Rightarrow> symbol \<Rightarrow> expr" where
  "expr_alloc_comp ty s1 s2 = E_COMP ty s1 s2"

definition expr_alloc_and :: "expr option \<Rightarrow> expr option \<Rightarrow> expr option" where
  "expr_alloc_and e1 e2 =
     (case e1 of None \<Rightarrow> e2
      | Some a \<Rightarrow> (case e2 of Some b \<Rightarrow> Some (E_AND a b) | None \<Rightarrow> e1))"

definition expr_alloc_or :: "expr option \<Rightarrow> expr option \<Rightarrow> expr option" where
  "expr_alloc_or e1 e2 =
     (case e1 of None \<Rightarrow> e2
      | Some a \<Rightarrow> (case e2 of Some b \<Rightarrow> Some (E_OR a b) | None \<Rightarrow> e1))"

fun expr_copy :: "expr \<Rightarrow> expr" where
  "expr_copy (E_SYMBOL s) = E_SYMBOL s"
| "expr_copy (E_NOT e) = E_NOT (expr_copy e)"
| "expr_copy (E_COMP ty s1 s2) = E_COMP ty s1 s2"
| "expr_copy (E_AND l r) = E_AND (expr_copy l) (expr_copy r)"
| "expr_copy (E_OR l r) = E_OR (expr_copy l) (expr_copy r)"

definition expr_is_yes :: "expr option \<Rightarrow> bool" where
  "expr_is_yes e \<longleftrightarrow> (case e of None \<Rightarrow> True | Some t \<Rightarrow> t = E_SYMBOL symbol_yes)"

definition expr_is_no :: "expr option \<Rightarrow> bool" where
  "expr_is_no e \<longleftrightarrow> e = Some (E_SYMBOL symbol_no)"

subsection \<open>Numbers in strings\<close>

text \<open>
  The C routines \<open>strtoll\<close>, \<open>strtoull\<close> and \<open>strcmp\<close>. \<open>strto\<close> returns the sign, the magnitude and
  the rest of the string behind the number, or \<open>None\<close> when there is no number.
\<close>

definition is_space :: "char \<Rightarrow> bool" where
  "is_space c \<longleftrightarrow> of_char c = (32 :: nat) \<or> of_char c \<in> {9 .. (13 :: nat)}"

definition digit_of :: "char \<Rightarrow> nat option" where
  "digit_of c =
     (let n = of_char c :: nat in
      if 48 \<le> n \<and> n \<le> 57 then Some (n - 48)
      else if 97 \<le> n \<and> n \<le> 122 then Some (n - 87)
      else if 65 \<le> n \<and> n \<le> 90 then Some (n - 55)
      else None)"

definition is_digit_of :: "nat \<Rightarrow> char \<Rightarrow> bool" where
  "is_digit_of base c \<longleftrightarrow> (case digit_of c of None \<Rightarrow> False | Some d \<Rightarrow> d < base)"

fun scan_digits :: "nat \<Rightarrow> nat \<Rightarrow> string \<Rightarrow> nat \<times> string" where
  "scan_digits base acc [] = (acc, [])"
| "scan_digits base acc (c # cs) =
     (if is_digit_of base c then scan_digits base (acc * base + the (digit_of c)) cs
      else (acc, c # cs))"

definition scan_base :: "nat \<Rightarrow> string \<Rightarrow> nat \<times> string" where
  "scan_base base s =
     (if base \<in> {0, 16} \<and> length s \<ge> 3 \<and> s ! 0 = CHR ''0'' \<and> s ! 1 \<in> {CHR ''x'', CHR ''X''} \<and>
         is_digit_of 16 (s ! 2)
      then (16, drop 2 s)
      else if base = 0 then (if s \<noteq> [] \<and> hd s = CHR ''0'' then 8 else 10, s)
      else (base, s))"

definition strto :: "nat \<Rightarrow> string \<Rightarrow> (bool \<times> nat \<times> string) option" where
  "strto base s =
     (let s1 = dropWhile is_space s;
          neg = (s1 \<noteq> [] \<and> hd s1 = CHR ''-'');
          s2 = (if s1 \<noteq> [] \<and> hd s1 \<in> {CHR ''-'', CHR ''+''} then tl s1 else s1);
          (b, s3) = scan_base base s2;
          (n, rest) = scan_digits b 0 s3
      in if s3 = [] \<or> \<not> is_digit_of b (hd s3) then None else Some (neg, n, rest))"

fun strcmp :: "string \<Rightarrow> string \<Rightarrow> int" where
  "strcmp [] [] = 0"
| "strcmp [] (d # ds) = - 1"
| "strcmp (c # cs) [] = 1"
| "strcmp (c # cs) (d # ds) =
     (if c = d then strcmp cs ds else if of_char c < (of_char d :: nat) then - 1 else 1)"

datatype string_value_kind = k_string | k_signed | k_unsigned

text \<open>The union of a signed and an unsigned 64-bit number is the word that both read.\<close>

definition expr_parse_string :: "string \<Rightarrow> symbol_type \<Rightarrow> string_value_kind \<times> u64" where
  "expr_parse_string str ty =
     (if ty = S_BOOLEAN \<or> ty = S_TRISTATE then
        (k_signed, if str = ''n'' then 0 else if str = ''m'' then 1 else if str = ''y'' then 2 else - 1)
      else if ty = S_HEX then
        (case strto 16 str of
           None \<Rightarrow> (k_string, 0)
         | Some (neg, n, rest) \<Rightarrow>
             if n \<ge> 2 ^ 64 then (k_string, ULLONG_MAX)
             else (if rest = [] then k_unsigned else k_string, if neg then - of_nat n else of_nat n))
      else
        (case strto (if ty = S_INT then 10 else 0) str of
           None \<Rightarrow> (k_string, 0)
         | Some (neg, n, rest) \<Rightarrow>
             if neg \<and> n > 2 ^ 63 then (k_string, of_nat (2 ^ 63))
             else if \<not> neg \<and> n \<ge> 2 ^ 63 then (k_string, of_nat (2 ^ 63 - 1))
             else (if rest = [] then k_signed else k_string, if neg then - of_nat n else of_nat n)))"

subsection \<open>Values\<close>

fun tri_string :: "tristate \<Rightarrow> string" where
  "tri_string tri_no = ''n''"
| "tri_string tri_mod = ''m''"
| "tri_string tri_yes = ''y''"

definition sym_get_string_value :: "kenv \<Rightarrow> symbol \<Rightarrow> string" where
  "sym_get_string_value env s =
     (let i = sym_info_of env s in
      if si_type i = S_BOOLEAN \<or> si_type i = S_TRISTATE then tri_string (si_tri i) else si_val i)"

text \<open>The result \<open>res\<close> of comparing two symbols, negative, zero or positive.\<close>

definition compare_syms :: "kenv \<Rightarrow> symbol \<Rightarrow> symbol \<Rightarrow> int" where
  "compare_syms env s1 s2 =
     (let str1 = sym_get_string_value env s1; str2 = sym_get_string_value env s2;
          numeric = (type_of env s1 \<noteq> S_STRING \<or> type_of env s2 \<noteq> S_STRING);
          (k1, lval) = (if numeric then expr_parse_string str1 (type_of env s1) else (k_string, 0));
          (k2, rval) = (if numeric then expr_parse_string str2 (type_of env s2) else (k_string, 0))
      in if k1 = k_string \<or> k2 = k_string then strcmp str1 str2
         else if k1 = k_unsigned \<or> k2 = k_unsigned
         then of_bool (lval > rval) - of_bool (lval < rval)
         else of_bool (sint lval > sint rval) - of_bool (sint lval < sint rval))"

fun holds_cmp :: "cmp_type \<Rightarrow> int \<Rightarrow> bool" where
  "holds_cmp E_EQUAL res \<longleftrightarrow> res = 0"
| "holds_cmp E_UNEQUAL res \<longleftrightarrow> res \<noteq> 0"
| "holds_cmp E_LTH res \<longleftrightarrow> res < 0"
| "holds_cmp E_LEQ res \<longleftrightarrow> res \<le> 0"
| "holds_cmp E_GTH res \<longleftrightarrow> res > 0"
| "holds_cmp E_GEQ res \<longleftrightarrow> res \<ge> 0"

fun expr_value :: "kenv \<Rightarrow> expr \<Rightarrow> tristate" where
  "expr_value env (E_SYMBOL s) = tri_of env s"
| "expr_value env (E_AND l r) = EXPR_AND (expr_value env l) (expr_value env r)"
| "expr_value env (E_OR l r) = EXPR_OR (expr_value env l) (expr_value env r)"
| "expr_value env (E_NOT e) = EXPR_NOT (expr_value env e)"
| "expr_value env (E_COMP ty s1 s2) = (if holds_cmp ty (compare_syms env s1 s2) then tri_yes else tri_no)"

text \<open>A choice list or a range has no value: the code reports it and returns \<open>no\<close>.\<close>

definition expr_calc_value :: "kenv \<Rightarrow> expr_node option \<Rightarrow> tristate" where
  "expr_calc_value env e =
     (case e of None \<Rightarrow> tri_yes | Some (Node t) \<Rightarrow> expr_value env t | Some _ \<Rightarrow> tri_no)"

subsection \<open>Removing constants\<close>

definition and_yn :: "expr \<Rightarrow> expr \<Rightarrow> expr" where
  "and_yn l r =
     (if l = E_SYMBOL symbol_no then E_SYMBOL symbol_no
      else if l = E_SYMBOL symbol_yes then r
      else if r = E_SYMBOL symbol_no then E_SYMBOL symbol_no
      else if r = E_SYMBOL symbol_yes then l
      else E_AND l r)"

definition or_yn :: "expr \<Rightarrow> expr \<Rightarrow> expr" where
  "or_yn l r =
     (if l = E_SYMBOL symbol_no then r
      else if l = E_SYMBOL symbol_yes then E_SYMBOL symbol_yes
      else if r = E_SYMBOL symbol_no then l
      else if r = E_SYMBOL symbol_yes then E_SYMBOL symbol_yes
      else E_OR l r)"

fun expr_eliminate_yn :: "expr \<Rightarrow> expr" where
  "expr_eliminate_yn (E_AND l r) = and_yn (expr_eliminate_yn l) (expr_eliminate_yn r)"
| "expr_eliminate_yn (E_OR l r) = or_yn (expr_eliminate_yn l) (expr_eliminate_yn r)"
| "expr_eliminate_yn e = e"

subsection \<open>Equality of expressions\<close>

text \<open>The node types that \<open>type\<close> can be in the walks over operands, and reading a node of that type.\<close>

datatype log_type = L_OR | L_AND

fun operands :: "log_type \<Rightarrow> expr \<Rightarrow> (expr \<times> expr) option" where
  "operands L_OR (E_OR l r) = Some (l, r)"
| "operands L_AND (E_AND l r) = Some (l, r)"
| "operands _ _ = None"

fun mk_log :: "log_type \<Rightarrow> expr \<Rightarrow> expr \<Rightarrow> expr" where
  "mk_log L_OR l r = E_OR l r"
| "mk_log L_AND l r = E_AND l r"

fun log_type_of :: "expr \<Rightarrow> log_type option" where
  "log_type_of (E_OR l r) = Some L_OR"
| "log_type_of (E_AND l r) = Some L_AND"
| "log_type_of _ = None"

text \<open>The constant that replaces an eliminated operand.\<close>

fun log_unit :: "log_type \<Rightarrow> symbol" where
  "log_unit L_OR = symbol_no"
| "log_unit L_AND = symbol_yes"

fun expr_size :: "expr \<Rightarrow> nat" where
  "expr_size (E_OR l r) = expr_size l + expr_size r + 1"
| "expr_size (E_AND l r) = expr_size l + expr_size r + 1"
| "expr_size (E_NOT e) = expr_size e + 1"
| "expr_size _ = 1"

lemma expr_size_pos [simp]: "0 < expr_size e"
  by (cases e) auto

lemma operands_Some [simp]: "operands ty e = Some (l, r) \<longleftrightarrow> e = mk_log ty l r"
  by (cases ty; cases e) auto

lemma operands_mk_log [simp]: "operands ty (mk_log ty l r) = Some (l, r)"
  by simp

lemma expr_size_mk_log [simp]: "expr_size (mk_log ty l r) = expr_size l + expr_size r + 1"
  by (cases ty) auto

fun same_symbol :: "expr \<Rightarrow> expr \<Rightarrow> bool" where
  "same_symbol (E_SYMBOL s) (E_SYMBOL s') \<longleftrightarrow> s = s'"
| "same_symbol _ _ \<longleftrightarrow> False"

function (domintros) elim_eq :: "log_type \<Rightarrow> expr \<Rightarrow> expr \<Rightarrow> expr \<times> expr"
  and eliminate_eq :: "expr \<Rightarrow> expr \<Rightarrow> expr \<times> expr"
  and tree_eq :: "expr \<Rightarrow> expr \<Rightarrow> bool" where
  "elim_eq ty e1 e2 =
     (case operands ty e1 of
        Some (l, r) \<Rightarrow>
          let p = elim_eq ty l e2; q = elim_eq ty r (snd p) in (mk_log ty (fst p) (fst q), snd q)
      | None \<Rightarrow>
          (case operands ty e2 of
             Some (l, r) \<Rightarrow>
               let p = elim_eq ty e1 l; q = elim_eq ty (fst p) r in (fst q, mk_log ty (snd p) (snd q))
           | None \<Rightarrow>
               if e1 = e2 \<and> (e1 = E_SYMBOL symbol_yes \<or> e1 = E_SYMBOL symbol_no) then (e1, e2)
               else if \<not> tree_eq e1 e2 then (e1, e2)
               else (E_SYMBOL (log_unit ty), E_SYMBOL (log_unit ty))))"
| "eliminate_eq e1 e2 =
     (let p = (case log_type_of e1 of Some ty \<Rightarrow> elim_eq ty e1 e2 | None \<Rightarrow> (e1, e2));
          q = (if log_type_of (fst p) = log_type_of (snd p) then p
               else case log_type_of (snd p) of Some ty \<Rightarrow> elim_eq ty (fst p) (snd p) | None \<Rightarrow> p)
      in (expr_eliminate_yn (fst q), expr_eliminate_yn (snd q)))"
| "tree_eq e1 e2 =
     (case (e1, e2) of
        (E_COMP ty s1 s2, E_COMP ty' s1' s2') \<Rightarrow> ty = ty' \<and> s1 = s1' \<and> s2 = s2'
      | (E_SYMBOL s, E_SYMBOL s') \<Rightarrow> s = s'
      | (E_NOT a, E_NOT b) \<Rightarrow> tree_eq a b
      | (E_AND _ _, E_AND _ _) \<Rightarrow>
          let p = eliminate_eq e1 e2 in same_symbol (fst p) (snd p)
      | (E_OR _ _, E_OR _ _) \<Rightarrow>
          let p = eliminate_eq e1 e2 in same_symbol (fst p) (snd p)
      | _ \<Rightarrow> False)"
  by pat_completeness auto

text \<open>
  The walk never makes a tree larger, which its second calls need to end: they get trees that
  the first calls have changed.
\<close>

lemma elim_eq_size_dom:
  assumes "elim_eq_eliminate_eq_tree_eq_dom (Inl (ty, e1, e2))"
  shows "expr_size (fst (elim_eq ty e1 e2)) \<le> expr_size e1 \<and> expr_size (snd (elim_eq ty e1 e2)) \<le> expr_size e2"
  using assms
proof (rule elim_eq_eliminate_eq_tree_eq.pinduct(1)
    [where Q = "\<lambda>_ _. True" and R = "\<lambda>_ _. True"], goal_cases)
  case (1 ty e1 e2)
  note dom = 1(1) and IH2 = 1(3,4) and IH1 = 1(5,6)
  consider (left) l r where "operands ty e1 = Some (l, r)"
    | (right) l r where "operands ty e1 = None" "operands ty e2 = Some (l, r)"
    | (leaf) "operands ty e1 = None" "operands ty e2 = None"
    by (metis not_Some_eq surj_pair)
  then show ?case
  proof cases
    case left
    then have "elim_eq ty e1 e2 = (let p = elim_eq ty l e2; q = elim_eq ty r (snd p) in
        (mk_log ty (fst p) (fst q), snd q))"
      by (subst elim_eq.psimps[OF dom]) simp
    then show ?thesis
      using left IH1(1)[of "(l, r)" l r] IH1(2)[of "(l, r)" l r] by (auto simp: Let_def)
  next
    case right
    then have "elim_eq ty e1 e2 = (let p = elim_eq ty e1 l; q = elim_eq ty (fst p) r in
        (fst q, mk_log ty (snd p) (snd q)))"
      by (subst elim_eq.psimps[OF dom]) simp
    then show ?thesis
      using right IH2(1)[of "(l, r)" l r] IH2(2)[of "(l, r)" l r] by (auto simp: Let_def)
  next
    case leaf
    then show ?thesis by (simp add: elim_eq.psimps[OF dom] Suc_leI)
  qed
qed simp_all

fun eq_measure :: "log_type \<times> expr \<times> expr + expr \<times> expr + expr \<times> expr \<Rightarrow> nat" where
  "eq_measure (Inl (ty, e1, e2)) =
     4 * (expr_size e1 + expr_size e2) +
     (if operands ty e1 = None \<and> operands ty e2 = None then 3 else 0)"
| "eq_measure (Inr (Inl (e1, e2))) = 4 * (expr_size e1 + expr_size e2) + 1"
| "eq_measure (Inr (Inr (e1, e2))) = 4 * (expr_size e1 + expr_size e2) + 2"

lemma log_type_of_operands: "log_type_of e = Some ty \<Longrightarrow> operands ty e \<noteq> None"
  by (cases e) auto

termination elim_eq
proof (relation "measure eq_measure", goal_cases)
  case (4 ty e1 e2 x2 x y xa)
  then show ?case using elim_eq_size_dom[OF 4(5)] by auto
next
  case (6 ty e1 e2 x2 x y xa)
  then show ?case using elim_eq_size_dom[OF 6(4)] by auto
next
  case (7 e1 e2 x2)
  then show ?case using log_type_of_operands[OF 7] by auto
next
  case (8 e1 e2 x x2)
  then have "expr_size (fst x) \<le> expr_size e1 \<and> expr_size (snd x) \<le> expr_size e2"
    using elim_eq_size_dom[OF 8(4)] by (cases "log_type_of e1") auto
  then show ?case using log_type_of_operands[OF 8(3)] by (cases x) auto
qed auto

declare elim_eq.simps [simp del] eliminate_eq.simps [simp del] tree_eq.simps [simp del]

definition expr_eliminate_eq :: "expr option \<Rightarrow> expr option \<Rightarrow> expr option \<times> expr option" where
  "expr_eliminate_eq ep1 ep2 =
     (case (ep1, ep2) of
        (Some e1, Some e2) \<Rightarrow> let p = eliminate_eq e1 e2 in (Some (fst p), Some (snd p))
      | _ \<Rightarrow> (ep1, ep2))"

definition expr_eq :: "expr option \<Rightarrow> expr option \<Rightarrow> bool" where
  "expr_eq ep1 ep2 =
     (case (ep1, ep2) of
        (Some e1, Some e2) \<Rightarrow> tree_eq e1 e2
      | _ \<Rightarrow> expr_is_yes ep1 \<and> expr_is_yes ep2)"

subsection \<open>Joining two operands\<close>

text \<open>The symbol an operand tests, for the first and for the second operand of a join.\<close>

fun direct_sym :: "expr \<Rightarrow> symbol option" where
  "direct_sym (E_COMP ty s v) = (if ty = E_EQUAL \<or> ty = E_UNEQUAL then Some s else None)"
| "direct_sym (E_SYMBOL s) = Some s"
| "direct_sym _ = None"

fun join_sym1 :: "expr \<Rightarrow> symbol option" where
  "join_sym1 (E_NOT tmp) = direct_sym tmp"
| "join_sym1 e = direct_sym e"

fun join_sym2 :: "expr \<Rightarrow> symbol option" where
  "join_sym2 (E_NOT (E_SYMBOL s)) = Some s"
| "join_sym2 (E_NOT _) = None"
| "join_sym2 e = direct_sym e"

definition both_cmp :: "cmp_type \<Rightarrow> symbol \<Rightarrow> symbol \<Rightarrow> symbol \<Rightarrow> expr \<Rightarrow> expr \<Rightarrow> bool" where
  "both_cmp ty s u v e1 e2 \<longleftrightarrow>
     e1 = E_COMP ty s u \<and> e2 = E_COMP ty s v \<or> e1 = E_COMP ty s v \<and> e2 = E_COMP ty s u"

definition sym_and_cmp :: "cmp_type \<Rightarrow> symbol \<Rightarrow> symbol \<Rightarrow> expr \<Rightarrow> expr \<Rightarrow> bool" where
  "sym_and_cmp ty s v e1 e2 \<longleftrightarrow>
     e1 = E_SYMBOL s \<and> e2 = E_COMP ty s v \<or> e2 = E_SYMBOL s \<and> e1 = E_COMP ty s v"

definition bool_or_tri :: "kenv \<Rightarrow> symbol \<Rightarrow> bool" where
  "bool_or_tri env s \<longleftrightarrow> type_of env s = S_BOOLEAN \<or> type_of env s = S_TRISTATE"

definition expr_join_or :: "kenv \<Rightarrow> expr \<Rightarrow> expr \<Rightarrow> expr option" where
  "expr_join_or env e1 e2 =
     (if tree_eq e1 e2 then Some (expr_copy e1)
      else
        (case (join_sym1 e1, join_sym2 e2) of
           (Some s1, Some s2) \<Rightarrow>
             if s1 \<noteq> s2 \<or> \<not> bool_or_tri env s1 then None
             else if type_of env s1 = S_TRISTATE \<and> both_cmp E_EQUAL s1 symbol_yes symbol_mod e1 e2
             then Some (expr_alloc_comp E_UNEQUAL s1 symbol_no)
             else if type_of env s1 = S_TRISTATE \<and> both_cmp E_EQUAL s1 symbol_yes symbol_no e1 e2
             then Some (expr_alloc_comp E_UNEQUAL s1 symbol_mod)
             else if type_of env s1 = S_TRISTATE \<and> both_cmp E_EQUAL s1 symbol_mod symbol_no e1 e2
             then Some (expr_alloc_comp E_UNEQUAL s1 symbol_yes)
             else if type_of env s1 = S_BOOLEAN \<and>
               (e1 = E_NOT (E_SYMBOL s1) \<and> e2 = E_SYMBOL s1 \<or> e2 = E_NOT (E_SYMBOL s1) \<and> e1 = E_SYMBOL s1)
             then Some (expr_alloc_symbol symbol_yes)
             else None
         | _ \<Rightarrow> None))"

text \<open>A comparison for equality and one for inequality with constants, in this order.\<close>

definition join_eq_uneq :: "kenv \<Rightarrow> symbol \<Rightarrow> expr \<Rightarrow> expr \<Rightarrow> expr option" where
  "join_eq_uneq env s1 e1 e2 =
     (case (e1, e2) of
        (E_COMP E_EQUAL _ b, E_COMP E_UNEQUAL _ c) \<Rightarrow>
          if si_const (sym_info_of env c) \<and> si_const (sym_info_of env b)
          then Some (if b \<noteq> c then expr_alloc_comp E_EQUAL s1 b else expr_alloc_symbol symbol_no)
          else None
      | _ \<Rightarrow> None)"

definition join_tristate_and :: "kenv \<Rightarrow> symbol \<Rightarrow> expr \<Rightarrow> expr \<Rightarrow> expr option" where
  "join_tristate_and env s1 e1 e2 =
     (if join_eq_uneq env s1 e1 e2 \<noteq> None then join_eq_uneq env s1 e1 e2
      else if join_eq_uneq env s1 e2 e1 \<noteq> None then join_eq_uneq env s1 e2 e1
      else if both_cmp E_UNEQUAL s1 symbol_yes symbol_no e1 e2
      then Some (expr_alloc_comp E_EQUAL s1 symbol_mod)
      else if both_cmp E_UNEQUAL s1 symbol_yes symbol_mod e1 e2
      then Some (expr_alloc_comp E_EQUAL s1 symbol_no)
      else if both_cmp E_UNEQUAL s1 symbol_mod symbol_no e1 e2
      then Some (expr_alloc_comp E_EQUAL s1 symbol_yes)
      else None)"

definition expr_join_and :: "kenv \<Rightarrow> expr \<Rightarrow> expr \<Rightarrow> expr option" where
  "expr_join_and env e1 e2 =
     (if tree_eq e1 e2 then Some (expr_copy e1)
      else
        (case (join_sym1 e1, join_sym2 e2) of
           (Some s1, Some s2) \<Rightarrow>
             if s1 \<noteq> s2 \<or> \<not> bool_or_tri env s1 then None
             else if sym_and_cmp E_EQUAL s1 symbol_yes e1 e2
             then Some (expr_alloc_comp E_EQUAL s1 symbol_yes)
             else if sym_and_cmp E_UNEQUAL s1 symbol_no e1 e2 then Some (expr_alloc_symbol s1)
             else if sym_and_cmp E_UNEQUAL s1 symbol_mod e1 e2
             then Some (expr_alloc_comp E_EQUAL s1 symbol_yes)
             else if type_of env s1 = S_TRISTATE then join_tristate_and env s1 e1 e2
             else None
         | _ \<Rightarrow> None))"

fun expr_join :: "kenv \<Rightarrow> log_type \<Rightarrow> expr \<Rightarrow> expr \<Rightarrow> expr option" where
  "expr_join env L_OR e1 e2 = expr_join_or env e1 e2"
| "expr_join env L_AND e1 e2 = expr_join_and env e1 e2"

subsection \<open>Removing duplicate operands\<close>

text \<open>
  \<open>expr_eliminate_dups1\<close> walks the same tree with two pointers: every leaf against every leaf,
  both in the order of the tree, changing the leaves in place. The leaves are an array here,
  and two pointers are equal if their indices are. A leaf never becomes a node of the type of
  the walk, so the shape of the tree above the leaves stays. The counter \<open>trans_count\<close> is
  the first component. The fuel bounds the depth of alternating operators.
\<close>

function leaves :: "log_type \<Rightarrow> expr \<Rightarrow> expr list" where
  "leaves ty e = (case operands ty e of Some (l, r) \<Rightarrow> leaves ty l @ leaves ty r | None \<Rightarrow> [e])"
  by pat_completeness auto
termination leaves
  by (relation "measure (\<lambda>(ty, e). expr_size e)") (auto dest!: sym[of "Some _"])

declare leaves.simps [simp del]

function relabel :: "log_type \<Rightarrow> expr \<Rightarrow> expr list \<Rightarrow> expr" where
  "relabel ty e ls =
     (case operands ty e of
        Some (l, r) \<Rightarrow>
          let n = length (leaves ty l) in mk_log ty (relabel ty l (take n ls)) (relabel ty r (drop n ls))
      | None \<Rightarrow> hd ls)"
  by pat_completeness auto
termination relabel
  by (relation "measure (\<lambda>(ty, e, ls). expr_size e)") (auto dest!: sym[of "Some _"])

declare relabel.simps [simp del]

definition leaf_pairs :: "nat \<Rightarrow> (nat \<times> nat) list" where
  "leaf_pairs n = concat (map (\<lambda>i. map (Pair i) [0..<n]) [0..<n])"

definition dups_step ::
  "(log_type \<Rightarrow> expr \<Rightarrow> nat \<times> expr) \<Rightarrow> kenv \<Rightarrow> log_type \<Rightarrow> nat \<times> nat \<Rightarrow> nat \<times> expr list \<Rightarrow> nat \<times> expr list" where
  "dups_step inner env ty ij st =
     (case (ij, st) of ((i, j), (cnt, ls)) \<Rightarrow>
        if i = j then (cnt, ls)
        else
          let (c, a) = (case log_type_of (ls ! i) of Some ty' \<Rightarrow> inner ty' (ls ! i) | None \<Rightarrow> (0, ls ! i))
          in (case expr_join env ty a (ls ! j) of
                None \<Rightarrow> (cnt + c, ls[i := a])
              | Some tmp \<Rightarrow> (cnt + c + 1, ls[i := E_SYMBOL (log_unit ty), j := tmp])))"

fun dups1 :: "nat \<Rightarrow> kenv \<Rightarrow> log_type \<Rightarrow> expr \<Rightarrow> nat \<times> expr" where
  "dups1 0 env ty e = (0, e)"
| "dups1 (Suc fuel) env ty e =
     (let ls = leaves ty e;
          (cnt, ls') = fold (dups_step (dups1 fuel env) env ty) (leaf_pairs (length ls)) (0, ls)
      in (cnt, relabel ty e ls'))"

definition expr_eliminate_dups1 :: "kenv \<Rightarrow> log_type \<Rightarrow> expr \<Rightarrow> nat \<times> expr" where
  "expr_eliminate_dups1 env ty e = dups1 (expr_size e) env ty e"

subsection \<open>Symbols in expressions\<close>

fun contains_symbol :: "expr \<Rightarrow> symbol \<Rightarrow> bool" where
  "contains_symbol (E_AND l r) s \<longleftrightarrow> contains_symbol l s \<or> contains_symbol r s"
| "contains_symbol (E_OR l r) s \<longleftrightarrow> contains_symbol l s \<or> contains_symbol r s"
| "contains_symbol (E_SYMBOL s') s \<longleftrightarrow> s' = s"
| "contains_symbol (E_COMP ty s1 s2) s \<longleftrightarrow> s1 = s \<or> s2 = s"
| "contains_symbol (E_NOT e) s \<longleftrightarrow> contains_symbol e s"

definition expr_contains_symbol :: "expr_node option \<Rightarrow> symbol \<Rightarrow> bool" where
  "expr_contains_symbol dep s = (case dep of Some (Node e) \<Rightarrow> contains_symbol e s | _ \<Rightarrow> False)"

fun depends_symbol :: "expr \<Rightarrow> symbol \<Rightarrow> bool" where
  "depends_symbol (E_AND l r) s \<longleftrightarrow> depends_symbol l s \<or> depends_symbol r s"
| "depends_symbol (E_SYMBOL s') s \<longleftrightarrow> s' = s"
| "depends_symbol (E_COMP ty s1 s2) s \<longleftrightarrow>
     ty = E_EQUAL \<and> s1 = s \<and> (s2 = symbol_yes \<or> s2 = symbol_mod) \<or>
     ty = E_UNEQUAL \<and> s1 = s \<and> s2 = symbol_no"
| "depends_symbol _ s \<longleftrightarrow> False"

definition expr_depends_symbol :: "expr_node option \<Rightarrow> symbol \<Rightarrow> bool" where
  "expr_depends_symbol dep s = (case dep of Some (Node e) \<Rightarrow> depends_symbol e s | _ \<Rightarrow> False)"

subsection \<open>Inserting comparisons\<close>

text \<open>
  The type is \<open>E_EQUAL\<close> or \<open>E_UNEQUAL\<close>. For a comparison inside the expression the code returns
  \<open>NULL\<close> when the symbol is none of the three constants; such a \<open>NULL\<close> below an operator is
  not a tree, and the result is \<open>None\<close> then as well.
\<close>

definition trans_leaf :: "expr \<Rightarrow> cmp_type \<Rightarrow> symbol \<Rightarrow> expr option" where
  "trans_leaf e ty s =
     (if ty = E_EQUAL then
        (if s = symbol_yes then Some (expr_copy e)
         else if s = symbol_mod then Some (E_SYMBOL symbol_no)
         else if s = symbol_no then Some (E_NOT (expr_copy e))
         else None)
      else
        (if s = symbol_yes then Some (E_NOT (expr_copy e))
         else if s = symbol_mod then Some (E_SYMBOL symbol_yes)
         else if s = symbol_no then Some (expr_copy e)
         else None))"

definition trans_join :: "log_type \<Rightarrow> expr \<Rightarrow> expr \<Rightarrow> expr \<Rightarrow> cmp_type \<Rightarrow> symbol \<Rightarrow> expr" where
  "trans_join lt e e1 e2 ty s =
     (let e' = (if s = symbol_yes then mk_log lt e1 e2
                else if s = symbol_no then mk_log (if lt = L_AND then L_OR else L_AND) e1 e2
                else e)
      in if ty = E_UNEQUAL then E_NOT e' else e')"

fun trans_compare :: "expr \<Rightarrow> cmp_type \<Rightarrow> symbol \<Rightarrow> expr option" where
  "trans_compare (E_AND l r) ty s =
     (case (trans_compare l E_EQUAL s, trans_compare r E_EQUAL s) of
        (Some e1, Some e2) \<Rightarrow> Some (trans_join L_AND (E_AND l r) e1 e2 ty s)
      | _ \<Rightarrow> None)"
| "trans_compare (E_OR l r) ty s =
     (case (trans_compare l E_EQUAL s, trans_compare r E_EQUAL s) of
        (Some e1, Some e2) \<Rightarrow> Some (trans_join L_OR (E_OR l r) e1 e2 ty s)
      | _ \<Rightarrow> None)"
| "trans_compare (E_NOT e) ty s = trans_compare e (if ty = E_EQUAL then E_UNEQUAL else E_EQUAL) s"
| "trans_compare (E_COMP cty s1 s2) ty s = trans_leaf (E_COMP cty s1 s2) ty s"
| "trans_compare (E_SYMBOL s1) ty s = Some (expr_alloc_comp ty s1 s)"

definition expr_trans_compare :: "expr option \<Rightarrow> cmp_type \<Rightarrow> symbol \<Rightarrow> expr option" where
  "expr_trans_compare e ty s =
     (case e of
        None \<Rightarrow> Some (if ty = E_UNEQUAL then E_NOT (expr_alloc_symbol s) else expr_alloc_symbol s)
      | Some t \<Rightarrow> trans_compare t ty s)"

subsection \<open>Printing\<close>

datatype expr_token =
  T_NONE | T_OR | T_AND | T_NOT | T_COMP cmp_type | T_LIST | T_SYMBOL | T_RANGE

fun node_token :: "expr_node \<Rightarrow> expr_token" where
  "node_token (Node (E_OR _ _)) = T_OR"
| "node_token (Node (E_AND _ _)) = T_AND"
| "node_token (Node (E_NOT _)) = T_NOT"
| "node_token (Node (E_COMP ty _ _)) = T_COMP ty"
| "node_token (Node (E_SYMBOL _)) = T_SYMBOL"
| "node_token (E_LIST _) = T_LIST"
| "node_token (E_RANGE _ _) = T_RANGE"

text \<open>The cases of the \<open>switch\<close> fall through, so each type also has the tests of the later ones.\<close>

fun weaker_tokens :: "expr_token \<Rightarrow> expr_token set" where
  "weaker_tokens T_LIST = {T_NONE}"
| "weaker_tokens T_OR = {T_LIST, T_NONE}"
| "weaker_tokens T_AND = {T_OR, T_LIST, T_NONE}"
| "weaker_tokens T_NOT = {T_AND, T_OR, T_LIST, T_NONE}"
| "weaker_tokens (T_COMP ty) =
     (if ty = E_EQUAL \<or> ty = E_UNEQUAL then {} else {T_COMP E_EQUAL, T_COMP E_UNEQUAL}) \<union>
     {T_NOT, T_AND, T_OR, T_LIST, T_NONE}"
| "weaker_tokens _ = {}"

definition expr_compare_type :: "expr_token \<Rightarrow> expr_token \<Rightarrow> int" where
  "expr_compare_type t1 t2 =
     (if t1 = t2 then 0 else if t2 \<in> weaker_tokens t1 then 1 else - 1)"

type_synonym out = "(symbol option \<times> string) list"

fun cmp_text :: "cmp_type \<Rightarrow> string" where
  "cmp_text E_EQUAL = ''=''"
| "cmp_text E_UNEQUAL = ''!=''"
| "cmp_text E_LTH = ''<''"
| "cmp_text E_LEQ = ''<=''"
| "cmp_text E_GTH = ''>''"
| "cmp_text E_GEQ = ''>=''"

definition print_sym :: "kenv \<Rightarrow> symbol \<Rightarrow> out" where
  "print_sym env s =
     (case si_name (sym_info_of env s) of
        Some n \<Rightarrow> [(Some s, n)]
      | None \<Rightarrow> [(None, ''<choice>'')])"

text \<open>Where the code prints a name without testing it the name of a constant or value symbol is there.\<close>

definition print_name :: "kenv \<Rightarrow> symbol \<Rightarrow> out" where
  "print_name env s = [(Some s, case si_name (sym_info_of env s) of Some n \<Rightarrow> n | None \<Rightarrow> [])]"

definition parens :: "expr_token \<Rightarrow> expr_token \<Rightarrow> out \<Rightarrow> out" where
  "parens prev t body =
     (if expr_compare_type prev t > 0 then (None, ''('') # body @ [(None, '')'')] else body)"

fun print_tree :: "kenv \<Rightarrow> expr_token \<Rightarrow> expr \<Rightarrow> out" where
  "print_tree env prev (E_SYMBOL s) = parens prev T_SYMBOL (print_sym env s)"
| "print_tree env prev (E_NOT e) = parens prev T_NOT ((None, ''!'') # print_tree env T_NOT e)"
| "print_tree env prev (E_COMP ty s1 s2) =
     parens prev (T_COMP ty) (print_sym env s1 @ (None, cmp_text ty) # print_name env s2)"
| "print_tree env prev (E_OR l r) =
     parens prev T_OR (print_tree env T_OR l @ (None, '' || '') # print_tree env T_OR r)"
| "print_tree env prev (E_AND l r) =
     parens prev T_AND (print_tree env T_AND l @ (None, '' && '') # print_tree env T_AND r)"

fun print_list :: "kenv \<Rightarrow> expr_token \<Rightarrow> symbol list \<Rightarrow> out" where
  "print_list env prev [] = []"
| "print_list env prev [s] = parens prev T_LIST (print_name env s)"
| "print_list env prev (s # s' # ss) =
     parens prev T_LIST (print_name env s @ (None, '' ^ '') # print_list env T_LIST (s' # ss))"

definition expr_print :: "kenv \<Rightarrow> expr_token \<Rightarrow> expr_node option \<Rightarrow> out" where
  "expr_print env prev e =
     (case e of
        None \<Rightarrow> [(None, ''y'')]
      | Some (Node t) \<Rightarrow> print_tree env prev t
      | Some (E_LIST ss) \<Rightarrow> print_list env prev ss
      | Some (E_RANGE s1 s2) \<Rightarrow>
          parens prev T_RANGE
            ((None, ''['') # print_name env s1 @ (None, '' '') # print_name env s2 @ [(None, '']'')]))"

definition expr_fprint :: "kenv \<Rightarrow> expr_node option \<Rightarrow> string" where
  "expr_fprint env e = concat (map snd (expr_print env T_NONE e))"

text \<open>
  Printing into a growable string. With a width a line is broken before an item that would
  pass it; the line counts from its newline character.
\<close>

definition newline :: string where
  "newline = [char_of (10 :: nat)]"

definition last_line_length :: "string \<Rightarrow> nat" where
  "last_line_length gs =
     (let tail_len = length (takeWhile (\<lambda>c. c \<noteq> char_of (10 :: nat)) (rev gs))
      in if tail_len = length gs then tail_len else tail_len + 1)"

definition expr_print_gstr_helper :: "kenv \<Rightarrow> nat \<Rightarrow> symbol option \<times> string \<Rightarrow> string \<Rightarrow> string" where
  "expr_print_gstr_helper env max_width item gs =
     (let (s, str) = item;
          extra_length = length str +
            (case s of Some s' \<Rightarrow> 4 + length (sym_get_string_value env s') | None \<Rightarrow> 0);
          gs1 = (if max_width \<noteq> 0 \<and> last_line_length gs + extra_length > max_width
                 then gs @ [char_of (92 :: nat)] @ newline else gs)
      in gs1 @ str @
         (case s of
            Some s' \<Rightarrow>
              if type_of env s' \<noteq> S_UNKNOWN then '' [='' @ sym_get_string_value env s' @ '']'' else []
          | None \<Rightarrow> []))"

definition expr_gstr_print :: "kenv \<Rightarrow> nat \<Rightarrow> expr_node option \<Rightarrow> string \<Rightarrow> string" where
  "expr_gstr_print env max_width e gs = fold (expr_print_gstr_helper env max_width) (expr_print env T_NONE e) gs"

text \<open>The lines of a reverse dependency with a given value, below a title that is printed once.\<close>

fun print_revdep :: "kenv \<Rightarrow> tristate \<Rightarrow> string option \<Rightarrow> expr \<Rightarrow> out \<times> string option" where
  "print_revdep env pr title (E_OR l r) =
     (let p = print_revdep env pr title l; q = print_revdep env pr (snd p) r in (fst p @ fst q, snd q))"
| "print_revdep env pr title e =
     (if expr_value env e = pr
      then ((case title of Some t \<Rightarrow> [(None, t)] | None \<Rightarrow> []) @
            (None, ''  - '') # print_tree env T_NONE e @ [(None, newline)], None)
      else ([], title))"

definition expr_gstr_print_revdep ::
  "kenv \<Rightarrow> nat \<Rightarrow> expr \<Rightarrow> tristate \<Rightarrow> string \<Rightarrow> string \<Rightarrow> string" where
  "expr_gstr_print_revdep env max_width e pr_type title gs =
     fold (expr_print_gstr_helper env max_width) (fst (print_revdep env pr_type (Some title) e)) gs"

end
