(* ===== verification/Kconfig_Simplify.thy ===== *)
theory Kconfig_Simplify
  imports Kconfig_Expr
begin

text \<open>
  The two operations on expressions that call themselves on their own results, with the
  proofs that they end: the loop of \<open>expr_eliminate_dups\<close> and \<open>expr_transform\<close>, both of
  \<^verbatim>\<open>scripts/kconfig/expr.c\<close>.
\<close>

subsection \<open>Sizes of the leaves of a walk\<close>

definition weight :: "expr list \<Rightarrow> nat" where
  "weight ls = sum_list (map (\<lambda>e. expr_size e + 1) ls)"

lemma weight_simps [simp]:
  "weight [] = 0" "weight (e # ls) = expr_size e + 1 + weight ls" "weight (xs @ ys) = weight xs + weight ys"
  by (simp_all add: weight_def)

lemma weight_take_drop: "weight (take n ls) + weight (drop n ls) = weight ls"
  by (metis append_take_drop_id weight_simps(3))

lemma weight_update:
  "i < length ls \<Longrightarrow> weight (ls[i := e]) + expr_size (ls ! i) = weight ls + expr_size e"
  by (induction ls arbitrary: i) (auto split: nat.splits)

lemma leaves_log [simp]: "leaves ty (mk_log ty l r) = leaves ty l @ leaves ty r"
  by (subst leaves.simps) simp

lemma leaves_leaf [simp]: "operands ty e = None \<Longrightarrow> leaves ty e = [e]"
  by (subst leaves.simps) simp

lemma relabel_log [simp]:
  "relabel ty (mk_log ty l r) ls =
     mk_log ty (relabel ty l (take (length (leaves ty l)) ls)) (relabel ty r (drop (length (leaves ty l)) ls))"
  by (subst relabel.simps) (simp add: Let_def)

lemma relabel_leaf [simp]: "operands ty e = None \<Longrightarrow> relabel ty e ls = hd ls"
  by (subst relabel.simps) simp

lemma log_cases [case_names node leaf]:
  obtains l r where "e = mk_log ty l r" | "operands ty e = None"
  by (cases "operands ty e") auto

lemma walk_induct [case_names node leaf]:
  assumes "\<And>l r. P l \<Longrightarrow> P r \<Longrightarrow> P (mk_log ty l r)" and "\<And>e. operands ty e = None \<Longrightarrow> P e"
  shows "P e"
proof (induction "expr_size e" arbitrary: e rule: less_induct)
  case less
  show ?case
  proof (cases e rule: log_cases[of _ ty])
    case (node l r)
    then show ?thesis using less assms(1) by simp
  qed (rule assms(2))
qed

lemma leaves_nonempty [simp]: "leaves ty e \<noteq> []"
  by (induction e rule: walk_induct[of _ ty]) auto

lemma weight_leaves: "weight (leaves ty e) = expr_size e + 1"
  by (induction e rule: walk_induct[of _ ty]) auto

lemma weight_relabel: "length ls = length (leaves ty e) \<Longrightarrow> expr_size (relabel ty e ls) + 1 = weight ls"
proof (induction e arbitrary: ls rule: walk_induct[of _ ty])
  case (node l r)
  let ?n = "length (leaves ty l)"
  have "expr_size (relabel ty l (take ?n ls)) + 1 = weight (take ?n ls)"
    "expr_size (relabel ty r (drop ?n ls)) + 1 = weight (drop ?n ls)"
    using node.prems by (intro node.IH; simp)+
  then show ?case using weight_take_drop[of ?n ls] by simp
next
  case (leaf e)
  then show ?case by (cases ls) auto
qed

lemma relabel_leaves: "relabel ty e (leaves ty e) = e"
  by (induction e rule: walk_induct[of _ ty]) auto

subsection \<open>A pass that changed something leaves a constant behind\<close>

fun is_yn :: "expr \<Rightarrow> bool" where
  "is_yn (E_SYMBOL s) \<longleftrightarrow> s = symbol_yes \<or> s = symbol_no"
| "is_yn _ \<longleftrightarrow> False"

fun reducible :: "expr \<Rightarrow> bool" where
  "reducible (E_AND l r) \<longleftrightarrow> is_yn l \<or> is_yn r \<or> reducible l \<or> reducible r"
| "reducible (E_OR l r) \<longleftrightarrow> is_yn l \<or> is_yn r \<or> reducible l \<or> reducible r"
| "reducible _ \<longleftrightarrow> False"

lemma reducible_mk_log [simp]:
  "reducible (mk_log ty l r) \<longleftrightarrow> is_yn l \<or> is_yn r \<or> reducible l \<or> reducible r"
  by (cases ty) auto

lemma is_yn_unit [simp]: "is_yn (E_SYMBOL (log_unit ty))"
  by (cases ty) auto

lemma not_is_yn_mk_log [simp]: "\<not> is_yn (mk_log ty l r)"
  by (cases ty) auto

lemma size_and_yn: "expr_size (and_yn l r) \<le> expr_size l + expr_size r + 1"
  and size_or_yn: "expr_size (or_yn l r) \<le> expr_size l + expr_size r + 1"
  by (auto simp: and_yn_def or_yn_def)

lemma size_and_yn_less: "is_yn l \<or> is_yn r \<Longrightarrow> expr_size (and_yn l r) < expr_size l + expr_size r + 1"
  and size_or_yn_less: "is_yn l \<or> is_yn r \<Longrightarrow> expr_size (or_yn l r) < expr_size l + expr_size r + 1"
  by (auto simp: and_yn_def or_yn_def elim!: is_yn.elims)

lemma eliminate_yn_is_yn: "is_yn e \<Longrightarrow> expr_eliminate_yn e = e"
  by (cases e) auto

lemma eliminate_yn_size: "expr_size (expr_eliminate_yn e) \<le> expr_size e"
proof (induction e)
  case (E_OR l r)
  then show ?case using size_or_yn[of "expr_eliminate_yn l" "expr_eliminate_yn r"] by simp
next
  case (E_AND l r)
  then show ?case using size_and_yn[of "expr_eliminate_yn l" "expr_eliminate_yn r"] by simp
qed auto

lemma eliminate_yn_shrinks: "reducible e \<Longrightarrow> expr_size (expr_eliminate_yn e) < expr_size e"
proof (induction e)
  case (E_OR l r)
  then show ?case
    using size_or_yn[of "expr_eliminate_yn l" "expr_eliminate_yn r"]
      size_or_yn_less[of "expr_eliminate_yn l" "expr_eliminate_yn r"]
      eliminate_yn_size[of l] eliminate_yn_size[of r]
    by (auto simp: eliminate_yn_is_yn)
next
  case (E_AND l r)
  then show ?case
    using size_and_yn[of "expr_eliminate_yn l" "expr_eliminate_yn r"]
      size_and_yn_less[of "expr_eliminate_yn l" "expr_eliminate_yn r"]
      eliminate_yn_size[of l] eliminate_yn_size[of r]
    by (auto simp: eliminate_yn_is_yn)
qed auto

lemma reducible_relabel_leaf:
  assumes "length ls = length (leaves ty e)" "k < length ls" "is_yn (ls ! k) \<or> reducible (ls ! k)"
  shows "is_yn (relabel ty e ls) \<or> reducible (relabel ty e ls)"
  using assms
proof (induction e arbitrary: ls k rule: walk_induct[of _ ty])
  case (node l r)
  let ?n = "length (leaves ty l)"
  show ?case
  proof (cases "k < ?n")
    case True
    then show ?thesis using node.IH(1)[of "take ?n ls" k] node.prems by auto
  next
    case False
    then have "k - ?n < length (leaves ty r)" using node.prems(1,2) by simp
    then show ?thesis using False node.IH(2)[of "drop ?n ls" "k - ?n"] node.prems by auto
  qed
next
  case (leaf e)
  then show ?case by (cases ls) auto
qed

lemma reducible_relabel:
  assumes "length ls = length (leaves ty (mk_log ty l r))" "k < length ls" "is_yn (ls ! k) \<or> reducible (ls ! k)"
  shows "reducible (relabel ty (mk_log ty l r) ls)"
  using reducible_relabel_leaf[OF assms] by simp

lemma join_size: "expr_join env ty e1 e2 = Some tmp \<Longrightarrow> expr_size tmp \<le> expr_size e1"
proof -
  have copy: "expr_copy e = e" for e by (induction e) auto
  have "expr_size tmp \<le> expr_size e1 \<or> expr_size tmp = 1" if "expr_join_or env e1 e2 = Some tmp"
    using that by (auto simp: expr_join_or_def expr_alloc_comp_def expr_alloc_symbol_def copy
        split: if_splits option.splits)
  moreover have "expr_size tmp = 1" if "join_eq_uneq env s1 a b = Some tmp" for s1 a b
    using that by (auto simp: join_eq_uneq_def expr_alloc_comp_def expr_alloc_symbol_def
        split: if_splits expr.splits cmp_type.splits)
  then have "expr_size tmp = 1" if "join_tristate_and env s1 e1 e2 = Some tmp" for s1
    using that by (auto simp: join_tristate_and_def expr_alloc_comp_def split: if_splits)
  then have "expr_size tmp \<le> expr_size e1 \<or> expr_size tmp = 1" if "expr_join_and env e1 e2 = Some tmp"
    using that by (auto simp: expr_join_and_def expr_alloc_comp_def expr_alloc_symbol_def copy
        split: if_splits option.splits)
  ultimately show "expr_join env ty e1 e2 = Some tmp \<Longrightarrow> expr_size tmp \<le> expr_size e1"
    by (cases ty) (auto simp: Suc_leI)
qed

text \<open>What one pass over a tree promises: it does not grow, and counts exactly its changes.\<close>

definition dups_ok :: "expr \<Rightarrow> nat \<times> expr \<Rightarrow> bool" where
  "dups_ok e r \<longleftrightarrow>
     expr_size (snd r) \<le> expr_size e \<and> (fst r = 0 \<longrightarrow> snd r = e) \<and> (fst r > 0 \<longrightarrow> reducible (snd r))"

definition marked :: "expr list \<Rightarrow> bool" where
  "marked ls \<longleftrightarrow> (\<exists>k < length ls. is_yn (ls ! k) \<or> reducible (ls ! k))"

definition step_ok :: "expr list \<Rightarrow> nat \<times> expr list \<Rightarrow> bool" where
  "step_ok ls st \<longleftrightarrow>
     length (snd st) = length ls \<and> weight (snd st) \<le> weight ls \<and>
     (fst st = 0 \<longrightarrow> snd st = ls) \<and> (fst st > 0 \<longrightarrow> marked (snd st))"

lemma dups_step_ok:
  assumes inner: "\<And>ty' e. log_type_of e = Some ty' \<Longrightarrow> dups_ok e (inner ty' e)"
    and st: "step_ok ls0 st" and ij: "i < length ls0" "j < length ls0"
  shows "step_ok ls0 (dups_step inner env ty (i, j) st)"
proof -
  obtain cnt ls where [simp]: "st = (cnt, ls)" by fastforce
  have len: "i < length ls" "j < length ls" using st ij by (simp_all add: step_ok_def)
  obtain c a where ca: "(case log_type_of (ls ! i) of Some ty' \<Rightarrow> inner ty' (ls ! i) | None \<Rightarrow> (0, ls ! i)) = (c, a)"
    by fastforce
  have a: "dups_ok (ls ! i) (c, a)"
    using ca inner[of "ls ! i"] by (auto simp: dups_ok_def split: option.splits)
  have w: "weight (ls[i := a]) \<le> weight ls" using weight_update[OF len(1), of a] a by (simp add: dups_ok_def)
  show ?thesis
  proof (cases "i = j")
    case True
    then show ?thesis using st by (simp add: dups_step_def)
  next
    case ne: False
    show ?thesis
    proof (cases "expr_join env ty a (ls ! j)")
      case None
      then have "dups_step inner env ty (i, j) st = (cnt + c, ls[i := a])"
        using ne ca by (simp add: dups_step_def)
      moreover have "marked (ls[i := a])" if "cnt + c > 0"
      proof (cases "c = 0")
        case True
        then show ?thesis using a st that by (simp add: dups_ok_def step_ok_def)
      next
        case False
        then show ?thesis using a len by (auto simp: dups_ok_def marked_def intro!: exI[of _ i])
      qed
      ultimately show ?thesis using st w a by (auto simp: step_ok_def dups_ok_def)
    next
      case (Some tmp)
      let ?u = "E_SYMBOL (log_unit ty)"
      have "dups_step inner env ty (i, j) st = (cnt + c + 1, ls[i := ?u, j := tmp])"
        using ne ca Some by (simp add: dups_step_def)
      moreover have "marked (ls[i := ?u, j := tmp])"
        using ne len by (cases ty) (auto simp: marked_def intro!: exI[of _ i])
      moreover have "weight (ls[i := ?u, j := tmp]) \<le> weight ls"
        using weight_update[OF len(1), of ?u] weight_update[of j "ls[i := ?u]" tmp] len(2) ne
          join_size[OF Some] a expr_size_pos[of "ls ! j"] by (simp add: dups_ok_def del: expr_size_pos)
      ultimately show ?thesis using st by (simp add: step_ok_def)
    qed
  qed
qed

lemma fold_dups_ok:
  assumes "\<And>ty' e. log_type_of e = Some ty' \<Longrightarrow> dups_ok e (inner ty' e)"
    and "\<forall>(i, j) \<in> set ps. i < length ls0 \<and> j < length ls0" and "step_ok ls0 st"
  shows "step_ok ls0 (fold (dups_step inner env ty) ps st)"
  using assms(2,3)
proof (induction ps arbitrary: st)
  case (Cons p ps)
  then show ?case using dups_step_ok[OF assms(1)] by (cases p) auto
qed simp

lemma leaf_pairs_range: "(i, j) \<in> set (leaf_pairs n) \<longleftrightarrow> i < n \<and> j < n"
  by (auto simp: leaf_pairs_def image_iff)

lemma dups1_ok: "log_type_of e = Some ty \<Longrightarrow> dups_ok e (dups1 fuel env ty e)"
proof (induction fuel arbitrary: e ty)
  case 0
  then show ?case by (simp add: dups_ok_def)
next
  case (Suc fuel)
  let ?ls = "leaves ty e"
  obtain l r where e: "e = mk_log ty l r" using Suc.prems by (cases e) auto
  define st where "st = fold (dups_step (dups1 fuel env) env ty) (leaf_pairs (length ?ls)) (0, ?ls)"
  have "step_ok ?ls (0, ?ls)" by (simp add: step_ok_def)
  then have st: "step_ok ?ls st"
    unfolding st_def
    by (intro fold_dups_ok[where inner = "dups1 fuel env"] Suc.IH) (auto simp: leaf_pairs_range)
  have "dups1 (Suc fuel) env ty e = (fst st, relabel ty e (snd st))"
    by (simp add: st_def Let_def split_beta)
  moreover have "expr_size (relabel ty e (snd st)) \<le> expr_size e"
    using weight_relabel[of "snd st" ty e] weight_leaves[of ty e] st by (simp add: step_ok_def)
  moreover have "reducible (relabel ty e (snd st))" if "fst st > 0"
    using reducible_relabel[of "snd st" ty l r] st that e by (auto simp: step_ok_def marked_def)
  ultimately show ?case using st by (auto simp: dups_ok_def step_ok_def relabel_leaves)
qed

text \<open>
  The fuel is enough: every leaf the walk reads is smaller than the tree, so with a fuel of
  at least the size of the tree one more changes nothing.
\<close>

lemma dups_step_cong:
  assumes "\<And>ty' e. log_type_of e = Some ty' \<Longrightarrow> expr_size e < n \<Longrightarrow> inner ty' e = inner' ty' e"
    and "\<forall>l \<in> set (snd st). expr_size l < n" "fst ij < length (snd st)"
  shows "dups_step inner env ty ij st = dups_step inner' env ty ij st"
proof -
  obtain i j cnt ls where [simp]: "ij = (i, j)" "st = (cnt, ls)" by (metis surj_pair)
  have "(case log_type_of (ls ! i) of Some ty' \<Rightarrow> inner ty' (ls ! i) | None \<Rightarrow> (0, ls ! i)) =
      (case log_type_of (ls ! i) of Some ty' \<Rightarrow> inner' ty' (ls ! i) | None \<Rightarrow> (0, ls ! i))"
    using assms by (cases "log_type_of (ls ! i)") auto
  then show ?thesis by (simp add: dups_step_def)
qed

lemma dups_step_small:
  assumes inner: "\<And>ty' e. log_type_of e = Some ty' \<Longrightarrow> dups_ok e (inner ty' e)"
    and small: "\<forall>l \<in> set (snd st). expr_size l < n" and ij: "fst ij < length (snd st)"
  shows "\<forall>l \<in> set (snd (dups_step inner env ty ij st)). expr_size l < n"
proof -
  obtain i j cnt ls where [simp]: "ij = (i, j)" "st = (cnt, ls)" by (metis surj_pair)
  obtain c a where ca: "(case log_type_of (ls ! i) of Some ty' \<Rightarrow> inner ty' (ls ! i) | None \<Rightarrow> (0, ls ! i)) = (c, a)"
    by fastforce
  have "expr_size a \<le> expr_size (ls ! i)"
    using ca inner[of "ls ! i"] by (auto simp: dups_ok_def split: option.splits)
  moreover have "expr_size (ls ! i) < n" using small ij by simp
  ultimately have a: "expr_size a < n" by simp
  then have "1 < n" using Suc_leI[OF expr_size_pos[of a]] by linarith
  have upd: "\<forall>l \<in> set (xs[k := x]). expr_size l < n"
    if "\<forall>l \<in> set xs. expr_size l < n" "expr_size x < n" for xs k x
    using that set_update_subset_insert[of xs k x] by blast
  have "expr_size tmp < n" if "expr_join env ty a (ls ! j) = Some tmp" for tmp
    using join_size[OF that] a by simp
  with \<open>1 < n\<close> show ?thesis
    using small ca a by (auto simp: dups_step_def split: option.split dest!: upd[THEN bspec, rotated 2])
qed

lemma fold_dups_cong:
  assumes inner: "\<And>ty' e. log_type_of e = Some ty' \<Longrightarrow> dups_ok e (inner ty' e)"
    and cong: "\<And>ty' e. log_type_of e = Some ty' \<Longrightarrow> expr_size e < n \<Longrightarrow> inner ty' e = inner' ty' e"
  shows "\<forall>l \<in> set (snd st). expr_size l < n \<Longrightarrow> \<forall>(i, j) \<in> set ps. i < length (snd st) \<Longrightarrow>
    fold (dups_step inner env ty) ps st = fold (dups_step inner' env ty) ps st"
proof (induction ps arbitrary: st)
  case (Cons p ps)
  have p: "fst p < length (snd st)" using Cons.prems by auto
  let ?st = "dups_step inner env ty p st"
  have "length (snd ?st) = length (snd st)" by (auto simp: dups_step_def split: prod.splits option.splits)
  then have "fold (dups_step inner env ty) ps ?st = fold (dups_step inner' env ty) ps ?st"
    using Cons.prems by (intro Cons.IH dups_step_small[where inner = inner, OF inner _ p]) auto
  moreover have "?st = dups_step inner' env ty p st"
    using Cons.prems(1) p by (intro dups_step_cong[where n = n] cong) auto
  ultimately show ?case by simp
qed simp

lemma leaves_smaller: "l \<in> set (leaves ty (mk_log ty a b)) \<Longrightarrow> expr_size l < expr_size (mk_log ty a b)"
proof -
  have "l \<in> set (leaves ty e) \<Longrightarrow> expr_size l \<le> expr_size e" for e
    by (induction e rule: walk_induct[of _ ty]) auto
  then show "l \<in> set (leaves ty (mk_log ty a b)) \<Longrightarrow> expr_size l < expr_size (mk_log ty a b)"
    by fastforce
qed

lemma dups1_more_fuel:
  "log_type_of e = Some ty \<Longrightarrow> expr_size e \<le> fuel \<Longrightarrow> dups1 (Suc fuel) env ty e = dups1 fuel env ty e"
proof (induction fuel arbitrary: e ty)
  case 0
  then show ?case using expr_size_pos[of e] by linarith
next
  case (Suc fuel)
  let ?ls = "leaves ty e"
  obtain l r where e: "e = mk_log ty l r" using Suc.prems by (cases e) auto
  have "fold (dups_step (dups1 (Suc fuel) env) env ty) (leaf_pairs (length ?ls)) (0, ?ls) =
      fold (dups_step (dups1 fuel env) env ty) (leaf_pairs (length ?ls)) (0, ?ls)"
  proof (rule fold_dups_cong[where n = "expr_size e"])
    fix ty' t
    assume "log_type_of t = Some ty'" "expr_size t < expr_size e"
    then show "dups1 (Suc fuel) env ty' t = dups1 fuel env ty' t" using Suc by simp
  qed (use leaves_smaller[of _ ty l r] in \<open>auto simp: dups1_ok leaf_pairs_range e simp del: dups1.simps\<close>)
  then show ?case by (subst (1 2) dups1.simps) (simp add: Let_def)
qed

lemma dups1_enough_fuel: "log_type_of e = Some ty \<Longrightarrow> dups1 (expr_size e + k) env ty e = expr_eliminate_dups1 env ty e"
  by (induction k) (simp_all add: expr_eliminate_dups1_def dups1_more_fuel del: dups1.simps)

subsection \<open>The loop of \<open>expr_eliminate_dups\<close>\<close>

definition dups_pass :: "kenv \<Rightarrow> expr \<Rightarrow> nat \<times> expr" where
  "dups_pass env e =
     (case log_type_of e of Some ty \<Rightarrow> expr_eliminate_dups1 env ty e | None \<Rightarrow> (0, e))"

lemma dups_pass_ok: "dups_ok e (dups_pass env e)"
  by (cases "log_type_of e") (simp_all add: dups_pass_def dups_ok_def expr_eliminate_dups1_def dups1_ok[unfolded dups_ok_def])

function eliminate_dups :: "kenv \<Rightarrow> expr \<Rightarrow> expr" where
  "eliminate_dups env e =
     (if fst (dups_pass env e) = 0 then snd (dups_pass env e)
      else eliminate_dups env (expr_eliminate_yn (snd (dups_pass env e))))"
  by pat_completeness auto
termination eliminate_dups
proof (relation "measure (\<lambda>(env, e). expr_size e)", goal_cases)
  case (2 env e)
  then show ?case
    using dups_pass_ok[of e env] eliminate_yn_shrinks[of "snd (dups_pass env e)"]
    by (auto simp: dups_ok_def)
qed auto

declare eliminate_dups.simps [simp del]

definition expr_eliminate_dups :: "kenv \<Rightarrow> expr option \<Rightarrow> expr option" where
  "expr_eliminate_dups env = map_option (eliminate_dups env)"

subsection \<open>\<open>expr_transform\<close>\<close>

fun negate_cmp :: "cmp_type \<Rightarrow> cmp_type" where
  "negate_cmp E_EQUAL = E_UNEQUAL"
| "negate_cmp E_UNEQUAL = E_EQUAL"
| "negate_cmp E_LEQ = E_GTH"
| "negate_cmp E_GEQ = E_LTH"
| "negate_cmp E_LTH = E_GEQ"
| "negate_cmp E_GTH = E_LEQ"

definition transform_equal :: "symbol \<Rightarrow> symbol \<Rightarrow> expr" where
  "transform_equal s v =
     (if v = symbol_no then E_NOT (E_SYMBOL s)
      else if v = symbol_mod then E_SYMBOL symbol_no
      else if v = symbol_yes then E_SYMBOL s
      else E_COMP E_EQUAL s v)"

definition transform_unequal :: "symbol \<Rightarrow> symbol \<Rightarrow> expr" where
  "transform_unequal s v =
     (if v = symbol_no then E_SYMBOL s
      else if v = symbol_mod then E_SYMBOL symbol_yes
      else if v = symbol_yes then E_NOT (E_SYMBOL s)
      else E_COMP E_UNEQUAL s v)"

definition transform_comp :: "kenv \<Rightarrow> cmp_type \<Rightarrow> symbol \<Rightarrow> symbol \<Rightarrow> expr" where
  "transform_comp env ty s v =
     (if type_of env s \<noteq> S_BOOLEAN then E_COMP ty s v
      else if ty = E_EQUAL then transform_equal s v
      else if ty = E_UNEQUAL then transform_unequal s v
      else E_COMP ty s v)"

definition not_symbol :: "symbol \<Rightarrow> expr" where
  "not_symbol s =
     (if s = symbol_yes then E_SYMBOL symbol_no
      else if s = symbol_mod then E_SYMBOL symbol_mod
      else if s = symbol_no then E_SYMBOL symbol_yes
      else E_NOT (E_SYMBOL s))"

text \<open>
  The operands are transformed first; a negation then moves inwards and the result is
  transformed once more.
\<close>

function (domintros) transform :: "kenv \<Rightarrow> expr \<Rightarrow> expr" where
  "transform env (E_COMP ty s v) = transform_comp env ty s v"
| "transform env (E_SYMBOL s) = E_SYMBOL s"
| "transform env (E_AND l r) = E_AND (transform env l) (transform env r)"
| "transform env (E_OR l r) = E_OR (transform env l) (transform env r)"
| "transform env (E_NOT e) =
     (case transform env e of
        E_NOT a \<Rightarrow> transform env a
      | E_COMP ty s v \<Rightarrow> E_COMP (negate_cmp ty) s v
      | E_OR a b \<Rightarrow> transform env (E_AND (E_NOT a) (E_NOT b))
      | E_AND a b \<Rightarrow> transform env (E_OR (E_NOT a) (E_NOT b))
      | E_SYMBOL s \<Rightarrow> not_symbol s)"
  by pat_completeness auto

text \<open>A measure that moving a negation inwards decreases.\<close>

fun neg_size :: "expr \<Rightarrow> nat" where
  "neg_size (E_OR l r) = neg_size l + neg_size r + 1"
| "neg_size (E_AND l r) = neg_size l + neg_size r + 1"
| "neg_size (E_NOT e) = 2 * neg_size e"
| "neg_size (E_COMP ty s v) = 2"
| "neg_size (E_SYMBOL s) = 1"

lemma neg_size_pos [simp]: "0 < neg_size e"
  by (induction e) auto

lemma neg_size_simple:
  "neg_size (transform_comp env ty s v) \<le> 2" "neg_size (not_symbol s) \<le> 2"
  by (simp_all add: transform_comp_def transform_equal_def transform_unequal_def not_symbol_def)

lemma transform_neg_size_dom:
  "transform_dom (env, e) \<Longrightarrow> neg_size (transform env e) \<le> neg_size e"
proof (induction env e rule: transform.pinduct)
  case (5 env e)
  then show ?case
    by (auto simp: transform.psimps split: expr.splits intro: order_trans[OF neg_size_simple(2)])
qed (auto simp: transform.psimps neg_size_simple(1))

termination transform
proof (relation "measure (\<lambda>(env, e). neg_size e)", goal_cases)
  case 7
  then show ?case using transform_neg_size_dom[OF 7(2)] by simp
next
  case 8
  then show ?case using transform_neg_size_dom[OF 8(2)] by simp
next
  case (9 env e a)
  then show ?case using transform_neg_size_dom[OF 9(2)] neg_size_pos[of a]
    by (simp del: neg_size_pos)
qed auto

definition expr_transform :: "kenv \<Rightarrow> expr option \<Rightarrow> expr option" where
  "expr_transform env = map_option (transform env)"

end
