(* ===== verification/Kconfig_Correct.thy ===== *)
theory Kconfig_Correct
  imports Kconfig_Simplify
begin

text \<open>
  The operations on configuration expressions keep what the expressions mean: equality is
  sound, removing constants, joining operands, removing duplicates and transforming do not
  change the value, and the tests for dependencies are right.
\<close>

subsection \<open>Values\<close>

lemma EXPR_OR_max: "EXPR_OR a b = max a b"
  by (auto simp: EXPR_OR_def max_def)

lemma EXPR_AND_min: "EXPR_AND a b = min a b"
  by (auto simp: EXPR_AND_def min_def)

lemma tri_bounds [simp]: "tri_no \<le> a" "a \<le> tri_yes"
  by (cases a; simp add: less_eq_tristate_def)+

lemma max_tri [simp]:
  "max tri_no a = a" "max a tri_no = a" "max tri_yes a = tri_yes" "max a tri_yes = tri_yes"
  by (auto simp: max_def antisym)

lemma min_tri [simp]:
  "min tri_no a = tri_no" "min a tri_no = tri_no" "min tri_yes a = a" "min a tri_yes = a"
  by (auto simp: min_def antisym)

fun log_value :: "log_type \<Rightarrow> tristate \<Rightarrow> tristate \<Rightarrow> tristate" where
  "log_value L_OR a b = max a b"
| "log_value L_AND a b = min a b"

fun unit_value :: "log_type \<Rightarrow> tristate" where
  "unit_value L_OR = tri_no"
| "unit_value L_AND = tri_yes"

text \<open>Both operators are commutative monoids in which every element is idempotent.\<close>

locale tri_semilattice =
  fixes f :: "tristate \<Rightarrow> tristate \<Rightarrow> tristate" and u :: tristate
  assumes assoc: "f (f a b) c = f a (f b c)"
    and commute: "f a b = f b a"
    and idem: "f a a = a"
    and unit: "f u a = a"
begin

lemma left_commute: "f a (f b c) = f b (f a c)"
  by (metis assoc commute)

lemma unit_right: "f a u = a"
  by (metis commute unit)

lemmas ac = assoc commute left_commute

lemma pull_common: "f (f a x) (f b y) = f (f a b) (f x y)"
  by (simp add: ac)

definition total :: "tristate list \<Rightarrow> tristate" where
  "total vs = foldr f vs u"

lemma total_simps [simp]: "total [] = u" "total (v # vs) = f v (total vs)"
  by (simp_all add: total_def)

lemma total_append: "total (xs @ ys) = f (total xs) (total ys)"
  by (induction xs) (simp_all add: unit assoc)

lemma total_update: "i < length vs \<Longrightarrow> f (total (vs[i := v])) (vs ! i) = f (total vs) v"
proof (induction vs arbitrary: i)
  case (Cons w vs)
  show ?case
  proof (cases i)
    case 0
    then show ?thesis by (simp add: ac)
  next
    case (Suc n)
    then show ?thesis using Cons by (simp add: assoc)
  qed
qed simp

lemma total_remove:
  assumes "i < length vs"
  shows "total vs = f (vs ! i) (total (vs[i := u]))"
  using total_update[OF assms, of u] by (metis commute unit)

text \<open>Replacing two entries by a unit and their combination keeps the total.\<close>

lemma total_join:
  assumes "i < length vs" "j < length vs" "i \<noteq> j" "w = f (vs ! i) (vs ! j)"
  shows "total (vs[i := u, j := w]) = total vs"
proof -
  have "total (vs[i := u, j := w]) = f w (total (vs[i := u, j := u]))"
    using total_remove[of j "vs[i := u, j := w]"] assms(2) by simp
  also have "\<dots> = f (vs ! i) (f (vs ! j) (total (vs[i := u, j := u])))"
    by (simp add: assms(4) assoc)
  also have "f (vs ! j) (total (vs[i := u, j := u])) = total (vs[i := u])"
    using total_remove[of j "vs[i := u]"] assms(2,3) by simp
  also have "f (vs ! i) (total (vs[i := u])) = total vs"
    using total_remove[OF assms(1)] by simp
  finally show ?thesis .
qed

end

interpretation lv: tri_semilattice "log_value ty" "unit_value ty" for ty
  by (unfold_locales; cases ty) (simp_all add: ac_simps)

lemma expr_value_mk_log [simp]:
  "expr_value env (mk_log ty l r) = log_value ty (expr_value env l) (expr_value env r)"
  by (cases ty) (simp_all add: EXPR_OR_max EXPR_AND_min)

lemma expr_value_unit [simp]: "tri_of env (log_unit ty) = unit_value ty"
  by (cases ty) simp_all

lemma expr_copy_id [simp]: "expr_copy e = e"
  by (induction e) auto

subsection \<open>Removing constants\<close>

lemma eliminate_yn_value: "expr_value env (expr_eliminate_yn e) = expr_value env e"
  by (induction e) (auto simp: and_yn_def or_yn_def EXPR_OR_max EXPR_AND_min)

subsection \<open>Comparisons of boolean and tristate symbols\<close>

lemma parse_tri: "expr_parse_string (tri_string t) ty = (k_signed, of_int (tri_int t))"
  if "ty = S_BOOLEAN \<or> ty = S_TRISTATE"
  using that by (cases t) (auto simp: expr_parse_string_def)

lemma sint_tri: "sint (of_int (tri_int t) :: u64) = tri_int t"
  by (cases t) simp_all

lemma compare_tri:
  assumes "bool_or_tri env s1" "bool_or_tri env s2"
  shows "compare_syms env s1 s2 =
    of_bool (tri_of env s1 > tri_of env s2) - of_bool (tri_of env s1 < tri_of env s2)"
  using assms
  by (auto simp: compare_syms_def bool_or_tri_def sym_get_string_value_def parse_tri sint_tri
      less_tristate_def Let_def)

lemma compare_tri_eq:
  "bool_or_tri env s1 \<Longrightarrow> bool_or_tri env s2 \<Longrightarrow>
     compare_syms env s1 s2 = 0 \<longleftrightarrow> tri_of env s1 = tri_of env s2"
  by (auto simp: compare_tri)

lemma bool_or_tri_const [simp]:
  "bool_or_tri env symbol_yes" "bool_or_tri env symbol_mod" "bool_or_tri env symbol_no"
  by (simp_all add: bool_or_tri_def)

lemma eq_const_value:
  assumes "bool_or_tri env s" "bool_or_tri env v"
  shows "expr_value env (E_COMP E_EQUAL s v) = (if tri_of env s = tri_of env v then tri_yes else tri_no)"
    and "expr_value env (E_COMP E_UNEQUAL s v) = (if tri_of env s = tri_of env v then tri_no else tri_yes)"
  by (simp_all add: compare_tri_eq[OF assms])

subsection \<open>Equality\<close>

lemma elim_eq_left: "elim_eq ty (mk_log ty l r) e2 =
    (mk_log ty (fst (elim_eq ty l e2)) (fst (elim_eq ty r (snd (elim_eq ty l e2)))),
     snd (elim_eq ty r (snd (elim_eq ty l e2))))"
  by (subst elim_eq.simps) (simp add: Let_def)

lemma elim_eq_right: "operands ty e1 = None \<Longrightarrow> elim_eq ty e1 (mk_log ty l r) =
    (fst (elim_eq ty (fst (elim_eq ty e1 l)) r),
     mk_log ty (snd (elim_eq ty e1 l)) (snd (elim_eq ty (fst (elim_eq ty e1 l)) r)))"
  by (subst elim_eq.simps) (simp add: Let_def)

lemma elim_eq_leaf: "operands ty e1 = None \<Longrightarrow> operands ty e2 = None \<Longrightarrow> elim_eq ty e1 e2 =
    (if e1 = e2 \<and> (e1 = E_SYMBOL symbol_yes \<or> e1 = E_SYMBOL symbol_no) \<or> \<not> tree_eq e1 e2 then (e1, e2)
     else (E_SYMBOL (log_unit ty), E_SYMBOL (log_unit ty)))"
  by (subst elim_eq.simps) simp

lemma elim_eq_shape:
  "operands ty e1 \<noteq> None \<Longrightarrow> operands ty (fst (elim_eq ty e1 e2)) \<noteq> None"
  "operands ty e2 \<noteq> None \<Longrightarrow> operands ty (snd (elim_eq ty e1 e2)) \<noteq> None"
proof -
  show "operands ty e1 \<noteq> None \<Longrightarrow> operands ty (fst (elim_eq ty e1 e2)) \<noteq> None"
    by (cases e1 rule: log_cases[of _ ty]) (auto simp: elim_eq_left)
next
  show "operands ty e2 \<noteq> None \<Longrightarrow> operands ty (snd (elim_eq ty e1 e2)) \<noteq> None"
  proof (induction e1 arbitrary: e2 rule: walk_induct[of _ ty])
    case (node l r)
    then show ?case by (simp add: elim_eq_left del: not_None_eq)
  next
    case (leaf e1)
    then show ?case by (cases e2 rule: log_cases[of _ ty]) (auto simp: elim_eq_right)
  qed
qed

lemma operands_log_type: "operands ty e \<noteq> None \<longleftrightarrow> log_type_of e = Some ty"
  by (cases ty; cases e) auto

definition common_factor :: "kenv \<Rightarrow> log_type \<Rightarrow> expr \<Rightarrow> expr \<Rightarrow> expr \<times> expr \<Rightarrow> bool" where
  "common_factor env ty e1 e2 r \<longleftrightarrow>
     (\<exists>x. expr_value env e1 = log_value ty (expr_value env (fst r)) x \<and>
          expr_value env e2 = log_value ty (expr_value env (snd r)) x)"

lemma same_symbol_value: "same_symbol a b \<Longrightarrow> expr_value env a = expr_value env b"
  by (cases "(a, b)" rule: same_symbol.cases) auto

text \<open>
  What the walk takes out of both trees is one common factor, and equal trees have equal
  values.
\<close>

lemma eq_sound:
  "common_factor env ty e1 e2 (elim_eq ty e1 e2)"
  "\<forall>ty'. log_type_of e1 = Some ty' \<longrightarrow> log_type_of e2 = Some ty' \<longrightarrow>
     common_factor env ty' e1 e2 (eliminate_eq e1 e2)"
  "tree_eq e1 e2 \<Longrightarrow> expr_value env e1 = expr_value env e2"
proof (induction ty e1 e2 and e1 e2 and e1 e2 rule: elim_eq_eliminate_eq_tree_eq.induct)
  case (1 ty e1 e2)
  show ?case
  proof (cases e1 rule: log_cases[of _ ty])
    case (node l r)
    let ?p = "elim_eq ty l e2" and ?q = "elim_eq ty r (snd (elim_eq ty l e2))"
    obtain x y where
      "expr_value env l = log_value ty (expr_value env (fst ?p)) x"
      "expr_value env e2 = log_value ty (expr_value env (snd ?p)) x"
      "expr_value env r = log_value ty (expr_value env (fst ?q)) y"
      "expr_value env (snd ?p) = log_value ty (expr_value env (snd ?q)) y"
      using "1.IH"(4)[of "(l, r)" l r] "1.IH"(5)[of "(l, r)" l r] node by (auto simp: common_factor_def)
    then show ?thesis
      unfolding common_factor_def node elim_eq_left
      by (intro exI[of _ "log_value ty x y"]) (simp add: lv.pull_common lv.ac)
  next
    case leaf1: leaf
    show ?thesis
    proof (cases e2 rule: log_cases[of _ ty])
      case (node l r)
      let ?p = "elim_eq ty e1 l" and ?q = "elim_eq ty (fst (elim_eq ty e1 l)) r"
      obtain x y where
        "expr_value env e1 = log_value ty (expr_value env (fst ?p)) x"
        "expr_value env l = log_value ty (expr_value env (snd ?p)) x"
        "expr_value env (fst ?p) = log_value ty (expr_value env (fst ?q)) y"
        "expr_value env r = log_value ty (expr_value env (snd ?q)) y"
        using "1.IH"(2)[of "(l, r)" l r] "1.IH"(3)[of "(l, r)" l r] node leaf1 by (auto simp: common_factor_def)
      then show ?thesis
        unfolding common_factor_def node elim_eq_right[OF leaf1]
        by (intro exI[of _ "log_value ty x y"]) (simp add: lv.pull_common lv.ac)
    next
      case leaf
      have "common_factor env ty e1 e2 (e1, e2)"
        unfolding common_factor_def by (intro exI[of _ "unit_value ty"]) (simp add: lv.unit_right)
      moreover have "common_factor env ty e1 e2 (E_SYMBOL (log_unit ty), E_SYMBOL (log_unit ty))"
        if "expr_value env e1 = expr_value env e2"
        unfolding common_factor_def using that
        by (intro exI[of _ "expr_value env e2"]) (simp add: lv.unit)
      ultimately show ?thesis using "1.IH"(1) leaf1 leaf by (simp add: elim_eq_leaf)
    qed
  qed
next
  case (2 e1 e2)
  show ?case
  proof (intro allI impI)
    fix ty
    assume ty: "log_type_of e1 = Some ty" "log_type_of e2 = Some ty"
    let ?p = "elim_eq ty e1 e2"
    have "log_type_of (fst ?p) = Some ty" "log_type_of (snd ?p) = Some ty"
      using elim_eq_shape[of ty, unfolded operands_log_type] ty by blast+
    then have "eliminate_eq e1 e2 = (expr_eliminate_yn (fst ?p), expr_eliminate_yn (snd ?p))"
      using ty by (subst eliminate_eq.simps) (simp add: Let_def)
    then show "common_factor env ty e1 e2 (eliminate_eq e1 e2)"
      using "2.IH"(1)[OF ty(1)] by (simp add: common_factor_def eliminate_yn_value)
  qed
next
  case (3 e1 e2)
  have log: "expr_value env e1 = expr_value env e2"
    if "same_symbol (fst (eliminate_eq e1 e2)) (snd (eliminate_eq e1 e2))"
      "common_factor env ty e1 e2 (eliminate_eq e1 e2)" for ty
    using that same_symbol_value[of _ _ env] by (auto simp: common_factor_def)
  show ?case
  proof (cases "\<exists>ty. log_type_of e1 = Some ty \<and> log_type_of e2 = Some ty")
    case True
    then obtain ty where ty: "log_type_of e1 = Some ty" "log_type_of e2 = Some ty" by blast
    then have "same_symbol (fst (eliminate_eq e1 e2)) (snd (eliminate_eq e1 e2))"
      using 3(4) by (subst (asm) tree_eq.simps) (auto simp: Let_def split: expr.splits)
    moreover have "common_factor env ty e1 e2 (eliminate_eq e1 e2)"
      using "3.IH"(1,2)[of e1 e2] ty by (cases e1; cases e2) auto
    ultimately show ?thesis by (rule log)
  next
    case False
    then show ?thesis
      using 3(4) "3.IH"(3) by (subst (asm) tree_eq.simps) (auto split: expr.splits)
  qed
qed

subsection \<open>Joining operands\<close>

text \<open>
  What the configuration guarantees of its symbols: a boolean symbol is never \<open>m\<close>, and two
  different constants are not equal to the same symbol.
\<close>

definition booleans_ok :: "kenv \<Rightarrow> bool" where
  "booleans_ok env \<longleftrightarrow> (\<forall>i. si_type (env i) = S_BOOLEAN \<longrightarrow> si_tri (env i) \<noteq> tri_mod)"

definition constants_ok :: "kenv \<Rightarrow> bool" where
  "constants_ok env \<longleftrightarrow>
     (\<forall>s b c. si_const (sym_info_of env b) \<and> si_const (sym_info_of env c) \<and> b \<noteq> c \<and> type_of env s = S_TRISTATE
        \<longrightarrow> \<not> (compare_syms env s b = 0 \<and> compare_syms env s c = 0))"

lemma boolean_cases:
  assumes "booleans_ok env" "type_of env s = S_BOOLEAN"
  shows "tri_of env s = tri_no \<or> tri_of env s = tri_yes"
  using assms by (cases s; cases "tri_of env s") (auto simp: booleans_ok_def)

lemma join_or_value:
  assumes "booleans_ok env" "expr_join_or env e1 e2 = Some e"
  shows "expr_value env e = max (expr_value env e1) (expr_value env e2)"
proof (cases "tree_eq e1 e2")
  case True
  then show ?thesis using assms(2) eq_sound(3)[OF True, of env] by (simp add: expr_join_or_def)
next
  case False
  then obtain s where b: "bool_or_tri env s" and j:
    "both_cmp E_EQUAL s symbol_yes symbol_mod e1 e2 \<and> e = E_COMP E_UNEQUAL s symbol_no \<or>
     both_cmp E_EQUAL s symbol_yes symbol_no e1 e2 \<and> e = E_COMP E_UNEQUAL s symbol_mod \<or>
     both_cmp E_EQUAL s symbol_mod symbol_no e1 e2 \<and> e = E_COMP E_UNEQUAL s symbol_yes \<or>
     type_of env s = S_BOOLEAN \<and> e = E_SYMBOL symbol_yes \<and>
       (e1 = E_NOT (E_SYMBOL s) \<and> e2 = E_SYMBOL s \<or> e2 = E_NOT (E_SYMBOL s) \<and> e1 = E_SYMBOL s)"
    using assms(2)
    by (auto simp: expr_join_or_def expr_alloc_comp_def expr_alloc_symbol_def split: if_splits option.splits)
  note eqs = eq_const_value[OF b]
  from j show ?thesis
  proof (elim disjE)
    assume "type_of env s = S_BOOLEAN \<and> e = E_SYMBOL symbol_yes \<and>
       (e1 = E_NOT (E_SYMBOL s) \<and> e2 = E_SYMBOL s \<or> e2 = E_NOT (E_SYMBOL s) \<and> e1 = E_SYMBOL s)"
    then show ?thesis using boolean_cases[OF assms(1), of s] by auto
  qed (cases "tri_of env s"; auto simp: both_cmp_def eqs simp del: expr_value.simps(5))+
qed

lemma join_eq_uneq_value:
  assumes "constants_ok env" "type_of env s = S_TRISTATE" "join_eq_uneq env s e1 e2 = Some e"
    "direct_sym e1 = Some s" "direct_sym e2 = Some s"
  shows "expr_value env e = min (expr_value env e1) (expr_value env e2)"
proof -
  obtain b c where e: "e1 = E_COMP E_EQUAL s b" "e2 = E_COMP E_UNEQUAL s c"
    "si_const (sym_info_of env b)" "si_const (sym_info_of env c)"
    "e = (if b \<noteq> c then E_COMP E_EQUAL s b else E_SYMBOL symbol_no)"
    using assms(3-5)
    by (auto simp: join_eq_uneq_def expr_alloc_comp_def expr_alloc_symbol_def
        split: if_splits expr.splits cmp_type.splits)
  then show ?thesis using assms(1,2) unfolding constants_ok_def by auto
qed

lemma join_tristate_and_value:
  assumes "constants_ok env" "type_of env s = S_TRISTATE" "join_tristate_and env s e1 e2 = Some e"
    "join_sym1 e1 = Some s" "join_sym2 e2 = Some s"
  shows "expr_value env e = min (expr_value env e1) (expr_value env e2)"
proof -
  have b: "bool_or_tri env s" using assms(2) by (simp add: bool_or_tri_def)
  note eqs = eq_const_value[OF b]
  have direct: "direct_sym e1 = Some s \<and> direct_sym e2 = Some s"
    if "join_eq_uneq env s e1 e2 \<noteq> None \<or> join_eq_uneq env s e2 e1 \<noteq> None"
    using that assms(4,5) by (auto simp: join_eq_uneq_def split: if_splits expr.splits cmp_type.splits)
  consider "join_eq_uneq env s e1 e2 = Some e" | "join_eq_uneq env s e2 e1 = Some e"
    | "both_cmp E_UNEQUAL s symbol_yes symbol_no e1 e2" "e = E_COMP E_EQUAL s symbol_mod"
    | "both_cmp E_UNEQUAL s symbol_yes symbol_mod e1 e2" "e = E_COMP E_EQUAL s symbol_no"
    | "both_cmp E_UNEQUAL s symbol_mod symbol_no e1 e2" "e = E_COMP E_EQUAL s symbol_yes"
    using assms(3) by (auto simp: join_tristate_and_def expr_alloc_comp_def split: if_splits)
  then show ?thesis
  proof cases
    case 1
    then show ?thesis using join_eq_uneq_value[OF assms(1,2)] direct by auto
  next
    case 2
    then show ?thesis using join_eq_uneq_value[OF assms(1,2), of e2 e1] direct by (auto simp: min.commute)
  qed (cases "tri_of env s"; auto simp: both_cmp_def eqs simp del: expr_value.simps(5))+
qed

lemma join_and_value:
  assumes "constants_ok env" "expr_join_and env e1 e2 = Some e"
  shows "expr_value env e = min (expr_value env e1) (expr_value env e2)"
proof (cases "tree_eq e1 e2")
  case True
  then show ?thesis using assms(2) eq_sound(3)[OF True, of env] by (simp add: expr_join_and_def)
next
  case False
  then obtain s where b: "bool_or_tri env s" and j: "join_sym1 e1 = Some s" "join_sym2 e2 = Some s"
    "sym_and_cmp E_EQUAL s symbol_yes e1 e2 \<and> e = E_COMP E_EQUAL s symbol_yes \<or>
     sym_and_cmp E_UNEQUAL s symbol_no e1 e2 \<and> e = E_SYMBOL s \<or>
     sym_and_cmp E_UNEQUAL s symbol_mod e1 e2 \<and> e = E_COMP E_EQUAL s symbol_yes \<or>
     type_of env s = S_TRISTATE \<and> join_tristate_and env s e1 e2 = Some e"
    using assms(2)
    by (auto simp: expr_join_and_def expr_alloc_comp_def expr_alloc_symbol_def split: if_splits option.splits)
  note eqs = eq_const_value[OF b]
  from j(3) show ?thesis
  proof (elim disjE)
    assume "type_of env s = S_TRISTATE \<and> join_tristate_and env s e1 e2 = Some e"
    then show ?thesis using join_tristate_and_value[OF assms(1)] j(1,2) by blast
  qed (cases "tri_of env s"; auto simp: sym_and_cmp_def eqs simp del: expr_value.simps(5))+
qed

lemma join_value:
  assumes "booleans_ok env" "constants_ok env" "expr_join env ty e1 e2 = Some e"
  shows "expr_value env e = log_value ty (expr_value env e1) (expr_value env e2)"
  using assms by (cases ty) (simp_all add: join_or_value join_and_value)

subsection \<open>Removing duplicates\<close>

definition leaf_values :: "kenv \<Rightarrow> expr list \<Rightarrow> tristate list" where
  "leaf_values env = map (expr_value env)"

lemma relabel_value:
  "length ls = length (leaves ty e) \<Longrightarrow>
     expr_value env (relabel ty e ls) = lv.total ty (leaf_values env ls)"
proof (induction e arbitrary: ls rule: walk_induct[of _ ty])
  case (node l r)
  let ?n = "length (leaves ty l)"
  have "lv.total ty (leaf_values env ls) =
      log_value ty (lv.total ty (leaf_values env (take ?n ls))) (lv.total ty (leaf_values env (drop ?n ls)))"
    unfolding leaf_values_def lv.total_append[symmetric] map_append[symmetric] by simp
  moreover have "length (take ?n ls) = length (leaves ty l)" "length (drop ?n ls) = length (leaves ty r)"
    using node.prems by simp_all
  ultimately show ?case using node.IH by simp
next
  case (leaf e)
  then show ?case by (cases ls) (auto simp: leaf_values_def lv.unit_right)
qed

lemma dups_step_value:
  assumes env: "booleans_ok env" "constants_ok env"
    and inner: "\<And>ty' e. log_type_of e = Some ty' \<Longrightarrow> expr_value env (snd (inner ty' e)) = expr_value env e"
    and ij: "i < length ls" "j < length ls"
  shows "lv.total ty (leaf_values env (snd (dups_step inner env ty (i, j) (cnt, ls)))) =
    lv.total ty (leaf_values env ls)"
proof -
  obtain c a where ca: "(case log_type_of (ls ! i) of Some ty' \<Rightarrow> inner ty' (ls ! i) | None \<Rightarrow> (0, ls ! i)) = (c, a)"
    by fastforce
  have a: "expr_value env a = expr_value env (ls ! i)"
    using ca inner[of "ls ! i"] by (auto split: option.splits)
  then have i: "leaf_values env (ls[i := a]) = leaf_values env ls"
    using ij(1) by (auto simp: leaf_values_def map_update intro: nth_equalityI simp: nth_list_update)
  show ?thesis
  proof (cases "i = j")
    case True
    then show ?thesis by (simp add: dups_step_def)
  next
    case False
    show ?thesis
    proof (cases "expr_join env ty a (ls ! j)")
      case None
      then show ?thesis using False ca i by (simp add: dups_step_def)
    next
      case (Some tmp)
      have "expr_value env tmp = log_value ty (leaf_values env ls ! i) (leaf_values env ls ! j)"
        using join_value[OF env Some] a ij by (simp add: leaf_values_def)
      moreover have "leaf_values env (ls[i := E_SYMBOL (log_unit ty), j := tmp]) =
          (leaf_values env ls)[i := unit_value ty, j := expr_value env tmp]"
        by (simp add: leaf_values_def map_update)
      ultimately show ?thesis
        using Some False ca lv.total_join[of i "leaf_values env ls" j] ij
        by (simp add: dups_step_def leaf_values_def)
    qed
  qed
qed

lemma dups_step_length: "length (snd (dups_step inner env ty ij st)) = length (snd st)"
  by (auto simp: dups_step_def split: prod.splits option.splits)

lemma fold_dups_value:
  assumes "booleans_ok env" "constants_ok env"
    and "\<And>ty' e. log_type_of e = Some ty' \<Longrightarrow> expr_value env (snd (inner ty' e)) = expr_value env e"
    and "\<forall>(i, j) \<in> set ps. i < length (snd st) \<and> j < length (snd st)"
  shows "length (snd (fold (dups_step inner env ty) ps st)) = length (snd st) \<and>
    lv.total ty (leaf_values env (snd (fold (dups_step inner env ty) ps st))) =
    lv.total ty (leaf_values env (snd st))"
  using assms(4)
proof (induction ps arbitrary: st)
  case (Cons p ps)
  obtain i j cnt ls where [simp]: "p = (i, j)" "st = (cnt, ls)" by (metis surj_pair)
  have "i < length ls" "j < length ls" using Cons.prems by auto
  note step = dups_step_value[where inner = inner and ty = ty and cnt = cnt, OF assms(1-3) this]
  show ?case
    using Cons.IH[of "dups_step inner env ty p st"] Cons.prems step
    by (simp add: dups_step_length)
qed simp

lemma dups1_value:
  assumes "booleans_ok env" "constants_ok env"
  shows "expr_value env (snd (dups1 fuel env ty e)) = expr_value env e"
proof (induction fuel arbitrary: ty e)
  case (Suc fuel)
  let ?ls = "leaves ty e"
  define st where "st = fold (dups_step (dups1 fuel env) env ty) (leaf_pairs (length ?ls)) (0, ?ls)"
  have "\<forall>(i, j) \<in> set (leaf_pairs (length ?ls)). i < length (snd (0 :: nat, ?ls)) \<and> j < length (snd (0 :: nat, ?ls))"
    by (auto simp: leaf_pairs_range)
  from fold_dups_value[where inner = "dups1 fuel env" and ty = ty, OF assms Suc.IH this]
  have st: "length (snd st) = length ?ls" "lv.total ty (leaf_values env (snd st)) = lv.total ty (leaf_values env ?ls)"
    by (simp_all add: st_def)
  have "snd (dups1 (Suc fuel) env ty e) = relabel ty e (snd st)"
    by (simp add: st_def Let_def split_beta)
  then show ?case
    using relabel_value[OF st(1), of env] relabel_value[of ?ls ty e env] st(2) by (simp add: relabel_leaves)
qed simp

lemma dups_pass_value:
  "booleans_ok env \<Longrightarrow> constants_ok env \<Longrightarrow> expr_value env (snd (dups_pass env e)) = expr_value env e"
  by (simp add: dups_pass_def expr_eliminate_dups1_def dups1_value split: option.splits)

lemma eliminate_dups_value:
  assumes "booleans_ok env" "constants_ok env"
  shows "expr_value env (eliminate_dups env e) = expr_value env e"
  using assms
proof (induction env e rule: eliminate_dups.induct)
  case (1 env e)
  then show ?case
    by (subst eliminate_dups.simps) (simp add: dups_pass_value eliminate_yn_value)
qed

text \<open>
  The operations read only the declarations of the symbols, so their results serve every
  configuration with the same declarations.
\<close>

definition same_decls :: "kenv \<Rightarrow> kenv \<Rightarrow> bool" where
  "same_decls env env' \<longleftrightarrow>
     (\<forall>i. si_type (env i) = si_type (env' i) \<and> si_const (env i) = si_const (env' i))"

lemma same_decls_of:
  assumes "same_decls env env'"
  shows "type_of env s = type_of env' s" "si_const (sym_info_of env s) = si_const (sym_info_of env' s)"
  using assms by (cases s; simp add: same_decls_def)+

lemma join_decls:
  assumes "same_decls env env'"
  shows "expr_join env = expr_join env'"
proof (intro ext)
  fix ty e1 e2
  note d = same_decls_of[OF assms]
  have b: "bool_or_tri env = bool_or_tri env'" by (intro ext) (simp add: bool_or_tri_def d)
  have "join_eq_uneq env = join_eq_uneq env'" unfolding join_eq_uneq_def[abs_def] d ..
  then have t: "join_tristate_and env = join_tristate_and env'"
    by (intro ext) (simp add: join_tristate_and_def)
  have "expr_join_or env e1 e2 = expr_join_or env' e1 e2" unfolding expr_join_or_def d b ..
  moreover have "expr_join_and env e1 e2 = expr_join_and env' e1 e2" unfolding expr_join_and_def d b t ..
  ultimately show "expr_join env ty e1 e2 = expr_join env' ty e1 e2" by (cases ty) simp_all
qed

lemma dups1_decls:
  assumes "same_decls env env'"
  shows "dups1 fuel env = dups1 fuel env'"
proof (induction fuel)
  case 0
  then show ?case by (intro ext) simp
next
  case (Suc fuel)
  have "dups_step inner env = dups_step inner env'" for inner
    unfolding dups_step_def join_decls[OF assms] ..
  then show ?case using Suc by (intro ext) simp
qed

lemma eliminate_dups_decls: "same_decls env env' \<Longrightarrow> eliminate_dups env e = eliminate_dups env' e"
proof (induction env e rule: eliminate_dups.induct)
  case (1 env e)
  have "dups_pass env = dups_pass env'"
    unfolding dups_pass_def[abs_def] expr_eliminate_dups1_def dups1_decls[OF "1.prems"] ..
  then show ?case using 1 by (subst (1 2) eliminate_dups.simps) simp
qed

subsection \<open>Transforming\<close>

lemma EXPR_NOT_simps [simp]:
  "EXPR_NOT (EXPR_NOT v) = v"
  "EXPR_NOT (min a b) = max (EXPR_NOT a) (EXPR_NOT b)" "EXPR_NOT (max a b) = min (EXPR_NOT a) (EXPR_NOT b)"
  by (cases v; simp) (cases a; cases b; simp add: min_def max_def less_eq_tristate_def)+

lemma negate_cmp_value: "expr_value env (E_COMP (negate_cmp ty) s v) = EXPR_NOT (expr_value env (E_COMP ty s v))"
  by (cases ty) auto

lemma not_symbol_value: "expr_value env (not_symbol s) = EXPR_NOT (tri_of env s)"
  by (simp add: not_symbol_def)

lemma transform_comp_value:
  assumes "booleans_ok env"
  shows "expr_value env (transform_comp env ty s v) = expr_value env (E_COMP ty s v)"
proof (cases "type_of env s = S_BOOLEAN")
  case True
  then have b: "bool_or_tri env s" by (simp add: bool_or_tri_def)
  note eqs = eq_const_value[OF b]
  show ?thesis
    using True boolean_cases[OF assms True]
    by (auto simp: transform_comp_def transform_equal_def transform_unequal_def eqs
        simp del: expr_value.simps(5))
qed (simp add: transform_comp_def)

lemma transform_value:
  assumes "booleans_ok env'" "same_decls env env'"
  shows "expr_value env' (transform env e) = expr_value env' e"
  using assms
proof (induction env e rule: transform.induct)
  case (1 env ty s v)
  then have "transform_comp env ty s v = transform_comp env' ty s v"
    by (simp add: transform_comp_def same_decls_of)
  then show ?case using transform_comp_value[OF 1(1)] by simp
next
  case (5 env e)
  then have "expr_value env' e = expr_value env' (transform env e)" by simp
  then show ?case
    using 5(2-)
    by (cases "transform env e")
      (simp_all add: EXPR_OR_max EXPR_AND_min negate_cmp_value not_symbol_value
        del: expr_value.simps(5) transform.simps(3-5),
       simp_all add: negate_cmp_value not_symbol_value del: expr_value.simps(5))
qed auto

subsection \<open>Inserting comparisons\<close>

definition eq_value :: "tristate \<Rightarrow> cmp_type \<Rightarrow> tristate \<Rightarrow> tristate" where
  "eq_value a ty b = (if (a = b) = (ty = E_EQUAL) then tri_yes else tri_no)"

definition no_modules :: "kenv \<Rightarrow> bool" where
  "no_modules env \<longleftrightarrow> (\<forall>i. bool_or_tri env (Sym i) \<and> si_tri (env i) \<noteq> tri_mod)"

fun plain :: "expr \<Rightarrow> bool" where
  "plain (E_AND l r) \<longleftrightarrow> plain l \<and> plain r"
| "plain (E_OR l r) \<longleftrightarrow> plain l \<and> plain r"
| "plain (E_NOT e) \<longleftrightarrow> plain e"
| "plain (E_SYMBOL s) \<longleftrightarrow> s \<noteq> symbol_mod"
| "plain (E_COMP ty s v) \<longleftrightarrow> True"

lemma plain_value:
  assumes "no_modules env" "plain e"
  shows "expr_value env e = tri_no \<or> expr_value env e = tri_yes"
  using assms(2)
proof (induction e)
  case (E_SYMBOL s)
  then show ?case using assms(1) by (cases s; cases "tri_of env s") (auto simp: no_modules_def)
qed (auto simp: EXPR_OR_def EXPR_AND_def)

lemma trans_leaf_value:
  assumes "s \<in> {symbol_yes, symbol_no}" "ty \<in> {E_EQUAL, E_UNEQUAL}"
    and "expr_value env e = tri_no \<or> expr_value env e = tri_yes"
  shows "\<exists>t. trans_leaf e ty s = Some t \<and> expr_value env t = eq_value (expr_value env e) ty (tri_of env s)"
  using assms by (auto simp: trans_leaf_def eq_value_def)

lemma trans_join_value:
  assumes "s \<in> {symbol_yes, symbol_no}" "ty \<in> {E_EQUAL, E_UNEQUAL}"
    and "expr_value env l \<in> {tri_no, tri_yes}" "expr_value env r \<in> {tri_no, tri_yes}"
    and "expr_value env e1 = eq_value (expr_value env l) E_EQUAL (tri_of env s)"
    and "expr_value env e2 = eq_value (expr_value env r) E_EQUAL (tri_of env s)"
  shows "expr_value env (trans_join lt (mk_log lt l r) e1 e2 ty s) =
    eq_value (expr_value env (mk_log lt l r)) ty (tri_of env s)"
  using assms by (cases lt) (auto simp: trans_join_def eq_value_def EXPR_OR_max EXPR_AND_min)

lemma trans_compare_value:
  assumes env: "no_modules env" and s: "s \<in> {symbol_yes, symbol_no}"
  shows "plain e \<Longrightarrow> ty \<in> {E_EQUAL, E_UNEQUAL} \<Longrightarrow>
    \<exists>t. trans_compare e ty s = Some t \<and> expr_value env t = eq_value (expr_value env e) ty (tri_of env s)"
proof (induction e arbitrary: ty)
  case (E_OR l r)
  obtain e1 e2 where e: "trans_compare l E_EQUAL s = Some e1" "trans_compare r E_EQUAL s = Some e2"
    "expr_value env e1 = eq_value (expr_value env l) E_EQUAL (tri_of env s)"
    "expr_value env e2 = eq_value (expr_value env r) E_EQUAL (tri_of env s)"
    using E_OR.IH[of E_EQUAL] E_OR.prems(1) by auto
  then show ?case
    using trans_join_value[OF s E_OR.prems(2) _ _ e(3,4), of L_OR] plain_value[OF env] E_OR.prems(1) by simp
next
  case (E_AND l r)
  obtain e1 e2 where e: "trans_compare l E_EQUAL s = Some e1" "trans_compare r E_EQUAL s = Some e2"
    "expr_value env e1 = eq_value (expr_value env l) E_EQUAL (tri_of env s)"
    "expr_value env e2 = eq_value (expr_value env r) E_EQUAL (tri_of env s)"
    using E_AND.IH[of E_EQUAL] E_AND.prems(1) by auto
  then show ?case
    using trans_join_value[OF s E_AND.prems(2) _ _ e(3,4), of L_AND] plain_value[OF env] E_AND.prems(1) by simp
next
  case (E_NOT e)
  let ?ty = "if ty = E_EQUAL then E_UNEQUAL else E_EQUAL"
  obtain t where "trans_compare e ?ty s = Some t" "expr_value env t = eq_value (expr_value env e) ?ty (tri_of env s)"
    using E_NOT.IH[of ?ty] E_NOT.prems by auto
  moreover have "eq_value (expr_value env e) ?ty (tri_of env s) = eq_value (expr_value env (E_NOT e)) ty (tri_of env s)"
    using plain_value[OF env, of e] E_NOT.prems s by (auto simp: eq_value_def)
  ultimately show ?case by simp
next
  case (E_COMP cty s1 s2)
  then show ?case using trans_leaf_value[OF s, of ty env "E_COMP cty s1 s2"] by simp
next
  case (E_SYMBOL s1)
  have "bool_or_tri env s1" "bool_or_tri env s" using env s by (cases s1; auto simp: no_modules_def)+
  from eq_const_value[OF this] E_SYMBOL show ?case
    by (auto simp: eq_value_def expr_alloc_comp_def simp del: expr_value.simps(5))
qed

subsection \<open>Dependencies\<close>

lemma depends_symbol_no:
  assumes "depends_symbol e s" "bool_or_tri env s" "tri_of env s = tri_no"
  shows "expr_value env e = tri_no"
  using assms
proof (induction e)
  case (E_COMP ty s1 s2)
  then show ?case
    by (auto simp: eq_const_value compare_tri_eq)
qed (auto simp: EXPR_AND_min)

lemma contains_symbol_frame:
  assumes "\<forall>i. contains_symbol e (Sym i) \<longrightarrow> env i = env' i"
  shows "expr_value env e = expr_value env' e"
  using assms
proof (induction e)
  case (E_COMP ty s1 s2)
  then have e: "sym_info_of env s1 = sym_info_of env' s1" "sym_info_of env s2 = sym_info_of env' s2"
    by (cases s1; cases s2; simp)+
  have "compare_syms env s1 s2 = compare_syms env' s1 s2"
    unfolding compare_syms_def sym_get_string_value_def e ..
  then show ?case by simp
next
  case (E_SYMBOL s)
  then show ?case by (cases s) auto
qed auto

subsection \<open>Normal forms\<close>

lemma eliminate_yn_irreducible: "\<not> reducible (expr_eliminate_yn e)"
  by (induction e) (auto simp: and_yn_def or_yn_def elim!: is_yn.elims)

lemma dups_pass_fixed: "snd (dups_pass env (eliminate_dups env e)) = eliminate_dups env e \<and>
    fst (dups_pass env (eliminate_dups env e)) = 0"
proof (induction env e rule: eliminate_dups.induct)
  case (1 env e)
  show ?case
  proof (cases "fst (dups_pass env e) = 0")
    case True
    then have "eliminate_dups env e = e"
      using dups_pass_ok[of e env] by (subst eliminate_dups.simps) (simp add: dups_ok_def)
    then show ?thesis using True dups_pass_ok[of e env] by (simp add: dups_ok_def)
  next
    case False
    then have "eliminate_dups env e = eliminate_dups env (expr_eliminate_yn (snd (dups_pass env e)))"
      by (subst eliminate_dups.simps) simp
    then show ?thesis using 1 False by simp
  qed
qed

lemma eliminate_dups_idem: "eliminate_dups env (eliminate_dups env e) = eliminate_dups env e"
  by (subst eliminate_dups.simps) (simp add: dups_pass_fixed)

text \<open>Negations stand only before symbols that are not constants.\<close>

fun nnf :: "expr \<Rightarrow> bool" where
  "nnf (E_AND l r) \<longleftrightarrow> nnf l \<and> nnf r"
| "nnf (E_OR l r) \<longleftrightarrow> nnf l \<and> nnf r"
| "nnf (E_NOT e) \<longleftrightarrow> (\<exists>i. e = E_SYMBOL (Sym i))"
| "nnf _ \<longleftrightarrow> True"

lemma not_symbol_nnf: "nnf (not_symbol s)"
  by (cases s) (auto simp: not_symbol_def)

lemma transform_nnf: "nnf (transform env e)"
proof (induction env e rule: transform.induct)
  case (1 env ty s v)
  then show ?case
    by (cases s) (auto simp: transform_comp_def transform_equal_def transform_unequal_def)
next
  case (5 env e)
  then show ?case
    by (cases "transform env e") (simp_all add: not_symbol_nnf)
qed auto

subsection \<open>The properties\<close>

lemma no_user_constants:
  assumes "\<forall>i. \<not> si_const (env i)"
  shows "constants_ok env"
proof -
  have "\<not> (compare_syms env s b = 0 \<and> compare_syms env s c = 0)"
    if "si_const (sym_info_of env b)" "si_const (sym_info_of env c)" "b \<noteq> c" "type_of env s = S_TRISTATE" for s b c
  proof -
    have "bool_or_tri env s" "bool_or_tri env b" "bool_or_tri env c" "tri_of env b \<noteq> tri_of env c"
      using that assms by (cases b; cases c; simp add: bool_or_tri_def)+
    then show ?thesis by (simp add: compare_tri_eq)
  qed
  then show ?thesis unfolding constants_ok_def by blast
qed

text \<open>A boolean symbol that is set, a tristate that is a module, and booleans that are not set.\<close>

definition kconfig_example :: kenv where
  "kconfig_example i =
     (if i = 0
      then \<lparr>si_name = Some ''A'', si_type = S_BOOLEAN, si_const = False, si_tri = tri_yes, si_val = ''y''\<rparr>
      else if i = 1
      then \<lparr>si_name = Some ''B'', si_type = S_TRISTATE, si_const = False, si_tri = tri_mod, si_val = ''m''\<rparr>
      else \<lparr>si_name = Some ''C'', si_type = S_BOOLEAN, si_const = False, si_tri = tri_no, si_val = ''n''\<rparr>)"

lemma kconfig_example_ok:
  "booleans_ok kconfig_example" "constants_ok kconfig_example" "same_decls kconfig_example kconfig_example"
  by (simp_all add: booleans_ok_def kconfig_example_def same_decls_def no_user_constants)

text \<open>
  C34: if \<open>expr_eq\<close> takes two dependencies for equal, they have the same value in every
  configuration; a missing dependency counts as \<open>y\<close>.
\<close>

theorem expr_eq_sound:
  assumes "expr_eq ep1 ep2"
  shows "expr_calc_value env (map_option Node ep1) = expr_calc_value env (map_option Node ep2)"
proof (cases "ep1 = None \<or> ep2 = None")
  case True
  then have "expr_is_yes ep1" "expr_is_yes ep2" using assms by (auto simp: expr_eq_def split: option.splits)
  then show ?thesis by (auto simp: expr_is_yes_def expr_calc_value_def split: option.splits)
next
  case False
  then show ?thesis using assms eq_sound(3)[of _ _ env] by (auto simp: expr_eq_def expr_calc_value_def)
qed

theorem expr_eq_sound_witness:
  "expr_calc_value kconfig_example (map_option Node (Some (E_AND (E_SYMBOL (Sym 0)) (E_SYMBOL (Sym 1))))) =
   expr_calc_value kconfig_example (map_option Node (Some (E_AND (E_SYMBOL (Sym 1)) (E_SYMBOL (Sym 0)))))"
  by (rule expr_eq_sound) code_simp



text \<open>
  C33: transforming a dependency does not change its value in any configuration of the same
  symbols in which booleans are never \<open>m\<close>, and in the result every negation stands directly
  before a symbol that is not a constant.
\<close>

theorem transform_correct:
  assumes "booleans_ok env'" "same_decls env env'"
  shows "expr_calc_value env' (map_option Node (expr_transform env e)) =
      expr_calc_value env' (map_option Node e) \<and>
    pred_option nnf (expr_transform env e)"
  by (cases e) (simp_all add: expr_transform_def expr_calc_value_def transform_value[OF assms] transform_nnf)

theorem transform_correct_witness:
  "expr_transform kconfig_example
     (Some (E_NOT (E_OR (E_COMP E_UNEQUAL (Sym 0) symbol_yes) (E_COMP E_LEQ (Sym 1) symbol_no)))) =
     Some (E_AND (E_SYMBOL (Sym 0)) (E_COMP E_GTH (Sym 1) symbol_no)) \<and>
   expr_calc_value kconfig_example
     (map_option Node (Some (E_AND (E_SYMBOL (Sym 0)) (E_COMP E_GTH (Sym 1) symbol_no)))) =
   expr_calc_value kconfig_example (map_option Node
     (Some (E_NOT (E_OR (E_COMP E_UNEQUAL (Sym 0) symbol_yes) (E_COMP E_LEQ (Sym 1) symbol_no)))))"
proof -
  have e: "expr_transform kconfig_example
     (Some (E_NOT (E_OR (E_COMP E_UNEQUAL (Sym 0) symbol_yes) (E_COMP E_LEQ (Sym 1) symbol_no)))) =
     Some (E_AND (E_SYMBOL (Sym 0)) (E_COMP E_GTH (Sym 1) symbol_no))"
    by code_simp
  show ?thesis
    using transform_correct[OF kconfig_example_ok(1,3), of
        "Some (E_NOT (E_OR (E_COMP E_UNEQUAL (Sym 0) symbol_yes) (E_COMP E_LEQ (Sym 1) symbol_no)))"]
    unfolding e by simp
qed

text \<open>
  Removing the constants \<open>y\<close> and \<open>n\<close> does not change the value of an expression, and no
  operator of the result has one of them as an operand.
\<close>

theorem eliminate_yn_correct:
  "expr_value env (expr_eliminate_yn e) = expr_value env e \<and> \<not> reducible (expr_eliminate_yn e)"
  by (simp add: eliminate_yn_value eliminate_yn_irreducible)

text \<open>
  In a configuration without modules, comparing an expression with \<open>y\<close> or \<open>n\<close> gives an
  expression, never a missing one, and it is \<open>y\<close> exactly when the value of the original
  compares so.
\<close>

theorem trans_compare_correct:
  assumes "no_modules env" "plain e" "ty \<in> {E_EQUAL, E_UNEQUAL}" "s \<in> {symbol_yes, symbol_no}"
  shows "\<exists>t. expr_trans_compare (Some e) ty s = Some t \<and>
    expr_value env t = eq_value (expr_value env e) ty (tri_of env s)"
  using trans_compare_value[OF assms(1,4,2,3)] by (simp add: expr_trans_compare_def)

definition no_modules_example :: kenv where
  "no_modules_example i =
     \<lparr>si_name = Some ''A'', si_type = S_TRISTATE, si_const = False,
      si_tri = (if i = 0 then tri_yes else tri_no), si_val = ''y''\<rparr>"

theorem trans_compare_correct_witness:
  "\<exists>t. expr_trans_compare (Some (E_AND (E_SYMBOL (Sym 0)) (E_NOT (E_SYMBOL (Sym 1))))) E_UNEQUAL symbol_no = Some t \<and>
    expr_value no_modules_example t =
      eq_value (expr_value no_modules_example (E_AND (E_SYMBOL (Sym 0)) (E_NOT (E_SYMBOL (Sym 1)))))
        E_UNEQUAL (tri_of no_modules_example symbol_no)"
  by (rule trans_compare_correct) (simp_all add: no_modules_def no_modules_example_def bool_or_tri_def)

text \<open>
  An expression that depends on a boolean or tristate symbol according to
  \<open>expr_depends_symbol\<close> has the value \<open>n\<close> whenever the symbol has.
\<close>

theorem depends_symbol_sound:
  assumes "expr_depends_symbol dep s" "bool_or_tri env s" "tri_of env s = tri_no"
  shows "expr_calc_value env dep = tri_no"
  using assms depends_symbol_no[OF _ assms(2,3)]
  by (auto simp: expr_depends_symbol_def expr_calc_value_def split: option.splits expr_node.splits)

theorem depends_symbol_sound_witness:
  "expr_calc_value kconfig_example
     (Some (Node (E_AND (E_SYMBOL (Sym 0)) (E_COMP E_UNEQUAL (Sym 2) symbol_no)))) = tri_no"
  by (rule depends_symbol_sound[of _ "Sym 2"])
    (simp_all add: expr_depends_symbol_def kconfig_example_def bool_or_tri_def)

text \<open>
  The value of a dependency rests only on the symbols that \<open>expr_contains_symbol\<close> finds in
  it.
\<close>

theorem contains_symbol_complete:
  assumes "\<forall>i. expr_contains_symbol dep (Sym i) \<longrightarrow> env i = env' i"
  shows "expr_calc_value env dep = expr_calc_value env' dep"
proof (cases dep)
  case (Some d)
  show ?thesis
    using assms contains_symbol_frame[of _ env env'] Some
    by (cases d) (simp_all add: expr_contains_symbol_def expr_calc_value_def)
qed (simp add: expr_calc_value_def)

theorem contains_symbol_complete_witness:
  "expr_calc_value kconfig_example (Some (Node (E_OR (E_SYMBOL (Sym 0)) (E_COMP E_EQUAL (Sym 1) symbol_mod)))) =
   expr_calc_value (kconfig_example(5 := kconfig_example 0))
     (Some (Node (E_OR (E_SYMBOL (Sym 0)) (E_COMP E_EQUAL (Sym 1) symbol_mod))))"
  by (rule contains_symbol_complete) (simp add: expr_contains_symbol_def)

text \<open>
  C39: the condition on constants is needed. When a tristate symbol equals two different
  constant symbols, as \<open>n\<close> equals both \<open>'n'\<close> and \<open>'0'\<close>, joining \<open>s=b && s!=c\<close> gives an
  expression that is \<open>y\<close> although the conjunction is \<open>n\<close>.
\<close>

theorem join_and_conflates_constants:
  assumes "type_of env s = S_TRISTATE" "si_const (sym_info_of env b)" "si_const (sym_info_of env c)" "b \<noteq> c"
    and "compare_syms env s b = 0" "compare_syms env s c = 0"
  shows "\<exists>e. expr_join_and env (E_COMP E_EQUAL s b) (E_COMP E_UNEQUAL s c) = Some e \<and>
    expr_value env e = tri_yes \<and>
    expr_value env (E_AND (E_COMP E_EQUAL s b) (E_COMP E_UNEQUAL s c)) = tri_no"
  using assms
  by (simp add: expr_join_and_def tree_eq.simps bool_or_tri_def sym_and_cmp_def join_tristate_and_def
      join_eq_uneq_def expr_alloc_comp_def EXPR_AND_min)

definition zero_example :: kenv where
  "zero_example i =
     (if i = 0
      then \<lparr>si_name = Some ''A'', si_type = S_TRISTATE, si_const = False, si_tri = tri_no, si_val = ''n''\<rparr>
      else \<lparr>si_name = Some ''0'', si_type = S_UNKNOWN, si_const = True, si_tri = tri_no, si_val = ''0''\<rparr>)"

theorem join_and_conflates_constants_witness:
  "\<exists>e. expr_join_and zero_example (E_COMP E_EQUAL (Sym 0) symbol_no) (E_COMP E_UNEQUAL (Sym 0) (Sym 1)) = Some e \<and>
    expr_value zero_example e = tri_yes \<and>
    expr_value zero_example (E_AND (E_COMP E_EQUAL (Sym 0) symbol_no) (E_COMP E_UNEQUAL (Sym 0) (Sym 1))) = tri_no"
proof (rule join_and_conflates_constants)
  show "compare_syms zero_example (Sym 0) symbol_no = 0"
    by (simp add: compare_tri_eq bool_or_tri_def zero_example_def)
  have "strto 0 ''0'' = Some (False, 0, [])" by code_simp
  then show "compare_syms zero_example (Sym 0) (Sym 1) = 0"
    by (simp add: compare_syms_def sym_get_string_value_def expr_parse_string_def zero_example_def)
qed (simp_all add: zero_example_def)

end
