(* ===== verification/Hashmap.thy ===== *)
theory Hashmap
  imports Prelude
begin

text \<open>
  The hash map of \<^verbatim>\<open>tools/lib/bpf/hashmap.c\<close> and \<^verbatim>\<open>tools/lib/bpf/hashmap.h\<close> on a 64-bit
  machine.

  A chain of entries is a list, and the array of buckets a list of chains, \<open>None\<close> while it is
  not allocated. Keys and values are of the type \<open>long\<close>, as 64-bit words. The functions for
  hashing and comparing keys get what \<open>ctx\<close> points to at the time of the call, so this value
  is an argument of every operation that uses them. Whether an allocation succeeds is an
  argument too. An access outside the buckets makes the result \<open>None\<close>.
\<close>

subsection \<open>Hashing\<close>

definition hash_bits :: "u64 \<Rightarrow> u64 \<Rightarrow> u64" where
  "hash_bits h bits =
     (if bits = 0 then 0 else drop_bit (64 - unat bits) (h * 11400714819323198485))"

text \<open>A \<open>char\<close> is a signed byte.\<close>

definition str_hash :: "8 word list \<Rightarrow> u64" where
  "str_hash s = foldl (\<lambda>h c. h * 31 + scast c) 0 s"

subsection \<open>The map\<close>

record hashmap_entry =
  entry_key :: u64
  entry_value :: u64

record 'c hashmap =
  hash_fn :: "u64 \<Rightarrow> 'c \<Rightarrow> u64"
  equal_fn :: "u64 \<Rightarrow> u64 \<Rightarrow> 'c \<Rightarrow> bool"
  buckets :: "hashmap_entry list list option"
  cap :: u64
  cap_bits :: u64
  sz :: u64

record alloc =
  calloc_ok :: "u64 \<Rightarrow> bool"
  malloc_ok :: bool

datatype hashmap_insert_strategy = HASHMAP_ADD | HASHMAP_SET | HASHMAP_UPDATE | HASHMAP_APPEND

definition ENOENT :: int where
  "ENOENT = 2"

definition ENOMEM :: int where
  "ENOMEM = 12"

definition EEXIST :: int where
  "EEXIST = 17"

definition HASHMAP_MIN_CAP_BITS :: u64 where
  "HASHMAP_MIN_CAP_BITS = 2"

definition hashmap_add_entry ::
  "hashmap_entry list list \<Rightarrow> u64 \<Rightarrow> hashmap_entry \<Rightarrow> hashmap_entry list list option" where
  "hashmap_add_entry bs h e =
     (if unat h < length bs then Some (bs[unat h := e # bs ! unat h]) else None)"

definition hashmap_del_entry ::
  "hashmap_entry list list \<Rightarrow> u64 \<Rightarrow> nat \<Rightarrow> hashmap_entry list list" where
  "hashmap_del_entry bs h i =
     bs[unat h := take i (bs ! unat h) @ drop (Suc i) (bs ! unat h)]"

definition hashmap__init ::
  "(u64 \<Rightarrow> 'c \<Rightarrow> u64) \<Rightarrow> (u64 \<Rightarrow> u64 \<Rightarrow> 'c \<Rightarrow> bool) \<Rightarrow> 'c hashmap" where
  "hashmap__init hash equal =
     \<lparr>hash_fn = hash, equal_fn = equal, buckets = None, cap = 0, cap_bits = 0, sz = 0\<rparr>"

definition hashmap__new ::
  "bool \<Rightarrow> (u64 \<Rightarrow> 'c \<Rightarrow> u64) \<Rightarrow> (u64 \<Rightarrow> u64 \<Rightarrow> 'c \<Rightarrow> bool) \<Rightarrow> int + 'c hashmap" where
  "hashmap__new ok hash equal = (if ok then Inr (hashmap__init hash equal) else Inl (- ENOMEM))"

definition hashmap__clear :: "'c hashmap \<Rightarrow> 'c hashmap" where
  "hashmap__clear m = m\<lparr>buckets := None, cap := 0, cap_bits := 0, sz := 0\<rparr>"

definition hashmap__size :: "'c hashmap \<Rightarrow> u64" where
  "hashmap__size m = sz m"

definition hashmap__capacity :: "'c hashmap \<Rightarrow> u64" where
  "hashmap__capacity m = cap m"

subsection \<open>Iteration\<close>

text \<open>The entries in the order of the loops over a whole map and over the entries of one key.\<close>

definition hashmap__for_each_entry :: "'c hashmap \<Rightarrow> hashmap_entry list" where
  "hashmap__for_each_entry m =
     (case buckets m of None \<Rightarrow> [] | Some bs \<Rightarrow> concat (take (unat (cap m)) bs))"

definition hash_index :: "'c \<Rightarrow> 'c hashmap \<Rightarrow> u64 \<Rightarrow> u64" where
  "hash_index ctx m k = hash_bits (hash_fn m k ctx) (cap_bits m)"

definition hashmap__for_each_key_entry :: "'c \<Rightarrow> 'c hashmap \<Rightarrow> u64 \<Rightarrow> hashmap_entry list" where
  "hashmap__for_each_key_entry ctx m k =
     (case buckets m of
        None \<Rightarrow> []
      | Some bs \<Rightarrow> filter (\<lambda>e. equal_fn m (entry_key e) k ctx) (bs ! unat (hash_index ctx m k)))"

subsection \<open>Growing\<close>

definition hashmap_needs_to_grow :: "'c hashmap \<Rightarrow> bool" where
  "hashmap_needs_to_grow m \<longleftrightarrow> cap m = 0 \<or> (sz m + 1) * 4 div 3 > cap m"

fun rehash ::
  "(u64 \<Rightarrow> u64) \<Rightarrow> u64 \<Rightarrow> hashmap_entry list \<Rightarrow> hashmap_entry list list \<Rightarrow> hashmap_entry list list option" where
  "rehash hash bits [] bs = Some bs"
| "rehash hash bits (e # es) bs =
     (case hashmap_add_entry bs (hash_bits (hash (entry_key e)) bits) e of
        None \<Rightarrow> None
      | Some bs' \<Rightarrow> rehash hash bits es bs')"

definition hashmap_grow :: "alloc \<Rightarrow> 'c \<Rightarrow> 'c hashmap \<Rightarrow> (int \<times> 'c hashmap) option" where
  "hashmap_grow al ctx m =
     (let new_cap_bits = (if cap_bits m + 1 < HASHMAP_MIN_CAP_BITS then HASHMAP_MIN_CAP_BITS
                          else cap_bits m + 1);
          new_cap = push_bit (unat new_cap_bits) 1
      in if \<not> calloc_ok al new_cap then Some (- ENOMEM, m)
         else
           (case rehash (\<lambda>k. hash_fn m k ctx) new_cap_bits (hashmap__for_each_entry m)
                   (replicate (unat new_cap) []) of
              None \<Rightarrow> None
            | Some bs \<Rightarrow> Some (0, m\<lparr>buckets := Some bs, cap := new_cap, cap_bits := new_cap_bits\<rparr>)))"

subsection \<open>Searching, inserting and deleting\<close>

text \<open>A found entry comes with its position in the chain, which stands for the pointer to it.\<close>

fun find_chain :: "(u64 \<Rightarrow> bool) \<Rightarrow> nat \<Rightarrow> hashmap_entry list \<Rightarrow> (nat \<times> hashmap_entry) option" where
  "find_chain P i [] = None"
| "find_chain P i (e # es) = (if P (entry_key e) then Some (i, e) else find_chain P (Suc i) es)"

definition hashmap_find_entry ::
  "'c \<Rightarrow> 'c hashmap \<Rightarrow> u64 \<Rightarrow> u64 \<Rightarrow> (nat \<times> hashmap_entry) option option" where
  "hashmap_find_entry ctx m k h =
     (case buckets m of
        None \<Rightarrow> Some None
      | Some bs \<Rightarrow>
          if unat h < length bs then Some (find_chain (\<lambda>k'. equal_fn m k' k ctx) 0 (bs ! unat h)) else None)"

text \<open>
  The results are the return value and what the code stores through \<open>old_key\<close> and
  \<open>old_value\<close> when the caller passes these pointers.
\<close>

definition insert_new ::
  "alloc \<Rightarrow> 'c \<Rightarrow> 'c hashmap \<Rightarrow> u64 \<Rightarrow> u64 \<Rightarrow> (int \<times> 'c hashmap) option" where
  "insert_new al ctx m k v =
     (case (if hashmap_needs_to_grow m then hashmap_grow al ctx m else Some (0, m)) of
        None \<Rightarrow> None
      | Some (err, m') \<Rightarrow>
          if err \<noteq> 0 then Some (err, m')
          else if \<not> malloc_ok al then Some (- ENOMEM, m')
          else
            (case buckets m' of
               None \<Rightarrow> None
             | Some bs \<Rightarrow>
                 (case hashmap_add_entry bs (hash_index ctx m' k) \<lparr>entry_key = k, entry_value = v\<rparr> of
                    None \<Rightarrow> None
                  | Some bs' \<Rightarrow> Some (0, m'\<lparr>buckets := Some bs', sz := sz m' + 1\<rparr>))))"

definition set_entry_at :: "'c hashmap \<Rightarrow> u64 \<Rightarrow> nat \<Rightarrow> hashmap_entry \<Rightarrow> 'c hashmap" where
  "set_entry_at m h i e =
     m\<lparr>buckets := map_option (\<lambda>bs. bs[unat h := (bs ! unat h)[i := e]]) (buckets m)\<rparr>"

definition hashmap_insert ::
  "alloc \<Rightarrow> 'c \<Rightarrow> 'c hashmap \<Rightarrow> u64 \<Rightarrow> u64 \<Rightarrow> hashmap_insert_strategy \<Rightarrow> (int \<times> u64 \<times> u64 \<times> 'c hashmap) option" where
  "hashmap_insert al ctx m k v strategy =
     (let h = hash_index ctx m k in
      case (if strategy = HASHMAP_APPEND then Some None else hashmap_find_entry ctx m k h) of
        None \<Rightarrow> None
      | Some (Some (i, e)) \<Rightarrow>
          if strategy = HASHMAP_SET \<or> strategy = HASHMAP_UPDATE
          then Some (0, entry_key e, entry_value e,
                     set_entry_at m h i \<lparr>entry_key = k, entry_value = v\<rparr>)
          else Some (- EEXIST, entry_key e, entry_value e, m)
      | Some None \<Rightarrow>
          if strategy = HASHMAP_UPDATE then Some (- ENOENT, 0, 0, m)
          else map_option (\<lambda>(err, m'). (err, 0, 0, m')) (insert_new al ctx m k v))"

definition hashmap_find :: "'c \<Rightarrow> 'c hashmap \<Rightarrow> u64 \<Rightarrow> u64 option option" where
  "hashmap_find ctx m k =
     map_option (map_option (\<lambda>(i, e). entry_value e)) (hashmap_find_entry ctx m k (hash_index ctx m k))"

definition hashmap_delete :: "'c \<Rightarrow> 'c hashmap \<Rightarrow> u64 \<Rightarrow> (bool \<times> u64 \<times> u64 \<times> 'c hashmap) option" where
  "hashmap_delete ctx m k =
     (let h = hash_index ctx m k in
      case hashmap_find_entry ctx m k h of
        None \<Rightarrow> None
      | Some None \<Rightarrow> Some (False, 0, 0, m)
      | Some (Some (i, e)) \<Rightarrow>
          Some (True, entry_key e, entry_value e,
                m\<lparr>buckets := map_option (\<lambda>bs. hashmap_del_entry bs h i) (buckets m), sz := sz m - 1\<rparr>))"

subsection \<open>Key functions of the type deduplication\<close>

text \<open>From \<^verbatim>\<open>tools/lib/bpf/btf.c\<close>; the context is not used there.\<close>

definition btf_dedup_identity_hash_fn :: "u64 \<Rightarrow> 'c \<Rightarrow> u64" where
  "btf_dedup_identity_hash_fn k ctx = k"

definition btf_dedup_collision_hash_fn :: "u64 \<Rightarrow> 'c \<Rightarrow> u64" where
  "btf_dedup_collision_hash_fn k ctx = 0"

definition btf_dedup_equal_fn :: "u64 \<Rightarrow> u64 \<Rightarrow> 'c \<Rightarrow> bool" where
  "btf_dedup_equal_fn k1 k2 ctx \<longleftrightarrow> k1 = k2"

end
