(* ===== verification/Hashmap_Correct.thy ===== *)
theory Hashmap_Correct
  imports Hashmap
begin

text \<open>
  The hash map is a map: its invariant, the effect of every operation on the entries of every
  key, and the refinement of the finite maps of the logic. The functions the caller supplies
  for hashing and comparing keys are described by the locale \<open>hash_keys\<close>.
\<close>

subsection \<open>Hash values\<close>

lemma hash_bits_less: "unat bits \<le> 64 \<Longrightarrow> unat (hash_bits h bits) < 2 ^ unat bits"
proof (cases "bits = 0")
  case False
  assume b: "unat bits \<le> 64"
  let ?x = "h * 11400714819323198485"
  have "unat ?x < 2 ^ (64 - unat bits) * 2 ^ unat bits"
    using unsigned_less[of ?x, where ?'a = nat] b by (simp flip: power_add)
  then show ?thesis
    using False b
    by (simp add: hash_bits_def unat_drop_bit_eq less_mult_imp_div_less mult.commute
        flip: drop_bit_eq_div[where ?'a = nat]) (simp add: drop_bit_eq_div less_mult_imp_div_less mult.commute)
qed (simp add: hash_bits_def)

subsection \<open>Chains\<close>

lemma find_chain_None: "find_chain P i es = None \<longleftrightarrow> filter (\<lambda>e. P (entry_key e)) es = []"
  by (induction es arbitrary: i) auto

lemma find_chain_Some:
  assumes "find_chain P i es = Some (j, e)"
  obtains xs ys where "es = xs @ e # ys" "j = i + length xs" "P (entry_key e)" "\<forall>x \<in> set xs. \<not> P (entry_key x)"
proof -
  have "\<exists>xs ys. es = xs @ e # ys \<and> j = i + length xs \<and> P (entry_key e) \<and> (\<forall>x \<in> set xs. \<not> P (entry_key x))"
    using assms
  proof (induction es arbitrary: i)
    case (Cons a es)
    show ?case
    proof (cases "P (entry_key a)")
      case True
      then show ?thesis using Cons.prems by (intro exI[of _ "[]"] exI[of _ es]) auto
    next
      case False
      then obtain xs ys where "es = xs @ e # ys" "j = Suc i + length xs" "P (entry_key e)" "\<forall>x \<in> set xs. \<not> P (entry_key x)"
        using Cons.IH[of "Suc i"] Cons.prems by auto
      then show ?thesis using False by (intro exI[of _ "a # xs"] exI[of _ ys]) auto
    qed
  qed simp
  then show ?thesis using that by blast
qed

text \<open>What the caller's functions must satisfy for the keys that are in use.\<close>

locale hash_keys =
  fixes hash :: "u64 \<Rightarrow> u64" and eq :: "u64 \<Rightarrow> u64 \<Rightarrow> bool"
  assumes eq_refl: "eq k k"
    and eq_sym: "eq k k' \<Longrightarrow> eq k' k"
    and eq_trans: "eq k k' \<Longrightarrow> eq k' k'' \<Longrightarrow> eq k k''"
    and eq_hash: "eq k k' \<Longrightarrow> hash k = hash k'"
begin

lemma eq_left: "eq a k \<Longrightarrow> eq a k' \<longleftrightarrow> eq k k'"
  using eq_sym eq_trans by blast

lemma filter_none: "\<forall>x \<in> set xs. \<not> eq (entry_key x) k \<Longrightarrow> eq k k' \<Longrightarrow> filter (\<lambda>e. eq (entry_key e) k') xs = []"
  by (auto simp: filter_empty_conv dest: eq_sym intro: eq_trans)

lemma filter_set:
  assumes "eq (entry_key e) k" "\<forall>x \<in> set xs. \<not> eq (entry_key x) k"
  shows "filter (\<lambda>x. eq (entry_key x) k') (xs @ \<lparr>entry_key = k, entry_value = v\<rparr> # ys) =
    (if eq k k' then \<lparr>entry_key = k, entry_value = v\<rparr> # tl (filter (\<lambda>x. eq (entry_key x) k') (xs @ e # ys))
     else filter (\<lambda>x. eq (entry_key x) k') (xs @ e # ys))"
  using filter_none[OF assms(2)] eq_left[OF assms(1)] by simp

lemma filter_del:
  assumes "eq (entry_key e) k" "\<forall>x \<in> set xs. \<not> eq (entry_key x) k"
  shows "filter (\<lambda>x. eq (entry_key x) k') (xs @ ys) =
    (if eq k k' then tl (filter (\<lambda>x. eq (entry_key x) k') (xs @ e # ys))
     else filter (\<lambda>x. eq (entry_key x) k') (xs @ e # ys))"
  using filter_none[OF assms(2)] eq_left[OF assms(1)] by simp

lemma filter_bucket:
  "filter (\<lambda>e. eq (entry_key e) k) (filter (\<lambda>e. hash_bits (hash (entry_key e)) b = hash_bits (hash k) b) es) =
   filter (\<lambda>e. eq (entry_key e) k) es"
  by (induction es) (auto dest: eq_hash)

end

abbreviation keys_ok :: "'c \<Rightarrow> 'c hashmap \<Rightarrow> bool" where
  "keys_ok ctx m \<equiv> hash_keys (\<lambda>k. hash_fn m k ctx) (\<lambda>a b. equal_fn m a b ctx)"

interpretation identity_keys: hash_keys "\<lambda>k. btf_dedup_identity_hash_fn k ctx" "\<lambda>a b. btf_dedup_equal_fn a b ctx" for ctx
  by unfold_locales (simp_all add: btf_dedup_identity_hash_fn_def btf_dedup_equal_fn_def)

interpretation collision_keys: hash_keys "\<lambda>k. btf_dedup_collision_hash_fn k ctx" "\<lambda>a b. btf_dedup_equal_fn a b ctx" for ctx
  by unfold_locales (simp_all add: btf_dedup_collision_hash_fn_def btf_dedup_equal_fn_def)

subsection \<open>The invariant\<close>

text \<open>
  The number of buckets is a power of two of at most 60 bits, every entry is in the bucket of
  its hash value, and the size counts the entries. An allocation of as many bytes as there are
  addresses fails.
\<close>

definition calloc_sane :: "alloc \<Rightarrow> bool" where
  "calloc_sane al \<longleftrightarrow> (\<forall>n. calloc_ok al n \<longrightarrow> unat n * 8 < 2 ^ 64)"

definition in_place :: "(u64 \<Rightarrow> u64) \<Rightarrow> u64 \<Rightarrow> hashmap_entry list list \<Rightarrow> bool" where
  "in_place hash bits bs \<longleftrightarrow>
     (\<forall>i < length bs. \<forall>e \<in> set (bs ! i). unat (hash_bits (hash (entry_key e)) bits) = i)"

definition hm_ok :: "'c \<Rightarrow> 'c hashmap \<Rightarrow> bool" where
  "hm_ok ctx m \<longleftrightarrow>
     (case buckets m of
        None \<Rightarrow> cap m = 0 \<and> cap_bits m = 0 \<and> sz m = 0
      | Some bs \<Rightarrow>
          2 \<le> unat (cap_bits m) \<and> unat (cap_bits m) \<le> 60 \<and> unat (cap m) = 2 ^ unat (cap_bits m) \<and>
          length bs = 2 ^ unat (cap_bits m) \<and> in_place (\<lambda>k. hash_fn m k ctx) (cap_bits m) bs \<and>
          sz m = of_nat (length (concat bs)))"

lemma hm_ok_init: "hm_ok ctx (hashmap__init h e)" "hm_ok ctx (hashmap__clear m)"
  by (simp_all add: hm_ok_def hashmap__init_def hashmap__clear_def)

lemma hash_index_less:
  "hm_ok ctx m \<Longrightarrow> buckets m = Some bs \<Longrightarrow> unat (hash_index ctx m k) < length bs"
  using hash_bits_less[of "cap_bits m"] by (simp add: hm_ok_def hash_index_def)

lemma concat_bucket:
  assumes "in_place hash bits bs" "i < length bs"
    and "\<And>e. P e \<Longrightarrow> unat (hash_bits (hash (entry_key e)) bits) = i"
  shows "filter P (concat bs) = filter P (bs ! i)"
proof -
  have none: "filter P (concat xs) = []" if "\<And>j. j < length xs \<Longrightarrow> filter P (xs ! j) = []" for xs :: "hashmap_entry list list"
    using that by (fastforce simp: filter_empty_conv in_set_conv_nth)
  have other: "filter P (bs ! j) = []" if "j < length bs" "j \<noteq> i" for j
    using that assms by (fastforce simp: in_place_def filter_empty_conv)
  have "filter P (concat (take i bs)) = []" using other assms(2) by (intro none) simp
  moreover have "filter P (concat (drop (Suc i) bs)) = []" using other assms(2) by (intro none) simp
  ultimately have "filter P (concat (take i bs @ bs ! i # drop (Suc i) bs)) = filter P (bs ! i)" by simp
  then show ?thesis using id_take_nth_drop[OF assms(2)] by simp
qed

lemma length_concat_update:
  "i < length bs \<Longrightarrow> length (concat (bs[i := c])) + length (bs ! i) = length (concat bs) + length c"
proof (induction bs arbitrary: i)
  case (Cons b bs)
  then show ?case by (cases i) auto
qed simp

abbreviation key_entries :: "'c \<Rightarrow> 'c hashmap \<Rightarrow> u64 \<Rightarrow> hashmap_entry list" where
  "key_entries \<equiv> hashmap__for_each_key_entry"

lemma all_entries: "hm_ok ctx m \<Longrightarrow> buckets m = Some bs \<Longrightarrow> hashmap__for_each_entry m = concat bs"
  by (simp add: hashmap__for_each_entry_def hm_ok_def)

lemma key_entries_all:
  assumes "hm_ok ctx m" "keys_ok ctx m"
  shows "key_entries ctx m k = filter (\<lambda>e. equal_fn m (entry_key e) k ctx) (hashmap__for_each_entry m)"
proof (cases "buckets m")
  case None
  then show ?thesis by (simp add: hashmap__for_each_key_entry_def hashmap__for_each_entry_def)
next
  case (Some bs)
  have "filter (\<lambda>e. equal_fn m (entry_key e) k ctx) (concat bs) =
      filter (\<lambda>e. equal_fn m (entry_key e) k ctx) (bs ! unat (hash_index ctx m k))"
    using assms Some hash_index_less[OF assms(1) Some] hash_keys.eq_hash[OF assms(2)]
    by (intro concat_bucket[where hash = "\<lambda>k. hash_fn m k ctx" and bits = "cap_bits m"])
      (auto simp: hm_ok_def hash_index_def)
  then show ?thesis using all_entries[OF assms(1) Some] Some by (simp add: hashmap__for_each_key_entry_def)
qed

subsection \<open>Growing\<close>

lemma rehash_Some:
  assumes "unat bits \<le> 64"
  shows "length bs = 2 ^ unat bits \<Longrightarrow>
    \<exists>bs'. rehash hash bits es bs = Some bs' \<and> length bs' = length bs \<and>
      length (concat bs') = length es + length (concat bs) \<and>
      (\<forall>i < length bs. bs' ! i = rev (filter (\<lambda>e. unat (hash_bits (hash (entry_key e)) bits) = i) es) @ bs ! i)"
proof (induction es arbitrary: bs)
  case (Cons e es)
  let ?h = "unat (hash_bits (hash (entry_key e)) bits)"
  let ?bs = "bs[?h := e # bs ! ?h]"
  have h: "?h < length bs" using hash_bits_less[OF assms] Cons.prems by simp
  have "length ?bs = 2 ^ unat bits" using Cons.prems by simp
  from Cons.IH[OF this] obtain bs' where "rehash hash bits es ?bs = Some bs'" "length bs' = length ?bs"
    "length (concat bs') = length es + length (concat ?bs)"
    "\<forall>i < length ?bs. bs' ! i = rev (filter (\<lambda>e. unat (hash_bits (hash (entry_key e)) bits) = i) es) @ ?bs ! i"
    by blast
  then show ?case
    using h length_concat_update[OF h, of "e # bs ! ?h"] by (auto simp: hashmap_add_entry_def nth_list_update)
qed simp

definition same_keys :: "'c hashmap \<Rightarrow> 'c hashmap \<Rightarrow> bool" where
  "same_keys m m' \<longleftrightarrow> hash_fn m' = hash_fn m \<and> equal_fn m' = equal_fn m"

lemma grow_bits:
  fixes bits :: u64
  assumes "unat bits \<le> 60" and "nb = (if bits + 1 < 2 then 2 else bits + 1)"
  shows "unat nb = max 2 (unat bits + 1)" "unat (push_bit (unat nb) 1 :: u64) = 2 ^ unat nb"
proof -
  have s: "unat (bits + 1) = unat bits + 1"
    using assms(1) by (simp add: unat_word_ariths)
  then show n: "unat nb = max 2 (unat bits + 1)" using assms(2) by (auto simp: word_less_nat_alt max_def)
  have lt: "(2 :: nat) ^ unat nb < 2 ^ 64" using n assms(1) by (intro power_strict_increasing) auto
  have "(push_bit (unat nb) 1 :: u64) = of_nat (2 ^ unat nb)" by (simp add: push_bit_eq_mult)
  then have "unat (push_bit (unat nb) 1 :: u64) = take_bit 64 (2 ^ unat nb)"
    by (simp only: unsigned_of_nat) simp
  also have "\<dots> = 2 ^ unat nb" using lt by (simp only: take_bit_nat_eq_self_iff)
  finally show "unat (push_bit (unat nb) 1 :: u64) = 2 ^ unat nb" .
qed

lemma hashmap_grow_spec:
  assumes ok: "hm_ok ctx m" and keys: "keys_ok ctx m" and al: "calloc_sane al"
  shows "\<exists>err m'. hashmap_grow al ctx m = Some (err, m') \<and> hm_ok ctx m' \<and> same_keys m m' \<and> sz m' = sz m \<and>
    (err = - ENOMEM \<and> m' = m \<or>
     err = 0 \<and> buckets m' \<noteq> None \<and> unat (cap m') = (if cap m = 0 then 4 else 2 * unat (cap m)) \<and>
     (\<forall>k. key_entries ctx m' k = rev (key_entries ctx m k)))"
proof -
  define nb where "nb = (if cap_bits m + 1 < HASHMAP_MIN_CAP_BITS then HASHMAP_MIN_CAP_BITS else cap_bits m + 1)"
  define nc :: u64 where "nc = push_bit (unat nb) 1"
  let ?es = "hashmap__for_each_entry m" and ?hash = "\<lambda>k. hash_fn m k ctx"
  have cb: "unat (cap_bits m) \<le> 60" using ok by (simp add: hm_ok_def split: option.splits)
  note bits = grow_bits[OF cb nb_def[unfolded HASHMAP_MIN_CAP_BITS_def]]
  have unfold: "hashmap_grow al ctx m =
      (if \<not> calloc_ok al nc then Some (- ENOMEM, m)
       else case rehash ?hash nb ?es (replicate (unat nc) []) of None \<Rightarrow> None
            | Some bs \<Rightarrow> Some (0, m\<lparr>buckets := Some bs, cap := nc, cap_bits := nb\<rparr>))"
    unfolding hashmap_grow_def nb_def[symmetric] Let_def nc_def[symmetric] ..
  show ?thesis
  proof (cases "calloc_ok al nc")
    case False
    then show ?thesis using ok unfold by (simp add: same_keys_def)
  next
    case True
    have nc: "unat nc = 2 ^ unat nb" using bits(2) by (simp add: nc_def)
    then have "(2 :: nat) ^ unat nb * 2 ^ 3 < 2 ^ 64" using True al by (force simp: calloc_sane_def)
    then have "(2 :: nat) ^ (unat nb + 3) < 2 ^ 64" by (simp add: power_add)
    then have nb: "unat nb \<le> 60" by (simp only: power_strict_increasing_iff)
    have "unat nb \<le> 64" "length (replicate (unat nc) ([] :: hashmap_entry list)) = 2 ^ unat nb" using nb nc by simp_all
    from rehash_Some[OF this, of ?hash ?es] obtain bs where bs: "rehash ?hash nb ?es (replicate (unat nc) []) = Some bs"
      "length bs = 2 ^ unat nb" "length (concat bs) = length ?es"
      "\<forall>i < 2 ^ unat nb. bs ! i = rev (filter (\<lambda>e. unat (hash_bits (?hash (entry_key e)) nb) = i) ?es)"
      using nc by auto
    let ?m = "m\<lparr>buckets := Some bs, cap := nc, cap_bits := nb\<rparr>"
    have sz: "sz m = of_nat (length ?es)"
      using ok all_entries[OF ok] by (auto simp: hm_ok_def hashmap__for_each_entry_def split: option.splits)
    have ok': "hm_ok ctx ?m" using bs nb nc bits sz by (auto simp: hm_ok_def in_place_def)
    have "key_entries ctx ?m k = rev (key_entries ctx m k)" for k
    proof -
      have "key_entries ctx ?m k = filter (\<lambda>e. equal_fn m (entry_key e) k ctx) (bs ! unat (hash_bits (?hash k) nb))"
        by (simp add: hashmap__for_each_key_entry_def hash_index_def)
      also have "bs ! unat (hash_bits (?hash k) nb) =
          rev (filter (\<lambda>e. hash_bits (?hash (entry_key e)) nb = hash_bits (?hash k) nb) ?es)"
        using bs(4) hash_bits_less[of nb] nb by (simp add: word_unat_eq_iff)
      also have "filter (\<lambda>e. equal_fn m (entry_key e) k ctx) \<dots> = rev (filter (\<lambda>e. equal_fn m (entry_key e) k ctx) ?es)"
        using hash_keys.filter_bucket[OF keys] by (simp add: rev_filter)
      finally show ?thesis using key_entries_all[OF ok keys] by simp
    qed
    moreover have "unat nc = (if cap m = 0 then 4 else 2 * unat (cap m))"
      using ok nc bits(1) by (auto simp: hm_ok_def max_def split: option.splits)
    ultimately show ?thesis using unfold True bs(1) ok' by (simp add: same_keys_def)
  qed
qed

subsection \<open>Changing one bucket\<close>

lemma update_bucket:
  assumes ok: "hm_ok ctx m" and keys: "keys_ok ctx m" and b: "buckets m = Some bs"
    and h: "h = unat (hash_index ctx m k)"
    and place: "\<forall>e \<in> set c. unat (hash_index ctx m (entry_key e)) = h"
    and size: "s + of_nat (length (bs ! h)) = sz m + of_nat (length c)"
    and filt: "\<And>k'. filter (\<lambda>e. equal_fn m (entry_key e) k' ctx) c =
      (if equal_fn m k k' ctx then F (filter (\<lambda>e. equal_fn m (entry_key e) k' ctx) (bs ! h))
       else filter (\<lambda>e. equal_fn m (entry_key e) k' ctx) (bs ! h))"
  shows "hm_ok ctx (m\<lparr>buckets := Some (bs[h := c]), sz := s\<rparr>) \<and>
    (\<forall>k'. key_entries ctx (m\<lparr>buckets := Some (bs[h := c]), sz := s\<rparr>) k' =
      (if equal_fn m k k' ctx then F (key_entries ctx m k') else key_entries ctx m k'))"
proof
  have hl: "h < length bs" using hash_index_less[OF ok b] h by simp
  have "of_nat (length (concat (bs[h := c]))) + of_nat (length (bs ! h)) = (of_nat (length (concat bs)) + of_nat (length c) :: u64)"
    using length_concat_update[OF hl, of c] by (metis of_nat_add)
  moreover have "sz m = of_nat (length (concat bs))" using ok b by (simp add: hm_ok_def)
  ultimately have "s = of_nat (length (concat (bs[h := c])))" using size by (metis add_right_cancel)
  then show "hm_ok ctx (m\<lparr>buckets := Some (bs[h := c]), sz := s\<rparr>)"
    using ok b place hl by (auto simp: hm_ok_def in_place_def nth_list_update hash_index_def split: if_splits)
  show "\<forall>k'. key_entries ctx (m\<lparr>buckets := Some (bs[h := c]), sz := s\<rparr>) k' =
      (if equal_fn m k k' ctx then F (key_entries ctx m k') else key_entries ctx m k')"
  proof
    fix k'
    have "hash_index ctx m k' = hash_index ctx m k" if "equal_fn m k k' ctx"
      using hash_keys.eq_hash[OF keys that] by (simp add: hash_index_def)
    then show "key_entries ctx (m\<lparr>buckets := Some (bs[h := c]), sz := s\<rparr>) k' =
      (if equal_fn m k k' ctx then F (key_entries ctx m k') else key_entries ctx m k')"
      using b h hl filt[of k'] by (auto simp: hashmap__for_each_key_entry_def nth_list_update hash_index_def)
  qed
qed

lemma find_entry_cases [consumes 1, case_names none found]:
  assumes "hm_ok ctx m"
  obtains "hashmap_find_entry ctx m k (hash_index ctx m k) = Some None" "key_entries ctx m k = []"
  | bs xs e ys where "hashmap_find_entry ctx m k (hash_index ctx m k) = Some (Some (length xs, e))"
    "buckets m = Some bs" "bs ! unat (hash_index ctx m k) = xs @ e # ys"
    "equal_fn m (entry_key e) k ctx" "\<forall>x \<in> set xs. \<not> equal_fn m (entry_key x) k ctx"
    "key_entries ctx m k = e # filter (\<lambda>e. equal_fn m (entry_key e) k ctx) ys"
proof (cases "buckets m")
  case None
  then show ?thesis using that(1) by (simp add: hashmap_find_entry_def hashmap__for_each_key_entry_def)
next
  case (Some bs)
  let ?c = "bs ! unat (hash_index ctx m k)"
  have fe: "hashmap_find_entry ctx m k (hash_index ctx m k) = Some (find_chain (\<lambda>k'. equal_fn m k' k ctx) 0 ?c)"
    using Some hash_index_less[OF assms Some] by (simp add: hashmap_find_entry_def)
  have ke: "key_entries ctx m k = filter (\<lambda>e. equal_fn m (entry_key e) k ctx) ?c"
    using Some by (simp add: hashmap__for_each_key_entry_def)
  show ?thesis
  proof (cases "find_chain (\<lambda>k'. equal_fn m k' k ctx) 0 ?c")
    case None
    then show ?thesis using that(1) fe ke by (simp add: find_chain_None)
  next
    case found: (Some r)
    obtain i e where r: "r = (i, e)" by fastforce
    from find_chain_Some[OF found[unfolded r]] obtain xs ys where "?c = xs @ e # ys" "i = 0 + length xs"
      "equal_fn m (entry_key e) k ctx" "\<forall>x \<in> set xs. \<not> equal_fn m (entry_key x) k ctx" by blast
    then show ?thesis using that(2)[OF _ Some] fe ke found r by simp
  qed
qed

lemma in_bucket:
  "hm_ok ctx m \<Longrightarrow> buckets m = Some bs \<Longrightarrow> e \<in> set (bs ! unat (hash_index ctx m k)) \<Longrightarrow>
     unat (hash_index ctx m (entry_key e)) = unat (hash_index ctx m k)"
  using hash_index_less[of ctx m bs k] by (simp add: hm_ok_def in_place_def hash_index_def)

subsection \<open>The operations on the entries of every key\<close>

text \<open>Growing turns the order of the entries of a key around.\<close>

definition regrown :: "'c hashmap \<Rightarrow> 'c hashmap \<Rightarrow> 'a list \<Rightarrow> 'a list" where
  "regrown m m' es = (if cap m' = cap m then es else rev es)"

lemma regrown_single [simp]: "length es \<le> 1 \<Longrightarrow> regrown m m' es = es"
  by (cases es) (auto simp: regrown_def)

lemma grow_if_needed:
  assumes "hm_ok ctx m" "keys_ok ctx m" "calloc_sane al"
  shows "\<exists>err m'. (if hashmap_needs_to_grow m then hashmap_grow al ctx m else Some (0, m)) = Some (err, m') \<and>
    hm_ok ctx m' \<and> same_keys m m' \<and> sz m' = sz m \<and> (err = 0 \<and> buckets m' \<noteq> None \<or> err = - ENOMEM) \<and>
    (\<forall>k. key_entries ctx m' k = regrown m m' (key_entries ctx m k))"
proof (cases "hashmap_needs_to_grow m")
  case True
  from hashmap_grow_spec[OF assms] obtain err m' where m': "hashmap_grow al ctx m = Some (err, m')" "hm_ok ctx m'"
    "same_keys m m'" "sz m' = sz m"
    "err = - ENOMEM \<and> m' = m \<or> err = 0 \<and> buckets m' \<noteq> None \<and>
     unat (cap m') = (if cap m = 0 then 4 else 2 * unat (cap m)) \<and>
     (\<forall>k. key_entries ctx m' k = rev (key_entries ctx m k))"
    by blast
  have "cap m' \<noteq> cap m" if "unat (cap m') = (if cap m = 0 then 4 else 2 * unat (cap m))"
    using that by (auto split: if_splits simp: word_unat_eq_iff)
  then show ?thesis using m' True by (auto simp: regrown_def)
next
  case False
  then have "buckets m \<noteq> None" using assms(1) by (cases "buckets m") (auto simp: hm_ok_def hashmap_needs_to_grow_def)
  then show ?thesis using False assms(1) by (simp add: same_keys_def regrown_def)
qed

lemma insert_new_spec:
  assumes ok: "hm_ok ctx m" and keys: "keys_ok ctx m" and al: "calloc_sane al"
  shows "\<exists>err m'. insert_new al ctx m k v = Some (err, m') \<and> hm_ok ctx m' \<and> same_keys m m' \<and>
    (err = - ENOMEM \<and> sz m' = sz m \<and> (\<forall>k'. key_entries ctx m' k' = regrown m m' (key_entries ctx m k')) \<or>
     err = 0 \<and> sz m' = sz m + 1 \<and>
     (\<forall>k'. key_entries ctx m' k' =
       (if equal_fn m k k' ctx then \<lparr>entry_key = k, entry_value = v\<rparr> # regrown m m' (key_entries ctx m k')
        else regrown m m' (key_entries ctx m k'))))"
proof -
  let ?e = "\<lparr>entry_key = k, entry_value = v\<rparr>"
  from grow_if_needed[OF assms] obtain err n where
    n: "(if hashmap_needs_to_grow m then hashmap_grow al ctx m else Some (0, m)) = Some (err, n)"
    "hm_ok ctx n" "same_keys m n" "sz n = sz m" "err = 0 \<and> buckets n \<noteq> None \<or> err = - ENOMEM"
    "\<forall>k. key_entries ctx n k = regrown m n (key_entries ctx m k)"
    by blast
  have fns: "hash_fn n = hash_fn m" "equal_fn n = equal_fn m" using n(3) by (simp_all add: same_keys_def)
  have keys': "keys_ok ctx n" using keys by (simp add: fns)
  show ?thesis
  proof (cases "err \<noteq> 0 \<or> \<not> malloc_ok al")
    case True
    then have "insert_new al ctx m k v = Some (- ENOMEM, n)" using n(1,5) by (auto simp: insert_new_def)
    then show ?thesis using n by blast
  next
    case False
    then obtain bs where bs: "buckets n = Some bs" using n(5) by (auto simp: ENOMEM_def)
    let ?h = "unat (hash_index ctx n k)" and ?s = "sz n + 1"
    have hl: "?h < length bs" by (rule hash_index_less[OF n(2) bs])
    let ?m = "n\<lparr>buckets := Some (bs[?h := ?e # bs ! ?h]), sz := ?s\<rparr>"
    have r: "insert_new al ctx m k v = Some (0, ?m)"
      using n(1) False bs hl by (simp add: insert_new_def hashmap_add_entry_def)
    have "hm_ok ctx ?m \<and> (\<forall>k'. key_entries ctx ?m k' =
        (if equal_fn n k k' ctx then ?e # key_entries ctx n k' else key_entries ctx n k'))"
      using in_bucket[OF n(2) bs]
      by (intro update_bucket[OF n(2) keys' bs refl, where F = "\<lambda>es. ?e # es"]) auto
    moreover have "regrown m ?m es = regrown m n es" for es :: "hashmap_entry list" by (simp add: regrown_def)
    ultimately show ?thesis using r n(3,4,6) fns by (simp add: same_keys_def)
  qed
qed

lemma set_found_spec:
  assumes ok: "hm_ok ctx m" and keys: "keys_ok ctx m" and bs: "buckets m = Some bs"
    and c: "bs ! unat (hash_index ctx m k) = xs @ e # ys" "equal_fn m (entry_key e) k ctx"
    "\<forall>x \<in> set xs. \<not> equal_fn m (entry_key x) k ctx"
    and m': "m' = set_entry_at m (hash_index ctx m k) (length xs) \<lparr>entry_key = k, entry_value = v\<rparr>"
  shows "hm_ok ctx m' \<and> (\<forall>k'. key_entries ctx m' k' =
    (if equal_fn m k k' ctx then \<lparr>entry_key = k, entry_value = v\<rparr> # tl (key_entries ctx m k')
     else key_entries ctx m k'))"
proof -
  let ?e = "\<lparr>entry_key = k, entry_value = v\<rparr>" and ?h = "unat (hash_index ctx m k)"
  have m'': "m' = m\<lparr>buckets := Some (bs[?h := xs @ ?e # ys]), sz := sz m\<rparr>"
    using bs c(1) by (simp add: m' set_entry_at_def)
  show ?thesis
    unfolding m''
    using in_bucket[OF ok bs, of _ k] hash_keys.filter_set[OF keys c(2,3)] c(1)
    by (intro update_bucket[OF ok keys bs refl, where F = "\<lambda>es. ?e # tl es"]) auto
qed

lemma hashmap_find_spec:
  assumes "hm_ok ctx m"
  shows "hashmap_find ctx m k = Some (case key_entries ctx m k of [] \<Rightarrow> None | e # es \<Rightarrow> Some (entry_value e))"
  using assms by (cases rule: find_entry_cases[where k = k]) (simp_all add: hashmap_find_def)

lemma hashmap_delete_spec:
  assumes ok: "hm_ok ctx m" and keys: "keys_ok ctx m"
  shows "\<exists>r ok ov m'. hashmap_delete ctx m k = Some (r, ok, ov, m') \<and> hm_ok ctx m' \<and> same_keys m m' \<and> cap m' = cap m \<and>
    (case key_entries ctx m k of
       [] \<Rightarrow> \<not> r \<and> ok = 0 \<and> ov = 0 \<and> m' = m
     | e # es \<Rightarrow> r \<and> ok = entry_key e \<and> ov = entry_value e \<and> sz m' = sz m - 1 \<and>
         (\<forall>k'. key_entries ctx m' k' = (if equal_fn m k k' ctx then tl (key_entries ctx m k') else key_entries ctx m k')))"
  using ok
proof (cases rule: find_entry_cases[where k = k])
  case none
  then show ?thesis using ok by (intro exI[of _ False]) (simp add: hashmap_delete_def same_keys_def)
next
  case (found bs xs e ys)
  let ?h = "unat (hash_index ctx m k)"
  let ?m = "m\<lparr>buckets := Some (bs[?h := xs @ ys]), sz := sz m - 1\<rparr>"
  have "hashmap_delete ctx m k = Some (True, entry_key e, entry_value e, ?m)"
    using found(1-3) by (simp add: hashmap_delete_def hashmap_del_entry_def)
  moreover have "hm_ok ctx ?m \<and> (\<forall>k'. key_entries ctx ?m k' =
      (if equal_fn m k k' ctx then tl (key_entries ctx m k') else key_entries ctx m k'))"
    using in_bucket[OF ok found(2), of _ k] hash_keys.filter_del[OF keys found(4,5)] found(3)
    by (intro update_bucket[OF ok keys found(2) refl, where F = tl]) auto
  ultimately show ?thesis using found(6) by (intro exI[of _ True]) (simp add: same_keys_def)
qed

subsection \<open>The set of all entries\<close>

lemma mem_entries:
  assumes "hm_ok ctx m" "keys_ok ctx m"
  shows "e \<in> set (hashmap__for_each_entry m) \<longleftrightarrow> e \<in> set (key_entries ctx m (entry_key e))"
  using key_entries_all[OF assms] hash_keys.eq_refl[OF assms(2)] by simp

lemma hashmap_add_entries:
  assumes ok: "hm_ok ctx m" and keys: "keys_ok ctx m" and al: "calloc_sane al"
    and ins: "hashmap_insert al ctx m k v HASHMAP_ADD = Some (err, old_key, old_value, m')"
  shows "set (hashmap__for_each_entry m') =
    (if err = 0 then insert \<lparr>entry_key = k, entry_value = v\<rparr> (set (hashmap__for_each_entry m))
     else set (hashmap__for_each_entry m))"
  using ok
proof (cases rule: find_entry_cases[where k = k])
  case none
  have n: "insert_new al ctx m k v = Some (err, m')" using ins none(1) by (auto simp: hashmap_insert_def)
  have spec: "hm_ok ctx m' \<and> same_keys m m' \<and>
    (err = - ENOMEM \<and> sz m' = sz m \<and> (\<forall>k'. key_entries ctx m' k' = regrown m m' (key_entries ctx m k')) \<or>
     err = 0 \<and> sz m' = sz m + 1 \<and> (\<forall>k'. key_entries ctx m' k' =
       (if equal_fn m k k' ctx then \<lparr>entry_key = k, entry_value = v\<rparr> # regrown m m' (key_entries ctx m k')
        else regrown m m' (key_entries ctx m k'))))"
    using insert_new_spec[OF ok keys al, of k v] n by auto
  have keys': "keys_ok ctx m'" using keys spec by (simp add: same_keys_def)
  have "set (regrown m m' es) = set es" for es :: "hashmap_entry list" by (simp add: regrown_def)
  then have "set (key_entries ctx m' k') =
      (if err = 0 \<and> equal_fn m k k' ctx then insert \<lparr>entry_key = k, entry_value = v\<rparr> (set (key_entries ctx m k'))
       else set (key_entries ctx m k'))" for k'
    using spec by (auto simp: ENOMEM_def)
  then show ?thesis
    using mem_entries[OF ok keys] mem_entries[OF conjunct1[OF spec] keys'] hash_keys.eq_refl[OF keys]
    by (auto simp: set_eq_iff)
next
  case (found bs xs e ys)
  then show ?thesis using ins by (auto simp: hashmap_insert_def EEXIST_def)
qed

text \<open>A new context in which the stored keys have the same hash values keeps the invariant.\<close>

lemma hm_ok_context:
  assumes "hm_ok ctx m" "\<forall>e \<in> set (hashmap__for_each_entry m). hash_fn m (entry_key e) ctx' = hash_fn m (entry_key e) ctx"
  shows "hm_ok ctx' m"
proof (cases "buckets m")
  case (Some bs)
  then have "hashmap__for_each_entry m = concat bs" by (rule all_entries[OF assms(1)])
  then show ?thesis using assms Some by (fastforce simp: hm_ok_def in_place_def)
qed (use assms in \<open>simp add: hm_ok_def\<close>)

subsection \<open>One entry for each key\<close>

definition single_keys :: "'c \<Rightarrow> 'c hashmap \<Rightarrow> bool" where
  "single_keys ctx m \<longleftrightarrow> (\<forall>k. length (key_entries ctx m k) \<le> 1)"

definition lookup :: "'c \<Rightarrow> 'c hashmap \<Rightarrow> u64 \<Rightarrow> u64 option" where
  "lookup ctx m k = (case key_entries ctx m k of [] \<Rightarrow> None | e # es \<Rightarrow> Some (entry_value e))"

text \<open>The return values each strategy allows, given whether the key is there.\<close>

definition insert_result :: "hashmap_insert_strategy \<Rightarrow> bool \<Rightarrow> int \<Rightarrow> bool" where
  "insert_result strategy present err \<longleftrightarrow>
     (if present then err = (if strategy = HASHMAP_ADD then - EEXIST else 0)
      else if strategy = HASHMAP_UPDATE then err = - ENOENT
      else err = 0 \<or> err = - ENOMEM)"

lemmas errno_defs = ENOENT_def ENOMEM_def EEXIST_def

lemma hashmap_insert_lookup:
  assumes ok: "hm_ok ctx m" and keys: "keys_ok ctx m" and al: "calloc_sane al" and one: "single_keys ctx m"
    and st: "strategy \<noteq> HASHMAP_APPEND"
  shows "\<exists>err ok ov m'. hashmap_insert al ctx m k v strategy = Some (err, ok, ov, m') \<and>
    hm_ok ctx m' \<and> single_keys ctx m' \<and> same_keys m m' \<and> insert_result strategy (lookup ctx m k \<noteq> None) err \<and>
    (\<forall>k'. lookup ctx m' k' = (if err = 0 \<and> equal_fn m k k' ctx then Some v else lookup ctx m k')) \<and>
    (case key_entries ctx m k of
       [] \<Rightarrow> ok = 0 \<and> ov = 0
     | e # _ \<Rightarrow> ok = entry_key e \<and> ov = entry_value e \<and> equal_fn m (entry_key e) k ctx)"
  using ok
proof (cases rule: find_entry_cases[where k = k])
  case none
  show ?thesis
  proof (cases "strategy = HASHMAP_UPDATE")
    case True
    then show ?thesis
      using none ok one
      by (auto simp: hashmap_insert_def same_keys_def insert_result_def lookup_def errno_defs)
  next
    case False
    from insert_new_spec[OF ok keys al, of k v] obtain err m' where
      m': "insert_new al ctx m k v = Some (err, m')" "hm_ok ctx m'" "same_keys m m'"
      "err = - ENOMEM \<and> (\<forall>k'. key_entries ctx m' k' = regrown m m' (key_entries ctx m k')) \<or>
       err = 0 \<and> (\<forall>k'. key_entries ctx m' k' =
         (if equal_fn m k k' ctx then \<lparr>entry_key = k, entry_value = v\<rparr> # regrown m m' (key_entries ctx m k')
          else regrown m m' (key_entries ctx m k')))"
      by blast
    have "regrown m m' (key_entries ctx m k') = key_entries ctx m k'" for k'
      using one by (simp add: single_keys_def)
    moreover have "key_entries ctx m k' = []" if "equal_fn m k k' ctx" for k'
      using none(2) hash_keys.eq_sym[OF keys that] hash_keys.eq_trans[OF keys] key_entries_all[OF ok keys]
      by (auto simp: filter_empty_conv)
    ultimately show ?thesis
      using m' none st False one
      by (auto simp: hashmap_insert_def insert_result_def lookup_def single_keys_def errno_defs)
  qed
next
  case (found bs xs e ys)
  let ?e = "\<lparr>entry_key = k, entry_value = v\<rparr>"
  let ?m = "set_entry_at m (hash_index ctx m k) (length xs) ?e"
  have m: "hm_ok ctx ?m" "\<And>k'. key_entries ctx ?m k' =
      (if equal_fn m k k' ctx then ?e # tl (key_entries ctx m k') else key_entries ctx m k')"
    using set_found_spec[OF ok keys found(2-5) refl] by blast+
  have nil: "tl (key_entries ctx m k') = []" for k'
    using one by (metis One_nat_def diff_is_0_eq length_0_conv length_tl single_keys_def)
  have "same_keys m ?m" by (simp add: same_keys_def set_entry_at_def)
  moreover have "single_keys ctx ?m" using one m(2) nil by (simp add: single_keys_def)
  ultimately show ?thesis
    using found st m nil ok one
    by (cases strategy) (auto simp: hashmap_insert_def insert_result_def lookup_def errno_defs same_keys_def)
qed

lemma hashmap_delete_lookup:
  assumes ok: "hm_ok ctx m" and keys: "keys_ok ctx m" and one: "single_keys ctx m"
  shows "\<exists>r ok ov m'. hashmap_delete ctx m k = Some (r, ok, ov, m') \<and> hm_ok ctx m' \<and> single_keys ctx m' \<and> same_keys m m' \<and>
    (r \<longleftrightarrow> lookup ctx m k \<noteq> None) \<and>
    (\<forall>k'. lookup ctx m' k' = (if equal_fn m k k' ctx then None else lookup ctx m k'))"
proof -
  have nil: "tl (key_entries ctx m k') = []" for k'
    using one by (metis One_nat_def diff_is_0_eq length_0_conv length_tl single_keys_def)
  have none: "key_entries ctx m k' = []" if "key_entries ctx m k = []" "equal_fn m k k' ctx" for k'
    using that(1) hash_keys.eq_sym[OF keys that(2)] hash_keys.eq_trans[OF keys] key_entries_all[OF ok keys]
    by (auto simp: filter_empty_conv)
  from hashmap_delete_spec[OF ok keys, of k] obtain r ok ov m' where d: "hashmap_delete ctx m k = Some (r, ok, ov, m')"
    "hm_ok ctx m'" "same_keys m m'"
    "case key_entries ctx m k of [] \<Rightarrow> \<not> r \<and> ok = 0 \<and> ov = 0 \<and> m' = m
     | e # es \<Rightarrow> r \<and> ok = entry_key e \<and> ov = entry_value e \<and> sz m' = sz m - 1 \<and>
         (\<forall>k'. key_entries ctx m' k' = (if equal_fn m k k' ctx then tl (key_entries ctx m k') else key_entries ctx m k'))"
    by blast
  show ?thesis
  proof (cases "key_entries ctx m k")
    case Nil
    then have "m' = m" "\<not> r" using d(4) by simp_all
    moreover have "lookup ctx m k' = None" if "equal_fn m k k' ctx" for k'
      using none[OF Nil that] by (simp add: lookup_def)
    ultimately show ?thesis using d(1-3) one Nil by (auto simp: lookup_def)
  next
    case (Cons e es)
    then have "r" "\<forall>k'. key_entries ctx m' k' = (if equal_fn m k k' ctx then [] else key_entries ctx m k')"
      using d(4) nil by simp_all
    then show ?thesis using d(1-3) one Cons by (auto simp: lookup_def single_keys_def)
  qed
qed

subsection \<open>The load\<close>

definition load_ok :: "'c hashmap \<Rightarrow> bool" where
  "load_ok m \<longleftrightarrow> unat (sz m) * 4 div 3 \<le> unat (cap m)"

lemma needs_to_grow_nat:
  assumes "unat (sz m) < 2 ^ 61"
  shows "hashmap_needs_to_grow m \<longleftrightarrow> cap m = 0 \<or> (unat (sz m) + 1) * 4 div 3 > unat (cap m)"
proof -
  have "unat (sz m + 1) = unat (sz m) + 1" using assms by (simp add: unat_word_ariths)
  then have "unat ((sz m + 1) * 4) = (unat (sz m) + 1) * 4"
    using assms by (subst unat_word_ariths(2)) simp
  then have "unat ((sz m + 1) * 4 div 3) = (unat (sz m) + 1) * 4 div 3" by (simp only: unat_div) simp
  then show ?thesis by (simp only: hashmap_needs_to_grow_def word_less_nat_alt)
qed

lemma load_after_grow:
  assumes "hm_ok ctx m" "keys_ok ctx m" "calloc_sane al" "load_ok m" "unat (sz m) < 2 ^ 61"
    and "(if hashmap_needs_to_grow m then hashmap_grow al ctx m else Some (0, m)) = Some (0, n)"
  shows "(unat (sz m) + 1) * 4 div 3 \<le> unat (cap n)"
proof (cases "hashmap_needs_to_grow m")
  case True
  then have "unat (cap n) = (if cap m = 0 then 4 else 2 * unat (cap m))"
    using hashmap_grow_spec[OF assms(1-3)] assms(6) by (auto simp: ENOMEM_def)
  moreover have "cap m = 0 \<longrightarrow> sz m = 0" "cap m \<noteq> 0 \<longrightarrow> 4 \<le> unat (cap m)"
    using assms(1) self_le_power[of 2 "unat (cap_bits m)"] power_increasing[of 2 "unat (cap_bits m)" "2 :: nat"]
    by (auto simp: hm_ok_def split: option.splits)
  ultimately show ?thesis using assms(4) by (cases "cap m = 0") (auto simp: load_ok_def)
next
  case False
  then show ?thesis using assms(5,6) needs_to_grow_nat[OF assms(5)] by auto
qed

lemma insert_new_load:
  assumes "hm_ok ctx m" "keys_ok ctx m" "calloc_sane al" "load_ok m" "unat (sz m) < 2 ^ 61"
    and "insert_new al ctx m k v = Some (err, m')"
  shows "load_ok m'"
proof -
  from grow_if_needed[OF assms(1-3)] obtain e n where
    n: "(if hashmap_needs_to_grow m then hashmap_grow al ctx m else Some (0, m)) = Some (e, n)" "sz n = sz m"
    "e = 0 \<or> e = - ENOMEM"
    by blast
  show ?thesis
  proof (cases "e = 0")
    case True
    have l: "(unat (sz m) + 1) * 4 div 3 \<le> unat (cap n)"
      by (rule load_after_grow[OF assms(1-5)]) (use n True in simp)
    moreover have "unat (sz m + 1) = unat (sz m) + 1" using assms(5) by (simp add: unat_word_ariths)
    moreover have "cap m' = cap n" "sz m' = sz m \<or> sz m' = sz m + 1"
      using assms(6) n True by (auto simp: insert_new_def hashmap_add_entry_def split: if_splits option.splits)
    ultimately show ?thesis by (auto simp: load_ok_def)
  next
    case False
    then have "m' = n" using assms(6) n by (auto simp: insert_new_def split: if_splits)
    moreover have "n = m" using False n hashmap_grow_spec[OF assms(1-3)] by (auto split: if_splits)
    ultimately show ?thesis using assms(4) by simp
  qed
qed

subsection \<open>Refinement of finite maps\<close>

text \<open>
  Sequences of operations on a map whose keys are compared by identity, as the type
  deduplication uses it, against functions from keys to values. The result of deleting is 1
  when the key was there.
\<close>

datatype map_op = Op_insert alloc hashmap_insert_strategy u64 u64 | Op_delete u64

fun map_step :: "'c \<Rightarrow> map_op \<Rightarrow> 'c hashmap \<Rightarrow> (int \<times> 'c hashmap) option" where
  "map_step ctx (Op_insert al strategy k v) m =
     map_option (\<lambda>(err, ok, ov, m'). (err, m')) (hashmap_insert al ctx m k v strategy)"
| "map_step ctx (Op_delete k) m =
     map_option (\<lambda>(r, ok, ov, m'). (of_bool r, m')) (hashmap_delete ctx m k)"

fun map_legal :: "map_op \<Rightarrow> bool" where
  "map_legal (Op_insert al strategy k v) \<longleftrightarrow> calloc_sane al \<and> strategy \<noteq> HASHMAP_APPEND"
| "map_legal (Op_delete k) \<longleftrightarrow> True"

definition identity_map :: "'c \<Rightarrow> 'c hashmap \<Rightarrow> bool" where
  "identity_map ctx m \<longleftrightarrow>
     hm_ok ctx m \<and> single_keys ctx m \<and> hash_fn m = btf_dedup_identity_hash_fn \<and> equal_fn m = btf_dedup_equal_fn"

fun map_spec :: "map_op \<Rightarrow> (u64 \<Rightarrow> u64 option) \<Rightarrow> int \<Rightarrow> (u64 \<Rightarrow> u64 option) \<Rightarrow> bool" where
  "map_spec (Op_insert al strategy k v) f err f' \<longleftrightarrow>
     insert_result strategy (f k \<noteq> None) err \<and> f' = (if err = 0 then f(k \<mapsto> v) else f)"
| "map_spec (Op_delete k) f r f' \<longleftrightarrow> r = of_bool (f k \<noteq> None) \<and> f' = f(k := None)"

lemma identity_map_keys: "identity_map ctx m \<Longrightarrow> keys_ok ctx m"
  using identity_keys.hash_keys_axioms by (simp add: identity_map_def)

interpretation map_refinement: simulation "map_step ctx" map_legal "identity_map ctx" "lookup ctx" map_spec for ctx
proof
  fix m :: "'a hashmap" and opn
  assume m: "identity_map ctx m" and legal: "map_legal opn"
  note keys = identity_map_keys[OF m]
  have ok: "hm_ok ctx m" "single_keys ctx m" and eq: "equal_fn m = btf_dedup_equal_fn"
    using m by (simp_all add: identity_map_def)
  show "\<exists>r m'. map_step ctx opn m = Some (r, m') \<and> identity_map ctx m' \<and> map_spec opn (lookup ctx m) r (lookup ctx m')"
  proof (cases opn)
    case (Op_insert al strategy k v)
    with legal have "calloc_sane al" "strategy \<noteq> HASHMAP_APPEND" by simp_all
    from hashmap_insert_lookup[OF ok(1) keys this(1) ok(2) this(2), of k v] show ?thesis
      using m Op_insert by (fastforce simp: identity_map_def same_keys_def eq btf_dedup_equal_fn_def)
  next
    case (Op_delete k)
    from hashmap_delete_lookup[OF ok(1) keys ok(2), of k] show ?thesis
      using m Op_delete by (fastforce simp: identity_map_def same_keys_def eq btf_dedup_equal_fn_def)
  qed
qed

subsection \<open>The properties\<close>

definition alloc_example :: alloc where
  "alloc_example = \<lparr>calloc_ok = (\<lambda>n. n \<le> 1024), malloc_ok = True\<rparr>"

lemma alloc_example_sane: "calloc_sane alloc_example"
  by (auto simp: calloc_sane_def alloc_example_def word_le_nat_alt)

lemma single_keys_init: "single_keys ctx (hashmap__init h e)"
  by (simp add: single_keys_def hashmap__for_each_key_entry_def hashmap__init_def)

lemma init_fns: "hash_fn (hashmap__init h e) = h" "equal_fn (hashmap__init h e) = e"
  by (simp_all add: hashmap__init_def)

lemma identity_map_init: "identity_map ctx (hashmap__init btf_dedup_identity_hash_fn btf_dedup_equal_fn)"
  by (simp add: identity_map_def hm_ok_init single_keys_init init_fns)

lemma lookup_init: "lookup ctx (hashmap__init h e) = Map.empty"
  by (auto simp: lookup_def hashmap__for_each_key_entry_def hashmap__init_def)



text \<open>
  With any functions for hashing and comparing keys that fit together, an insertion
  into a map that has at most one entry for each key keeps the invariant, returns what its
  strategy says, and afterwards searching finds the new value for exactly the keys equal to
  the inserted one if the insertion succeeded, and the old values otherwise.
\<close>

theorem hashmap_insert_find:
  assumes "hm_ok ctx m" "keys_ok ctx m" "calloc_sane al" "single_keys ctx m" "strategy \<noteq> HASHMAP_APPEND"
  shows "\<exists>err ok ov m'. hashmap_insert al ctx m k v strategy = Some (err, ok, ov, m') \<and>
    hm_ok ctx m' \<and> single_keys ctx m' \<and> insert_result strategy (hashmap_find ctx m k \<noteq> Some None) err \<and>
    (\<forall>k'. hashmap_find ctx m' k' = (if err = 0 \<and> equal_fn m k k' ctx then Some (Some v) else hashmap_find ctx m k')) \<and>
    (\<forall>old. hashmap_find ctx m k = Some (Some old) \<longrightarrow> ov = old \<and> equal_fn m ok k ctx)"
proof -
  from hashmap_insert_lookup[OF assms, of k v] obtain err ok ov m' where
    r: "hashmap_insert al ctx m k v strategy = Some (err, ok, ov, m')" "hm_ok ctx m'" "single_keys ctx m'"
    "insert_result strategy (lookup ctx m k \<noteq> None) err"
    "\<forall>k'. lookup ctx m' k' = (if err = 0 \<and> equal_fn m k k' ctx then Some v else lookup ctx m k')"
    "case key_entries ctx m k of [] \<Rightarrow> ok = 0 \<and> ov = 0
     | e # _ \<Rightarrow> ok = entry_key e \<and> ov = entry_value e \<and> equal_fn m (entry_key e) k ctx"
    by blast
  have f: "hashmap_find ctx n k' = Some (lookup ctx n k')" if "hm_ok ctx n" for n k'
    using hashmap_find_spec[OF that] by (simp add: lookup_def)
  have "ov = old \<and> equal_fn m ok k ctx" if "lookup ctx m k = Some old" for old
    using that r(6) by (auto simp: lookup_def split: list.splits)
  then show ?thesis using r f[OF assms(1)] f[OF r(2)] by (intro exI[of _ err] exI[of _ ok] exI[of _ ov] exI[of _ m']) simp
qed

theorem hashmap_insert_find_witness:
  "\<exists>err ok ov m'. hashmap_insert alloc_example () (hashmap__init btf_dedup_collision_hash_fn btf_dedup_equal_fn) 5 9 HASHMAP_SET =
      Some (err, ok, ov, m') \<and> hm_ok () m'"
  using hashmap_insert_find[of "()" "hashmap__init btf_dedup_collision_hash_fn btf_dedup_equal_fn" alloc_example HASHMAP_SET 5 9]
    collision_keys.hash_keys_axioms alloc_example_sane
  by (fastforce simp: hm_ok_init single_keys_init init_fns)

text \<open>
  Deleting a key returns whether the key was there, takes exactly its entry away and
  reports its value; the size counts the entries before and after.
\<close>

theorem hashmap_delete_find:
  assumes "hm_ok ctx m" "keys_ok ctx m" "single_keys ctx m"
  shows "\<exists>r ok ov m'. hashmap_delete ctx m k = Some (r, ok, ov, m') \<and> hm_ok ctx m' \<and>
    hashmap_find ctx m k = Some (if r then Some ov else None) \<and>
    hashmap__size m' = hashmap__size m - of_bool r \<and>
    (\<forall>k'. hashmap_find ctx m' k' = (if equal_fn m k k' ctx then Some None else hashmap_find ctx m k'))"
proof -
  from hashmap_delete_spec[OF assms(1,2), of k] obtain r ok ov m' where d: "hashmap_delete ctx m k = Some (r, ok, ov, m')"
    "hm_ok ctx m'" "hashmap__size m' = hashmap__size m - of_bool r" "lookup ctx m k = (if r then Some ov else None)"
    by (cases "key_entries ctx m k") (auto simp: lookup_def hashmap__size_def)
  have f: "hashmap_find ctx n k' = Some (lookup ctx n k')" if "hm_ok ctx n" for n k'
    using hashmap_find_spec[OF that] by (simp add: lookup_def)
  have "\<forall>k'. lookup ctx m' k' = (if equal_fn m k k' ctx then None else lookup ctx m k')"
    using hashmap_delete_lookup[OF assms, of k] d(1) by auto
  then show ?thesis
    using d f[OF assms(1)] f[OF d(2)] by (intro exI[of _ r] exI[of _ ok] exI[of _ ov] exI[of _ m']) simp
qed

theorem hashmap_delete_find_witness:
  "\<exists>r ok ov m'. hashmap_delete () (hashmap__init btf_dedup_identity_hash_fn btf_dedup_equal_fn) 5 = Some (r, ok, ov, m') \<and>
    hm_ok () m' \<and>
    hashmap_find () (hashmap__init btf_dedup_identity_hash_fn btf_dedup_equal_fn) 5 = Some (if r then Some ov else None)"
  using hashmap_delete_find[of "()" "hashmap__init btf_dedup_identity_hash_fn btf_dedup_equal_fn" 5]
    identity_keys.hash_keys_axioms
  by (fastforce simp: hm_ok_init single_keys_init init_fns)

text \<open>
  A map stays at most three quarters full: if the number of entries times 4/3 is within
  the number of buckets, it still is after any insertion, also one that fails.
\<close>

theorem hashmap_insert_keeps_load:
  assumes "hm_ok ctx m" "keys_ok ctx m" "calloc_sane al" "load_ok m" "unat (sz m) < 2 ^ 61"
    and "hashmap_insert al ctx m k v strategy = Some (err, ok, ov, m')"
  shows "load_ok m'"
proof -
  have "load_ok (set_entry_at m h i e)" for h i e using assms(4) by (simp add: load_ok_def set_entry_at_def)
  then show ?thesis
    using assms(4,6) insert_new_load[OF assms(1-5)]
    by (fastforce simp: hashmap_insert_def Let_def split: option.splits if_splits)
qed

theorem hashmap_insert_keeps_load_witness:
  "load_ok (snd (snd (snd (the (hashmap_insert alloc_example ()
     (hashmap__init btf_dedup_identity_hash_fn btf_dedup_equal_fn) 0 9 HASHMAP_SET)))))"
proof (rule hashmap_insert_keeps_load)
  let ?m = "hashmap__init btf_dedup_identity_hash_fn btf_dedup_equal_fn"
  show "hashmap_insert alloc_example () ?m 0 9 HASHMAP_SET =
    Some (fst (the (hashmap_insert alloc_example () ?m 0 9 HASHMAP_SET)),
      fst (snd (the (hashmap_insert alloc_example () ?m 0 9 HASHMAP_SET))),
      fst (snd (snd (the (hashmap_insert alloc_example () ?m 0 9 HASHMAP_SET)))),
      snd (snd (snd (the (hashmap_insert alloc_example () ?m 0 9 HASHMAP_SET)))))"
    by code_simp
qed (use alloc_example_sane identity_keys.hash_keys_axioms in
  \<open>simp_all add: hm_ok_init init_fns load_ok_def, simp_all add: hashmap__init_def\<close>)

text \<open>
  C37: growing a map turns the order of the entries of each key around, so with several
  entries of one key a search finds the newest entry before and the oldest entry after.
\<close>

theorem hashmap_grow_reverses:
  assumes "hm_ok ctx m" "keys_ok ctx m" "calloc_sane al" "hashmap_grow al ctx m = Some (0, m')"
  shows "hashmap__for_each_key_entry ctx m' k = rev (hashmap__for_each_key_entry ctx m k) \<and>
    hashmap_find ctx m' k =
      Some (if hashmap__for_each_key_entry ctx m k = [] then None
            else Some (entry_value (last (hashmap__for_each_key_entry ctx m k))))"
proof -
  have m': "hm_ok ctx m'" "key_entries ctx m' k = rev (key_entries ctx m k)"
    using hashmap_grow_spec[OF assms(1-3)] assms(4) by (auto simp: ENOMEM_def)
  then show ?thesis
    using hashmap_find_spec[OF m'(1), of k] by (auto simp: last_rev hd_rev neq_Nil_conv split: list.splits)
qed

definition appended_example :: "unit hashmap" where
  "appended_example =
     \<lparr>hash_fn = btf_dedup_identity_hash_fn, equal_fn = btf_dedup_equal_fn,
      buckets = Some [[\<lparr>entry_key = 0, entry_value = 2\<rparr>, \<lparr>entry_key = 0, entry_value = 1\<rparr>], [], [], []],
      cap = 4, cap_bits = 2, sz = 2\<rparr>"

theorem hashmap_grow_reverses_witness:
  "hashmap_find () appended_example 0 = Some (Some 2) \<and>
   hashmap_find () (snd (the (hashmap_grow alloc_example () appended_example))) 0 = Some (Some 1)"
proof
  have ok: "hm_ok () appended_example"
    by (auto simp: hm_ok_def appended_example_def in_place_def btf_dedup_identity_hash_fn_def hash_bits_def nth_Cons'
        split: if_splits)
  have keys: "keys_ok () appended_example"
    using identity_keys.hash_keys_axioms by (simp add: appended_example_def)
  show "hashmap_find () appended_example 0 = Some (Some 2)" by code_simp
  have "hashmap_grow alloc_example () appended_example = Some (0, snd (the (hashmap_grow alloc_example () appended_example)))"
    by code_simp
  from hashmap_grow_reverses[OF ok keys alloc_example_sane this, of 0]
  show "hashmap_find () (snd (the (hashmap_grow alloc_example () appended_example))) 0 = Some (Some 1)"
    by (simp add: hashmap__for_each_key_entry_def appended_example_def hash_index_def hash_bits_def
        btf_dedup_identity_hash_fn_def btf_dedup_equal_fn_def)
qed

end
