(* ===== verification/Strset.thy ===== *)
theory Strset
  imports Hashmap_Correct
begin

text \<open>
  The set of strings of \<^verbatim>\<open>tools/lib/bpf/strset.c\<close>, with the growable arrays of
  \<^verbatim>\<open>tools/lib/bpf/btf.c\<close> it keeps its data in.

  The set stores all strings behind one another, each with its terminating zero byte, and a
  hash map from offsets to offsets whose keys stand for the strings at the offsets. The
  context of the hash map is the string data. Memory is a list of bytes; \<open>realloc\<close> is an
  argument that returns the new memory or \<open>None\<close> when it fails. A write outside the memory
  makes the result \<open>None\<close>.
\<close>

subsection \<open>Growable arrays\<close>

definition write_bytes :: "u8 list \<Rightarrow> nat \<Rightarrow> u8 list \<Rightarrow> u8 list option" where
  "write_bytes d off bs =
     (if off + length bs \<le> length d then Some (take off d @ bs @ drop (off + length bs) d) else None)"

definition libbpf_reallocarray ::
  "(u8 list \<Rightarrow> nat \<Rightarrow> u8 list option) \<Rightarrow> u8 list \<Rightarrow> u64 \<Rightarrow> u64 \<Rightarrow> u8 list option" where
  "libbpf_reallocarray realloc d nmemb elem_size =
     (if unat nmemb * unat elem_size \<ge> 2 ^ 64 then None else realloc d (unat nmemb * unat elem_size))"

text \<open>The new memory, the new capacity and the offset of the requested elements, or \<open>NULL\<close>.\<close>

definition new_count :: "u64 \<Rightarrow> u64 \<Rightarrow> u64 \<Rightarrow> u64" where
  "new_count cap_cnt max_cnt need =
     (let n1 = cap_cnt + cap_cnt div 4;
          n2 = (if n1 < 16 then 16 else n1);
          n3 = (if n2 > max_cnt then max_cnt else n2)
      in if n3 < need then need else n3)"

definition libbpf_add_mem ::
  "(u8 list \<Rightarrow> nat \<Rightarrow> u8 list option) \<Rightarrow> u8 list \<Rightarrow> u64 \<Rightarrow> u64 \<Rightarrow> u64 \<Rightarrow> u64 \<Rightarrow> u64 \<Rightarrow>
     (u8 list \<times> u64 \<times> u64) option option" where
  "libbpf_add_mem realloc d cap_cnt elem_sz cur_cnt max_cnt add_cnt =
     (if cur_cnt + add_cnt \<le> cap_cnt then Some (Some (d, cap_cnt, cur_cnt * elem_sz))
      else if cur_cnt + add_cnt > max_cnt then Some None
      else
        let new_cnt = new_count cap_cnt max_cnt (cur_cnt + add_cnt) in
        case libbpf_reallocarray realloc d new_cnt elem_sz of
          None \<Rightarrow> Some None
        | Some new_data \<Rightarrow>
            (case write_bytes new_data (unat (cap_cnt * elem_sz)) (replicate (unat ((new_cnt - cap_cnt) * elem_sz)) 0) of
               None \<Rightarrow> None
             | Some new_data' \<Rightarrow> Some (Some (new_data', new_cnt, cur_cnt * elem_sz))))"

definition libbpf_ensure_mem ::
  "(u8 list \<Rightarrow> nat \<Rightarrow> u8 list option) \<Rightarrow> u8 list \<Rightarrow> u64 \<Rightarrow> u64 \<Rightarrow> u64 \<Rightarrow> (int \<times> u8 list \<times> u64) option" where
  "libbpf_ensure_mem realloc d cap_cnt elem_sz need_cnt =
     (if need_cnt \<le> cap_cnt then Some (0, d, cap_cnt)
      else
        (case libbpf_add_mem realloc d cap_cnt elem_sz cap_cnt (- 1) (need_cnt - cap_cnt) of
           None \<Rightarrow> None
         | Some None \<Rightarrow> Some (- ENOMEM, d, cap_cnt)
         | Some (Some (d', cap', p)) \<Rightarrow> Some (0, d', cap')))"

subsection \<open>Keys\<close>

definition str_at :: "u8 list \<Rightarrow> u64 \<Rightarrow> u8 list" where
  "str_at d off = takeWhile (\<lambda>c. c \<noteq> 0) (drop (unat off) d)"

definition strset_hash_fn :: "u64 \<Rightarrow> u8 list \<Rightarrow> u64" where
  "strset_hash_fn k d = str_hash (str_at d k)"

definition strset_equal_fn :: "u64 \<Rightarrow> u64 \<Rightarrow> u8 list \<Rightarrow> bool" where
  "strset_equal_fn k1 k2 d \<longleftrightarrow> str_at d k1 = str_at d k2"

subsection \<open>The set\<close>

record strset =
  strs_data :: "u8 list"
  strs_data_len :: u64
  strs_data_cap :: u64
  strs_data_max_len :: u64
  strs_hash :: "u8 list hashmap"

definition strset__data_size :: "strset \<Rightarrow> u64" where
  "strset__data_size ss = strs_data_len ss"

definition strset__data :: "strset \<Rightarrow> u8 list" where
  "strset__data ss = strs_data ss"

text \<open>The loop over the strings of the initial data; reading past the data gives \<open>None\<close>.\<close>

function add_init_strs :: "(nat \<Rightarrow> alloc) \<Rightarrow> u8 list \<Rightarrow> nat \<Rightarrow> u8 list hashmap \<Rightarrow> (int \<times> u8 list hashmap) option" where
  "add_init_strs al d off m =
     (if off < length d then
        if 0 \<notin> set (drop off d) then None
        else
          (case hashmap_insert (al off) d m (of_nat off) (of_nat off) HASHMAP_ADD of
             None \<Rightarrow> None
           | Some (err, ok, ov, m') \<Rightarrow>
             if err \<noteq> 0 \<and> err \<noteq> - EEXIST then Some (err, m')
             else add_init_strs al d (off + length (takeWhile (\<lambda>c. c \<noteq> 0) (drop off d)) + 1) m')
      else Some (0, m))"
  by pat_completeness auto
termination add_init_strs
  by (relation "measure (\<lambda>(al, d, off, m). length d - off)") auto

declare add_init_strs.simps [simp del]

text \<open>
  Whether the allocations of the set, of the hash map and of the data succeed are the first
  arguments.
\<close>

definition strset__new ::
  "bool \<Rightarrow> bool \<Rightarrow> bool \<Rightarrow> (nat \<Rightarrow> alloc) \<Rightarrow> u64 \<Rightarrow> u8 list option \<Rightarrow> (int + strset) option" where
  "strset__new set_ok hash_ok data_ok al max_data_sz init_data =
     (if \<not> set_ok then Some (Inl (- ENOMEM))
      else
        (case hashmap__new hash_ok strset_hash_fn strset_equal_fn of
           Inl err \<Rightarrow> Some (Inl (- ENOMEM))
         | Inr hash \<Rightarrow>
             (case init_data of
                None \<Rightarrow>
                  Some (Inr \<lparr>strs_data = [], strs_data_len = 0, strs_data_cap = 0,
                             strs_data_max_len = max_data_sz, strs_hash = hash\<rparr>)
              | Some d \<Rightarrow>
                  if \<not> data_ok then Some (Inl (- ENOMEM))
                  else
                    (case add_init_strs al d 0 hash of
                       None \<Rightarrow> None
                     | Some (err, hash') \<Rightarrow>
                         if err \<noteq> 0 then Some (Inl err)
                         else Some (Inr \<lparr>strs_data = d, strs_data_len = of_nat (length d),
                                         strs_data_cap = of_nat (length d),
                                         strs_data_max_len = max_data_sz, strs_hash = hash'\<rparr>)))))"

definition strset_add_str_mem ::
  "(u8 list \<Rightarrow> nat \<Rightarrow> u8 list option) \<Rightarrow> strset \<Rightarrow> u64 \<Rightarrow> (strset \<times> u64) option option" where
  "strset_add_str_mem realloc ss add_sz =
     map_option (map_option (\<lambda>(d, c, p). (ss\<lparr>strs_data := d, strs_data_cap := c\<rparr>, p)))
       (libbpf_add_mem realloc (strs_data ss) (strs_data_cap ss) 1 (strs_data_len ss)
         (strs_data_max_len ss) add_sz)"

text \<open>
  The string is first copied behind the data; \<open>None\<close> inside stands for the early return of
  \<open>-ENOMEM\<close>.
\<close>

definition append_str ::
  "(u8 list \<Rightarrow> nat \<Rightarrow> u8 list option) \<Rightarrow> strset \<Rightarrow> u8 list \<Rightarrow> strset option option" where
  "append_str realloc ss s =
     (case strset_add_str_mem realloc ss (of_nat (length s + 1)) of
        None \<Rightarrow> None
      | Some None \<Rightarrow> Some None
      | Some (Some (ss', p)) \<Rightarrow>
          map_option (\<lambda>d. Some (ss'\<lparr>strs_data := d\<rparr>)) (write_bytes (strs_data ss') (unat p) (s @ [0])))"

text \<open>An offset is returned as an \<open>int\<close>.\<close>

definition int_of :: "u64 \<Rightarrow> int" where
  "int_of off = sint (ucast off :: 32 word)"

definition strset__find_str ::
  "(u8 list \<Rightarrow> nat \<Rightarrow> u8 list option) \<Rightarrow> strset \<Rightarrow> u8 list \<Rightarrow> (int \<times> strset) option" where
  "strset__find_str realloc ss s =
     (case append_str realloc ss s of
        None \<Rightarrow> None
      | Some None \<Rightarrow> Some (- ENOMEM, ss)
      | Some (Some ss') \<Rightarrow>
          (case hashmap_find (strs_data ss') (strs_hash ss') (strs_data_len ss') of
             None \<Rightarrow> None
           | Some (Some old_off) \<Rightarrow> Some (int_of old_off, ss')
           | Some None \<Rightarrow> Some (- ENOENT, ss')))"

definition strset__add_str ::
  "(u8 list \<Rightarrow> nat \<Rightarrow> u8 list option) \<Rightarrow> alloc \<Rightarrow> strset \<Rightarrow> u8 list \<Rightarrow> (int \<times> strset) option" where
  "strset__add_str realloc al ss s =
     (case append_str realloc ss s of
        None \<Rightarrow> None
      | Some None \<Rightarrow> Some (- ENOMEM, ss)
      | Some (Some ss') \<Rightarrow>
          let new_off = strs_data_len ss' in
          (case hashmap_insert al (strs_data ss') (strs_hash ss') new_off new_off HASHMAP_ADD of
             None \<Rightarrow> None
           | Some (err, old_off, ov, m') \<Rightarrow>
               let ss'' = ss'\<lparr>strs_hash := m'\<rparr> in
               if err = - EEXIST then Some (int_of old_off, ss'')
               else if err \<noteq> 0 then Some (err, ss'')
               else Some (int_of new_off, ss''\<lparr>strs_data_len := new_off + of_nat (length s + 1)\<rparr>)))"

end
