(* ===== verification/Strset_Correct.thy ===== *)
theory Strset_Correct
  imports Strset
begin

text \<open>
  The set of strings is a finite map from strings to the offsets where they are stored: the
  growable array keeps its content, the keys of the hash map keep their meaning although the
  data they refer to moves and grows, and finding and adding strings refine the operations on
  the finite map.
\<close>

subsection \<open>Growable arrays\<close>

text \<open>What the C library promises of \<open>realloc\<close>.\<close>

definition realloc_contract :: "(u8 list \<Rightarrow> nat \<Rightarrow> u8 list option) \<Rightarrow> bool" where
  "realloc_contract realloc \<longleftrightarrow>
     (\<forall>d n d'. realloc d n = Some d' \<longrightarrow> length d' = n \<and> take (min n (length d)) d' = take (min n (length d)) d)"

lemma unat_mult_nowrap:
  fixes a b :: u64
  shows "unat a * unat b < 2 ^ 64 \<Longrightarrow> unat (a * b) = unat a * unat b"
  by (simp add: unat_word_ariths)

lemma new_count_bounds:
  assumes "need \<le> max_cnt"
  shows "need \<le> new_count cap_cnt max_cnt need" "new_count cap_cnt max_cnt need \<le> max_cnt"
  using assms by (auto simp: new_count_def Let_def)

lemma libbpf_add_mem_spec:
  assumes rc: "realloc_contract realloc" and len: "length d = unat cap_cnt * unat elem_sz" "length d < 2 ^ 64"
    and cur: "cur_cnt \<le> cap_cnt" and sum: "unat cur_cnt + unat add_cnt < 2 ^ 64"
  shows "\<exists>r. libbpf_add_mem realloc d cap_cnt elem_sz cur_cnt max_cnt add_cnt = Some r \<and>
    (case r of None \<Rightarrow> \<not> cur_cnt + add_cnt \<le> cap_cnt
     | Some (d', cap', p) \<Rightarrow>
         (\<exists>n. d' = d @ replicate n 0) \<and> length d' = unat cap' * unat elem_sz \<and>
         unat cur_cnt + unat add_cnt \<le> unat cap' \<and> (cap' = cap_cnt \<or> cap_cnt < cap' \<and> cap' \<le> max_cnt) \<and>
         unat p = unat cur_cnt * unat elem_sz)"
proof -
  let ?need = "cur_cnt + add_cnt" and ?n = "new_count cap_cnt max_cnt (cur_cnt + add_cnt)"
  have need: "unat ?need = unat cur_cnt + unat add_cnt" using sum by (simp add: unat_word_ariths)
  have "unat cur_cnt * unat elem_sz \<le> unat cap_cnt * unat elem_sz" using cur by (simp add: word_le_nat_alt)
  then have p: "unat (cur_cnt * elem_sz) = unat cur_cnt * unat elem_sz" using len by (intro unat_mult_nowrap) linarith
  consider (fits) "?need \<le> cap_cnt" | (limit) "\<not> ?need \<le> cap_cnt" "?need > max_cnt"
    | (grow) "\<not> ?need \<le> cap_cnt" "?need \<le> max_cnt" by fastforce
  then show ?thesis
  proof cases
    case fits
    then show ?thesis using p len need by (auto simp: libbpf_add_mem_def word_le_nat_alt intro: exI[of _ 0])
  next
    case limit
    then show ?thesis by (simp add: libbpf_add_mem_def)
  next
    case grow
    note n = new_count_bounds[OF grow(2), of cap_cnt]
    have less: "cap_cnt < ?n" using n(1) grow(1) by auto
    show ?thesis
    proof (cases "libbpf_reallocarray realloc d ?n elem_sz")
      case None
      then show ?thesis using grow by (simp add: libbpf_add_mem_def Let_def)
    next
      case (Some nd)
      then have prod: "unat ?n * unat elem_sz < 2 ^ 64" and "realloc d (unat ?n * unat elem_sz) = Some nd"
        by (auto simp: libbpf_reallocarray_def split: if_splits)
      then have nd: "length nd = unat ?n * unat elem_sz"
        "take (min (unat ?n * unat elem_sz) (length d)) nd = take (min (unat ?n * unat elem_sz) (length d)) d"
        using rc by (simp_all add: realloc_contract_def)
      have le: "length d \<le> unat ?n * unat elem_sz"
        using less len(1) by (simp add: word_less_nat_alt)
      have c: "unat (cap_cnt * elem_sz) = length d" using len by (simp add: unat_mult_nowrap)
      have "unat (?n - cap_cnt) + unat cap_cnt = unat ?n" using unat_add_sub_cancel[OF less_imp_le[OF less]] by simp
      then have rest: "unat (?n - cap_cnt) * unat elem_sz + length d = unat ?n * unat elem_sz"
        unfolding len(1) by (metis add_mult_distrib)
      then have m: "unat ((?n - cap_cnt) * elem_sz) = unat (?n - cap_cnt) * unat elem_sz"
        using prod by (intro unat_mult_nowrap) linarith
      have "write_bytes nd (unat (cap_cnt * elem_sz)) (replicate (unat ((?n - cap_cnt) * elem_sz)) 0) =
          Some (d @ replicate (unat ((?n - cap_cnt) * elem_sz)) 0)"
        using nd le c rest m by (simp add: write_bytes_def)
      moreover have "length (d @ replicate (unat ((?n - cap_cnt) * elem_sz)) (0 :: u8)) = unat ?n * unat elem_sz"
        using rest m by simp
      ultimately show ?thesis
        using grow Some p n less need by (auto simp: libbpf_add_mem_def Let_def word_le_nat_alt word_less_nat_alt)
    qed
  qed
qed

subsection \<open>Strings in memory\<close>

interpretation strset_keys: hash_keys "\<lambda>k. strset_hash_fn k d" "\<lambda>a b. strset_equal_fn a b d" for d
  by unfold_locales (simp_all add: strset_hash_fn_def strset_equal_fn_def)

text \<open>The string at an offset ends, with its zero byte, before a bound.\<close>

definition stored :: "u8 list \<Rightarrow> nat \<Rightarrow> u64 \<Rightarrow> bool" where
  "stored d n off \<longleftrightarrow> unat off + length (str_at d off) < n"

lemma takeWhile_take: "takeWhile P (take n xs) = take n (takeWhile P xs)"
  by (induction xs arbitrary: n) (auto simp: take_Cons')

lemma str_at_take: "str_at (take n d) off = take (n - unat off) (str_at d off)"
  by (simp add: str_at_def drop_take takeWhile_take)

lemma str_at_stable:
  assumes "stored d n off" "take n d' = take n d"
  shows "str_at d' off = str_at d off"
proof -
  have "take (n - unat off) (str_at d' off) = take (n - unat off) (str_at d off)"
    using str_at_take[of n d' off] str_at_take[of n d off] assms(2) by simp
  moreover have "length (str_at d off) < n - unat off" using assms(1) by (simp add: stored_def)
  ultimately have eq: "take (n - unat off) (str_at d' off) = str_at d off" and l: "length (str_at d off) < n - unat off"
    by simp_all
  from arg_cong[OF eq, of length] l have "length (str_at d' off) < n - unat off" by (auto simp: min_def split: if_splits)
  then show ?thesis using eq by simp
qed

lemma str_at_written:
  assumes "0 \<notin> set s" and "unat off \<le> length d"
  shows "str_at (take (unat off) d @ s @ 0 # rest) off = s"
proof -
  have "takeWhile (\<lambda>c. c \<noteq> 0) (s @ 0 # rest) = s"
    using assms(1) by (subst takeWhile_append2) auto
  then show ?thesis using assms(2) by (simp add: str_at_def)
qed

subsection \<open>The invariant\<close>

definition strset_ok :: "strset \<Rightarrow> bool" where
  "strset_ok ss \<longleftrightarrow>
     length (strs_data ss) = unat (strs_data_cap ss) \<and> strs_data_len ss \<le> strs_data_cap ss \<and>
     strs_data_cap ss \<le> strs_data_max_len ss \<and> unat (strs_data_max_len ss) < 2 ^ 31 \<and>
     hash_fn (strs_hash ss) = strset_hash_fn \<and> equal_fn (strs_hash ss) = strset_equal_fn \<and>
     hm_ok (strs_data ss) (strs_hash ss) \<and> single_keys (strs_data ss) (strs_hash ss) \<and>
     (\<forall>e \<in> set (hashmap__for_each_entry (strs_hash ss)).
        entry_value e = entry_key e \<and> stored (strs_data ss) (unat (strs_data_len ss)) (entry_key e))"

definition strings :: "strset \<Rightarrow> u8 list \<Rightarrow> u64 option" where
  "strings ss = map_of (map (\<lambda>e. (str_at (strs_data ss) (entry_key e), entry_value e))
     (hashmap__for_each_entry (strs_hash ss)))"

text \<open>Data that agrees below the length serves the same hash map.\<close>

lemma strset_ok_data:
  assumes ok: "strset_ok ss" and d: "take (unat (strs_data_len ss)) d = take (unat (strs_data_len ss)) (strs_data ss)"
    and c: "length d = unat c" "strs_data_len ss \<le> c" "c \<le> strs_data_max_len ss"
  shows "strset_ok (ss\<lparr>strs_data := d, strs_data_cap := c\<rparr>)"
    and "strings (ss\<lparr>strs_data := d, strs_data_cap := c\<rparr>) = strings ss"
proof -
  let ?m = "strs_hash ss" and ?d0 = "strs_data ss"
  let ?es = "hashmap__for_each_entry ?m"
  have fns: "hash_fn ?m = strset_hash_fn" "equal_fn ?m = strset_equal_fn" using ok by (simp_all add: strset_ok_def)
  have str: "str_at d (entry_key e) = str_at ?d0 (entry_key e)" if "e \<in> set ?es" for e
    using str_at_stable[OF _ d] that ok by (simp add: strset_ok_def)
  have hm0: "hm_ok ?d0 ?m" using ok by (simp add: strset_ok_def)
  have hm: "hm_ok d ?m" by (rule hm_ok_context[OF hm0]) (simp add: fns strset_hash_fn_def str)
  have keys: "keys_ok d' ?m" for d' unfolding fns by (rule strset_keys.hash_keys_axioms)
  have ke: "key_entries d' ?m k = filter (\<lambda>e. str_at d' (entry_key e) = str_at d' k) ?es" if "hm_ok d' ?m" for d' k
    using key_entries_all[OF that keys] by (simp add: fns strset_equal_fn_def)
  have "single_keys d ?m"
    unfolding single_keys_def
  proof
    fix k
    show "length (key_entries d ?m k) \<le> 1"
    proof (cases "key_entries d ?m k")
      case (Cons e es)
      then have e: "e \<in> set ?es" "str_at d (entry_key e) = str_at d k"
        using arg_cong[OF ke[OF hm, of k], of set] by auto
      have "key_entries d ?m k = filter (\<lambda>x. str_at d (entry_key x) = str_at d (entry_key e)) ?es"
        using ke[OF hm, of k] e(2) by simp
      also have "\<dots> = filter (\<lambda>x. str_at ?d0 (entry_key x) = str_at ?d0 (entry_key e)) ?es"
        using str e(1) by (intro filter_cong) simp_all
      also have "\<dots> = key_entries ?d0 ?m (entry_key e)" using ke[OF hm0] by simp
      finally show ?thesis using ok by (simp add: strset_ok_def single_keys_def)
    qed simp
  qed
  then show "strset_ok (ss\<lparr>strs_data := d, strs_data_cap := c\<rparr>)"
    using ok c fns hm str by (auto simp: strset_ok_def stored_def)
  show "strings (ss\<lparr>strs_data := d, strs_data_cap := c\<rparr>) = strings ss"
    using str by (auto simp: strings_def intro!: arg_cong[where f = map_of])
qed

lemma strings_Some:
  assumes "strset_ok ss"
  shows "strings ss s = Some off \<longleftrightarrow>
    (\<exists>e \<in> set (hashmap__for_each_entry (strs_hash ss)). str_at (strs_data ss) (entry_key e) = s \<and> entry_value e = off)"
proof
  show "strings ss s = Some off \<Longrightarrow>
    \<exists>e \<in> set (hashmap__for_each_entry (strs_hash ss)). str_at (strs_data ss) (entry_key e) = s \<and> entry_value e = off"
    unfolding strings_def by (drule map_of_SomeD) auto
next
  let ?es = "hashmap__for_each_entry (strs_hash ss)"
  assume "\<exists>e \<in> set ?es. str_at (strs_data ss) (entry_key e) = s \<and> entry_value e = off"
  then obtain e where e: "e \<in> set ?es" "str_at (strs_data ss) (entry_key e) = s" "entry_value e = off" by blast
  have fns: "equal_fn (strs_hash ss) = strset_equal_fn" "hash_fn (strs_hash ss) = strset_hash_fn"
    using assms by (simp_all add: strset_ok_def)
  have keys: "keys_ok (strs_data ss) (strs_hash ss)" unfolding fns by (rule strset_keys.hash_keys_axioms)
  let ?F = "filter (\<lambda>x. str_at (strs_data ss) (entry_key x) = s) ?es"
  have "length ?F \<le> 1"
    using assms key_entries_all[OF _ keys, of "entry_key e"] e(2)
    by (simp add: strset_ok_def fns strset_equal_fn_def single_keys_def) metis
  moreover have "strings ss s \<noteq> None"
    using e(1,2) by (auto simp: strings_def map_of_eq_None_iff image_iff)
  then obtain off' where off': "strings ss s = Some off'" by blast
  then obtain e' where e': "e' \<in> set ?es" "str_at (strs_data ss) (entry_key e') = s" "entry_value e' = off'"
    unfolding strings_def by (drule_tac map_of_SomeD) auto
  moreover have "e \<in> set ?F" "e' \<in> set ?F" using e e' by simp_all
  ultimately have "e = e'" by (cases ?F) auto
  then show "strings ss s = Some off" using off' e' e(3) by simp
qed

lemma map_of_filter:
  "map_of (map (\<lambda>e. (f e, g e)) es) s = (case filter (\<lambda>e. f e = s) es of [] \<Rightarrow> None | e # _ \<Rightarrow> Some (g e))"
  by (induction es) auto

lemma strset_keys_ok: "strset_ok ss \<Longrightarrow> keys_ok d (strs_hash ss)"
  using strset_keys.hash_keys_axioms by (simp add: strset_ok_def)

lemma lookup_strings:
  assumes "strset_ok ss"
  shows "lookup (strs_data ss) (strs_hash ss) k = strings ss (str_at (strs_data ss) k)"
  using key_entries_all[OF _ strset_keys_ok[OF assms], of "strs_data ss" k] assms
  by (simp add: lookup_def strings_def map_of_filter strset_ok_def strset_equal_fn_def)

lemma strings_at:
  assumes "strset_ok ss" "strings ss s = Some off"
  shows "str_at (strs_data ss) off = s" "unat off < 2 ^ 31" "unat off + length s < unat (strs_data_len ss)"
proof -
  obtain e where e: "e \<in> set (hashmap__for_each_entry (strs_hash ss))" "str_at (strs_data ss) (entry_key e) = s" "entry_value e = off"
    using assms strings_Some[OF assms(1)] by auto
  then have k: "entry_key e = off" "stored (strs_data ss) (unat (strs_data_len ss)) off"
    using assms(1) by (auto simp: strset_ok_def)
  then show "str_at (strs_data ss) off = s" "unat off + length s < unat (strs_data_len ss)"
    using e by (auto simp: stored_def)
  then show "unat off < 2 ^ 31" using assms(1) by (simp add: strset_ok_def word_le_nat_alt)
qed

lemma int_of_small: "unat off < 2 ^ 31 \<Longrightarrow> int_of off = uint off"
proof -
  assume "unat off < 2 ^ 31"
  then have "int (unat off) < 2 ^ 31" by (simp only: of_nat_less_numeral_power_cancel_iff)
  then have u: "uint off < 2 ^ 31" by (simp only: uint_nat)
  have "int_of off = signed_take_bit (LENGTH(32) - Suc 0) (uint off)"
    unfolding int_of_def by (rule signed_ucast_eq)
  also have "\<dots> = uint off"
    using u by (intro signed_take_bit_int_eq_self) (simp_all add: order_trans[of _ 0])
  finally show ?thesis .
qed

lemma append_str_spec:
  assumes ok: "strset_ok ss" and rc: "realloc_contract realloc" and s: "0 \<notin> set s" "length s < 2 ^ 31"
  shows "\<exists>r. append_str realloc ss s = Some r \<and>
    (case r of None \<Rightarrow> True
     | Some ss' \<Rightarrow> strset_ok ss' \<and> strings ss' = strings ss \<and> strs_data_len ss' = strs_data_len ss \<and>
         str_at (strs_data ss') (strs_data_len ss) = s \<and>
         unat (strs_data_len ss) + length s + 1 \<le> unat (strs_data_cap ss'))"
proof -
  let ?d = "strs_data ss" and ?c = "strs_data_cap ss" and ?l = "strs_data_len ss" and ?m = "strs_data_max_len ss"
  have cap: "length ?d = unat ?c" "?l \<le> ?c" "?c \<le> ?m" "unat ?m < 2 ^ 31" using ok by (simp_all add: strset_ok_def)
  then have small: "unat ?c < 2 ^ 31" "unat ?l < 2 ^ 31" by (simp_all add: word_le_nat_alt)
  have add: "unat (of_nat (length s + 1) :: u64) = length s + 1" using s(2) by (simp only: unat_of_nat) simp
  have "length ?d = unat ?c * unat (1 :: u64)" "length ?d < 2 ^ 64" "unat ?l + unat (of_nat (length s + 1) :: u64) < 2 ^ 64"
    using cap(1) small s(2) add by simp_all
  from libbpf_add_mem_spec[OF rc this(1,2) cap(2) this(3), of ?m] obtain r where
    r: "libbpf_add_mem realloc ?d ?c 1 ?l ?m (of_nat (length s + 1)) = Some r" and
    r': "case r of None \<Rightarrow> True | Some (d', cap', p) \<Rightarrow> (\<exists>n. d' = ?d @ replicate n 0) \<and> length d' = unat cap' \<and>
      unat ?l + length s + 1 \<le> unat cap' \<and> (cap' = ?c \<or> ?c < cap' \<and> cap' \<le> ?m) \<and> unat p = unat ?l"
    unfolding add by (cases "libbpf_add_mem realloc ?d ?c 1 ?l ?m (of_nat (length s + 1))") (auto split: option.splits)
  show ?thesis
  proof (cases r)
    case None
    then show ?thesis using r by (simp add: append_str_def strset_add_str_mem_def)
  next
    case (Some t)
    obtain d' c' p where t: "t = (d', c', p)" by (cases t) auto
    with r' Some obtain n where d': "d' = ?d @ replicate n 0" "length d' = unat c'"
      "unat ?l + length s + 1 \<le> unat c'" "c' = ?c \<or> ?c < c' \<and> c' \<le> ?m" "unat p = unat ?l" by auto
    define nd where "nd = take (unat ?l) d' @ s @ 0 # drop (unat ?l + length s + 1) d'"
    have w: "write_bytes d' (unat p) (s @ [0]) = Some nd"
      using d'(2,3,5) by (simp add: write_bytes_def nd_def)
    have l: "length nd = unat c'" using d'(2,3) by (simp add: nd_def)
    have "unat ?l \<le> length ?d" using cap by (simp add: word_le_nat_alt)
    then have tk: "take (unat ?l) nd = take (unat ?l) ?d" using d'(1,2,3) by (simp add: nd_def)
    have le: "?l \<le> c'" "c' \<le> ?m" using d'(4) cap by auto
    have "append_str realloc ss s = Some (Some (ss\<lparr>strs_data := nd, strs_data_cap := c'\<rparr>))"
      using r Some t w by (simp add: append_str_def strset_add_str_mem_def)
    moreover have "str_at nd ?l = s"
      unfolding nd_def using d'(2,3) by (intro str_at_written[OF s(1)]) simp
    ultimately show ?thesis using strset_ok_data[OF ok tk l le] d'(3) by simp
  qed
qed

subsection \<open>Finding and adding strings\<close>

lemma hashmap_find_strings:
  assumes "strset_ok ss"
  shows "hashmap_find (strs_data ss) (strs_hash ss) k = Some (strings ss (str_at (strs_data ss) k))"
  using hashmap_find_spec[of "strs_data ss" "strs_hash ss" k] lookup_strings[OF assms, of k] assms
  by (simp add: lookup_def strset_ok_def)

lemma strset_find_spec:
  assumes "strset_ok ss" "realloc_contract realloc" "0 \<notin> set s" "length s < 2 ^ 31"
  shows "\<exists>r ss'. strset__find_str realloc ss s = Some (r, ss') \<and> strset_ok ss' \<and> strings ss' = strings ss \<and>
    (r = - ENOMEM \<or> r = (case strings ss s of Some off \<Rightarrow> uint off | None \<Rightarrow> - ENOENT))"
proof -
  from append_str_spec[OF assms] obtain r where r: "append_str realloc ss s = Some r" and
    r': "case r of None \<Rightarrow> True | Some ss' \<Rightarrow> strset_ok ss' \<and> strings ss' = strings ss \<and>
      strs_data_len ss' = strs_data_len ss \<and> str_at (strs_data ss') (strs_data_len ss) = s"
    by (auto split: option.splits)
  show ?thesis
  proof (cases r)
    case None
    then show ?thesis using r assms(1) by (simp add: strset__find_str_def)
  next
    case (Some ss')
    then have ss': "strset_ok ss'" "strings ss' = strings ss" "strs_data_len ss' = strs_data_len ss"
      "str_at (strs_data ss') (strs_data_len ss) = s" using r' by simp_all
    have "int_of off = uint off" if "strings ss s = Some off" for off
      using strings_at(2)[OF ss'(1), of s off] that ss'(2) by (intro int_of_small) simp
    then show ?thesis
      using r Some ss' hashmap_find_strings[OF ss'(1), of "strs_data_len ss"]
      by (simp add: strset__find_str_def split: option.splits)
  qed
qed

text \<open>Replacing the hash map and extending the data length.\<close>

lemma strset_ok_hash:
  assumes "strset_ok ss" and "hm_ok (strs_data ss) m" "single_keys (strs_data ss) m" "same_keys (strs_hash ss) m"
    and "l \<le> strs_data_cap ss"
    and "\<forall>e \<in> set (hashmap__for_each_entry m). entry_value e = entry_key e \<and> stored (strs_data ss) (unat l) (entry_key e)"
  shows "strset_ok (ss\<lparr>strs_hash := m, strs_data_len := l\<rparr>)"
  using assms by (simp add: strset_ok_def same_keys_def)

lemma strset_insert_spec:
  assumes ok: "strset_ok ss" and al: "calloc_sane al"
    and st: "stored (strs_data ss) (unat l) (strs_data_len ss)"
    and l: "strs_data_len ss \<le> l" "l \<le> strs_data_cap ss"
  defines "k \<equiv> strs_data_len ss" and "d \<equiv> strs_data ss"
  shows "\<exists>err old ov m. hashmap_insert al d (strs_hash ss) k k HASHMAP_ADD = Some (err, old, ov, m) \<and>
    (case strings ss (str_at d k) of
       Some off \<Rightarrow> err = - EEXIST \<and> old = off \<and> strset_ok (ss\<lparr>strs_hash := m\<rparr>) \<and> strings (ss\<lparr>strs_hash := m\<rparr>) = strings ss
     | None \<Rightarrow>
         err = - ENOMEM \<and> strset_ok (ss\<lparr>strs_hash := m\<rparr>) \<and> strings (ss\<lparr>strs_hash := m\<rparr>) = strings ss \<or>
         err = 0 \<and> strset_ok (ss\<lparr>strs_hash := m, strs_data_len := l\<rparr>) \<and>
           strings (ss\<lparr>strs_hash := m, strs_data_len := l\<rparr>) = (strings ss)(str_at d k \<mapsto> k))"
proof -
  let ?m = "strs_hash ss" and ?es = "\<lambda>m. set (hashmap__for_each_entry m)"
  have hm: "hm_ok d ?m" "single_keys d ?m" using ok by (simp_all add: strset_ok_def d_def)
  note keys = strset_keys_ok[OF ok, of d]
  from hashmap_insert_lookup[OF hm(1) keys al hm(2), of HASHMAP_ADD k k] obtain err old ov m where
    ins: "hashmap_insert al d ?m k k HASHMAP_ADD = Some (err, old, ov, m)" and m: "hm_ok d m" "single_keys d m" "same_keys ?m m"
    and res: "insert_result HASHMAP_ADD (lookup d ?m k \<noteq> None) err"
    and old: "case key_entries d ?m k of [] \<Rightarrow> old = 0 \<and> ov = 0
      | e # _ \<Rightarrow> old = entry_key e \<and> ov = entry_value e \<and> equal_fn ?m (entry_key e) k d"
    by auto
  have es: "?es m = (if err = 0 then insert \<lparr>entry_key = k, entry_value = k\<rparr> (?es ?m) else ?es ?m)"
    by (rule hashmap_add_entries[OF hm(1) keys al ins])
  have lk: "lookup d ?m k = strings ss (str_at d k)" unfolding d_def by (rule lookup_strings[OF ok])
  have wf: "\<forall>e \<in> ?es ?m. entry_value e = entry_key e \<and> stored d (unat k) (entry_key e)"
    using ok by (simp add: strset_ok_def d_def k_def)
  have same: "strset_ok (ss\<lparr>strs_hash := m\<rparr>) \<and> strings (ss\<lparr>strs_hash := m\<rparr>) = strings ss" if "err \<noteq> 0"
  proof -
    have ok': "strset_ok (ss\<lparr>strs_hash := m\<rparr>)"
      using strset_ok_hash[OF ok m[unfolded d_def], of k] wf es that ok by (simp add: strset_ok_def d_def k_def)
    moreover have "strings (ss\<lparr>strs_hash := m\<rparr>) s = Some off \<longleftrightarrow> strings ss s = Some off" for s off
      unfolding strings_Some[OF ok] strings_Some[OF ok'] using es that by simp
    then have "strings (ss\<lparr>strs_hash := m\<rparr>) s = strings ss s" for s
      by (metis not_None_eq)
    ultimately show ?thesis by blast
  qed
  have new: "strset_ok (ss\<lparr>strs_hash := m, strs_data_len := l\<rparr>) \<and>
      strings (ss\<lparr>strs_hash := m, strs_data_len := l\<rparr>) = (strings ss)(str_at d k \<mapsto> k)"
    if e0: "err = 0" and none: "strings ss (str_at d k) = None"
  proof -
    have "\<forall>e \<in> ?es m. entry_value e = entry_key e \<and> stored d (unat l) (entry_key e)"
      using wf es e0 st l(1) by (auto simp: stored_def word_le_nat_alt k_def d_def)
    then have ok': "strset_ok (ss\<lparr>strs_hash := m, strs_data_len := l\<rparr>)"
      using strset_ok_hash[OF ok m[unfolded d_def] l(2)] by (simp add: d_def)
    have other: "str_at d (entry_key e) \<noteq> str_at d k" if "e \<in> ?es ?m" for e
      using strings_Some[OF ok, of "str_at d k" "entry_value e"] none that by (auto simp: d_def)
    have "strings (ss\<lparr>strs_hash := m, strs_data_len := l\<rparr>) s = Some off \<longleftrightarrow>
        ((strings ss)(str_at d k \<mapsto> k)) s = Some off" for s off
      using strings_Some[OF ok'] strings_Some[OF ok] es e0 other by (auto simp: d_def)
    then have "strings (ss\<lparr>strs_hash := m, strs_data_len := l\<rparr>) s = ((strings ss)(str_at d k \<mapsto> k)) s" for s
      by (metis not_None_eq)
    then show ?thesis using ok' by blast
  qed
  show ?thesis
  proof (cases "strings ss (str_at d k)")
    case None
    then show ?thesis using ins res lk same new by (auto simp: insert_result_def errno_defs)
  next
    case (Some off)
    then obtain e es' where "key_entries d ?m k = e # es'" "entry_value e = off"
      using lk by (auto simp: lookup_def split: list.splits)
    moreover from this have "e \<in> ?es ?m"
      using key_entries_all[OF hm(1) keys, of k] by (metis filter_is_subset list.set_intros(1) subsetD)
    ultimately have "old = off" using old wf by auto
    then show ?thesis using ins res lk same Some by (auto simp: insert_result_def errno_defs)
  qed
qed

lemma strset_add_spec:
  assumes ok: "strset_ok ss" and rc: "realloc_contract realloc" and s: "0 \<notin> set s" "length s < 2 ^ 31"
    and al: "calloc_sane al"
  shows "\<exists>r ss'. strset__add_str realloc al ss s = Some (r, ss') \<and> strset_ok ss' \<and>
    (r = - ENOMEM \<and> strings ss' = strings ss \<or>
     (case strings ss s of
        Some off \<Rightarrow> r = uint off \<and> strings ss' = strings ss
      | None \<Rightarrow> r = uint (strs_data_len ss) \<and> strings ss' = (strings ss)(s \<mapsto> strs_data_len ss)))"
proof -
  from append_str_spec[OF ok rc s] obtain r where r: "append_str realloc ss s = Some r" and
    r': "case r of None \<Rightarrow> True | Some ss' \<Rightarrow> strset_ok ss' \<and> strings ss' = strings ss \<and>
      strs_data_len ss' = strs_data_len ss \<and> str_at (strs_data ss') (strs_data_len ss) = s \<and>
      unat (strs_data_len ss) + length s + 1 \<le> unat (strs_data_cap ss')"
    by blast
  show ?thesis
  proof (cases r)
    case None
    then show ?thesis using r ok by (simp add: strset__add_str_def)
  next
    case (Some t)
    then have t: "strset_ok t" "strings t = strings ss" "strs_data_len t = strs_data_len ss"
      "str_at (strs_data t) (strs_data_len t) = s" "unat (strs_data_len t) + length s + 1 \<le> unat (strs_data_cap t)"
      using r' by simp_all
    define l where "l = strs_data_len t + of_nat (length s + 1)"
    have "unat (of_nat (length s + 1) :: u64) = length s + 1" using s(2) by (simp only: unat_of_nat) simp
    moreover have cap: "unat (strs_data_cap t) < 2 ^ 31" using t(1) by (simp add: strset_ok_def word_le_nat_alt)
    ultimately have l: "unat l = unat (strs_data_len t) + length s + 1"
      unfolding l_def using t(5) by (subst unat_word_ariths(1)) simp
    have small: "int_of off = uint off" if "unat off < unat l" for off
      using that l t(5) cap by (intro int_of_small) simp
    have old: "int_of off = uint off" if "strings t s = Some off" for off
      using strings_at(2)[OF t(1) that] by (rule int_of_small)
    have "stored (strs_data t) (unat l) (strs_data_len t)" using t(4) l by (simp add: stored_def)
    moreover have "strs_data_len t \<le> l" "l \<le> strs_data_cap t" using l t(5) by (simp_all add: word_le_nat_alt)
    moreover have "strset__add_str realloc al ss s =
        (case hashmap_insert al (strs_data t) (strs_hash t) (strs_data_len t) (strs_data_len t) HASHMAP_ADD of
           None \<Rightarrow> None
         | Some (err, old, ov, m) \<Rightarrow>
             if err = - EEXIST then Some (int_of old, t\<lparr>strs_hash := m\<rparr>)
             else if err \<noteq> 0 then Some (err, t\<lparr>strs_hash := m\<rparr>)
             else Some (int_of (strs_data_len t), t\<lparr>strs_hash := m, strs_data_len := l\<rparr>))"
      unfolding l_def strset__add_str_def r Some Let_def by simp
    ultimately show ?thesis
      using strset_insert_spec[OF t(1) al, of l] t(2-4) small[of "strs_data_len t"] old l
      by (auto simp: errno_defs split: option.splits)
  qed
qed

text \<open>Sequences of operations against a finite map from strings to offsets.\<close>

datatype strset_op =
    Op_find_str "u8 list \<Rightarrow> nat \<Rightarrow> u8 list option" "u8 list"
  | Op_add_str "u8 list \<Rightarrow> nat \<Rightarrow> u8 list option" alloc "u8 list"

fun strset_step :: "strset_op \<Rightarrow> strset \<Rightarrow> (int \<times> strset) option" where
  "strset_step (Op_find_str realloc s) ss = strset__find_str realloc ss s"
| "strset_step (Op_add_str realloc al s) ss = strset__add_str realloc al ss s"

fun strset_legal :: "strset_op \<Rightarrow> bool" where
  "strset_legal (Op_find_str realloc s) \<longleftrightarrow> realloc_contract realloc \<and> 0 \<notin> set s \<and> length s < 2 ^ 31"
| "strset_legal (Op_add_str realloc al s) \<longleftrightarrow>
     realloc_contract realloc \<and> calloc_sane al \<and> 0 \<notin> set s \<and> length s < 2 ^ 31"

fun strset_spec :: "strset_op \<Rightarrow> (u8 list \<Rightarrow> u64 option) \<Rightarrow> int \<Rightarrow> (u8 list \<Rightarrow> u64 option) \<Rightarrow> bool" where
  "strset_spec (Op_find_str realloc s) f r f' \<longleftrightarrow>
     f' = f \<and> (r = - ENOMEM \<or> r = (case f s of Some off \<Rightarrow> uint off | None \<Rightarrow> - ENOENT))"
| "strset_spec (Op_add_str realloc al s) f r f' \<longleftrightarrow>
     r = - ENOMEM \<and> f' = f \<or>
     (case f s of
        Some off \<Rightarrow> r = uint off \<and> f' = f
      | None \<Rightarrow> (\<exists>off. off \<notin> ran f \<and> r = uint off \<and> f' = f(s \<mapsto> off)))"

interpretation strset_refinement: simulation strset_step strset_legal strset_ok strings strset_spec
proof
  fix ss opn
  assume ok: "strset_ok ss" and legal: "strset_legal opn"
  show "\<exists>r ss'. strset_step opn ss = Some (r, ss') \<and> strset_ok ss' \<and> strset_spec opn (strings ss) r (strings ss')"
  proof (cases opn)
    case (Op_find_str realloc s)
    then show ?thesis using strset_find_spec[OF ok, of realloc s] legal by auto
  next
    case (Op_add_str realloc al s)
    have "strs_data_len ss \<notin> ran (strings ss)" using strings_at(3)[OF ok] by (fastforce simp: ran_def)
    then show ?thesis
      using strset_add_spec[OF ok, of realloc s al] legal Op_add_str by (fastforce split: option.splits)
  qed
qed

subsection \<open>Creating a set\<close>

text \<open>The offsets where the strings of a block of data start.\<close>

function starts :: "u8 list \<Rightarrow> nat \<Rightarrow> nat list" where
  "starts d off =
     (if off < length d then off # starts d (off + length (takeWhile (\<lambda>c. c \<noteq> 0) (drop off d)) + 1) else [])"
  by pat_completeness auto
termination starts
  by (relation "measure (\<lambda>(d, off). length d - off)") auto

declare starts.simps [simp del]

definition strings_of :: "u8 list \<Rightarrow> nat \<Rightarrow> u8 list \<Rightarrow> u64 option" where
  "strings_of d off = map_of (map (\<lambda>n. (str_at d (of_nat n), of_nat n)) (starts d off))"

abbreviation init_set :: "u8 list \<Rightarrow> u64 \<Rightarrow> nat \<Rightarrow> u8 list hashmap \<Rightarrow> strset" where
  "init_set d max_sz off m \<equiv>
     \<lparr>strs_data = d, strs_data_len = of_nat off, strs_data_cap = of_nat (length d), strs_data_max_len = max_sz, strs_hash = m\<rparr>"

lemma strings_len [simp]: "strings (ss\<lparr>strs_data_len := l\<rparr>) = strings ss"
  by (simp add: strings_def)

lemma map_add_first: "f ++ g(s := Some (case g s of Some u \<Rightarrow> u | None \<Rightarrow> v)) = f(s \<mapsto> v) ++ g"
  by (auto simp: map_add_def fun_eq_iff split: option.splits)

lemma strset_ok_len:
  "strset_ok ss \<Longrightarrow> strs_data_len ss \<le> l \<Longrightarrow> l \<le> strs_data_cap ss \<Longrightarrow> strset_ok (ss\<lparr>strs_data_len := l\<rparr>)"
  by (auto simp: strset_ok_def stored_def word_le_nat_alt intro: order_less_le_trans)

lemma add_init_strs_spec:
  assumes al: "\<forall>n. calloc_sane (al n)" and d: "d \<noteq> [] \<longrightarrow> last d = 0" "length d < 2 ^ 31"
    and ok: "off \<le> length d" "strset_ok (init_set d max_sz off m)"
  shows "\<exists>err m'. add_init_strs al d off m = Some (err, m') \<and>
    (err = - ENOMEM \<or> err = 0 \<and> strset_ok (init_set d max_sz (length d) m') \<and>
       strings (init_set d max_sz (length d) m') = strings_of d off ++ strings (init_set d max_sz off m))"
  using assms
proof (induction al d off m rule: add_init_strs.induct[case_names step])
  case (step al d off m)
  note d = step.prems(2,3) and ok = step.prems(5)
  show ?case
  proof (cases "off < length d")
    case False
    then have "off = length d" "add_init_strs al d off m = Some (0, m)" "starts d off = []"
      using step.prems(4) by (simp_all add: add_init_strs.simps starts.simps)
    then show ?thesis using ok by (simp add: strings_of_def)
  next
    case lt0: True
    let ?ss = "init_set d max_sz off m" and ?s = "takeWhile (\<lambda>c. c \<noteq> 0) (drop off d)"
    let ?next = "off + length ?s + 1"
    have u: "unat (of_nat n :: u64) = n" if "n \<le> length d" for n
      using that d(2) by (simp only: unat_of_nat) simp
    have "drop off d \<noteq> []" "last (drop off d) = 0" using lt0 d(1) by auto
    then have z: "0 \<in> set (drop off d)" by (metis last_in_set)
    then have lt: "length ?s < length (drop off d)"
      by (metis (mono_tags, lifting) length_takeWhile_le nat_less_le takeWhile_eq_all_conv takeWhile_eq_take take_all_iff)
    then have nx: "?next \<le> length d" by simp
    have str: "str_at d (of_nat off) = ?s" using lt0 by (simp add: str_at_def u)
    have un: "unat (of_nat ?next :: u64) = ?next" "unat (of_nat off :: u64) = off" "unat (of_nat (length d) :: u64) = length d"
      using u[OF nx] u[of off] u[of "length d"] lt0 by simp_all
    define l :: u64 where "l = of_nat ?next"
    have st: "stored d (unat l) (of_nat off)" unfolding l_def un stored_def str by simp
    have le: "of_nat off \<le> l" "l \<le> of_nat (length d)"
      unfolding l_def word_le_nat_alt un using nx by simp_all
    note spec = strset_insert_spec[OF ok, of "al off" l, unfolded strset.select_convs strset.update_convs str]
    obtain err old ov m' where
      ins: "hashmap_insert (al off) d m (of_nat off) (of_nat off) HASHMAP_ADD = Some (err, old, ov, m')" and
      res: "case strings ?ss ?s of
         Some o' \<Rightarrow> err = - EEXIST \<and> old = o' \<and> strset_ok (init_set d max_sz off m') \<and> strings (init_set d max_sz off m') = strings ?ss
       | None \<Rightarrow> err = - ENOMEM \<and> strset_ok (init_set d max_sz off m') \<and> strings (init_set d max_sz off m') = strings ?ss \<or>
           err = 0 \<and> strset_ok (init_set d max_sz ?next m') \<and>
             strings (init_set d max_sz ?next m') = (strings ?ss)(?s \<mapsto> of_nat off)"
      using spec[OF _ st le] step.prems(1) unfolding l_def by blast
    have run: "add_init_strs al d off m =
        (if err \<noteq> 0 \<and> err \<noteq> - EEXIST then Some (err, m') else add_init_strs al d ?next m')"
      using lt0 z ins by (subst add_init_strs.simps) simp
    show ?thesis
    proof (cases "err = - ENOMEM")
      case True
      then show ?thesis using run by (simp add: errno_defs)
    next
      case False
      then have err: "err = 0 \<or> err = - EEXIST" using res by (auto split: option.splits)
      have ok': "strset_ok (init_set d max_sz ?next m')"
        and st': "strings (init_set d max_sz ?next m') = (strings ?ss)(?s := Some (case strings ?ss ?s of Some o' \<Rightarrow> o' | None \<Rightarrow> of_nat off))"
      proof -
        have "strset_ok (init_set d max_sz ?next m') \<and> strings (init_set d max_sz ?next m') = strings ?ss"
          if "strset_ok (init_set d max_sz off m')" "strings (init_set d max_sz off m') = strings ?ss"
          using strset_ok_len[OF that(1), of "of_nat ?next"] le[unfolded l_def] that(2) strings_len[where ss = "init_set d max_sz off m'" and l = "of_nat ?next"]
          by simp
        then show "strset_ok (init_set d max_sz ?next m')"
          "strings (init_set d max_sz ?next m') = (strings ?ss)(?s := Some (case strings ?ss ?s of Some o' \<Rightarrow> o' | None \<Rightarrow> of_nat off))"
          using res False by (auto split: option.splits)
      qed
      have "strings_of d off = (strings_of d ?next)(?s \<mapsto> of_nat off)"
        using lt0 str by (simp add: strings_of_def starts.simps[of d off])
      then have "strings_of d ?next ++ strings (init_set d max_sz ?next m') = strings_of d off ++ strings ?ss"
        by (simp only: st' map_add_first)
      moreover have "add_init_strs al d off m = add_init_strs al d ?next m'" using run err by auto
      moreover have "\<not> 0 \<notin> set (drop off d)" "\<not> (err \<noteq> 0 \<and> err \<noteq> - EEXIST)" using z err by auto
      ultimately show ?thesis
        using step.IH[OF lt0 _ ins refl refl refl _ step.prems(1-3) nx ok'] by simp
    qed
  qed
qed

subsection \<open>The properties\<close>

definition realloc_example :: "u8 list \<Rightarrow> nat \<Rightarrow> u8 list option" where
  "realloc_example d n = (if n \<le> 4096 then Some (take n d @ replicate (n - length d) 170) else None)"

lemma realloc_example_contract: "realloc_contract realloc_example"
  by (auto simp: realloc_contract_def realloc_example_def split: if_splits)

lemma init_entries: "hashmap__for_each_entry (hashmap__init h e) = []"
  by (simp add: hashmap__for_each_entry_def hashmap__init_def)

lemma strset_ok_empty:
  assumes "of_nat (length d) \<le> max_sz" "length d < 2 ^ 31" "unat max_sz < 2 ^ 31"
  shows "strset_ok \<lparr>strs_data = d, strs_data_len = 0, strs_data_cap = of_nat (length d),
     strs_data_max_len = max_sz, strs_hash = hashmap__init strset_hash_fn strset_equal_fn\<rparr>"
  using assms unat_of_nat[of "length d", where ?'a = 64]
  by (simp add: strset_ok_def hm_ok_init single_keys_init init_fns init_entries)

lemma strings_empty: "strings \<lparr>strs_data = d, strs_data_len = l, strs_data_cap = c, strs_data_max_len = mx,
    strs_hash = hashmap__init h e\<rparr> = Map.empty"
  by (simp add: strings_def init_entries)



text \<open>
  Creating a set from a block of strings, each with its terminating zero, returns a set
  that satisfies the invariant, shares the data, and finds every string of the block at the
  first offset where it starts; only allocation can fail.
\<close>

theorem strset_new_correct:
  assumes "d \<noteq> [] \<longrightarrow> last d = 0" "of_nat (length d) \<le> max_sz" "unat max_sz < 2 ^ 31" "length d < 2 ^ 31"
    and "\<forall>n. calloc_sane (al n)"
  shows "\<exists>r. strset__new True True True al max_sz (Some d) = Some r \<and>
    (r = Inl (- ENOMEM) \<or>
     (\<exists>ss. r = Inr ss \<and> strset_ok ss \<and> strset__data ss = d \<and> strset__data_size ss = of_nat (length d) \<and>
        strings ss = map_of (map (\<lambda>n. (str_at d (of_nat n), of_nat n)) (starts d 0))))"
proof -
  let ?m = "hashmap__init strset_hash_fn strset_equal_fn"
  have "strset_ok (init_set d max_sz 0 ?m)" using strset_ok_empty[OF assms(2,4,3)] by simp
  from add_init_strs_spec[OF assms(5,1,4) _ this] obtain err m' where
    m': "add_init_strs al d 0 ?m = Some (err, m')"
    "err = - ENOMEM \<or> err = 0 \<and> strset_ok (init_set d max_sz (length d) m') \<and>
     strings (init_set d max_sz (length d) m') = strings_of d 0"
    by (auto simp: strings_empty)
  show ?thesis
  proof (cases "err = 0")
    case True
    then have "strset__new True True True al max_sz (Some d) = Some (Inr (init_set d max_sz (length d) m'))"
      using m'(1) by (simp add: strset__new_def hashmap__new_def)
    then show ?thesis using m'(2) True by (simp add: strings_of_def strset__data_def strset__data_size_def errno_defs)
  next
    case False
    then show ?thesis using m' by (auto simp: strset__new_def hashmap__new_def)
  qed
qed

theorem strset_new_correct_witness:
  "\<exists>r. strset__new True True True (\<lambda>n. alloc_example) 1000 (Some [0, 97, 0, 97, 0]) = Some r \<and>
    (r = Inl (- ENOMEM) \<or>
     (\<exists>ss. r = Inr ss \<and> strset_ok ss \<and> strset__data ss = [0, 97, 0, 97, 0] \<and>
        strset__data_size ss = of_nat (length [0, 97, 0, 97, 0 :: u8]) \<and>
        strings ss = map_of (map (\<lambda>n. (str_at [0, 97, 0, 97, 0] (of_nat n), of_nat n)) (starts [0, 97, 0, 97, 0] 0))))"
  by (rule strset_new_correct) (simp_all add: alloc_example_sane word_le_nat_alt)

text \<open>
  C36: growing an array either fails without any effect or returns memory that starts with
  the old content, has room for the added elements, is zero behind the old content, and never
  passes the limit; it never writes outside the memory, whatever the sizes.
\<close>

theorem libbpf_add_mem_correct:
  assumes "realloc_contract realloc" and "length d = unat cap_cnt * unat elem_sz" "length d < 2 ^ 64"
    and "cur_cnt \<le> cap_cnt" and "unat cur_cnt + unat add_cnt < 2 ^ 64"
  shows "\<exists>r. libbpf_add_mem realloc d cap_cnt elem_sz cur_cnt max_cnt add_cnt = Some r \<and>
    (case r of None \<Rightarrow> \<not> cur_cnt + add_cnt \<le> cap_cnt
     | Some (d', cap', p) \<Rightarrow>
         (\<exists>n. d' = d @ replicate n 0) \<and> length d' = unat cap' * unat elem_sz \<and>
         unat cur_cnt + unat add_cnt \<le> unat cap' \<and> (cap' = cap_cnt \<or> cap_cnt < cap' \<and> cap' \<le> max_cnt) \<and>
         unat p = unat cur_cnt * unat elem_sz)"
  by (rule libbpf_add_mem_spec[OF assms])

theorem libbpf_add_mem_correct_witness:
  "\<exists>r. libbpf_add_mem realloc_example [1, 2, 3, 4] 2 2 2 100 1 = Some r \<and>
    (case r of None \<Rightarrow> \<not> (2 :: u64) + 1 \<le> 2
     | Some (d', cap', p) \<Rightarrow>
         (\<exists>n. d' = [1, 2, 3, 4] @ replicate n 0) \<and> length d' = unat cap' * unat (2 :: u64) \<and>
         unat (2 :: u64) + unat (1 :: u64) \<le> unat cap' \<and> (cap' = 2 \<or> 2 < cap' \<and> cap' \<le> 100) \<and>
         unat p = unat (2 :: u64) * unat (2 :: u64))"
  by (rule libbpf_add_mem_correct) (simp_all add: realloc_example_contract)

end
