(* ===== verification/Kconfig_Symbol.thy ===== *)
theory Kconfig_Symbol
  imports Kconfig_Expr "HOL-Library.Monad_Syntax"
begin

text \<open>
  The symbols of the configuration language, \<^verbatim>\<open>scripts/kconfig/symbol.c\<close> with the inline
  functions of \<^verbatim>\<open>scripts/kconfig/lkc.h\<close>: visibilities, values, choices, ranges, setting values,
  and the table of symbol names.

  The memory of the program is the record \<open>kstate\<close>, with one \<open>ksym\<close> for every address of a
  symbol. The bits of \<open>flags\<close> are a set. Calculating a symbol calculates the symbols its
  expressions refer to, so every function that does so gets this step as the argument
  \<open>rec\<close>; \<open>sym_calc_value\<close> at the end ties the knot with a bound on the depth of the
  recursion. The result \<open>None\<close> stands for running out of that bound and for reading through a
  pointer that is \<open>NULL\<close>. \<open>memcmp\<close> of two values compares addresses of strings; whether two equal
  strings are at one address is what the field \<open>same_object\<close> says.
\<close>

subsection \<open>Symbols\<close>

datatype sym_flag =
    SYMBOL_CONST | SYMBOL_CHECK | SYMBOL_CHOICE | SYMBOL_CHOICEVAL | SYMBOL_VALID | SYMBOL_OPTIONAL
  | SYMBOL_WRITE | SYMBOL_CHANGED | SYMBOL_WRITTEN | SYMBOL_NO_WRITE | SYMBOL_CHECKED | SYMBOL_WARNED
  | SYMBOL_DEF_USER | SYMBOL_DEF_AUTO | SYMBOL_NEED_SET_CHOICE_VALUES

datatype prop_type =
    P_UNKNOWN | P_PROMPT | P_COMMENT | P_MENU | P_DEFAULT | P_CHOICE | P_SELECT | P_IMPLY | P_RANGE | P_SYMBOL

record property =
  p_type :: prop_type
  p_text :: "string option"
  p_vis_expr :: "expr option"
  p_vis_tri :: tristate
  p_expr :: "expr_node option"
  p_menu :: "nat option"

text \<open>What \<open>val\<close> points to: a string, or the chosen symbol of a choice.\<close>

datatype symval = V_null | V_str string | V_sym symbol

record ksym =
  ks_name :: "string option"
  ks_type :: symbol_type
  ks_val :: symval
  ks_tri :: tristate
  user_val :: symval
  user_tri :: tristate
  auto_val :: symval
  auto_tri :: tristate
  ks_visible :: tristate
  ks_flags :: "sym_flag set"
  ks_props :: "property list"
  dir_dep :: "expr option"
  dir_dep_tri :: tristate
  rev_dep :: "expr option"
  rev_dep_tri :: tristate
  implied :: "expr option"
  implied_tri :: tristate

record kstate =
  st_syms :: "symbol \<Rightarrow> ksym"
  symbol_hash :: "nat \<Rightarrow> nat list"
  next_sym :: nat
  modules_sym :: "symbol option"
  modules_val :: tristate
  menu_changed :: "nat set"
  conf_changed :: bool
  messages :: "string list"
  same_object :: "symval \<Rightarrow> symval \<Rightarrow> bool"

abbreviation sym_at :: "kstate \<Rightarrow> symbol \<Rightarrow> ksym" where
  "sym_at st s \<equiv> st_syms st s"

abbreviation has_flag :: "kstate \<Rightarrow> symbol \<Rightarrow> sym_flag \<Rightarrow> bool" where
  "has_flag st s f \<equiv> f \<in> ks_flags (st_syms st s)"

definition upd_sym :: "symbol \<Rightarrow> (ksym \<Rightarrow> ksym) \<Rightarrow> kstate \<Rightarrow> kstate" where
  "upd_sym s f st = st\<lparr>st_syms := (st_syms st)(s := f (st_syms st s))\<rparr>"

definition set_flag :: "symbol \<Rightarrow> sym_flag \<Rightarrow> kstate \<Rightarrow> kstate" where
  "set_flag s f = upd_sym s (\<lambda>k. k\<lparr>ks_flags := insert f (ks_flags k)\<rparr>)"

definition clear_flag :: "symbol \<Rightarrow> sym_flag \<Rightarrow> kstate \<Rightarrow> kstate" where
  "clear_flag s f = upd_sym s (\<lambda>k. k\<lparr>ks_flags := ks_flags k - {f}\<rparr>)"

definition set_prop_visible :: "symbol \<Rightarrow> nat \<Rightarrow> tristate \<Rightarrow> kstate \<Rightarrow> kstate" where
  "set_prop_visible s i v =
     upd_sym s (\<lambda>k. k\<lparr>ks_props := (ks_props k)[i := (ks_props k ! i)\<lparr>p_vis_tri := v\<rparr>]\<rparr>)"

definition sym_is_choice :: "kstate \<Rightarrow> symbol \<Rightarrow> bool" where
  "sym_is_choice st s = has_flag st s SYMBOL_CHOICE"

definition sym_is_choice_value :: "kstate \<Rightarrow> symbol \<Rightarrow> bool" where
  "sym_is_choice_value st s = has_flag st s SYMBOL_CHOICEVAL"

definition sym_is_optional :: "kstate \<Rightarrow> symbol \<Rightarrow> bool" where
  "sym_is_optional st s = has_flag st s SYMBOL_OPTIONAL"

definition sym_has_value :: "kstate \<Rightarrow> symbol \<Rightarrow> bool" where
  "sym_has_value st s = has_flag st s SYMBOL_DEF_USER"

definition sym_get_tristate_value :: "kstate \<Rightarrow> symbol \<Rightarrow> tristate" where
  "sym_get_tristate_value st s = ks_tri (sym_at st s)"

definition sym_get_type :: "kstate \<Rightarrow> symbol \<Rightarrow> symbol_type" where
  "sym_get_type st s =
     (if ks_type (sym_at st s) = S_TRISTATE \<and>
         (sym_is_choice_value st s \<and> ks_visible (sym_at st s) = tri_yes \<or> modules_val st = tri_no)
      then S_BOOLEAN else ks_type (sym_at st s))"

fun sym_type_name :: "symbol_type \<Rightarrow> string" where
  "sym_type_name S_BOOLEAN = ''bool''"
| "sym_type_name S_TRISTATE = ''tristate''"
| "sym_type_name S_INT = ''integer''"
| "sym_type_name S_HEX = ''hex''"
| "sym_type_name S_STRING = ''string''"
| "sym_type_name S_UNKNOWN = ''unknown''"

fun prop_get_type_name :: "prop_type \<Rightarrow> string" where
  "prop_get_type_name P_PROMPT = ''prompt''"
| "prop_get_type_name P_COMMENT = ''comment''"
| "prop_get_type_name P_MENU = ''menu''"
| "prop_get_type_name P_DEFAULT = ''default''"
| "prop_get_type_name P_CHOICE = ''choice''"
| "prop_get_type_name P_SELECT = ''select''"
| "prop_get_type_name P_IMPLY = ''imply''"
| "prop_get_type_name P_RANGE = ''range''"
| "prop_get_type_name P_SYMBOL = ''symbol''"
| "prop_get_type_name P_UNKNOWN = ''unknown''"

text \<open>
  The property of a value of a choice refers to the choice by a symbol expression. In the list
  a choice has of its values that place holds no symbol.
\<close>

definition prop_get_symbol :: "property \<Rightarrow> symbol option" where
  "prop_get_symbol p = (case p_expr p of Some (Node (E_SYMBOL s)) \<Rightarrow> Some s | _ \<Rightarrow> None)"

definition sym_get_choice_prop :: "kstate \<Rightarrow> symbol \<Rightarrow> property option" where
  "sym_get_choice_prop st s = find (\<lambda>p. p_type p = P_CHOICE) (ks_props (sym_at st s))"

definition choice_of :: "kstate \<Rightarrow> symbol \<Rightarrow> symbol option" where
  "choice_of st s = do { p \<leftarrow> sym_get_choice_prop st s; prop_get_symbol p }"

definition choice_values :: "kstate \<Rightarrow> symbol \<Rightarrow> symbol list option" where
  "choice_values st s =
     do { p \<leftarrow> sym_get_choice_prop st s; case p_expr p of None \<Rightarrow> Some [] | Some (E_LIST ss) \<Rightarrow> Some ss | _ \<Rightarrow> None }"

definition all_symbols :: "kstate \<Rightarrow> symbol list" where
  "all_symbols st = map Sym (concat (map (symbol_hash st) [0..<9973]))"

subsection \<open>Expressions\<close>

definition val_str :: "symval \<Rightarrow> string" where
  "val_str v = (case v of V_str s \<Rightarrow> s | _ \<Rightarrow> [])"

definition info_of :: "ksym \<Rightarrow> sym_info" where
  "info_of k =
     \<lparr>si_name = ks_name k, si_type = ks_type k, si_const = (SYMBOL_CONST \<in> ks_flags k),
      si_tri = ks_tri k, si_val = val_str (ks_val k)\<rparr>"

definition env_of :: "kstate \<Rightarrow> kenv" where
  "env_of st i = info_of (sym_at st (Sym i))"

type_synonym calc = "kstate \<Rightarrow> symbol \<Rightarrow> kstate option"

fun eval_expr :: "calc \<Rightarrow> expr \<Rightarrow> kstate \<Rightarrow> (tristate \<times> kstate) option" where
  "eval_expr rec (E_SYMBOL s) st = do { st \<leftarrow> rec st s; Some (ks_tri (sym_at st s), st) }"
| "eval_expr rec (E_AND l r) st =
     do { (a, st) \<leftarrow> eval_expr rec l st; (b, st) \<leftarrow> eval_expr rec r st; Some (EXPR_AND a b, st) }"
| "eval_expr rec (E_OR l r) st =
     do { (a, st) \<leftarrow> eval_expr rec l st; (b, st) \<leftarrow> eval_expr rec r st; Some (EXPR_OR a b, st) }"
| "eval_expr rec (E_NOT e) st = do { (a, st) \<leftarrow> eval_expr rec e st; Some (EXPR_NOT a, st) }"
| "eval_expr rec (E_COMP ty s1 s2) st =
     do { st \<leftarrow> rec st s1; st \<leftarrow> rec st s2;
          Some (if holds_cmp ty (compare_syms (env_of st) s1 s2) then tri_yes else tri_no, st) }"

definition eval_dep :: "calc \<Rightarrow> expr option \<Rightarrow> kstate \<Rightarrow> (tristate \<times> kstate) option" where
  "eval_dep rec e st = (case e of None \<Rightarrow> Some (tri_yes, st) | Some t \<Rightarrow> eval_expr rec t st)"

definition eval_node :: "calc \<Rightarrow> expr_node option \<Rightarrow> kstate \<Rightarrow> (tristate \<times> kstate) option" where
  "eval_node rec e st =
     (case e of None \<Rightarrow> Some (tri_yes, st) | Some (Node t) \<Rightarrow> eval_expr rec t st | Some _ \<Rightarrow> Some (tri_no, st))"

subsection \<open>Properties\<close>

text \<open>The loops over the properties of one type that stop at the first visible one.\<close>

fun first_visible :: "calc \<Rightarrow> symbol \<Rightarrow> prop_type \<Rightarrow> nat list \<Rightarrow> kstate \<Rightarrow> (nat option \<times> kstate) option" where
  "first_visible rec s ty [] st = Some (None, st)"
| "first_visible rec s ty (i # is) st =
     (if p_type (ks_props (sym_at st s) ! i) = ty
      then do { (v, st) \<leftarrow> eval_dep rec (p_vis_expr (ks_props (sym_at st s) ! i)) st;
                let st = set_prop_visible s i v st;
                if v \<noteq> tri_no then Some (Some i, st) else first_visible rec s ty is st }
      else first_visible rec s ty is st)"

definition prop_indices :: "kstate \<Rightarrow> symbol \<Rightarrow> nat list" where
  "prop_indices st s = [0..<length (ks_props (sym_at st s))]"

definition sym_get_default_prop :: "calc \<Rightarrow> symbol \<Rightarrow> kstate \<Rightarrow> (nat option \<times> kstate) option" where
  "sym_get_default_prop rec s st = first_visible rec s P_DEFAULT (prop_indices st s) st"

definition sym_get_range_prop :: "calc \<Rightarrow> symbol \<Rightarrow> kstate \<Rightarrow> (nat option \<times> kstate) option" where
  "sym_get_range_prop rec s st = first_visible rec s P_RANGE (prop_indices st s) st"

definition prop_at :: "kstate \<Rightarrow> symbol \<Rightarrow> nat \<Rightarrow> property" where
  "prop_at st s i = ks_props (sym_at st s) ! i"

subsection \<open>Ranges\<close>

definition strtoll :: "nat \<Rightarrow> string \<Rightarrow> int" where
  "strtoll base str =
     (case strto base str of
        None \<Rightarrow> 0
      | Some (neg, n, rest) \<Rightarrow>
          if neg then max (- int n) (- (2 ^ 63)) else min (int n) (2 ^ 63 - 1))"

fun num_base :: "symbol_type \<Rightarrow> nat \<Rightarrow> nat" where
  "num_base S_INT base = 10"
| "num_base S_HEX base = 16"
| "num_base _ base = base"

definition sym_get_range_val :: "calc \<Rightarrow> symbol \<Rightarrow> nat \<Rightarrow> kstate \<Rightarrow> (int \<times> kstate) option" where
  "sym_get_range_val rec s base st =
     do { st \<leftarrow> rec st s;
          Some (strtoll (num_base (ks_type (sym_at st s)) base) (val_str (ks_val (sym_at st s))), st) }"

definition sym_validate_range :: "calc \<Rightarrow> symbol \<Rightarrow> kstate \<Rightarrow> kstate option" where
  "sym_validate_range rec s st =
     (if ks_type (sym_at st s) \<noteq> S_INT \<and> ks_type (sym_at st s) \<noteq> S_HEX then Some st
      else do {
        (p, st) \<leftarrow> sym_get_range_prop rec s st;
        case p of
          None \<Rightarrow> Some st
        | Some i \<Rightarrow>
            (case p_expr (prop_at st s i) of
               Some (E_RANGE lo hi) \<Rightarrow>
                 let base = num_base (ks_type (sym_at st s)) 0;
                     val = strtoll base (val_str (ks_val (sym_at st s)))
                 in do {
                   (val2, st) \<leftarrow> sym_get_range_val rec lo base st;
                   if val \<ge> val2 then do {
                     (val3, st) \<leftarrow> sym_get_range_val rec hi base st;
                     if val \<le> val3 then Some st
                     else Some (upd_sym s (\<lambda>k. k\<lparr>ks_val := ks_val (sym_at st hi)\<rparr>) st) }
                   else Some (upd_sym s (\<lambda>k. k\<lparr>ks_val := ks_val (sym_at st lo)\<rparr>) st) }
             | _ \<Rightarrow> None) })"

subsection \<open>Visibility\<close>

definition sym_set_changed :: "symbol \<Rightarrow> kstate \<Rightarrow> kstate" where
  "sym_set_changed s st =
     (set_flag s SYMBOL_CHANGED st)
       \<lparr>menu_changed := menu_changed st \<union> set (List.map_filter p_menu (ks_props (sym_at st s)))\<rparr>"

definition sym_set_all_changed :: "kstate \<Rightarrow> kstate" where
  "sym_set_all_changed st = fold sym_set_changed (all_symbols st) st"

fun prompts_visible ::
  "calc \<Rightarrow> symbol \<Rightarrow> symbol option \<Rightarrow> nat list \<Rightarrow> tristate \<Rightarrow> kstate \<Rightarrow> (tristate \<times> kstate) option" where
  "prompts_visible rec s choice [] tri st = Some (tri, st)"
| "prompts_visible rec s choice (i # is) tri st =
     (if p_text (ks_props (sym_at st s) ! i) = None then prompts_visible rec s choice is tri st
      else do {
        (v, st) \<leftarrow> eval_dep rec (p_vis_expr (ks_props (sym_at st s) ! i)) st;
        let v' = (case choice of
                    Some c \<Rightarrow>
                      if ks_type (sym_at st s) = S_TRISTATE \<and> v = tri_mod \<and> ks_tri (sym_at st c) = tri_yes
                      then tri_no else v
                  | None \<Rightarrow> v);
        prompts_visible rec s choice is (EXPR_OR tri v') (set_prop_visible s i v' st) })"

text \<open>Recalculating one of the three dependencies; the default is its value without an expression.\<close>

definition update_dep ::
  "calc \<Rightarrow> symbol \<Rightarrow> (ksym \<Rightarrow> expr option) \<Rightarrow> tristate \<Rightarrow> (ksym \<Rightarrow> tristate) \<Rightarrow> (tristate \<Rightarrow> ksym \<Rightarrow> ksym) \<Rightarrow>
     kstate \<Rightarrow> kstate option" where
  "update_dep rec s dep dflt get_tri set_tri st =
     do {
       (v, st) \<leftarrow> (case dep (sym_at st s) of None \<Rightarrow> Some (dflt, st) | Some e \<Rightarrow> eval_expr rec e st);
       let v' = (if v = tri_mod \<and> sym_get_type st s = S_BOOLEAN then tri_yes else v);
       Some (if get_tri (sym_at st s) \<noteq> v' then sym_set_changed s (upd_sym s (set_tri v') st) else st) }"

definition sym_calc_visibility :: "calc \<Rightarrow> symbol \<Rightarrow> kstate \<Rightarrow> kstate option" where
  "sym_calc_visibility rec s st =
     do {
       choice \<leftarrow> (if sym_is_choice_value st s
                  then map_option prop_get_symbol (sym_get_choice_prop st s) else Some None);
       (tri, st) \<leftarrow> prompts_visible rec s choice (prop_indices st s) tri_no st;
       let tri = (if tri = tri_mod \<and> (ks_type (sym_at st s) \<noteq> S_TRISTATE \<or> modules_val st = tri_no)
                  then tri_yes else tri);
       let st = (if ks_visible (sym_at st s) \<noteq> tri
                 then sym_set_changed s (upd_sym s (\<lambda>k. k\<lparr>ks_visible := tri\<rparr>) st) else st);
       if sym_is_choice_value st s then Some st
       else do {
         st \<leftarrow> update_dep rec s dir_dep tri_yes dir_dep_tri (\<lambda>v k. k\<lparr>dir_dep_tri := v\<rparr>) st;
         st \<leftarrow> update_dep rec s rev_dep tri_no rev_dep_tri (\<lambda>v k. k\<lparr>rev_dep_tri := v\<rparr>) st;
         update_dep rec s implied tri_no implied_tri (\<lambda>v k. k\<lparr>implied_tri := v\<rparr>) st } }"

subsection \<open>Choices\<close>

fun choice_default_prop :: "calc \<Rightarrow> symbol \<Rightarrow> nat list \<Rightarrow> kstate \<Rightarrow> (symbol option \<times> kstate) option" where
  "choice_default_prop rec s [] st = Some (None, st)"
| "choice_default_prop rec s (i # is) st =
     (if p_type (ks_props (sym_at st s) ! i) \<noteq> P_DEFAULT then choice_default_prop rec s is st
      else do {
        (v, st) \<leftarrow> eval_dep rec (p_vis_expr (ks_props (sym_at st s) ! i)) st;
        let st = set_prop_visible s i v st;
        if v = tri_no then choice_default_prop rec s is st
        else do {
          def_sym \<leftarrow> prop_get_symbol (prop_at st s i);
          if ks_visible (sym_at st def_sym) \<noteq> tri_no then Some (Some def_sym, st)
          else choice_default_prop rec s is st } })"

definition sym_choice_default :: "calc \<Rightarrow> symbol \<Rightarrow> kstate \<Rightarrow> (symbol option \<times> kstate) option" where
  "sym_choice_default rec s st =
     do {
       (d, st) \<leftarrow> choice_default_prop rec s (prop_indices st s) st;
       case d of
         Some def_sym \<Rightarrow> Some (Some def_sym, st)
       | None \<Rightarrow> do {
           vs \<leftarrow> choice_values st s;
           Some (find (\<lambda>v. ks_visible (sym_at st v) \<noteq> tri_no) vs, st) } }"

fun choice_flags :: "calc \<Rightarrow> symbol list \<Rightarrow> sym_flag set \<Rightarrow> kstate \<Rightarrow> (sym_flag set \<times> kstate) option" where
  "choice_flags rec [] fl st = Some (fl, st)"
| "choice_flags rec (v # vs) fl st =
     do {
       st \<leftarrow> sym_calc_visibility rec v st;
       choice_flags rec vs (if ks_visible (sym_at st v) \<noteq> tri_no then fl \<inter> ks_flags (sym_at st v) else fl) st }"

definition sym_calc_choice :: "calc \<Rightarrow> symbol \<Rightarrow> kstate \<Rightarrow> (symbol option \<times> kstate) option" where
  "sym_calc_choice rec s st =
     do {
       vs \<leftarrow> choice_values st s;
       (fl, st) \<leftarrow> choice_flags rec vs (ks_flags (sym_at st s)) st;
       let st = upd_sym s (\<lambda>k. k\<lparr>ks_flags := {f \<in> ks_flags k. f \<in> fl \<or> f \<noteq> SYMBOL_DEF_USER}\<rparr>) st;
       u \<leftarrow> (case user_val (sym_at st s) of V_null \<Rightarrow> Some None | V_sym u \<Rightarrow> Some (Some u) | V_str _ \<Rightarrow> None);
       if (case u of None \<Rightarrow> False | Some u' \<Rightarrow> ks_visible (sym_at st u') \<noteq> tri_no) then Some (u, st)
       else do {
         (d, st) \<leftarrow> sym_choice_default rec s st;
         Some (d, if d = None then upd_sym s (\<lambda>k. k\<lparr>ks_tri := tri_no\<rparr>) st else st) } }"

definition set_all_choice_values :: "symbol \<Rightarrow> kstate \<Rightarrow> kstate option" where
  "set_all_choice_values s st =
     do {
       vs \<leftarrow> choice_values st s;
       let st = fold (\<lambda>v st. if sym_has_value st v then st else upd_sym v (\<lambda>k. k\<lparr>user_tri := tri_no\<rparr>) st) vs st;
       Some (clear_flag s SYMBOL_NEED_SET_CHOICE_VALUES (clear_flag s SYMBOL_VALID (set_flag s SYMBOL_DEF_USER st))) }"

subsection \<open>Values\<close>

text \<open>
  The warning about a selected symbol whose dependencies are not met. The lines for the reverse
  dependencies evaluate each alternative before they print it.
\<close>

fun revdep_text ::
  "calc \<Rightarrow> tristate \<Rightarrow> expr \<Rightarrow> string option \<times> string \<Rightarrow> kstate \<Rightarrow> ((string option \<times> string) \<times> kstate) option" where
  "revdep_text rec pr (E_OR l r) tg st =
     do { (tg, st) \<leftarrow> revdep_text rec pr l tg st; revdep_text rec pr r tg st }"
| "revdep_text rec pr e tg st =
     do {
       (v, st) \<leftarrow> eval_expr rec e st;
       if v = pr
       then Some ((None, fold (expr_print_gstr_helper (env_of st) 0)
              ((case fst tg of Some t \<Rightarrow> [(None, t)] | None \<Rightarrow> []) @
               (None, ''  - '') # print_tree (env_of st) T_NONE e @ [(None, newline)]) (snd tg)), st)
       else Some (tg, st) }"

definition sym_warn_unmet_dep :: "calc \<Rightarrow> symbol \<Rightarrow> kstate \<Rightarrow> kstate option" where
  "sym_warn_unmet_dep rec s st =
     do {
       let name = (case ks_name (sym_at st s) of Some n \<Rightarrow> n | None \<Rightarrow> []);
       let gs = newline @ ''WARNING: unmet direct dependencies detected for '' @ name @ newline @
                ''  Depends on ['' @ (if dir_dep_tri (sym_at st s) = tri_mod then ''m'' else ''n'') @ '']: '';
       let gs = expr_gstr_print (env_of st) 0 (map_option Node (dir_dep (sym_at st s))) gs @ newline;
       e \<leftarrow> rev_dep (sym_at st s);
       (tg, st) \<leftarrow> revdep_text rec tri_yes e (Some (''  Selected by [y]:'' @ newline), gs) st;
       (tg, st) \<leftarrow> revdep_text rec tri_mod e (Some (''  Selected by [m]:'' @ newline), snd tg) st;
       Some (st\<lparr>messages := messages st @ [snd tg]\<rparr>) }"

text \<open>
  The macro \<open>EXPR_AND\<close> on a calculation and a visibility: it calculates a second time when the
  first value is the smaller one.
\<close>

definition and_visible :: "calc \<Rightarrow> symbol \<Rightarrow> nat \<Rightarrow> kstate \<Rightarrow> (tristate \<times> kstate) option" where
  "and_visible rec s i st =
     do {
       (a, st) \<leftarrow> eval_node rec (p_expr (prop_at st s i)) st;
       if a < p_vis_tri (prop_at st s i) then eval_node rec (p_expr (prop_at st s i)) st
       else Some (p_vis_tri (prop_at st s i), st) }"

text \<open>The value of a boolean or tristate symbol that is not a visible value of a choice.\<close>

definition calc_default_tri :: "calc \<Rightarrow> symbol \<Rightarrow> kstate \<Rightarrow> (tristate \<times> kstate) option" where
  "calc_default_tri rec s st =
     do {
       let st = (if rev_dep_tri (sym_at st s) \<noteq> tri_no then set_flag s SYMBOL_WRITE st else st);
       if sym_is_choice st s then Some (tri_no, st)
       else do {
         (p, st) \<leftarrow> sym_get_default_prop rec s st;
         (v, st) \<leftarrow> (case p of
             None \<Rightarrow> Some (tri_no, st)
           | Some i \<Rightarrow> do {
               (v, st) \<leftarrow> and_visible rec s i st;
               Some (v, if v \<noteq> tri_no then set_flag s SYMBOL_WRITE st else st) });
         if implied_tri (sym_at st s) \<noteq> tri_no
         then Some (EXPR_AND (EXPR_OR v (implied_tri (sym_at st s))) (dir_dep_tri (sym_at st s)),
                    set_flag s SYMBOL_WRITE st)
         else Some (v, st) } }"

definition calc_tristate :: "calc \<Rightarrow> symbol \<Rightarrow> kstate \<Rightarrow> (tristate \<times> kstate) option" where
  "calc_tristate rec s st =
     do {
       (v, st) \<leftarrow>
         (if sym_is_choice_value st s \<and> ks_visible (sym_at st s) = tri_yes
          then do {
            c \<leftarrow> choice_of st s;
            Some (if ks_val (sym_at st c) = V_sym s then tri_yes else tri_no, st) }
          else do {
            (v, st) \<leftarrow>
              (if ks_visible (sym_at st s) \<noteq> tri_no \<and> sym_has_value st s
               then Some (EXPR_AND (user_tri (sym_at st s)) (ks_visible (sym_at st s)), st)
               else calc_default_tri rec s st);
            st \<leftarrow> (if dir_dep_tri (sym_at st s) < rev_dep_tri (sym_at st s)
                  then sym_warn_unmet_dep rec s st else Some st);
            Some (EXPR_OR v (rev_dep_tri (sym_at st s)), st) });
       Some (if v = tri_mod \<and> sym_get_type st s = S_BOOLEAN then tri_yes else v, st) }"

definition calc_string :: "calc \<Rightarrow> symbol \<Rightarrow> kstate \<Rightarrow> (symval \<times> kstate) option" where
  "calc_string rec s st =
     (if ks_visible (sym_at st s) \<noteq> tri_no \<and> sym_has_value st s then Some (user_val (sym_at st s), st)
      else do {
        (p, st) \<leftarrow> sym_get_default_prop rec s st;
        case p of
          None \<Rightarrow> Some (V_str [], st)
        | Some i \<Rightarrow>
            (case prop_get_symbol (prop_at st s i) of
               None \<Rightarrow> Some (V_str [], st)
             | Some ds \<Rightarrow> do {
                 st \<leftarrow> rec (set_flag s SYMBOL_WRITE st) ds;
                 Some (ks_val (sym_at st ds), st) }) })"

definition set_curr :: "symbol \<Rightarrow> symval \<Rightarrow> tristate \<Rightarrow> kstate \<Rightarrow> kstate" where
  "set_curr s v t = upd_sym s (\<lambda>k. k\<lparr>ks_val := v, ks_tri := t\<rparr>)"

text \<open>What follows a new value: changed flags, the values of a choice, what is written out.\<close>

definition note_change :: "symbol \<Rightarrow> symval \<Rightarrow> tristate \<Rightarrow> kstate \<Rightarrow> kstate" where
  "note_change s old_val old_tri st =
     (if same_object st old_val (ks_val (sym_at st s)) \<and> old_tri = ks_tri (sym_at st s) then st
      else
        let st1 = sym_set_changed s st in
        if modules_sym st1 = Some s
        then (sym_set_all_changed st1)\<lparr>modules_val := ks_tri (sym_at (sym_set_all_changed st1) s)\<rparr>
        else st1)"

definition choice_write :: "symbol \<Rightarrow> symbol \<Rightarrow> kstate \<Rightarrow> kstate" where
  "choice_write s v st =
     (let st1 = (if has_flag st s SYMBOL_WRITE \<and> ks_visible (sym_at st v) \<noteq> tri_no
                 then set_flag v SYMBOL_WRITE st else st)
      in if has_flag st1 s SYMBOL_CHANGED then sym_set_changed v st1 else st1)"

definition finish_value :: "symbol \<Rightarrow> symval \<Rightarrow> tristate \<Rightarrow> kstate \<Rightarrow> kstate option" where
  "finish_value s old_val old_tri st =
     do {
       let st = note_change s old_val old_tri st;
       st \<leftarrow> (if sym_is_choice st s
             then do { vs \<leftarrow> choice_values st s; Some (fold (choice_write s) vs st) } else Some st);
       let st = (if has_flag st s SYMBOL_NO_WRITE then clear_flag s SYMBOL_WRITE st else st);
       if has_flag st s SYMBOL_NEED_SET_CHOICE_VALUES then set_all_choice_values s st else Some st }"

definition calc_new_value :: "calc \<Rightarrow> symbol \<Rightarrow> kstate \<Rightarrow> kstate option" where
  "calc_new_value rec s st =
     do {
       let old_val = ks_val (sym_at st s);
       let old_tri = ks_tri (sym_at st s);
       let val0 = V_str (if ks_type (sym_at st s) = S_BOOLEAN \<or> ks_type (sym_at st s) = S_TRISTATE
                         then ''n'' else []);
       st \<leftarrow> sym_calc_visibility rec s (clear_flag s SYMBOL_WRITE st);
       let st = (if ks_visible (sym_at st s) \<noteq> tri_no then set_flag s SYMBOL_WRITE st else st);
       let st = set_curr s val0 tri_no st;
       (new_val, new_tri, st) \<leftarrow>
         (if sym_get_type st s = S_BOOLEAN \<or> sym_get_type st s = S_TRISTATE
          then do { (t, st) \<leftarrow> calc_tristate rec s st; Some (val0, t, st) }
          else do { (v, st) \<leftarrow> calc_string rec s st; Some (v, tri_no, st) });
       let st = set_curr s new_val new_tri st;
       st \<leftarrow> (if sym_is_choice st s \<and> new_tri = tri_yes
             then do {
               (d, st) \<leftarrow> sym_calc_choice rec s st;
               Some (upd_sym s (\<lambda>k. k\<lparr>ks_val := (case d of Some v \<Rightarrow> V_sym v | None \<Rightarrow> V_null)\<rparr>) st) }
             else Some st);
       st \<leftarrow> sym_validate_range rec s st;
       finish_value s old_val old_tri st }"

definition calc_body :: "calc \<Rightarrow> kstate \<Rightarrow> symbol \<Rightarrow> kstate option" where
  "calc_body rec st s =
     (if has_flag st s SYMBOL_VALID then Some st
      else do {
        st \<leftarrow> (if sym_is_choice_value st s \<and> has_flag st s SYMBOL_NEED_SET_CHOICE_VALUES
              then do {
                let st = clear_flag s SYMBOL_NEED_SET_CHOICE_VALUES st;
                p \<leftarrow> sym_get_choice_prop st s;
                case prop_get_symbol p of None \<Rightarrow> Some st | Some c \<Rightarrow> rec st c }
              else Some st);
        let st = set_flag s SYMBOL_VALID st;
        if ks_type (sym_at st s) = S_UNKNOWN
        then Some (set_curr s (case ks_name (sym_at st s) of Some n \<Rightarrow> V_str n | None \<Rightarrow> V_null) tri_no st)
        else calc_new_value rec s st })"

fun sym_calc_value :: "nat \<Rightarrow> kstate \<Rightarrow> symbol \<Rightarrow> kstate option" where
  "sym_calc_value 0 st s = None"
| "sym_calc_value (Suc n) st s = calc_body (sym_calc_value n) st s"

subsection \<open>Setting values\<close>

definition conf_set_changed :: "bool \<Rightarrow> kstate \<Rightarrow> kstate" where
  "conf_set_changed val st = st\<lparr>conf_changed := val\<rparr>"

definition sym_clear_all_valid :: "calc \<Rightarrow> kstate \<Rightarrow> kstate option" where
  "sym_clear_all_valid rec st =
     (let st1 = conf_set_changed True (fold (\<lambda>s. clear_flag s SYMBOL_VALID) (all_symbols st) st)
      in case modules_sym st1 of None \<Rightarrow> Some st1 | Some m \<Rightarrow> rec st1 m)"

definition sym_tristate_within_range :: "kstate \<Rightarrow> symbol \<Rightarrow> tristate \<Rightarrow> bool" where
  "sym_tristate_within_range st s val =
     (let k = sym_at st s; ty = sym_get_type st s in
      if ks_visible k = tri_no then False
      else if ty \<noteq> S_BOOLEAN \<and> ty \<noteq> S_TRISTATE then False
      else if ty = S_BOOLEAN \<and> val = tri_mod then False
      else if ks_visible k \<le> rev_dep_tri k then False
      else if sym_is_choice_value st s \<and> ks_visible k = tri_yes then val = tri_yes
      else rev_dep_tri k \<le> val \<and> val \<le> ks_visible k)"

definition choose_value :: "symbol \<Rightarrow> kstate \<Rightarrow> kstate option" where
  "choose_value s st =
     do {
       cs \<leftarrow> choice_of st s;
       let st = set_flag cs SYMBOL_DEF_USER (upd_sym cs (\<lambda>k. k\<lparr>user_val := V_sym s\<rparr>) st);
       vs \<leftarrow> choice_values st cs;
       Some (fold (\<lambda>v st. if ks_visible (sym_at st v) \<noteq> tri_no then set_flag v SYMBOL_DEF_USER st else st) vs st) }"

definition sym_set_tristate_value :: "calc \<Rightarrow> symbol \<Rightarrow> tristate \<Rightarrow> kstate \<Rightarrow> (bool \<times> kstate) option" where
  "sym_set_tristate_value rec s val st =
     (let oldval = sym_get_tristate_value st s in
      if oldval \<noteq> val \<and> \<not> sym_tristate_within_range st s val then Some (False, st)
      else do {
        let st = (if sym_has_value st s then st else sym_set_changed s (set_flag s SYMBOL_DEF_USER st));
        st \<leftarrow> (if sym_is_choice_value st s \<and> val = tri_yes then choose_value s st else Some st);
        let st = upd_sym s (\<lambda>k. k\<lparr>user_tri := val\<rparr>) st;
        st \<leftarrow> (if oldval \<noteq> val then sym_clear_all_valid rec st else Some st);
        Some (True, st) })"

fun next_tri :: "tristate \<Rightarrow> tristate" where
  "next_tri tri_no = tri_mod"
| "next_tri tri_mod = tri_yes"
| "next_tri tri_yes = tri_no"

text \<open>The loop ends after three turns, when it is back at the old value.\<close>

fun toggle_loop :: "nat \<Rightarrow> calc \<Rightarrow> symbol \<Rightarrow> tristate \<Rightarrow> tristate \<Rightarrow> kstate \<Rightarrow> (tristate \<times> kstate) option" where
  "toggle_loop 0 rec s oldval newval st = None"
| "toggle_loop (Suc n) rec s oldval newval st =
     do {
       let newval = next_tri newval;
       (ok, st) \<leftarrow> sym_set_tristate_value rec s newval st;
       if ok \<or> oldval = newval then Some (newval, st) else toggle_loop n rec s oldval newval st }"

definition sym_toggle_tristate_value :: "calc \<Rightarrow> symbol \<Rightarrow> kstate \<Rightarrow> (tristate \<times> kstate) option" where
  "sym_toggle_tristate_value rec s st =
     (let oldval = sym_get_tristate_value st s in toggle_loop 3 rec s oldval oldval st)"

subsection \<open>Strings as values\<close>

definition is_dec :: "char \<Rightarrow> bool" where
  "is_dec c = is_digit_of 10 c"

definition is_xdigit :: "char \<Rightarrow> bool" where
  "is_xdigit c = is_digit_of 16 c"

definition has_hex_prefix :: "string \<Rightarrow> bool" where
  "has_hex_prefix str \<longleftrightarrow>
     (case str of c # d # _ \<Rightarrow> c = CHR ''0'' \<and> (d = CHR ''x'' \<or> d = CHR ''X'') | _ \<Rightarrow> False)"

definition int_valid :: "string \<Rightarrow> bool" where
  "int_valid str =
     (case (case str of [] \<Rightarrow> [] | c # cs \<Rightarrow> if c = CHR ''-'' then cs else str) of
        [] \<Rightarrow> False
      | c # cs \<Rightarrow> is_dec c \<and> \<not> (c = CHR ''0'' \<and> cs \<noteq> []) \<and> list_all is_dec cs)"

definition hex_valid :: "string \<Rightarrow> bool" where
  "hex_valid str =
     (let str' = (if has_hex_prefix str then drop 2 str else str) in str' \<noteq> [] \<and> list_all is_xdigit str')"

definition tri_of_char :: "string \<Rightarrow> tristate option" where
  "tri_of_char str =
     (case str of
        [] \<Rightarrow> None
      | c # _ \<Rightarrow>
          if c = CHR ''y'' \<or> c = CHR ''Y'' then Some tri_yes
          else if c = CHR ''m'' \<or> c = CHR ''M'' then Some tri_mod
          else if c = CHR ''n'' \<or> c = CHR ''N'' then Some tri_no
          else None)"

definition sym_string_valid :: "symbol_type \<Rightarrow> string \<Rightarrow> bool" where
  "sym_string_valid ty str =
     (case ty of
        S_STRING \<Rightarrow> True
      | S_INT \<Rightarrow> int_valid str
      | S_HEX \<Rightarrow> hex_valid str
      | S_BOOLEAN \<Rightarrow> tri_of_char str \<noteq> None
      | S_TRISTATE \<Rightarrow> tri_of_char str \<noteq> None
      | S_UNKNOWN \<Rightarrow> False)"

definition number_within_range :: "calc \<Rightarrow> symbol \<Rightarrow> nat \<Rightarrow> string \<Rightarrow> kstate \<Rightarrow> (bool \<times> kstate) option" where
  "number_within_range rec s base str st =
     (if \<not> sym_string_valid (ks_type (sym_at st s)) str then Some (False, st)
      else do {
        (p, st) \<leftarrow> sym_get_range_prop rec s st;
        case p of
          None \<Rightarrow> Some (True, st)
        | Some i \<Rightarrow>
            (case p_expr (prop_at st s i) of
               Some (E_RANGE lo hi) \<Rightarrow> do {
                 (l, st) \<leftarrow> sym_get_range_val rec lo base st;
                 if strtoll base str \<ge> l then do {
                   (h, st) \<leftarrow> sym_get_range_val rec hi base st;
                   Some (strtoll base str \<le> h, st) }
                 else Some (False, st) }
             | _ \<Rightarrow> None) })"

definition sym_string_within_range :: "calc \<Rightarrow> symbol \<Rightarrow> string \<Rightarrow> kstate \<Rightarrow> (bool \<times> kstate) option" where
  "sym_string_within_range rec s str st =
     (case ks_type (sym_at st s) of
        S_STRING \<Rightarrow> Some (sym_string_valid S_STRING str, st)
      | S_INT \<Rightarrow> number_within_range rec s 10 str st
      | S_HEX \<Rightarrow> number_within_range rec s 16 str st
      | S_UNKNOWN \<Rightarrow> Some (False, st)
      | _ \<Rightarrow> Some (case tri_of_char str of None \<Rightarrow> False | Some v \<Rightarrow> sym_tristate_within_range st s v, st))"

definition sym_set_string_value :: "calc \<Rightarrow> symbol \<Rightarrow> string \<Rightarrow> kstate \<Rightarrow> (bool \<times> kstate) option" where
  "sym_set_string_value rec s newval st =
     (if ks_type (sym_at st s) = S_BOOLEAN \<or> ks_type (sym_at st s) = S_TRISTATE
      then (case tri_of_char newval of
              None \<Rightarrow> Some (False, st)
            | Some v \<Rightarrow> sym_set_tristate_value rec s v st)
      else do {
        (ok, st) \<leftarrow> sym_string_within_range rec s newval st;
        if \<not> ok then Some (False, st)
        else do {
          let st = (if sym_has_value st s then st else sym_set_changed s (set_flag s SYMBOL_DEF_USER st));
          let oldval = user_val (sym_at st s);
          let add_prefix = (ks_type (sym_at st s) = S_HEX \<and> \<not> has_hex_prefix newval);
          if \<not> add_prefix \<and> oldval \<noteq> V_null \<and> val_str oldval = newval then Some (True, st)
          else do {
            let str = (if add_prefix then ''0x'' @ newval else newval);
            st \<leftarrow> sym_clear_all_valid rec (upd_sym s (\<lambda>k. k\<lparr>user_val := V_str str\<rparr>) st);
            Some (True, st) } } })"

definition default_tri :: "kstate \<Rightarrow> symbol \<Rightarrow> tristate \<Rightarrow> tristate option" where
  "default_tri st s v =
     do {
       let v = EXPR_OR v (rev_dep_tri (sym_at st s));
       v \<leftarrow> (if v = tri_mod \<and> \<not> sym_is_choice_value st s
            then do { m \<leftarrow> modules_sym st; Some (if ks_tri (sym_at st m) = tri_no then tri_yes else v) }
            else Some v);
       let v = (if ks_type (sym_at st s) = S_BOOLEAN \<and> v = tri_mod then tri_yes else v);
       Some (if v < implied_tri (sym_at st s) then implied_tri (sym_at st s) else v) }"

definition sym_get_string_default :: "calc \<Rightarrow> symbol \<Rightarrow> kstate \<Rightarrow> (string \<times> kstate) option" where
  "sym_get_string_default rec s st =
     do {
       st \<leftarrow> sym_calc_visibility rec s st;
       st \<leftarrow> (case modules_sym st of None \<Rightarrow> Some st | Some m \<Rightarrow> rec st m);
       (p, st) \<leftarrow> sym_get_default_prop rec s st;
       let tri_type = (ks_type (sym_at st s) = S_BOOLEAN \<or> ks_type (sym_at st s) = S_TRISTATE);
       (v, str, st) \<leftarrow>
         (case p of
            None \<Rightarrow> Some (tri_no, [], st)
          | Some i \<Rightarrow>
              if tri_type then do { (v, st) \<leftarrow> and_visible rec s i st; Some (v, [], st) }
              else
                (case prop_get_symbol (prop_at st s i) of
                   None \<Rightarrow> Some (tri_no, [], st)
                 | Some ds \<Rightarrow> do { st \<leftarrow> rec st ds; Some (tri_no, val_str (ks_val (sym_at st ds)), st) }));
       v \<leftarrow> default_tri st s v;
       Some (if tri_type then tri_string v else if ks_type (sym_at st s) = S_UNKNOWN then [] else str, st) }"

definition sym_is_changeable :: "kstate \<Rightarrow> symbol \<Rightarrow> bool" where
  "sym_is_changeable st s \<longleftrightarrow> ks_visible (sym_at st s) > rev_dep_tri (sym_at st s)"

subsection \<open>The symbol table\<close>

text \<open>The hash works on \<open>unsigned\<close>; the character it mixes in is a signed \<open>char\<close>, so it is sign extended.\<close>

definition strhash :: "string \<Rightarrow> 32 word" where
  "strhash str = foldl (\<lambda>h c. (xor h (scast (of_char c :: 8 word))) * 0x01000193) 2166136261 str"

definition sym_bucket :: "string \<Rightarrow> nat" where
  "sym_bucket name = unat (strhash name mod 9973)"

definition const_symbol :: "string \<Rightarrow> symbol option" where
  "const_symbol name =
     (if name = ''y'' then Some symbol_yes
      else if name = ''m'' then Some symbol_mod
      else if name = ''n'' then Some symbol_no
      else None)"

definition lookup_match :: "kstate \<Rightarrow> string \<Rightarrow> sym_flag set \<Rightarrow> symbol \<Rightarrow> bool" where
  "lookup_match st name flags s \<longleftrightarrow>
     ks_name (sym_at st s) = Some name \<and>
     (if flags \<noteq> {} then ks_flags (sym_at st s) \<inter> flags \<noteq> {}
      else ks_flags (sym_at st s) \<inter> {SYMBOL_CONST, SYMBOL_CHOICE} = {})"

definition new_symbol :: "string option \<Rightarrow> sym_flag set \<Rightarrow> ksym" where
  "new_symbol name flags =
     \<lparr>ks_name = name, ks_type = S_UNKNOWN, ks_val = V_null, ks_tri = tri_no, user_val = V_null, user_tri = tri_no,
      auto_val = V_null, auto_tri = tri_no, ks_visible = tri_no, ks_flags = flags, ks_props = [],
      dir_dep = None, dir_dep_tri = tri_no, rev_dep = None, rev_dep_tri = tri_no,
      implied = None, implied_tri = tri_no\<rparr>"

text \<open>The memory at the start of the program: the three constants, and no other symbols.\<close>

definition const_ksym :: "string \<Rightarrow> tristate \<Rightarrow> ksym" where
  "const_ksym name t =
     (new_symbol (Some name) {SYMBOL_CONST, SYMBOL_VALID})\<lparr>ks_type := S_TRISTATE, ks_val := V_str name, ks_tri := t\<rparr>"

fun initial_syms :: "symbol \<Rightarrow> ksym" where
  "initial_syms symbol_yes = const_ksym ''y'' tri_yes"
| "initial_syms symbol_mod = const_ksym ''m'' tri_mod"
| "initial_syms symbol_no = const_ksym ''n'' tri_no"
| "initial_syms (Sym i) = new_symbol None {}"

definition initial_state :: "(symval \<Rightarrow> symval \<Rightarrow> bool) \<Rightarrow> kstate" where
  "initial_state same =
     \<lparr>st_syms = initial_syms, symbol_hash = (\<lambda>_. []), next_sym = 0, modules_sym = None, modules_val = tri_no,
      menu_changed = {}, conf_changed = False, messages = [], same_object = same\<rparr>"

definition add_symbol :: "string option \<Rightarrow> sym_flag set \<Rightarrow> nat \<Rightarrow> kstate \<Rightarrow> symbol \<times> kstate" where
  "add_symbol name flags b st =
     (Sym (next_sym st),
      st\<lparr>st_syms := (st_syms st)(Sym (next_sym st) := new_symbol name flags),
         symbol_hash := (symbol_hash st)(b := next_sym st # symbol_hash st b),
         next_sym := next_sym st + 1\<rparr>)"

definition sym_lookup :: "string option \<Rightarrow> sym_flag set \<Rightarrow> kstate \<Rightarrow> symbol \<times> kstate" where
  "sym_lookup name flags st =
     (case name of
        None \<Rightarrow> add_symbol None flags 0 st
      | Some nm \<Rightarrow>
          (case const_symbol nm of
             Some s \<Rightarrow> (s, st)
           | None \<Rightarrow>
               (case find (lookup_match st nm flags) (map Sym (symbol_hash st (sym_bucket nm))) of
                  Some s \<Rightarrow> (s, st)
                | None \<Rightarrow> add_symbol (Some nm) flags (sym_bucket nm) st)))"

definition sym_find :: "string option \<Rightarrow> kstate \<Rightarrow> symbol option" where
  "sym_find name st =
     (case name of
        None \<Rightarrow> None
      | Some nm \<Rightarrow>
          (case const_symbol nm of
             Some s \<Rightarrow> Some s
           | None \<Rightarrow>
               find (\<lambda>s. ks_name (sym_at st s) = Some nm \<and> \<not> has_flag st s SYMBOL_CONST)
                 (map Sym (symbol_hash st (sym_bucket nm)))))"

subsection \<open>Searching by a regular expression\<close>

record sym_match =
  m_sym :: symbol
  m_so :: int
  m_eo :: int

definition name_of :: "kstate \<Rightarrow> symbol \<Rightarrow> string" where
  "name_of st s = (case ks_name (sym_at st s) of Some n \<Rightarrow> n | None \<Rightarrow> [])"

definition sym_rel_comp :: "kstate \<Rightarrow> sym_match \<Rightarrow> sym_match \<Rightarrow> int" where
  "sym_rel_comp st s1 s2 =
     (let n1 = name_of st (m_sym s1);
          n2 = name_of st (m_sym s2);
          exact1 = (m_eo s1 - m_so s1 = int (length n1));
          exact2 = (m_eo s2 - m_so s2 = int (length n2))
      in if exact1 \<and> \<not> exact2 then -1
         else if \<not> exact1 \<and> exact2 then 1
         else strcmp n1 n2)"

text \<open>
  The matcher and the allocator belong to the C library: \<open>regexec\<close> gives the span of the first match,
  \<open>realloc_ok\<close> tells for every size whether the allocation succeeds.  The result \<open>None\<close> in the inner
  option is a failed allocation.
\<close>

fun collect_matches :: "calc \<Rightarrow> (string \<Rightarrow> (int \<times> int) option) \<Rightarrow> (nat \<Rightarrow> bool) \<Rightarrow> symbol list \<Rightarrow> nat \<Rightarrow>
    sym_match list \<Rightarrow> kstate \<Rightarrow> (sym_match list option \<times> kstate) option" where
  "collect_matches rec regexec realloc_ok [] cap ms st = Some (Some ms, st)"
| "collect_matches rec regexec realloc_ok (s # ss) cap ms st =
     (case (if has_flag st s SYMBOL_CONST then None else ks_name (sym_at st s)) of
        None \<Rightarrow> collect_matches rec regexec realloc_ok ss cap ms st
      | Some nm \<Rightarrow>
          (case regexec nm of
             None \<Rightarrow> collect_matches rec regexec realloc_ok ss cap ms st
           | Some (so, eo) \<Rightarrow>
               let cap' = (if length ms \<ge> cap then cap + 16 else cap) in
               if cap' \<noteq> cap \<and> \<not> realloc_ok cap' then Some (None, st)
               else do {
                 st \<leftarrow> rec st s;
                 collect_matches rec regexec realloc_ok ss cap'
                   (ms @ [\<lparr>m_sym = s, m_so = so, m_eo = eo\<rparr>]) st }))"

definition sym_re_search :: "calc \<Rightarrow> (string \<Rightarrow> (string \<Rightarrow> (int \<times> int) option) option) \<Rightarrow>
    ((sym_match \<Rightarrow> sym_match \<Rightarrow> int) \<Rightarrow> sym_match list \<Rightarrow> sym_match list) \<Rightarrow> (nat \<Rightarrow> bool) \<Rightarrow> string \<Rightarrow>
    kstate \<Rightarrow> (symbol list option \<times> kstate) option" where
  "sym_re_search rec regcomp qsort alloc_ok pattern st =
     (if pattern = [] then Some (None, st)
      else
        case regcomp pattern of
          None \<Rightarrow> Some (None, st)
        | Some regexec \<Rightarrow> do {
            (ms, st) \<leftarrow> collect_matches rec regexec alloc_ok (all_symbols st) 0 [] st;
            Some (case ms of
                    None \<Rightarrow> None
                  | Some ms \<Rightarrow>
                      if ms = [] \<or> \<not> alloc_ok (length ms + 1) then None
                      else Some (map m_sym (qsort (sym_rel_comp st) ms)), st) })"

subsection \<open>The check for recursive dependencies\<close>

text \<open>
  The result is the symbol at which a cycle was met.  The stack of the check only feeds the report of
  \<open>sym_check_print_recursive\<close> and is left out.
\<close>

type_synonym check = "kstate \<Rightarrow> symbol \<Rightarrow> (symbol option \<times> kstate) option"

fun sym_check_expr_deps :: "check \<Rightarrow> expr \<Rightarrow> kstate \<Rightarrow> (symbol option \<times> kstate) option" where
  "sym_check_expr_deps rec (E_OR a b) st =
     do { (r, st) \<leftarrow> sym_check_expr_deps rec a st;
          if r \<noteq> None then Some (r, st) else sym_check_expr_deps rec b st }"
| "sym_check_expr_deps rec (E_AND a b) st =
     do { (r, st) \<leftarrow> sym_check_expr_deps rec a st;
          if r \<noteq> None then Some (r, st) else sym_check_expr_deps rec b st }"
| "sym_check_expr_deps rec (E_NOT a) st = sym_check_expr_deps rec a st"
| "sym_check_expr_deps rec (E_COMP c a b) st =
     do { (r, st) \<leftarrow> rec st a; if r \<noteq> None then Some (r, st) else rec st b }"
| "sym_check_expr_deps rec (E_SYMBOL a) st = rec st a"

definition check_opt :: "check \<Rightarrow> expr option \<Rightarrow> kstate \<Rightarrow> (symbol option \<times> kstate) option" where
  "check_opt rec e st = (case e of None \<Rightarrow> Some (None, st) | Some t \<Rightarrow> sym_check_expr_deps rec t st)"

text \<open>A list or a range is reported on the error stream and has no dependencies.\<close>

definition check_node :: "check \<Rightarrow> expr_node option \<Rightarrow> kstate \<Rightarrow> (symbol option \<times> kstate) option" where
  "check_node rec e st = (case e of Some (Node t) \<Rightarrow> sym_check_expr_deps rec t st | _ \<Rightarrow> Some (None, st))"

fun check_props :: "check \<Rightarrow> symbol \<Rightarrow> property list \<Rightarrow> kstate \<Rightarrow> (symbol option \<times> kstate) option" where
  "check_props rec s [] st = Some (None, st)"
| "check_props rec s (p # ps) st =
     (if p_type p = P_CHOICE \<or> p_type p = P_SELECT \<or> p_type p = P_IMPLY then check_props rec s ps st
      else do {
        (r, st) \<leftarrow> check_opt rec (p_vis_expr p) st;
        if r \<noteq> None then Some (r, st)
        else if p_type p \<noteq> P_DEFAULT \<or> sym_is_choice st s then check_props rec s ps st
        else do {
          (r, st) \<leftarrow> check_node rec (p_expr p) st;
          if r \<noteq> None then Some (r, st) else check_props rec s ps st } })"

definition sym_check_sym_deps :: "check \<Rightarrow> symbol \<Rightarrow> kstate \<Rightarrow> (symbol option \<times> kstate) option" where
  "sym_check_sym_deps rec s st =
     do {
       (r, st) \<leftarrow> check_opt rec (dir_dep (sym_at st s)) st;
       if r \<noteq> None then Some (r, st)
       else do {
         (r, st) \<leftarrow> check_opt rec (rev_dep (sym_at st s)) st;
         if r \<noteq> None then Some (r, st)
         else do {
           (r, st) \<leftarrow> check_opt rec (implied (sym_at st s)) st;
           if r \<noteq> None then Some (r, st) else check_props rec s (ks_props (sym_at st s)) st } } }"

fun check_values :: "check \<Rightarrow> symbol list \<Rightarrow> kstate \<Rightarrow> (symbol option \<times> kstate) option" where
  "check_values rec [] st = Some (None, st)"
| "check_values rec (v # vs) st =
     do { (r, st) \<leftarrow> sym_check_sym_deps rec v st; if r \<noteq> None then Some (r, st) else check_values rec vs st }"

definition mark :: "symbol \<Rightarrow> kstate \<Rightarrow> kstate" where
  "mark s st = set_flag s SYMBOL_CHECKED (set_flag s SYMBOL_CHECK st)"

definition sym_check_choice_deps :: "check \<Rightarrow> symbol \<Rightarrow> kstate \<Rightarrow> (symbol option \<times> kstate) option" where
  "sym_check_choice_deps rec choice st =
     do {
       vs \<leftarrow> choice_values st choice;
       (r, st) \<leftarrow> sym_check_sym_deps rec choice (mark choice (fold mark vs st));
       let st = clear_flag choice SYMBOL_CHECK st;
       (r, st) \<leftarrow> (if r \<noteq> None then Some (r, st) else check_values rec vs st);
       let st = fold (\<lambda>v. clear_flag v SYMBOL_CHECK) vs st;
       case r of
         None \<Rightarrow> Some (None, st)
       | Some s2 \<Rightarrow>
           if sym_is_choice_value st s2
           then do { p \<leftarrow> sym_get_choice_prop st s2;
                     Some (if prop_get_symbol p = Some choice then Some choice else r, st) }
           else Some (r, st) }"

fun sym_check_deps :: "nat \<Rightarrow> kstate \<Rightarrow> symbol \<Rightarrow> (symbol option \<times> kstate) option" where
  "sym_check_deps 0 st s = None"
| "sym_check_deps (Suc n) st s =
     (if has_flag st s SYMBOL_CHECK then Some (Some s, st)
      else if has_flag st s SYMBOL_CHECKED then Some (None, st)
      else if sym_is_choice_value st s
      then do { c \<leftarrow> choice_of st s; sym_check_deps n st c }
      else if sym_is_choice st s then sym_check_choice_deps (sym_check_deps n) s st
      else do {
        (r, st) \<leftarrow> sym_check_sym_deps (sym_check_deps n) s (mark s st);
        Some (r, clear_flag s SYMBOL_CHECK st) })"

end
