(* ===== verification/Kconfig_Symbol_Steps.thy ===== *)
theory Kconfig_Symbol_Steps
  imports Kconfig_Symbol
begin

text \<open>
  Calculating a symbol as a sequence of small steps.

  \<open>calculates\<close> relates the memory before and after one call of \<open>sym_calc_value\<close>, \<open>works s\<close> the
  memory before and after a part of the work such a call does on the symbol \<open>s\<close>. The steps are
  nested calls, changes of the bookkeeping (visibilities, dependencies, flags), a new value, and the
  changes of the flags \<open>SYMBOL_VALID\<close> and \<open>SYMBOL_NEED_SET_CHOICE_VALUES\<close>. The locale
  \<open>calculation\<close> says what the recursive call promises, and inside it every function of the
  calculation is shown to be such a sequence. What the calculation keeps is then shown by
  induction over the steps.
\<close>

subsection \<open>Steps\<close>

definition prop_decl :: "property \<Rightarrow> prop_type \<times> string option \<times> expr option \<times> expr_node option \<times> nat option" where
  "prop_decl p = (p_type p, p_text p, p_vis_expr p, p_expr p, p_menu p)"

text \<open>What a symbol declares, and no calculation changes.\<close>

record decl =
  d_name :: "string option"
  d_type :: symbol_type
  d_flags :: "sym_flag set"
  d_props :: "(prop_type \<times> string option \<times> expr option \<times> expr_node option \<times> nat option) list"
  d_deps :: "expr option list"
  d_user :: symval

definition decl_of :: "ksym \<Rightarrow> decl" where
  "decl_of k =
     \<lparr>d_name = ks_name k, d_type = ks_type k,
      d_flags = ks_flags k \<inter> {SYMBOL_CONST, SYMBOL_CHOICE, SYMBOL_CHOICEVAL, SYMBOL_OPTIONAL, SYMBOL_NO_WRITE, SYMBOL_WRITTEN},
      d_props = map prop_decl (ks_props k), d_deps = [dir_dep k, rev_dep k, implied k], d_user = user_val k\<rparr>"

definition meta_step :: "ksym \<Rightarrow> ksym \<Rightarrow> bool" where
  "meta_step k k' \<longleftrightarrow>
     decl_of k' = decl_of k \<and> ks_val k' = ks_val k \<and> ks_tri k' = ks_tri k \<and>
     ks_flags k' \<inter> {SYMBOL_VALID, SYMBOL_NEED_SET_CHOICE_VALUES} =
       ks_flags k \<inter> {SYMBOL_VALID, SYMBOL_NEED_SET_CHOICE_VALUES} \<and>
     (rev_dep k = None \<and> rev_dep_tri k = tri_no \<longrightarrow> rev_dep_tri k' = tri_no)"

definition same_tables :: "kstate \<Rightarrow> kstate \<Rightarrow> bool" where
  "same_tables st st' \<longleftrightarrow>
     symbol_hash st' = symbol_hash st \<and> next_sym st' = next_sym st \<and> modules_sym st' = modules_sym st \<and>
     conf_changed st' = conf_changed st \<and> same_object st' = same_object st"

fun tri_fits :: "symbol_type \<Rightarrow> tristate \<Rightarrow> bool" where
  "tri_fits S_TRISTATE t = True"
| "tri_fits S_BOOLEAN t = (t \<noteq> tri_mod)"
| "tri_fits _ t = (t = tri_no)"

lemma tri_fits_no [simp]: "tri_fits ty tri_no"
  by (cases ty) auto

inductive calculates :: "kstate \<Rightarrow> kstate \<Rightarrow> bool"
  and works :: "symbol \<Rightarrow> kstate \<Rightarrow> kstate \<Rightarrow> bool"
where
  calc_valid: "has_flag st s SYMBOL_VALID \<Longrightarrow> calculates st st"
| calc_symbol: "\<not> has_flag st s SYMBOL_VALID \<Longrightarrow> works s st st' \<Longrightarrow> calculates st st'"
| works_refl: "works s st st"
| works_trans: "works s st st1 \<Longrightarrow> works s st1 st2 \<Longrightarrow> works s st st2"
| works_call: "calculates st st' \<Longrightarrow> works s st st'"
| works_meta: "(\<And>t. meta_step (sym_at st t) (sym_at st' t)) \<Longrightarrow> same_tables st st' \<Longrightarrow>
    modules_val st' = modules_val st \<Longrightarrow> works s st st'"
| works_modules: "modules_sym st = Some s \<Longrightarrow> works s st (st\<lparr>modules_val := ks_tri (sym_at st s)\<rparr>)"
| works_curr: "t = ks_tri (sym_at st s) \<or> tri_fits (ks_type (sym_at st s)) t \<Longrightarrow> works s st (set_curr s v t st)"
| works_valid: "works s st (set_flag s SYMBOL_VALID st)"
| works_need: "has_flag st s SYMBOL_NEED_SET_CHOICE_VALUES \<Longrightarrow>
    works s st (clear_flag s SYMBOL_NEED_SET_CHOICE_VALUES st)"
| works_redo: "has_flag st s SYMBOL_NEED_SET_CHOICE_VALUES \<Longrightarrow>
    works s st (clear_flag s SYMBOL_NEED_SET_CHOICE_VALUES (clear_flag s SYMBOL_VALID st))"

lemma sym_at_upd [simp]: "sym_at (upd_sym s f st) t = (if t = s then f (sym_at st s) else sym_at st t)"
  by (simp add: upd_sym_def)

lemma upd_sym_tables [simp]:
  "symbol_hash (upd_sym s f st) = symbol_hash st" "next_sym (upd_sym s f st) = next_sym st"
  "modules_sym (upd_sym s f st) = modules_sym st" "modules_val (upd_sym s f st) = modules_val st"
  "menu_changed (upd_sym s f st) = menu_changed st" "conf_changed (upd_sym s f st) = conf_changed st"
  "messages (upd_sym s f st) = messages st" "same_object (upd_sym s f st) = same_object st"
  by (simp_all add: upd_sym_def)

lemma meta_refl [simp]: "meta_step k k"
  by (simp add: meta_step_def)

lemma meta_trans: "meta_step k1 k2 \<Longrightarrow> meta_step k2 k3 \<Longrightarrow> meta_step k1 k3"
  unfolding meta_step_def decl_of_def by simp

lemma same_tables_refl [simp]: "same_tables st st"
  by (simp add: same_tables_def)

lemma same_tables_trans: "same_tables st1 st2 \<Longrightarrow> same_tables st2 st3 \<Longrightarrow> same_tables st1 st3"
  by (simp add: same_tables_def)

lemma works_upd: "meta_step (sym_at st t) (f (sym_at st t)) \<Longrightarrow> works s st (upd_sym t f st)"
  by (rule works_meta) (simp_all add: same_tables_def)

lemma works_set_flag:
  "f \<in> {SYMBOL_WRITE, SYMBOL_CHANGED, SYMBOL_DEF_USER} \<Longrightarrow> works s st (set_flag t f st)"
  unfolding set_flag_def by (rule works_upd) (auto simp: meta_step_def decl_of_def)

lemma works_clear_write: "works s st (clear_flag t SYMBOL_WRITE st)"
  unfolding clear_flag_def by (rule works_upd) (auto simp: meta_step_def decl_of_def)

lemma works_set_changed: "works s st (sym_set_changed t st)"
  unfolding sym_set_changed_def set_flag_def
  by (rule works_meta) (auto simp: meta_step_def decl_of_def same_tables_def)

lemma works_message: "works s st (st\<lparr>messages := m\<rparr>)"
  by (rule works_meta) (simp_all add: same_tables_def)

lemma prop_decl_visible: "map prop_decl (ps[i := (ps ! i)\<lparr>p_vis_tri := v\<rparr>]) = map prop_decl ps"
proof (cases "i < length ps")
  case True
  have "prop_decl ((ps ! i)\<lparr>p_vis_tri := v\<rparr>) = map prop_decl ps ! i"
    using True by (simp add: prop_decl_def)
  then show ?thesis by (simp add: map_update)
qed (simp add: list_update_beyond)

lemma works_prop_visible: "works s st (set_prop_visible t i v st)"
  unfolding set_prop_visible_def
  by (rule works_upd) (simp add: meta_step_def decl_of_def prop_decl_visible)

lemma works_fold:
  assumes "\<And>x st. x \<in> set xs \<Longrightarrow> works s st (f x st)"
  shows "works s st (fold f xs st)"
  using assms by (induction xs arbitrary: st) (auto intro: works_refl works_trans)

lemmas works_prims = works_refl works_set_flag works_clear_write works_set_changed works_message
  works_prop_visible works_valid

lemma works_all_changed: "works s st (sym_set_all_changed st)"
  unfolding sym_set_all_changed_def by (rule works_fold) (rule works_set_changed)

subsection \<open>Declarations stay\<close>

definition same_decls_st :: "kstate \<Rightarrow> kstate \<Rightarrow> bool" where
  "same_decls_st st st' \<longleftrightarrow> same_tables st st' \<and> (\<forall>t. decl_of (sym_at st' t) = decl_of (sym_at st t))"

lemma same_decls_refl [simp]: "same_decls_st st st"
  by (simp add: same_decls_st_def)

lemma same_decls_trans: "same_decls_st st1 st2 \<Longrightarrow> same_decls_st st2 st3 \<Longrightarrow> same_decls_st st1 st3"
  by (auto simp: same_decls_st_def intro: same_tables_trans)

lemma same_decls_upd: "decl_of (f (sym_at st s)) = decl_of (sym_at st s) \<Longrightarrow> same_decls_st st (upd_sym s f st)"
  by (simp add: same_decls_st_def same_tables_def)

lemma calculates_decls: "calculates st st' \<Longrightarrow> same_decls_st st st'"
  and works_decls: "works s st st' \<Longrightarrow> same_decls_st st st'"
proof (induction rule: calculates_works.inducts)
  case (works_trans s st st1 st2)
  then show ?case by (blast intro: same_decls_trans)
next
  case (works_redo st s)
  show ?case unfolding clear_flag_def
    by (rule same_decls_trans [OF same_decls_upd same_decls_upd]) (auto simp: decl_of_def)
qed (auto simp: same_decls_st_def same_tables_def meta_step_def set_curr_def set_flag_def clear_flag_def decl_of_def)

lemma works_same_decl: "works s st st' \<Longrightarrow> decl_of (sym_at st' t) = decl_of (sym_at st t)"
  using works_decls unfolding same_decls_st_def by blast

lemma decl_fields:
  assumes "decl_of k' = decl_of k"
  shows "ks_name k' = ks_name k" "ks_type k' = ks_type k" "length (ks_props k') = length (ks_props k)"
    "map prop_decl (ks_props k') = map prop_decl (ks_props k)"
    "dir_dep k' = dir_dep k" "rev_dep k' = rev_dep k" "implied k' = implied k" "user_val k' = user_val k"
    "SYMBOL_CHOICE \<in> ks_flags k' \<longleftrightarrow> SYMBOL_CHOICE \<in> ks_flags k"
    "SYMBOL_CHOICEVAL \<in> ks_flags k' \<longleftrightarrow> SYMBOL_CHOICEVAL \<in> ks_flags k"
    "SYMBOL_CONST \<in> ks_flags k' \<longleftrightarrow> SYMBOL_CONST \<in> ks_flags k"
  using assms by (auto simp: decl_of_def dest: map_eq_imp_length_eq)

subsection \<open>Declarations that make sense\<close>

fun expr_syms :: "expr \<Rightarrow> symbol set" where
  "expr_syms (E_OR a b) = expr_syms a \<union> expr_syms b"
| "expr_syms (E_AND a b) = expr_syms a \<union> expr_syms b"
| "expr_syms (E_NOT a) = expr_syms a"
| "expr_syms (E_COMP c a b) = {a, b}"
| "expr_syms (E_SYMBOL a) = {a}"

fun node_syms :: "expr_node option \<Rightarrow> symbol set" where
  "node_syms None = {}"
| "node_syms (Some (Node e)) = expr_syms e"
| "node_syms (Some (E_LIST ss)) = set ss"
| "node_syms (Some (E_RANGE lo hi)) = {lo, hi}"

definition opt_syms :: "expr option \<Rightarrow> symbol set" where
  "opt_syms e = node_syms (map_option Node e)"

text \<open>
  The parser and the menu code build symbols that refer to symbols of one set \<open>U\<close>. A range has
  two bounds. A value of a choice refers to its choice. A choice lists its values, and its defaults
  and the choice of the user are symbols.
\<close>

fun prop_ok :: "symbol set \<Rightarrow> bool \<Rightarrow> prop_type \<times> string option \<times> expr option \<times> expr_node option \<times> nat option \<Rightarrow> bool" where
  "prop_ok U choice (ty, txt, vis, e, m) \<longleftrightarrow>
     opt_syms vis \<subseteq> U \<and> node_syms e \<subseteq> U \<and>
     (ty = P_RANGE \<longrightarrow> (case e of Some (E_RANGE _ _) \<Rightarrow> True | _ \<Rightarrow> False)) \<and>
     (choice \<and> ty = P_DEFAULT \<longrightarrow> (case e of Some (Node (E_SYMBOL _)) \<Rightarrow> True | _ \<Rightarrow> False))"

definition sym_ok :: "symbol set \<Rightarrow> kstate \<Rightarrow> symbol \<Rightarrow> bool" where
  "sym_ok U st s \<longleftrightarrow>
     (\<forall>p \<in> set (ks_props (sym_at st s)). prop_ok U (sym_is_choice st s) (prop_decl p)) \<and>
     opt_syms (dir_dep (sym_at st s)) \<union> opt_syms (rev_dep (sym_at st s)) \<union> opt_syms (implied (sym_at st s)) \<subseteq> U \<and>
     (sym_is_choice_value st s \<longrightarrow> choice_of st s \<noteq> None) \<and>
     (sym_is_choice st s \<longrightarrow>
        choice_values st s \<noteq> None \<and> (case user_val (sym_at st s) of V_str _ \<Rightarrow> False | _ \<Rightarrow> True)) \<and>
     (rev_dep (sym_at st s) = None \<longrightarrow> rev_dep_tri (sym_at st s) = tri_no) \<and>
     (has_flag st s SYMBOL_NEED_SET_CHOICE_VALUES \<longrightarrow> sym_is_choice st s \<or> sym_is_choice_value st s)"

text \<open>The choice of a value and the values of a choice are part of the declarations.\<close>

lemma choice_values_prop:
  assumes "choice_values st t = Some vs"
  obtains p where "sym_get_choice_prop st t = Some p" "p_expr p = None \<and> vs = [] \<or> p_expr p = Some (E_LIST vs)"
proof -
  from assms obtain p where p: "sym_get_choice_prop st t = Some p"
    and vs: "(case p_expr p of None \<Rightarrow> Some [] | Some (E_LIST ss) \<Rightarrow> Some ss | _ \<Rightarrow> None) = Some vs"
    by (auto simp: choice_values_def bind_eq_Some_conv)
  from vs have "p_expr p = None \<and> vs = [] \<or> p_expr p = Some (E_LIST vs)"
    by (cases "p_expr p"; cases "the (p_expr p)") auto
  with p that show thesis by blast
qed

lemma find_choice_decl:
  "map prop_decl ps = map prop_decl ps' \<Longrightarrow>
     map_option prop_decl (find (\<lambda>p. p_type p = P_CHOICE) ps) = map_option prop_decl (find (\<lambda>p. p_type p = P_CHOICE) ps')"
proof (induction ps arbitrary: ps')
  case (Cons p ps)
  then obtain p' ps'' where "ps' = p' # ps''" by (cases ps') auto
  with Cons show ?case by (auto simp: prop_decl_def)
qed simp

lemma choice_prop_decl:
  assumes "decl_of (sym_at st' s) = decl_of (sym_at st s)"
  shows "map_option prop_decl (sym_get_choice_prop st' s) = map_option prop_decl (sym_get_choice_prop st s)"
  unfolding sym_get_choice_prop_def by (rule find_choice_decl) (rule decl_fields(4) [OF assms])

lemma choice_prop_fields:
  assumes "decl_of (sym_at st' s) = decl_of (sym_at st s)"
  shows "choice_of st' s = choice_of st s" "choice_values st' s = choice_values st s"
    "map_option prop_get_symbol (sym_get_choice_prop st' s) = map_option prop_get_symbol (sym_get_choice_prop st s)"
  using choice_prop_decl [OF assms]
  by (cases "sym_get_choice_prop st s"; cases "sym_get_choice_prop st' s";
      simp add: choice_of_def choice_values_def prop_decl_def prop_get_symbol_def)+

lemma steps_rev_dep:
  "(calculates st st' \<Longrightarrow> rev_dep (sym_at st t) = None \<and> rev_dep_tri (sym_at st t) = tri_no \<longrightarrow>
      rev_dep (sym_at st' t) = None \<and> rev_dep_tri (sym_at st' t) = tri_no)"
  "(works s st st' \<Longrightarrow> rev_dep (sym_at st t) = None \<and> rev_dep_tri (sym_at st t) = tri_no \<longrightarrow>
      rev_dep (sym_at st' t) = None \<and> rev_dep_tri (sym_at st' t) = tri_no)"
proof (induction rule: calculates_works.inducts)
  case (works_meta st st' s)
  then show ?case using decl_fields(6) [of "sym_at st' t" "sym_at st t"] by (auto simp: meta_step_def)
qed (auto simp: set_curr_def set_flag_def clear_flag_def)

lemma steps_need:
  "(calculates st st' \<Longrightarrow> has_flag st' t SYMBOL_NEED_SET_CHOICE_VALUES \<longrightarrow> has_flag st t SYMBOL_NEED_SET_CHOICE_VALUES)"
  "(works s st st' \<Longrightarrow> has_flag st' t SYMBOL_NEED_SET_CHOICE_VALUES \<longrightarrow> has_flag st t SYMBOL_NEED_SET_CHOICE_VALUES)"
proof (induction rule: calculates_works.inducts)
  case (works_meta st st' s)
  then show ?case unfolding meta_step_def by blast
qed (auto simp: set_curr_def set_flag_def clear_flag_def split: if_splits)

lemma sym_ok_works:
  assumes "works s st st'" and "sym_ok U st t"
  shows "sym_ok U st' t"
proof -
  note d = works_same_decl [OF assms(1), of t]
  have p: "prop_decl ` set (ks_props (sym_at st' t)) = prop_decl ` set (ks_props (sym_at st t))"
    using decl_fields(4) [OF d] by (metis list.set_map)
  have c: "sym_is_choice st' t = sym_is_choice st t" "sym_is_choice_value st' t = sym_is_choice_value st t"
    using decl_fields(9,10) [OF d] by (simp_all add: sym_is_choice_def sym_is_choice_value_def)
  have r: "rev_dep (sym_at st t) = None \<longrightarrow> rev_dep_tri (sym_at st' t) = tri_no"
    using steps_rev_dep(2) [OF assms(1), of t] assms(2) by (auto simp: sym_ok_def)
  have q: "\<forall>q \<in> prop_decl ` set (ks_props (sym_at st' t)). prop_ok U (sym_is_choice st t) q"
    using assms(2) unfolding p sym_ok_def by blast
  then show ?thesis
    using assms(2) r steps_need(2) [OF assms(1), of t] unfolding sym_ok_def c decl_fields [OF d] choice_prop_fields [OF d] by blast
qed

subsection \<open>Every function takes such steps\<close>

text \<open>
  The work on the symbol \<open>s\<close> that began at \<open>st0\<close>. The recursive call is a calculation; with \<open>must\<close>
  it also returns for the symbols of \<open>U\<close>, and then so does every function below.
\<close>

locale calculation =
  fixes rec :: calc and must :: bool and U :: "symbol set" and s :: symbol and st0 :: kstate
  assumes rec_returns: "works s st0 st \<Longrightarrow> (must \<Longrightarrow> t \<in> U) \<Longrightarrow> returns must (rec st t) (calculates st)"
    and declared: "must \<Longrightarrow> t \<in> U \<Longrightarrow> sym_ok U st0 t"
begin

lemma declared_later: "works s st0 st \<Longrightarrow> must \<Longrightarrow> t \<in> U \<Longrightarrow> sym_ok U st t"
  using declared sym_ok_works by blast

lemma call:
  assumes "works s st0 st" "must \<Longrightarrow> t \<in> U" "\<And>st'. works s st0 st' \<Longrightarrow> Q st'"
  shows "returns must (rec st t) Q"
  by (rule returns_mono [OF rec_returns [OF assms(1,2)]], assumption)
    (rule assms(3), rule works_trans [OF assms(1)], erule works_call)

lemma eval_expr_ret:
  assumes "works s st0 st" "must \<Longrightarrow> expr_syms e \<subseteq> U" "\<And>v st'. works s st0 st' \<Longrightarrow> Q (v, st')"
  shows "returns must (eval_expr rec e st) Q"
  using assms
proof (induction e arbitrary: st Q)
  case (E_OR a b)
  have a: "must \<Longrightarrow> expr_syms a \<subseteq> U" and b: "must \<Longrightarrow> expr_syms b \<subseteq> U" using E_OR.prems(2) by auto
  show ?case by (simp, rule E_OR.IH(1) [OF E_OR.prems(1) a], assumption)
      (simp, rule E_OR.IH(2) [OF _ b], assumption+, simp add: E_OR.prems(3))
next
  case (E_AND a b)
  have a: "must \<Longrightarrow> expr_syms a \<subseteq> U" and b: "must \<Longrightarrow> expr_syms b \<subseteq> U" using E_AND.prems(2) by auto
  show ?case by (simp, rule E_AND.IH(1) [OF E_AND.prems(1) a], assumption)
      (simp, rule E_AND.IH(2) [OF _ b], assumption+, simp add: E_AND.prems(3))
next
  case (E_NOT a)
  show ?case by (simp, rule E_NOT.IH [OF E_NOT.prems(1)]) (use E_NOT.prems in auto)
next
  case (E_COMP c a b)
  show ?case by (simp, rule call [OF E_COMP.prems(1)], use E_COMP.prems(2) in simp)
      (rule call, assumption, use E_COMP.prems(2,3) in simp_all)
next
  case (E_SYMBOL a)
  show ?case by (simp, rule call [OF E_SYMBOL.prems(1)]) (use E_SYMBOL.prems(2,3) in simp_all)
qed

lemma eval_dep_ret:
  assumes "works s st0 st" "must \<Longrightarrow> opt_syms e \<subseteq> U" "\<And>v st'. works s st0 st' \<Longrightarrow> Q (v, st')"
  shows "returns must (eval_dep rec e st) Q"
proof (cases e)
  case (Some t)
  have "returns must (eval_expr rec t st) Q"
    by (rule eval_expr_ret [OF assms(1)]) (use assms(2,3) in \<open>simp_all add: opt_syms_def Some\<close>)
  then show ?thesis by (simp add: eval_dep_def Some)
qed (simp add: eval_dep_def assms(1,3))

lemma eval_node_ret:
  assumes "works s st0 st" "must \<Longrightarrow> node_syms e \<subseteq> U" "\<And>v st'. works s st0 st' \<Longrightarrow> Q (v, st')"
  shows "returns must (eval_node rec e st) Q"
proof (cases "\<exists>t. e = Some (Node t)")
  case True
  then obtain t where t: "e = Some (Node t)" ..
  have "returns must (eval_expr rec t st) Q"
    by (rule eval_expr_ret [OF assms(1)]) (use assms(2,3) in \<open>simp_all add: t\<close>)
  then show ?thesis by (simp add: eval_node_def t)
next
  case False
  then show ?thesis using assms(1,3) by (auto simp: eval_node_def split: option.splits expr_node.splits)
qed

lemma props_ok:
  assumes "works s st0 st" "must" "t \<in> U" "i < length (ks_props (sym_at st t))"
  shows "prop_ok U (sym_is_choice st t) (prop_decl (ks_props (sym_at st t) ! i))"
  using declared_later [OF assms(1-3)] assms(4) by (simp add: sym_ok_def)

lemma prop_syms:
  assumes "works s st0 st" "must" "t \<in> U" "i < length (ks_props (sym_at st t))"
  shows "opt_syms (p_vis_expr (ks_props (sym_at st t) ! i)) \<subseteq> U" "node_syms (p_expr (ks_props (sym_at st t) ! i)) \<subseteq> U"
  using props_ok [OF assms] by (simp_all add: prop_decl_def)

lemma props_len: "works s st st' \<Longrightarrow> length (ks_props (sym_at st' t)) = length (ks_props (sym_at st t))"
  by (rule decl_fields(3)) (rule works_same_decl)

lemma prop_decl_at:
  assumes "works s st0 st" "works s st0 st'" "i < length (ks_props (sym_at st0 t))"
  shows "prop_decl (prop_at st' t i) = prop_decl (prop_at st t i)"
proof -
  have "prop_decl (prop_at st1 t i) = map prop_decl (ks_props (sym_at st0 t)) ! i" if "works s st0 st1" for st1
    using decl_fields(4) [OF works_same_decl [OF that]] props_len [OF that, of t] assms(3)
    unfolding prop_at_def by (metis nth_map)
  then show ?thesis using assms by simp
qed

lemma first_visible_ret:
  assumes "works s st0 st" "must \<Longrightarrow> t \<in> U" "\<forall>i \<in> set is. i < length (ks_props (sym_at st0 t))"
    and "\<And>r st'. works s st0 st' \<Longrightarrow> (\<And>i. r = Some i \<Longrightarrow> i \<in> set is \<and> p_type (prop_at st' t i) = ty) \<Longrightarrow> Q (r, st')"
  shows "returns must (first_visible rec t ty is st) Q"
  using assms
proof (induction "is" arbitrary: st)
  case (Cons i "is")
  have len: "i < length (ks_props (sym_at st t))"
    using Cons.prems(3) props_len [OF Cons.prems(1), of t] by simp
  show ?case
  proof (cases "p_type (ks_props (sym_at st t) ! i) = ty")
    case True
    have next_ret: "returns must (if v \<noteq> tri_no then Some (Some i, set_prop_visible t i v st1)
        else first_visible rec t ty is (set_prop_visible t i v st1)) Q" if w: "works s st0 st1" for v st1
    proof -
      have w1: "works s st0 (set_prop_visible t i v st1)"
        using w works_prop_visible by (rule works_trans)
      have "p_type (prop_at (set_prop_visible t i v st1) t i) = ty"
        using prop_decl_at [OF Cons.prems(1) w1, of i t] Cons.prems(3) True by (simp add: prop_decl_def prop_at_def)
      moreover have "returns must (first_visible rec t ty is (set_prop_visible t i v st1)) Q"
        by (rule Cons.IH [OF w1]) (use Cons.prems in auto)
      ultimately show ?thesis using Cons.prems(4) [OF w1, of "Some i"] by auto
    qed
    show ?thesis
      using True by (simp add: Let_def, intro eval_dep_ret [OF Cons.prems(1)])
        (simp_all add: prop_syms(1) [OF Cons.prems(1) _ _ len] Cons.prems(2) next_ret)
  next
    case False
    have "returns must (first_visible rec t ty is st) Q"
      by (rule Cons.IH) (use Cons.prems in auto)
    with False show ?thesis by simp
  qed
qed (auto intro!: assms(4))

lemma indices_len: "works s st0 st \<Longrightarrow> i \<in> set (prop_indices st t) \<Longrightarrow> i < length (ks_props (sym_at st0 t))"
  by (simp add: prop_indices_def props_len)

lemma default_prop_ret:
  assumes "works s st0 st" "must \<Longrightarrow> t \<in> U"
    and "\<And>r st'. works s st0 st' \<Longrightarrow> (\<And>i. r = Some i \<Longrightarrow> i < length (ks_props (sym_at st' t))) \<Longrightarrow> Q (r, st')"
  shows "returns must (sym_get_default_prop rec t st) Q"
  unfolding sym_get_default_prop_def
  by (rule first_visible_ret [OF assms(1,2)], assumption, simp add: indices_len [OF assms(1)])
    (rule assms(3), assumption, use indices_len [OF assms(1)] props_len in force)

lemma range_prop_ret:
  assumes "works s st0 st" "must \<Longrightarrow> t \<in> U"
    and "\<And>r st'. works s st0 st' \<Longrightarrow>
      (\<And>i. r = Some i \<Longrightarrow> i < length (ks_props (sym_at st' t)) \<and> p_type (prop_at st' t i) = P_RANGE) \<Longrightarrow> Q (r, st')"
  shows "returns must (sym_get_range_prop rec t st) Q"
  unfolding sym_get_range_prop_def
  by (rule first_visible_ret [OF assms(1,2)], assumption, simp add: indices_len [OF assms(1)])
    (rule assms(3), assumption, use indices_len [OF assms(1)] props_len in force)

lemma range_val_ret:
  assumes "works s st0 st" "must \<Longrightarrow> t \<in> U" "\<And>r st'. works s st0 st' \<Longrightarrow> Q (r, st')"
  shows "returns must (sym_get_range_val rec t b st) Q"
  unfolding sym_get_range_val_def by (simp, rule call [OF assms(1,2)]) (simp_all add: assms(3))

lemma works_set_val: "works s st0 st \<Longrightarrow> works s st0 (upd_sym s (\<lambda>k. k\<lparr>ks_val := v\<rparr>) st)"
proof -
  have "upd_sym s (\<lambda>k. k\<lparr>ks_val := v\<rparr>) st = set_curr s v (ks_tri (sym_at st s)) st"
    by (simp add: set_curr_def upd_sym_def)
  then show "works s st0 st \<Longrightarrow> ?thesis" by (auto intro: works_trans works_curr)
qed

lemma range_of_prop:
  assumes "works s st0 st" "must" "t \<in> U" "i < length (ks_props (sym_at st t))" "p_type (prop_at st t i) = P_RANGE"
  shows "\<exists>lo hi. p_expr (prop_at st t i) = Some (E_RANGE lo hi) \<and> lo \<in> U \<and> hi \<in> U"
  using props_ok [OF assms(1-4)] assms(5)
  by (auto simp: prop_decl_def prop_at_def split: option.splits expr_node.splits)

lemma validate_range_ret:
  assumes "works s st0 st" "must \<Longrightarrow> s \<in> U" "\<And>st'. works s st0 st' \<Longrightarrow> Q st'"
  shows "returns must (sym_validate_range rec s st) Q"
proof (cases "ks_type (sym_at st s) \<noteq> S_INT \<and> ks_type (sym_at st s) \<noteq> S_HEX")
  case False
  have bounds: "returns must
      (do { (val2, st) \<leftarrow> sym_get_range_val rec lo b st1;
            if val \<ge> val2 then do {
              (val3, st) \<leftarrow> sym_get_range_val rec hi b st;
              if val \<le> val3 then Some st else Some (upd_sym s (\<lambda>k. k\<lparr>ks_val := ks_val (sym_at st hi)\<rparr>) st) }
            else Some (upd_sym s (\<lambda>k. k\<lparr>ks_val := ks_val (sym_at st lo)\<rparr>) st) }) Q"
    if w: "works s st0 st1" and lohi: "must \<Longrightarrow> lo \<in> U \<and> hi \<in> U" for st1 lo hi b val
    using lohi by (simp, intro range_val_ret [OF w]) (auto intro!: returns_if range_val_ret assms(3) works_set_val)
  show ?thesis
    unfolding sym_validate_range_def if_not_P [OF False] returns_bind
  proof (rule range_prop_ret [OF assms(1,2)], assumption, simp only: prod.case)
    fix r st1
    assume w: "works s st0 st1"
      and r: "\<And>i. r = Some i \<Longrightarrow> i < length (ks_props (sym_at st1 s)) \<and> p_type (prop_at st1 s i) = P_RANGE"
    show "returns must (case r of None \<Rightarrow> Some st1 | Some i \<Rightarrow>
        (case p_expr (prop_at st1 s i) of
           Some (E_RANGE lo hi) \<Rightarrow>
             let base = num_base (ks_type (sym_at st1 s)) 0;
                 val = strtoll base (val_str (ks_val (sym_at st1 s)))
             in do {
               (val2, st) \<leftarrow> sym_get_range_val rec lo base st1;
               if val \<ge> val2 then do {
                 (val3, st) \<leftarrow> sym_get_range_val rec hi base st;
                 if val \<le> val3 then Some st
                 else Some (upd_sym s (\<lambda>k. k\<lparr>ks_val := ks_val (sym_at st hi)\<rparr>) st) }
               else Some (upd_sym s (\<lambda>k. k\<lparr>ks_val := ks_val (sym_at st lo)\<rparr>) st) }
         | _ \<Rightarrow> None)) Q"
    proof (cases r)
      case (Some i)
      have ex: "must \<Longrightarrow> \<exists>lo hi. p_expr (prop_at st1 s i) = Some (E_RANGE lo hi) \<and> lo \<in> U \<and> hi \<in> U"
        using range_of_prop [OF w _ assms(2)] r [OF Some] by blast
      show ?thesis
      proof (cases "\<exists>lo hi. p_expr (prop_at st1 s i) = Some (E_RANGE lo hi)")
        case True
        then obtain lo hi where e: "p_expr (prop_at st1 s i) = Some (E_RANGE lo hi)" by blast
        have "must \<Longrightarrow> lo \<in> U \<and> hi \<in> U" using ex e by auto
        then show ?thesis unfolding Some e Let_def option.case expr_node.case by (rule bounds [OF w])
      next
        case False
        then have "\<not> must" using ex by blast
        then show ?thesis using False unfolding Some by (auto split: option.splits expr_node.splits)
      qed
    qed (simp add: assms(3) w)
  qed
qed (simp add: sym_validate_range_def assms)

lemma prompts_ret:
  assumes "works s st0 st" "must \<Longrightarrow> t \<in> U" "\<forall>i \<in> set is. i < length (ks_props (sym_at st0 t))"
    and "\<And>v st'. works s st0 st' \<Longrightarrow> Q (v, st')"
  shows "returns must (prompts_visible rec t c is tri st) Q"
  using assms(1,3)
proof (induction "is" arbitrary: st tri)
  case (Cons i "is")
  have len: "i < length (ks_props (sym_at st t))"
    using Cons.prems(2) props_len [OF Cons.prems(1), of t] by simp
  have next_ret: "returns must (prompts_visible rec t c is tri' (set_prop_visible t i v st1)) Q" if "works s st0 st1" for tri' v st1
    by (rule Cons.IH, rule works_trans [OF that works_prop_visible]) (use Cons.prems(2) in simp)
  have "returns must (prompts_visible rec t c is tri st) Q"
    by (rule Cons.IH [OF Cons.prems(1)]) (use Cons.prems(2) in simp)
  then show ?case
    by (simp add: Let_def, intro impI eval_dep_ret [OF Cons.prems(1)])
      (simp_all add: prop_syms(1) [OF Cons.prems(1) _ _ len] assms(2) next_ret)
qed (simp add: assms(4))

lemma update_dep_ret:
  assumes w: "works s st0 st" and syms: "must \<Longrightarrow> opt_syms (dep (sym_at st t)) \<subseteq> U"
    and dflt: "dflt \<noteq> tri_mod"
    and same: "\<And>k k'. decl_of k' = decl_of k \<Longrightarrow> dep k' = dep k"
    and step: "\<And>k v. dep k \<noteq> None \<or> v = dflt \<Longrightarrow> meta_step k (set_tri v k)"
    and Q: "\<And>st'. works s st0 st' \<Longrightarrow> Q st'"
  shows "returns must (update_dep rec t dep dflt get_tri set_tri st) Q"
proof -
  have next_ret: "Q (sym_set_changed t (upd_sym t (set_tri v') st1)) \<and> Q st1"
    if w1: "works s st0 st1" and v: "dep (sym_at st t) \<noteq> None \<or> v' = dflt" for st1 v'
  proof -
    have "dep (sym_at st1 t) = dep (sym_at st t)"
      using same works_same_decl [OF w] works_same_decl [OF w1] by metis
    then have "works s st1 (upd_sym t (set_tri v') st1)" using v by (intro works_upd step) simp
    then have "works s st0 (sym_set_changed t (upd_sym t (set_tri v') st1))"
      using w1 works_set_changed by (blast intro: works_trans)
    then show ?thesis using w1 by (auto intro: Q)
  qed
  show ?thesis
  proof (cases "dep (sym_at st t)")
    case None
    then show ?thesis using next_ret [OF w] dflt by (simp add: update_dep_def Let_def)
  next
    case (Some e)
    then show ?thesis unfolding update_dep_def
      by (simp add: Let_def, intro eval_expr_ret [OF w]) (use syms in \<open>simp_all add: opt_syms_def next_ret\<close>)
  qed
qed

lemma deps_meta:
  "meta_step k (k\<lparr>dir_dep_tri := v\<rparr>)" "meta_step k (k\<lparr>implied_tri := v\<rparr>)"
  "rev_dep k \<noteq> None \<or> v = tri_no \<Longrightarrow> meta_step k (k\<lparr>rev_dep_tri := v\<rparr>)" "meta_step k (k\<lparr>ks_visible := v\<rparr>)"
  "meta_step k (k\<lparr>user_tri := v\<rparr>)"
  by (auto simp: meta_step_def decl_of_def)

lemma works_visible: "works s st (upd_sym t (\<lambda>k. k\<lparr>ks_visible := v\<rparr>) st)"
  by (rule works_upd) (rule deps_meta)

lemma works_user_tri: "works s st (upd_sym t (\<lambda>k. k\<lparr>user_tri := v\<rparr>) st)"
  by (rule works_upd) (rule deps_meta)

lemma dep_syms:
  assumes "works s st0 st" "must" "t \<in> U"
  shows "opt_syms (dir_dep (sym_at st t)) \<subseteq> U" "opt_syms (rev_dep (sym_at st t)) \<subseteq> U"
    "opt_syms (implied (sym_at st t)) \<subseteq> U"
  using declared_later [OF assms] by (simp_all add: sym_ok_def)

lemma deps_ret:
  assumes "works s st0 st" "must \<Longrightarrow> t \<in> U" "\<And>st'. works s st0 st' \<Longrightarrow> Q st'"
  shows "returns must
    (do { st \<leftarrow> update_dep rec t dir_dep tri_yes dir_dep_tri (\<lambda>v k. k\<lparr>dir_dep_tri := v\<rparr>) st;
          st \<leftarrow> update_dep rec t rev_dep tri_no rev_dep_tri (\<lambda>v k. k\<lparr>rev_dep_tri := v\<rparr>) st;
          update_dep rec t implied tri_no implied_tri (\<lambda>v k. k\<lparr>implied_tri := v\<rparr>) st }) Q"
  unfolding returns_bind
  by (intro update_dep_ret assms(1))
    (assumption | rule assms(1) deps_meta dep_syms | erule decl_fields(5-7) assms(2,3) | simp)+

lemma choice_prop_mem: "sym_get_choice_prop st t = Some p \<Longrightarrow> p \<in> set (ks_props (sym_at st t))"
  by (auto simp: sym_get_choice_prop_def find_Some_iff)

lemma declared_choice_value:
  assumes "works s st0 st" "must" "t \<in> U" "sym_is_choice_value st t"
  shows "\<exists>p c. sym_get_choice_prop st t = Some p \<and> prop_get_symbol p = Some c \<and> c \<in> U"
proof -
  note ok = declared_later [OF assms(1-3)]
  then obtain c where "choice_of st t = Some c" using assms(4) unfolding sym_ok_def by blast
  then obtain p where p: "sym_get_choice_prop st t = Some p" "prop_get_symbol p = Some c"
    by (auto simp: choice_of_def bind_eq_Some_conv)
  have "prop_ok U (sym_is_choice st t) (prop_decl p)"
    using ok choice_prop_mem [OF p(1)] unfolding sym_ok_def by blast
  then have "c \<in> U"
    using p(2) by (auto simp: prop_decl_def prop_get_symbol_def split: option.splits expr_node.splits expr.splits)
  with p show ?thesis by blast
qed

lemma declared_choice:
  assumes "works s st0 st" "must" "t \<in> U" "sym_is_choice st t"
  shows "\<exists>vs. choice_values st t = Some vs \<and> set vs \<subseteq> U"
proof -
  note ok = declared_later [OF assms(1-3)]
  then obtain vs where "choice_values st t = Some vs" using assms(4) unfolding sym_ok_def by blast
  moreover from this obtain p where p: "sym_get_choice_prop st t = Some p" "p_expr p = None \<and> vs = [] \<or> p_expr p = Some (E_LIST vs)"
    by (rule choice_values_prop)
  moreover have "prop_ok U (sym_is_choice st t) (prop_decl p)"
    using ok choice_prop_mem [OF p(1)] unfolding sym_ok_def by blast
  ultimately show ?thesis by (auto simp: prop_decl_def)
qed

lemma visibility_ret:
  assumes "works s st0 st" "must \<Longrightarrow> t \<in> U" "\<And>st'. works s st0 st' \<Longrightarrow> Q st'"
  shows "returns must (sym_calc_visibility rec t st) Q"
proof -
  have c: "must \<Longrightarrow> sym_is_choice_value st t \<Longrightarrow> sym_get_choice_prop st t \<noteq> None"
    using declared_choice_value [OF assms(1) _ assms(2)] by blast
  have w: "works s st0 (if ks_visible (sym_at st1 t) \<noteq> v
       then sym_set_changed t (upd_sym t (\<lambda>k. k\<lparr>ks_visible := v\<rparr>) st1) else st1)" if "works s st0 st1" for st1 v
    using works_trans [OF that works_trans [OF works_visible works_set_changed]] that by simp
  have "returns must
      (do { (tri, st) \<leftarrow> prompts_visible rec t ch (prop_indices st t) tri_no st;
            let tri = (if tri = tri_mod \<and> (ks_type (sym_at st t) \<noteq> S_TRISTATE \<or> modules_val st = tri_no)
                       then tri_yes else tri);
            let st = (if ks_visible (sym_at st t) \<noteq> tri
                      then sym_set_changed t (upd_sym t (\<lambda>k. k\<lparr>ks_visible := tri\<rparr>) st) else st);
            if sym_is_choice_value st t then Some st
            else do {
              st \<leftarrow> update_dep rec t dir_dep tri_yes dir_dep_tri (\<lambda>v k. k\<lparr>dir_dep_tri := v\<rparr>) st;
              st \<leftarrow> update_dep rec t rev_dep tri_no rev_dep_tri (\<lambda>v k. k\<lparr>rev_dep_tri := v\<rparr>) st;
              update_dep rec t implied tri_no implied_tri (\<lambda>v k. k\<lparr>implied_tri := v\<rparr>) st } }) Q" for ch
    unfolding returns_bind Let_def
    by (intro prompts_ret [OF assms(1,2)], assumption, simp add: indices_len [OF assms(1)])
      (simp only: prod.case, intro returns_if deps_ret, simp_all only: returns_Some assms w)
  then show ?thesis unfolding sym_calc_visibility_def using c by (cases "sym_get_choice_prop st t") auto
qed

lemma choice_default_ret:
  assumes "works s st0 st" "must \<Longrightarrow> t \<in> U" "must \<Longrightarrow> sym_is_choice st0 t"
    "\<forall>i \<in> set is. i < length (ks_props (sym_at st0 t))"
    and "\<And>v st'. works s st0 st' \<Longrightarrow> Q (v, st')"
  shows "returns must (choice_default_prop rec t is st) Q"
  using assms(1,4)
proof (induction "is" arbitrary: st)
  case (Cons i "is")
  have len: "i < length (ks_props (sym_at st t))"
    using Cons.prems(2) props_len [OF Cons.prems(1), of t] by simp
  have next_ret: "returns must (choice_default_prop rec t is st1) Q" if "works s st0 st1" for st1
    by (rule Cons.IH [OF that]) (use Cons.prems(2) in simp)
  have def_sym: "prop_get_symbol (prop_at st1 t i) \<noteq> None"
    if "works s st0 st1" "must" "p_type (prop_at st t i) = P_DEFAULT" for st1
  proof -
    have "p_type (prop_at st1 t i) = P_DEFAULT"
      using prop_decl_at [OF Cons.prems(1) that(1), of i t] Cons.prems(2) that(3) by (simp add: prop_decl_def)
    moreover have "sym_is_choice st1 t"
      using decl_fields(9) [OF works_same_decl [OF that(1)]] assms(3) that(2) by (simp add: sym_is_choice_def)
    moreover have "i < length (ks_props (sym_at st1 t))"
      using Cons.prems(2) props_len [OF that(1), of t] by simp
    ultimately show ?thesis
      using props_ok [OF that(1,2) assms(2) [OF that(2)], of i]
      by (auto simp: prop_decl_def prop_at_def prop_get_symbol_def split: option.splits expr_node.splits expr.splits)
  qed
  show ?case
  proof (cases "p_type (ks_props (sym_at st t) ! i) = P_DEFAULT")
    case True
    have rest: "returns must (let st = set_prop_visible t i v st1 in
          if v = tri_no then choice_default_prop rec t is st
          else do { def_sym \<leftarrow> prop_get_symbol (prop_at st t i);
                    if ks_visible (sym_at st def_sym) \<noteq> tri_no then Some (Some def_sym, st)
                    else choice_default_prop rec t is st }) Q" if "works s st0 st1" for v st1
    proof -
      have w1: "works s st0 (set_prop_visible t i v st1)"
        using that works_prop_visible by (rule works_trans)
      show ?thesis
        using def_sym [OF w1] True next_ret [OF w1] assms(5) [OF w1]
        by (cases "prop_get_symbol (prop_at (set_prop_visible t i v st1) t i)") (auto simp: Let_def prop_at_def)
    qed
    show ?thesis
      using True by (simp, intro eval_dep_ret [OF Cons.prems(1)])
        (simp_all add: prop_syms(1) [OF Cons.prems(1) _ _ len] assms(2) rest)
  qed (simp add: next_ret Cons.prems(1))
qed (simp add: assms(5))

lemma choice_const: "works s st0 st \<Longrightarrow> sym_is_choice st t = sym_is_choice st0 t"
  using decl_fields(9) [OF works_same_decl] by (simp add: sym_is_choice_def)

lemma choice_default_sym_ret:
  assumes "works s st0 st" "must \<Longrightarrow> t \<in> U" "must \<Longrightarrow> sym_is_choice st0 t"
    and "\<And>v st'. works s st0 st' \<Longrightarrow> Q (v, st')"
  shows "returns must (sym_choice_default rec t st) Q"
proof -
  have "returns must (case d of Some def_sym \<Rightarrow> Some (Some def_sym, st1)
      | None \<Rightarrow> do { vs \<leftarrow> choice_values st1 t; Some (find (\<lambda>v. ks_visible (sym_at st1 v) \<noteq> tri_no) vs, st1) }) Q"
    if w: "works s st0 st1" for d st1
  proof (cases d)
    case None
    have "must \<Longrightarrow> choice_values st1 t \<noteq> None"
      using declared_choice [OF w _ assms(2)] choice_const [OF w] assms(3) by blast
    then show ?thesis using assms(4) [OF w] None by (cases "choice_values st1 t") auto
  qed (simp add: assms(4) [OF w])
  then show ?thesis unfolding sym_choice_default_def
    by (simp, intro choice_default_ret [OF assms(1,2,3)]) (simp_all add: indices_len [OF assms(1)])
qed

lemma choice_flags_ret:
  assumes "works s st0 st" "must \<Longrightarrow> set vs \<subseteq> U" "\<And>fl st'. works s st0 st' \<Longrightarrow> Q (fl, st')"
  shows "returns must (choice_flags rec vs fl st) Q"
  using assms(1,2)
proof (induction vs arbitrary: st fl)
  case (Cons v vs)
  show ?case
    by (simp, rule visibility_ret [OF Cons.prems(1)]) (use Cons.prems(2) in \<open>auto intro: Cons.IH\<close>)
qed (simp add: assms(3))

lemma works_drop_user:
  "works s st (upd_sym t (\<lambda>k. k\<lparr>ks_flags := {f \<in> ks_flags k. f \<in> fl \<or> f \<noteq> SYMBOL_DEF_USER}\<rparr>) st)"
  by (rule works_upd) (auto simp: meta_step_def decl_of_def)

lemma works_reset_tri: "works s st (upd_sym s (\<lambda>k. k\<lparr>ks_tri := tri_no\<rparr>) st)"
proof -
  have "upd_sym s (\<lambda>k. k\<lparr>ks_tri := tri_no\<rparr>) st = set_curr s (ks_val (sym_at st s)) tri_no st"
    by (simp add: set_curr_def upd_sym_def)
  then show ?thesis by (simp add: works_curr)
qed

lemma calc_choice_ret:
  assumes "works s st0 st" "must \<Longrightarrow> s \<in> U" "sym_is_choice st0 s" "\<And>v st'. works s st0 st' \<Longrightarrow> Q (v, st')"
  shows "returns must (sym_calc_choice rec s st) Q"
proof (cases "choice_values st s")
  case None
  then have "\<not> must" using declared_choice [OF assms(1) _ assms(2)] choice_const [OF assms(1)] assms(3) by force
  with None show ?thesis by (simp add: sym_calc_choice_def)
next
  case (Some vs)
  then have vs: "must \<Longrightarrow> set vs \<subseteq> U"
    using declared_choice [OF assms(1) _ assms(2)] choice_const [OF assms(1)] assms(3) by force
  have rest: "returns must
     (do { u \<leftarrow> (case user_val (sym_at st1 s) of V_null \<Rightarrow> Some None | V_sym u \<Rightarrow> Some (Some u) | V_str _ \<Rightarrow> None);
           if (case u of None \<Rightarrow> False | Some u' \<Rightarrow> ks_visible (sym_at st1 u') \<noteq> tri_no) then Some (u, st1)
           else do {
             (d, st) \<leftarrow> sym_choice_default rec s st1;
             Some (d, if d = None then upd_sym s (\<lambda>k. k\<lparr>ks_tri := tri_no\<rparr>) st else st) } }) Q"
    if w: "works s st0 st1" for st1
  proof -
    have user: "must \<Longrightarrow> user_val (sym_at st1 s) \<noteq> V_str x" for x
      using declared_later [OF w _ assms(2)] choice_const [OF w] assms(3) by (auto simp: sym_ok_def)
    have "returns must (sym_choice_default rec s st1)
        (\<lambda>(d, st). Q (d, if d = None then upd_sym s (\<lambda>k. k\<lparr>ks_tri := tri_no\<rparr>) st else st))"
      by (rule choice_default_sym_ret [OF w assms(2)]) (auto intro: assms(3,4) works_trans [OF _ works_reset_tri])
    then show ?thesis
      using user assms(4) [OF w] by (cases "user_val (sym_at st1 s)") (auto simp: case_prod_unfold intro: returns_if)
  qed
  show ?thesis unfolding sym_calc_choice_def Some Let_def
    by (simp only: Option.bind.bind_lunit returns_bind)
      (rule choice_flags_ret [OF assms(1) vs], assumption, simp only: prod.case returns_bind [symmetric],
        intro rest, erule works_trans, rule works_drop_user)
qed

lemma revdep_leaf_ret:
  assumes "works s st0 st" "must \<Longrightarrow> expr_syms e \<subseteq> U" "\<And>tg st'. works s st0 st' \<Longrightarrow> Q (tg, st')"
  shows "returns must (do { (v, st) \<leftarrow> eval_expr rec e st; if v = pr then Some (f st, st) else Some (tg, st) }) Q"
  unfolding returns_bind
  by (rule eval_expr_ret [OF assms(1,2)]) (auto intro: returns_if simp: assms(3))

lemma revdep_text_ret:
  assumes "works s st0 st" "must \<Longrightarrow> expr_syms e \<subseteq> U" "\<And>tg st'. works s st0 st' \<Longrightarrow> Q (tg, st')"
  shows "returns must (revdep_text rec pr e tg st) Q"
  using assms
proof (induction e arbitrary: st tg Q)
  case (E_OR l r)
  have l: "must \<Longrightarrow> expr_syms l \<subseteq> U" and r: "must \<Longrightarrow> expr_syms r \<subseteq> U" using E_OR.prems(2) by auto
  show ?case unfolding revdep_text.simps returns_bind
    by (rule E_OR.IH(1) [OF E_OR.prems(1) l], assumption)
      (simp only: prod.case, rule E_OR.IH(2) [OF _ r], assumption+, rule E_OR.prems(3))
qed (simp only: revdep_text.simps; rule revdep_leaf_ret; assumption)+

lemma warn_ret:
  assumes "works s st0 st" "must \<Longrightarrow> t \<in> U" "dir_dep_tri (sym_at st t) < rev_dep_tri (sym_at st t)"
    and "\<And>st'. works s st0 st' \<Longrightarrow> Q st'"
  shows "returns must (sym_warn_unmet_dep rec t st) Q"
proof (cases "rev_dep (sym_at st t)")
  case None
  have "\<not> must"
  proof
    assume "must"
    then have "rev_dep_tri (sym_at st t) = tri_no"
      using declared_later [OF assms(1) _ assms(2)] None by (simp add: sym_ok_def)
    with assms(3) show False by (cases "dir_dep_tri (sym_at st t)") (auto simp: less_tristate_def)
  qed
  then show ?thesis by (simp add: sym_warn_unmet_dep_def None Let_def)
next
  case (Some e)
  have e: "must \<Longrightarrow> expr_syms e \<subseteq> U"
    using dep_syms(2) [OF assms(1) _ assms(2)] Some by (simp add: opt_syms_def)
  have m: "works s st0 st' \<Longrightarrow> Q (st'\<lparr>messages := m\<rparr>)" for st' m
    by (rule assms(4)) (erule works_trans, rule works_message)
  show ?thesis unfolding sym_warn_unmet_dep_def Some Let_def Option.bind.bind_lunit returns_bind
    by (rule revdep_text_ret [OF assms(1) e], assumption, simp only: prod.case returns_bind)
      (rule revdep_text_ret [OF _ e], assumption+, simp add: m)
qed

lemma and_visible_ret:
  assumes "works s st0 st" "must \<Longrightarrow> t \<in> U" "i < length (ks_props (sym_at st t))" "\<And>v st'. works s st0 st' \<Longrightarrow> Q (v, st')"
  shows "returns must (and_visible rec t i st) Q"
proof -
  have again: "returns must (eval_node rec (p_expr (prop_at st1 t i)) st1) Q" if w: "works s st0 st1" for st1
  proof (rule eval_node_ret [OF w])
    have "i < length (ks_props (sym_at st1 t))"
      using assms(3) props_len [OF w, of t] props_len [OF assms(1), of t] by simp
    then show "must \<Longrightarrow> node_syms (p_expr (prop_at st1 t i)) \<subseteq> U"
      using prop_syms(2) [OF w _ assms(2)] by (simp add: prop_at_def)
  qed (rule assms(4))
  show ?thesis unfolding and_visible_def returns_bind
    by (rule eval_node_ret [OF assms(1)])
      (use prop_syms(2) [OF assms(1) _ assms(2) assms(3)] in \<open>auto simp: prop_at_def [symmetric] assms(4) intro!: returns_if again\<close>)
qed

lemma works_if: "works s st0 st \<Longrightarrow> works s st st' \<Longrightarrow> works s st0 (if c then st' else st)"
  by (auto intro: works_trans)

lemma works_write: "works s st (set_flag t SYMBOL_WRITE st)"
  by (rule works_set_flag) simp

lemma default_tri_ret:
  assumes "works s st0 st" "must \<Longrightarrow> t \<in> U" "\<And>v st'. works s st0 st' \<Longrightarrow> Q (v, st')"
  shows "returns must (calc_default_tri rec t st) Q"
proof -
  have w0: "works s st0 (if rev_dep_tri (sym_at st t) \<noteq> tri_no then set_flag t SYMBOL_WRITE st else st)"
    using assms(1) works_write by (rule works_if)
  have implied: "returns must
      (if implied_tri (sym_at st1 t) \<noteq> tri_no
       then Some (EXPR_AND (EXPR_OR v (implied_tri (sym_at st1 t))) (dir_dep_tri (sym_at st1 t)), set_flag t SYMBOL_WRITE st1)
       else Some (v, st1)) Q" if "works s st0 st1" for v st1
    using that works_trans [OF that works_write] by (auto intro: assms(3))
  have def: "returns must (case p of None \<Rightarrow> Some (tri_no, st1)
      | Some i \<Rightarrow> do { (v, st) \<leftarrow> and_visible rec t i st1;
                     Some (v, if v \<noteq> tri_no then set_flag t SYMBOL_WRITE st else st) }) Q'"
    if "works s st0 st1" "\<And>i. p = Some i \<Longrightarrow> i < length (ks_props (sym_at st1 t))" "\<And>v st'. works s st0 st' \<Longrightarrow> Q' (v, st')" for p st1 Q'
  proof (cases p)
    case (Some i)
    show ?thesis unfolding Some option.case returns_bind
      by (rule and_visible_ret [OF that(1) assms(2)], assumption, rule that(2) [OF Some], simp only: prod.case returns_Some)
        (rule that(3), erule works_if, rule works_write)
  qed (simp add: that)
  show ?thesis unfolding calc_default_tri_def Let_def
    by (intro returns_if, simp add: assms(3) [OF w0])
      (unfold returns_bind, rule default_prop_ret [OF w0 assms(2)], assumption, simp only: prod.case returns_bind,
        rule def, assumption, blast, simp only: prod.case, rule implied)
qed

lemma tristate_ret:
  assumes "works s st0 st" "must \<Longrightarrow> s \<in> U"
    and Q: "\<And>v st'. works s st0 st' \<Longrightarrow> (ks_type (sym_at st' s) = S_BOOLEAN \<Longrightarrow> v \<noteq> tri_mod) \<Longrightarrow> Q (v, st')"
  shows "returns must (calc_tristate rec s st) Q"
proof -
  have last: "Q (if v = tri_mod \<and> sym_get_type st1 s = S_BOOLEAN then tri_yes else v, st1)" if "works s st0 st1" for v st1
    by (rule Q [OF that]) (auto simp: sym_get_type_def)
  have warn: "returns must (if dir_dep_tri (sym_at st1 s) < rev_dep_tri (sym_at st1 s)
      then sym_warn_unmet_dep rec s st1 else Some st1) Q'" if "works s st0 st1" "\<And>st'. works s st0 st' \<Longrightarrow> Q' st'" for st1 Q'
    using that warn_ret [OF that(1) assms(2)] by (intro returns_if) auto
  have user: "returns must (if ks_visible (sym_at st s) \<noteq> tri_no \<and> sym_has_value st s
      then Some (EXPR_AND (user_tri (sym_at st s)) (ks_visible (sym_at st s)), st) else calc_default_tri rec s st) Q'"
    if "\<And>v st'. works s st0 st' \<Longrightarrow> Q' (v, st')" for Q'
    by (intro returns_if, simp add: that assms(1)) (rule default_tri_ret [OF assms(1,2)], assumption, rule that)
  have chosen: "returns must (do { c \<leftarrow> choice_of st s; Some (if ks_val (sym_at st c) = V_sym s then tri_yes else tri_no, st) }) Q'"
    if "sym_is_choice_value st s" "\<And>v. Q' (v, st)" for Q'
  proof -
    have "must \<Longrightarrow> choice_of st s \<noteq> None"
      using declared_later [OF assms(1) _ assms(2)] that(1) by (simp add: sym_ok_def)
    then show ?thesis using that(2) by (cases "choice_of st s") auto
  qed
  show ?thesis unfolding calc_tristate_def returns_bind [of _ "if _ then _ else _"]
  proof (rule returns_if)
    assume "sym_is_choice_value st s \<and> ks_visible (sym_at st s) = tri_yes"
    then show "returns must (do { c \<leftarrow> choice_of st s; Some (if ks_val (sym_at st c) = V_sym s then tri_yes else tri_no, st) })
      (\<lambda>x. returns must (case x of (v, st) \<Rightarrow>
         Some (if v = tri_mod \<and> sym_get_type st s = S_BOOLEAN then tri_yes else v, st)) Q)"
      by (intro chosen) (simp_all add: last assms(1))
  qed (unfold returns_bind, rule user, simp only: prod.case returns_bind, rule warn, assumption, simp add: last)
qed

lemma string_ret:
  assumes "works s st0 st" "must \<Longrightarrow> s \<in> U" "\<And>v st'. works s st0 st' \<Longrightarrow> Q (v, st')"
  shows "returns must (calc_string rec s st) Q"
proof -
  have "returns must (case p of None \<Rightarrow> Some (V_str [], st1)
      | Some i \<Rightarrow> (case prop_get_symbol (prop_at st1 s i) of
           None \<Rightarrow> Some (V_str [], st1)
         | Some ds \<Rightarrow> do { st \<leftarrow> rec (set_flag s SYMBOL_WRITE st1) ds; Some (ks_val (sym_at st ds), st) })) Q"
    if w: "works s st0 st1" and p: "\<And>i. p = Some i \<Longrightarrow> i < length (ks_props (sym_at st1 s))" for p st1
  proof (cases "\<exists>i ds. p = Some i \<and> prop_get_symbol (prop_at st1 s i) = Some ds")
    case True
    then obtain i ds where i: "p = Some i" "prop_get_symbol (prop_at st1 s i) = Some ds" by blast
    then have "ds \<in> node_syms (p_expr (prop_at st1 s i))"
      by (auto simp: prop_get_symbol_def split: option.splits expr_node.splits expr.splits)
    then have ds: "must \<Longrightarrow> ds \<in> U"
      using prop_syms(2) [OF w _ assms(2) p [OF i(1)]] by (auto simp: prop_at_def)
    show ?thesis unfolding i option.case returns_bind
      by (rule call [OF works_trans [OF w works_write] ds]) (simp_all add: assms(3))
  next
    case False
    then show ?thesis using assms(3) [OF w] by (auto split: option.splits)
  qed
  then show ?thesis unfolding calc_string_def
    by (intro returns_if, simp add: assms(3) [OF assms(1)])
      (unfold returns_bind, rule default_prop_ret [OF assms(1,2)], assumption, simp only: prod.case)
qed

lemma note_change_works: "works s st0 st \<Longrightarrow> works s st0 (note_change s v t st)"
proof -
  have a: "works s st (sym_set_all_changed (sym_set_changed s st))"
    by (rule works_trans [OF works_set_changed works_all_changed])
  have m: "modules_sym (sym_set_all_changed (sym_set_changed s st)) = modules_sym st"
    using works_decls [OF a] by (simp add: same_decls_st_def same_tables_def)
  have m1: "modules_sym (sym_set_changed s st) = modules_sym st"
    by (simp add: sym_set_changed_def set_flag_def)
  show "works s st0 st \<Longrightarrow> ?thesis"
    unfolding note_change_def Let_def m1
    using works_trans [OF a works_modules] m
    by (auto intro: works_trans works_set_changed)
qed

lemma choice_write_works: "works s st (choice_write s v st)"
  unfolding choice_write_def Let_def
  by (auto intro: works_refl works_write works_set_changed works_trans [OF works_write works_set_changed])

lemma set_all_choice_values_works:
  assumes "works s st0 st" "has_flag st s SYMBOL_NEED_SET_CHOICE_VALUES" "set_all_choice_values s st = Some st'"
  shows "works s st0 st'"
proof -
  from assms(3) obtain vs where st': "st' = clear_flag s SYMBOL_NEED_SET_CHOICE_VALUES (clear_flag s SYMBOL_VALID
      (set_flag s SYMBOL_DEF_USER (fold (\<lambda>v st. if sym_has_value st v then st else upd_sym v (\<lambda>k. k\<lparr>user_tri := tri_no\<rparr>) st) vs st)))"
    by (auto simp: set_all_choice_values_def bind_eq_Some_conv Let_def)
  define st1 where "st1 = fold (\<lambda>v st. if sym_has_value st v then st else upd_sym v (\<lambda>k. k\<lparr>user_tri := tri_no\<rparr>) st) vs st"
  have w: "works s st st1" unfolding st1_def by (rule works_fold) (auto intro: works_refl works_user_tri)
  have "has_flag st1 s SYMBOL_NEED_SET_CHOICE_VALUES"
    unfolding st1_def
    by (rule fold_invariant [where Q = "\<lambda>_. True" and P = "\<lambda>st. has_flag st s SYMBOL_NEED_SET_CHOICE_VALUES"])
      (use assms(2) in auto)
  then have "works s (set_flag s SYMBOL_DEF_USER st1) st'"
    unfolding st' st1_def [symmetric] by (intro works_redo) (simp add: set_flag_def)
  moreover have "works s st1 (set_flag s SYMBOL_DEF_USER st1)" by (rule works_set_flag) simp
  ultimately show ?thesis using works_trans [OF works_trans [OF assms(1) w] works_trans] by blast
qed

lemma finish_ret:
  assumes w: "works s st0 st" and s: "must \<Longrightarrow> s \<in> U"
    and need: "must \<Longrightarrow> has_flag st0 s SYMBOL_NEED_SET_CHOICE_VALUES \<Longrightarrow> sym_is_choice st0 s"
    and Q: "\<And>st'. works s st0 st' \<Longrightarrow> Q st'"
  shows "returns must (finish_value s v t st) Q"
proof -
  have listed: "must \<Longrightarrow> choice_values st1 s \<noteq> None" if "works s st0 st1" "sym_is_choice st0 s" for st1
    using declared_choice [OF that(1) _ s] choice_const [OF that(1)] that(2) by blast
  have redo: "returns must (if has_flag st1 s SYMBOL_NEED_SET_CHOICE_VALUES then set_all_choice_values s st1 else Some st1) Q"
    if w1: "works s st0 st1" for st1
  proof (rule returns_if)
    assume n: "has_flag st1 s SYMBOL_NEED_SET_CHOICE_VALUES"
    have "must \<Longrightarrow> choice_values st1 s \<noteq> None" using listed [OF w1] need steps_need(2) [OF w1] n by blast
    then have "must \<Longrightarrow> set_all_choice_values s st1 \<noteq> None" by (auto simp: set_all_choice_values_def Let_def)
    then show "returns must (set_all_choice_values s st1) Q"
      using set_all_choice_values_works [OF w1 n] Q by (cases "set_all_choice_values s st1") auto
  qed (simp add: Q w1)
  have clear: "works s st0 (if has_flag st1 s SYMBOL_NO_WRITE then clear_flag s SYMBOL_WRITE st1 else st1)" if "works s st0 st1" for st1
    using that works_clear_write by (rule works_if)
  define st1 where "st1 = note_change s v t st"
  have w1: "works s st0 st1" unfolding st1_def by (rule note_change_works) (rule w)
  have writes: "returns must (if sym_is_choice st1 s
      then do { vs \<leftarrow> choice_values st1 s; Some (fold (choice_write s) vs st1) } else Some st1) Q'"
    if Q': "\<And>st'. works s st0 st' \<Longrightarrow> Q' st'" for Q'
  proof (rule returns_if)
    assume "sym_is_choice st1 s"
    then have "must \<Longrightarrow> choice_values st1 s \<noteq> None" using listed [OF w1] choice_const [OF w1] by blast
    then show "returns must (do { vs \<leftarrow> choice_values st1 s; Some (fold (choice_write s) vs st1) }) Q'"
      using Q' [OF works_trans [OF w1 works_fold [OF choice_write_works]]] by (cases "choice_values st1 s") auto
  qed (simp add: Q' w1)
  show ?thesis unfolding finish_value_def Let_def st1_def [symmetric] returns_bind [of _ "if _ then _ else _"]
    by (rule writes, rule redo, rule clear)
qed

lemma works_set_curr:
  "works s st0 st \<Longrightarrow> tri_fits (ks_type (sym_at st s)) t \<Longrightarrow> works s st0 (set_curr s v t st)"
  by (erule works_trans) (rule works_curr, simp)

lemma new_value_ret:
  assumes w: "works s st0 st" and s: "must \<Longrightarrow> s \<in> U"
    and need: "must \<Longrightarrow> has_flag st0 s SYMBOL_NEED_SET_CHOICE_VALUES \<Longrightarrow> sym_is_choice st0 s"
    and Q: "\<And>st'. works s st0 st' \<Longrightarrow> Q st'"
  shows "returns must (calc_new_value rec s st) Q"
proof -
  have after: "returns must (do {
      st \<leftarrow> (if sym_is_choice (set_curr s v t st1) s \<and> t = tri_yes
            then do {
              (d, st) \<leftarrow> sym_calc_choice rec s (set_curr s v t st1);
              Some (upd_sym s (\<lambda>k. k\<lparr>ks_val := (case d of Some v \<Rightarrow> V_sym v | None \<Rightarrow> V_null)\<rparr>) st) }
            else Some (set_curr s v t st1));
      st \<leftarrow> sym_validate_range rec s st;
      finish_value s old_val old_tri st }) Q"
    if w1: "works s st0 st1" and t: "tri_fits (ks_type (sym_at st1 s)) t" for st1 v t old_val old_tri
  proof -
    note w2 = works_set_curr [OF w1 t, of v]
    have ch: "returns must (if sym_is_choice (set_curr s v t st1) s \<and> t = tri_yes
            then do {
              (d, st) \<leftarrow> sym_calc_choice rec s (set_curr s v t st1);
              Some (upd_sym s (\<lambda>k. k\<lparr>ks_val := (case d of Some v \<Rightarrow> V_sym v | None \<Rightarrow> V_null)\<rparr>) st) }
            else Some (set_curr s v t st1)) Q'" if Q': "\<And>st'. works s st0 st' \<Longrightarrow> Q' st'" for Q'
    proof (rule returns_if)
      assume "sym_is_choice (set_curr s v t st1) s \<and> t = tri_yes"
      then have c: "sym_is_choice st0 s" using choice_const [OF w2] by simp
      show "returns must (do {
              (d, st) \<leftarrow> sym_calc_choice rec s (set_curr s v t st1);
              Some (upd_sym s (\<lambda>k. k\<lparr>ks_val := (case d of Some v \<Rightarrow> V_sym v | None \<Rightarrow> V_null)\<rparr>) st) }) Q'"
        unfolding returns_bind
        by (rule calc_choice_ret [OF w2 s c], assumption, simp only: prod.case returns_Some)
          (rule Q', erule works_set_val)
    qed (simp add: Q' w2)
    show ?thesis unfolding returns_bind [of _ "if _ then _ else _"] returns_bind [of _ "sym_validate_range _ _ _"]
      by (rule ch, rule validate_range_ret [OF _ s], assumption+, rule finish_ret [OF _ s need], assumption+, rule Q)
  qed
  have kind: "returns must (if sym_get_type st1 s = S_BOOLEAN \<or> sym_get_type st1 s = S_TRISTATE
          then do { (t, st) \<leftarrow> calc_tristate rec s st1; Some (val0, t, st) }
          else do { (v, st) \<leftarrow> calc_string rec s st1; Some (v, tri_no, st) }) Q'"
    if w1: "works s st0 st1"
      and Q': "\<And>v t st'. works s st0 st' \<Longrightarrow> tri_fits (ks_type (sym_at st' s)) t \<Longrightarrow> Q' (v, t, st')" for st1 val0 Q'
  proof (rule returns_if)
    assume ty: "sym_get_type st1 s = S_BOOLEAN \<or> sym_get_type st1 s = S_TRISTATE"
    have "tri_fits (ks_type (sym_at st2 s)) t"
      if "works s st0 st2" "ks_type (sym_at st2 s) = S_BOOLEAN \<Longrightarrow> t \<noteq> tri_mod" for st2 t
    proof -
      have "ks_type (sym_at st2 s) = ks_type (sym_at st1 s)"
        using decl_fields(2) [OF works_same_decl [OF that(1)]] decl_fields(2) [OF works_same_decl [OF w1]] by simp
      with ty that(2) show ?thesis by (auto simp: sym_get_type_def split: if_splits)
    qed
    then show "returns must (do { (t, st) \<leftarrow> calc_tristate rec s st1; Some (val0, t, st) }) Q'"
      unfolding returns_bind by (intro tristate_ret [OF w1 s]) (auto intro: Q')
  next
    show "returns must (do { (v, st) \<leftarrow> calc_string rec s st1; Some (v, tri_no, st) }) Q'"
      unfolding returns_bind by (rule string_ret [OF w1 s]) (simp_all add: Q')
  qed
  have visible: "works s st0 (set_curr s v tri_no (if ks_visible (sym_at st1 s) \<noteq> tri_no then set_flag s SYMBOL_WRITE st1 else st1))"
    if "works s st0 st1" for st1 v
    by (intro works_set_curr works_if [OF that works_write]) simp
  show ?thesis unfolding calc_new_value_def Let_def returns_bind [of _ "sym_calc_visibility _ _ _"]
    by (rule visibility_ret [OF works_trans [OF w works_clear_write] s], assumption)
      (unfold returns_bind [of _ "if sym_get_type _ _ = _ \<or> _ then _ else _"],
        rule kind [OF visible], assumption, simp only: prod.case, rule after)
qed

end

lemma calc_body_calculates:
  assumes rec: "\<And>st t st'. rec st t = Some st' \<Longrightarrow> calculates st st'" and body: "calc_body rec st s = Some st'"
  shows "calculates st st'"
proof (cases "has_flag st s SYMBOL_VALID")
  case True
  then show ?thesis using body calc_valid by (auto simp: calc_body_def)
next
  case False
  have loc: "calculation rec False {} s st"
    by unfold_locales (auto simp: returns_partial intro: rec)
  from body False obtain st1 where st1: "(if sym_is_choice_value st s \<and> has_flag st s SYMBOL_NEED_SET_CHOICE_VALUES
      then do { let st = clear_flag s SYMBOL_NEED_SET_CHOICE_VALUES st;
                p \<leftarrow> sym_get_choice_prop st s;
                case prop_get_symbol p of None \<Rightarrow> Some st | Some c \<Rightarrow> rec st c }
      else Some st) = Some st1"
    and rest: "(let st = set_flag s SYMBOL_VALID st1 in if ks_type (sym_at st s) = S_UNKNOWN
        then Some (set_curr s (case ks_name (sym_at st s) of Some n \<Rightarrow> V_str n | None \<Rightarrow> V_null) tri_no st)
        else calc_new_value rec s st) = Some st'"
    by (auto simp: calc_body_def bind_eq_Some_conv)
  have "works s st st1"
    using st1 by (auto simp: bind_eq_Some_conv Let_def split: if_splits option.splits
        intro: works_refl works_need works_trans [OF works_need works_call [OF rec]])
  then have w: "works s st (set_flag s SYMBOL_VALID st1)" using works_valid by (rule works_trans)
  have "works s st st'"
  proof (cases "ks_type (sym_at (set_flag s SYMBOL_VALID st1) s) = S_UNKNOWN")
    case True
    with rest show ?thesis using calculation.works_set_curr [OF loc w] by (auto simp: Let_def)
  next
    case False
    then show ?thesis
      using calculation.new_value_ret [OF loc w, where Q = "works s st"] rest by (simp add: Let_def)
  qed
  with False show ?thesis by (rule calc_symbol)
qed

lemma sym_calc_value_calculates: "sym_calc_value n st s = Some st' \<Longrightarrow> calculates st st'"
proof (induction n arbitrary: st s st')
  case (Suc n)
  show ?case by (rule calc_body_calculates [OF Suc.IH]) (use Suc.prems in auto)
qed simp

interpretation calc: calculation "sym_calc_value n" False "{}" s st0 for n s st0
  by unfold_locales (auto simp: returns_partial intro: sym_calc_value_calculates)

end
