(* ===== verification/Kconfig_Cycles.thy ===== *)
theory Kconfig_Cycles
  imports Kconfig_Symbol_Steps
begin

text \<open>
  The check for recursive dependencies of \<^verbatim>\<open>scripts/kconfig/symbol.c\<close>, \<open>sym_check_deps\<close>, is a depth first
  search: a symbol is marked \<open>SYMBOL_CHECK\<close> while it is on the stack and \<open>SYMBOL_CHECKED\<close> once it has
  been met. For symbols outside of choices the search ends, and it reports a symbol exactly when a
  cycle of dependencies can be reached.
\<close>

subsection \<open>Dependencies in the order of the search\<close>

fun expr_list :: "expr \<Rightarrow> symbol list" where
  "expr_list (E_OR a b) = expr_list a @ expr_list b"
| "expr_list (E_AND a b) = expr_list a @ expr_list b"
| "expr_list (E_NOT a) = expr_list a"
| "expr_list (E_COMP c a b) = [a, b]"
| "expr_list (E_SYMBOL a) = [a]"

definition opt_list :: "expr option \<Rightarrow> symbol list" where
  "opt_list e = (case e of None \<Rightarrow> [] | Some t \<Rightarrow> expr_list t)"

definition node_list :: "expr_node option \<Rightarrow> symbol list" where
  "node_list e = (case e of Some (Node t) \<Rightarrow> expr_list t | _ \<Rightarrow> [])"

fun props_list :: "property list \<Rightarrow> symbol list" where
  "props_list [] = []"
| "props_list (p # ps) =
     (if p_type p = P_CHOICE \<or> p_type p = P_SELECT \<or> p_type p = P_IMPLY then []
      else opt_list (p_vis_expr p) @ (if p_type p = P_DEFAULT then node_list (p_expr p) else [])) @ props_list ps"

definition dep_list :: "kstate \<Rightarrow> symbol \<Rightarrow> symbol list" where
  "dep_list st s =
     opt_list (dir_dep (sym_at st s)) @ opt_list (rev_dep (sym_at st s)) @ opt_list (implied (sym_at st s)) @
     props_list (ks_props (sym_at st s))"

definition depends :: "kstate \<Rightarrow> (symbol \<times> symbol) set" where
  "depends st = {(a, b). b \<in> set (dep_list st a)}"

subsection \<open>The search goes through this list\<close>

fun check_seq :: "check \<Rightarrow> symbol list \<Rightarrow> kstate \<Rightarrow> (symbol option \<times> kstate) option" where
  "check_seq rec [] st = Some (None, st)"
| "check_seq rec (x # xs) st =
     do { (r, st) \<leftarrow> rec st x; if r \<noteq> None then Some (r, st) else check_seq rec xs st }"

lemma check_seq_append:
  "check_seq rec (xs @ ys) st =
     do { (r, st) \<leftarrow> check_seq rec xs st; if r \<noteq> None then Some (r, st) else check_seq rec ys st }"
proof (induction xs arbitrary: st)
  case (Cons x xs)
  show ?case by (cases "rec st x") (auto simp: Cons.IH)
qed simp

lemma bind_stop [simp]: "(do { (r, st) \<leftarrow> m; if r \<noteq> None then Some (r, st) else Some (None, st) }) = m"
proof (cases m)
  case (Some p)
  then show ?thesis by (cases p) simp
qed simp

lemma check_expr_seq: "sym_check_expr_deps rec e st = check_seq rec (expr_list e) st"
proof (induction e arbitrary: st)
  case (E_OR a b)
  show ?case unfolding sym_check_expr_deps.simps expr_list.simps check_seq_append E_OR.IH ..
next
  case (E_AND a b)
  show ?case unfolding sym_check_expr_deps.simps expr_list.simps check_seq_append E_AND.IH ..
next
  case (E_NOT a)
  show ?case unfolding sym_check_expr_deps.simps expr_list.simps E_NOT.IH ..
qed (unfold sym_check_expr_deps.simps expr_list.simps check_seq.simps bind_stop; rule refl)+

lemma check_opt_seq: "check_opt rec e st = check_seq rec (opt_list e) st"
  by (simp add: check_opt_def opt_list_def check_expr_seq split: option.split)

lemma check_node_seq: "check_node rec e st = check_seq rec (node_list e) st"
  by (simp add: check_node_def node_list_def check_expr_seq split: option.split expr_node.split)

text \<open>The search only changes its two flags.\<close>

definition unmark :: "ksym \<Rightarrow> ksym" where
  "unmark k = k\<lparr>ks_flags := ks_flags k - {SYMBOL_CHECK, SYMBOL_CHECKED}\<rparr>"

definition same_but_marks :: "kstate \<Rightarrow> kstate \<Rightarrow> bool" where
  "same_but_marks st st' \<longleftrightarrow> (\<forall>t. unmark (sym_at st' t) = unmark (sym_at st t))"

lemma same_marks_refl [simp]: "same_but_marks st st"
  by (simp add: same_but_marks_def)

lemma same_marks_trans: "same_but_marks st st1 \<Longrightarrow> same_but_marks st1 st2 \<Longrightarrow> same_but_marks st st2"
  by (simp add: same_but_marks_def)

lemma unmark_fields:
  assumes "unmark k' = unmark k"
  shows "dir_dep k' = dir_dep k" "rev_dep k' = rev_dep k" "implied k' = implied k" "ks_props k' = ks_props k"
    "SYMBOL_CHOICE \<in> ks_flags k' \<longleftrightarrow> SYMBOL_CHOICE \<in> ks_flags k"
    "SYMBOL_CHOICEVAL \<in> ks_flags k' \<longleftrightarrow> SYMBOL_CHOICEVAL \<in> ks_flags k"
proof -
  have "ks_flags k' - {SYMBOL_CHECK, SYMBOL_CHECKED} = ks_flags k - {SYMBOL_CHECK, SYMBOL_CHECKED}"
    using assms unfolding unmark_def by (metis ksym.select_convs(10) ksym.surjective ksym.update_convs(10))
  then show "SYMBOL_CHOICE \<in> ks_flags k' \<longleftrightarrow> SYMBOL_CHOICE \<in> ks_flags k"
    "SYMBOL_CHOICEVAL \<in> ks_flags k' \<longleftrightarrow> SYMBOL_CHOICEVAL \<in> ks_flags k" by blast+
  show "dir_dep k' = dir_dep k" "rev_dep k' = rev_dep k" "implied k' = implied k" "ks_props k' = ks_props k"
    using arg_cong [OF assms, of dir_dep] arg_cong [OF assms, of rev_dep] arg_cong [OF assms, of implied]
      arg_cong [OF assms, of ks_props] by (simp_all add: unmark_def)
qed

lemma marks_dep_list:
  assumes "same_but_marks st st'"
  shows "dep_list st' t = dep_list st t" "depends st' = depends st" "sym_is_choice st' t = sym_is_choice st t"
    "sym_is_choice_value st' t = sym_is_choice_value st t"
proof -
  have u: "unmark (sym_at st' t) = unmark (sym_at st t)" for t using assms by (simp add: same_but_marks_def)
  show d: "dep_list st' t = dep_list st t" for t by (simp add: dep_list_def unmark_fields [OF u])
  show "depends st' = depends st" by (simp add: depends_def d)
  show "sym_is_choice st' t = sym_is_choice st t" "sym_is_choice_value st' t = sym_is_choice_value st t"
    by (simp_all add: sym_is_choice_def sym_is_choice_value_def unmark_fields [OF u])
qed

lemma mark_marks: "same_but_marks st (mark s st)"
  by (auto simp: same_but_marks_def unmark_def mark_def set_flag_def)

lemma clear_marks: "same_but_marks st (clear_flag s SYMBOL_CHECK st)"
proof -
  have "A - {SYMBOL_CHECK} - {SYMBOL_CHECK, SYMBOL_CHECKED} = A - {SYMBOL_CHECK, SYMBOL_CHECKED}" for A by blast
  then show ?thesis by (simp add: same_but_marks_def unmark_def clear_flag_def del: Diff_insert0 insert_Diff_single)
qed

lemma fold_marks: "(\<And>v st. same_but_marks st (f v st)) \<Longrightarrow> same_but_marks st (fold f vs st)"
  by (induction vs arbitrary: st) (auto intro: same_marks_trans)

locale marking =
  fixes rec :: check
  assumes rec_marks: "rec st t = Some (r, st') \<Longrightarrow> same_but_marks st st'"
begin

lemma seq_marks: "check_seq rec xs st = Some (r, st') \<Longrightarrow> same_but_marks st st'"
proof (induction xs arbitrary: st)
  case (Cons x xs)
  then show ?case by (auto simp: bind_eq_Some_conv split: if_splits dest: rec_marks intro: same_marks_trans)
qed simp

lemma seq_ret:
  assumes "same_but_marks st0 st" "\<And>r st'. same_but_marks st0 st' \<Longrightarrow> Q (r, st')"
  shows "returns False (check_seq rec xs st) Q"
  unfolding returns_partial
proof (intro allI impI)
  fix x
  assume "check_seq rec xs st = Some x"
  then show "Q x" using assms(2) same_marks_trans [OF assms(1) seq_marks] by (cases x) simp
qed

lemma props_ret:
  assumes "same_but_marks st0 st" "\<And>r st'. same_but_marks st0 st' \<Longrightarrow> Q (r, st')"
  shows "returns False (check_props rec s ps st) Q"
  using assms(1)
proof (induction ps arbitrary: st)
  case (Cons p ps)
  show ?case unfolding check_props.simps check_opt_seq check_node_seq
    by (intro returns_if Cons.IH Cons.prems, unfold returns_bind)
      (rule seq_ret [OF Cons.prems], simp only: prod.case, intro returns_if, simp add: assms(2), erule Cons.IH,
        unfold returns_bind, erule seq_ret, simp only: prod.case, intro returns_if, simp add: assms(2), erule Cons.IH)
qed (simp add: assms(2))

lemma sym_deps_marks: "sym_check_sym_deps rec s st = Some (r, st') \<Longrightarrow> same_but_marks st st'"
proof -
  have "returns False (sym_check_sym_deps rec s st) (\<lambda>(r, st'). same_but_marks st st')"
    unfolding sym_check_sym_deps_def returns_bind check_opt_seq
    by (rule seq_ret [OF same_marks_refl], simp only: prod.case, intro returns_if, simp, unfold returns_bind,
        erule seq_ret, simp only: prod.case, intro returns_if, simp, unfold returns_bind,
        erule seq_ret, simp only: prod.case, intro returns_if, simp, erule props_ret, simp)
  then show "sym_check_sym_deps rec s st = Some (r, st') \<Longrightarrow> ?thesis" by (simp add: returns_partial)
qed

lemma values_marks: "check_values rec vs st = Some (r, st') \<Longrightarrow> same_but_marks st st'"
proof (induction vs arbitrary: st)
  case (Cons v vs)
  then obtain r1 st1 where 1: "sym_check_sym_deps rec v st = Some (r1, st1)"
    and 2: "(if r1 \<noteq> None then Some (r1, st1) else check_values rec vs st1) = Some (r, st')"
    by (auto simp: bind_eq_Some_conv)
  have "same_but_marks st1 st'" using 2 Cons.IH by (auto split: if_splits)
  with sym_deps_marks [OF 1] show ?case by (rule same_marks_trans)
qed simp

lemma choice_deps_marks:
  assumes "sym_check_choice_deps rec c st = Some (r, st')"
  shows "same_but_marks st st'"
proof -
  from assms obtain vs r1 st1 r2 st2 where
      1: "sym_check_sym_deps rec c (mark c (fold mark vs st)) = Some (r1, st1)"
    and 2: "(if r1 \<noteq> None then Some (r1, clear_flag c SYMBOL_CHECK st1) else check_values rec vs (clear_flag c SYMBOL_CHECK st1)) = Some (r2, st2)"
    and 3: "st' = fold (\<lambda>v. clear_flag v SYMBOL_CHECK) vs st2"
    by (auto simp: sym_check_choice_deps_def bind_eq_Some_conv Let_def split: option.splits if_splits)
  have "same_but_marks st (mark c (fold mark vs st))"
    using fold_marks [OF mark_marks] mark_marks by (rule same_marks_trans)
  from same_marks_trans [OF this sym_deps_marks [OF 1]] have "same_but_marks st (clear_flag c SYMBOL_CHECK st1)"
    using clear_marks by (rule same_marks_trans)
  moreover have "same_but_marks (clear_flag c SYMBOL_CHECK st1) st2"
    using 2 values_marks by (auto split: if_splits)
  ultimately have "same_but_marks st st2" by (rule same_marks_trans)
  then show ?thesis unfolding 3 by (rule same_marks_trans) (rule fold_marks, rule clear_marks)
qed

lemma seq_then:
  assumes "\<And>st'. same_but_marks st st' \<Longrightarrow> f st' = check_seq rec ys st'"
  shows "(do { (r, st) \<leftarrow> check_seq rec xs st; if r \<noteq> None then Some (r, st) else f st }) = check_seq rec (xs @ ys) st"
  unfolding check_seq_append
proof (cases "check_seq rec xs st")
  case (Some q)
  obtain r st1 where q: "q = (r, st1)" by (cases q)
  show "(do { (r, st) \<leftarrow> check_seq rec xs st; if r \<noteq> None then Some (r, st) else f st }) =
      (do { (r, st) \<leftarrow> check_seq rec xs st; if r \<noteq> None then Some (r, st) else check_seq rec ys st })"
    unfolding Some q using assms [OF seq_marks [OF Some [unfolded q]]] by simp
qed simp

lemma check_props_seq: "\<not> sym_is_choice st s \<Longrightarrow> check_props rec s ps st = check_seq rec (props_list ps) st"
proof (induction ps arbitrary: st)
  case (Cons p ps)
  have IH: "check_props rec s ps st' = check_seq rec (props_list ps) st'" if "same_but_marks st st'" for st'
    using Cons.IH Cons.prems marks_dep_list(3) [OF that] by simp
  show ?case
  proof (cases "p_type p = P_CHOICE \<or> p_type p = P_SELECT \<or> p_type p = P_IMPLY")
    case True
    then show ?thesis using IH [of st] by auto
  next
    case False
    let ?rest = "(if p_type p = P_DEFAULT then node_list (p_expr p) else []) @ props_list ps"
    have "(if p_type p \<noteq> P_DEFAULT \<or> sym_is_choice st' s then check_props rec s ps st'
        else do { (r, st) \<leftarrow> check_node rec (p_expr p) st'; if r \<noteq> None then Some (r, st) else check_props rec s ps st }) =
        check_seq rec ?rest st'" if m: "same_but_marks st st'" for st'
      using IH [OF m] marks_dep_list(3) [OF m] Cons.prems
        seq_then [of st' "check_props rec s ps" "props_list ps" "node_list (p_expr p)"] IH [OF same_marks_trans [OF m]]
      by (simp add: check_node_seq del: not_None_eq)
    from seq_then [OF this, where xs = "opt_list (p_vis_expr p)"] show ?thesis using False by (simp add: check_opt_seq del: not_None_eq)
  qed
qed simp

lemma check_sym_seq:
  assumes "\<not> sym_is_choice st s"
  shows "sym_check_sym_deps rec s st = check_seq rec (dep_list st s) st"
proof -
  have u: "unmark (sym_at st' s) = unmark (sym_at st s)" if "same_but_marks st st'" for st'
    using that by (simp add: same_but_marks_def)
  have p: "check_props rec s (ks_props (sym_at st' s)) st' = check_seq rec (props_list (ks_props (sym_at st s))) st'"
    if "same_but_marks st st'" for st'
    using check_props_seq marks_dep_list(3) [OF that] assms unmark_fields(4) [OF u [OF that]] by simp
  let ?i = "\<lambda>st. do { (r, st) \<leftarrow> check_opt rec (implied (sym_at st s)) st;
      if r \<noteq> None then Some (r, st) else check_props rec s (ks_props (sym_at st s)) st }"
  have i: "?i st' = check_seq rec (opt_list (implied (sym_at st s)) @ props_list (ks_props (sym_at st s))) st'"
    if m: "same_but_marks st st'" for st'
    unfolding check_opt_seq unmark_fields(3) [OF u [OF m]] by (rule seq_then) (rule p [OF same_marks_trans [OF m]])
  let ?r = "\<lambda>st. do { (r, st) \<leftarrow> check_opt rec (rev_dep (sym_at st s)) st; if r \<noteq> None then Some (r, st) else ?i st }"
  have r: "?r st' = check_seq rec (opt_list (rev_dep (sym_at st s)) @ opt_list (implied (sym_at st s)) @
      props_list (ks_props (sym_at st s))) st'" if m: "same_but_marks st st'" for st'
    unfolding check_opt_seq [of _ "rev_dep _"] unmark_fields(2) [OF u [OF m]] by (rule seq_then) (rule i [OF same_marks_trans [OF m]])
  show ?thesis
    unfolding sym_check_sym_deps_def dep_list_def check_opt_seq [of _ "dir_dep _"] by (rule seq_then) (rule r)
qed

end

subsection \<open>The state of the search\<close>

definition on_stack :: "kstate \<Rightarrow> symbol set" where
  "on_stack st = {t. has_flag st t SYMBOL_CHECK}"

definition finished :: "kstate \<Rightarrow> symbol set" where
  "finished st = {t. has_flag st t SYMBOL_CHECKED \<and> \<not> has_flag st t SYMBOL_CHECK}"

definition not_met :: "symbol set \<Rightarrow> kstate \<Rightarrow> symbol set" where
  "not_met U st = {t \<in> U. \<not> has_flag st t SYMBOL_CHECKED}"

text \<open>The symbols to search: a finite set, closed under dependencies, outside of choices.\<close>

definition searchable :: "symbol set \<Rightarrow> kstate \<Rightarrow> bool" where
  "searchable U st \<longleftrightarrow>
     finite U \<and> (\<forall>t \<in> U. set (dep_list st t) \<subseteq> U \<and> \<not> sym_is_choice st t \<and> \<not> sym_is_choice_value st t)"

text \<open>
  What is on the stack has been met. What is finished depends on finished symbols only and on no
  cycle.
\<close>

definition search_inv :: "kstate \<Rightarrow> bool" where
  "search_inv st \<longleftrightarrow>
     (\<forall>t. has_flag st t SYMBOL_CHECK \<longrightarrow> has_flag st t SYMBOL_CHECKED) \<and>
     (\<forall>t \<in> finished st. set (dep_list st t) \<subseteq> finished st \<and> (t, t) \<notin> (depends st)\<^sup>+)"

definition search_result :: "symbol set \<Rightarrow> kstate \<Rightarrow> symbol list \<Rightarrow> symbol option \<Rightarrow> kstate \<Rightarrow> bool" where
  "search_result U st xs r st' \<longleftrightarrow>
     same_but_marks st st' \<and> not_met U st' \<subseteq> not_met U st \<and>
     (case r of
        None \<Rightarrow> on_stack st' = on_stack st \<and> finished st \<union> set xs \<subseteq> finished st' \<and> search_inv st'
      | Some t \<Rightarrow> \<exists>x \<in> set xs. (x, t) \<in> (depends st)\<^sup>* \<and>
          ((\<forall>g \<in> on_stack st. (g, x) \<in> (depends st)\<^sup>+) \<longrightarrow> (t, t) \<in> (depends st)\<^sup>+))"

lemma searchable_marks: "same_but_marks st st' \<Longrightarrow> searchable U st \<Longrightarrow> searchable U st'"
  by (simp add: searchable_def marks_dep_list)

lemma seq_result:
  assumes rec: "\<And>st x. searchable U st \<Longrightarrow> search_inv st \<Longrightarrow> x \<in> U \<Longrightarrow> card (not_met U st) < n \<Longrightarrow>
      \<exists>r st'. rec st x = Some (r, st') \<and> search_result U st [x] r st'"
    and "searchable U st" "search_inv st" "set xs \<subseteq> U" "card (not_met U st) < n"
  shows "\<exists>r st'. check_seq rec xs st = Some (r, st') \<and> search_result U st xs r st'"
  using assms(2-)
proof (induction xs arbitrary: st)
  case (Cons x xs)
  then obtain r st1 where r: "rec st x = Some (r, st1)" "search_result U st [x] r st1"
    using rec [of st x] by auto
  show ?case
  proof (cases r)
    case (Some t)
    then show ?thesis using r by (auto simp: search_result_def)
  next
    case None
    with r(2) have s1: "same_but_marks st st1" "not_met U st1 \<subseteq> not_met U st" "on_stack st1 = on_stack st"
      "insert x (finished st) \<subseteq> finished st1" "search_inv st1" by (auto simp: search_result_def)
    have "finite (not_met U st)" using Cons.prems(1) by (simp add: searchable_def not_met_def)
    then have "card (not_met U st1) < n" using card_mono [OF _ s1(2)] Cons.prems(4) by simp
    then obtain r2 st2 where r2: "check_seq rec xs st1 = Some (r2, st2)" "search_result U st1 xs r2 st2"
      using Cons.IH [OF searchable_marks [OF s1(1) Cons.prems(1)] s1(5)] Cons.prems(3) by auto
    have "search_result U st (x # xs) r2 st2"
      using r2(2) s1 marks_dep_list(2) [OF s1(1)] same_marks_trans [OF s1(1)]
      by (cases r2) (auto simp: search_result_def)
    then show ?thesis using r None r2 by simp
  qed
qed (auto simp: search_result_def)

lemma mark_facts:
  "on_stack (mark s st) = insert s (on_stack st)"
  "finished (mark s st) = finished st - {s}" "not_met U (mark s st) = not_met U st - {s}"
  by (auto simp: mark_def set_flag_def on_stack_def finished_def not_met_def)

lemma clear_facts:
  "on_stack (clear_flag s SYMBOL_CHECK st) = on_stack st - {s}"
  "finished (clear_flag s SYMBOL_CHECK st) = finished st \<union> {t. t = s \<and> has_flag st s SYMBOL_CHECKED}"
  "not_met U (clear_flag s SYMBOL_CHECK st) = not_met U st"
  by (auto simp: clear_flag_def on_stack_def finished_def not_met_def)

lemma finished_closed:
  assumes "search_inv st" "b \<in> finished st" "(b, x) \<in> (depends st)\<^sup>*"
  shows "x \<in> finished st"
  using assms(3,2) by (induction rule: rtrancl_induct) (use assms(1) in \<open>auto simp: search_inv_def depends_def\<close>)

lemma mark_inv: "search_inv st \<Longrightarrow> s \<notin> finished st \<Longrightarrow> search_inv (mark s st)"
proof -
  assume inv: "search_inv st" and s: "s \<notin> finished st"
  note d = marks_dep_list [OF mark_marks [of st s]]
  have "finished (mark s st) = finished st" using s mark_facts(2) by auto
  moreover have "has_flag (mark s st) t SYMBOL_CHECK \<longrightarrow> has_flag (mark s st) t SYMBOL_CHECKED" for t
    using inv by (auto simp: search_inv_def mark_def set_flag_def)
  ultimately show ?thesis using inv unfolding search_inv_def d by simp
qed

text \<open>A symbol whose dependencies are finished, taken from the stack.\<close>

lemma pop_inv:
  assumes inv: "search_inv st" and s: "has_flag st s SYMBOL_CHECK" and deps: "set (dep_list st s) \<subseteq> finished st"
  shows "search_inv (clear_flag s SYMBOL_CHECK st)" "finished (clear_flag s SYMBOL_CHECK st) = insert s (finished st)"
proof -
  note d = marks_dep_list [OF clear_marks [of st s]]
  have "has_flag st s SYMBOL_CHECKED" using inv s by (simp add: search_inv_def)
  then show f: "finished (clear_flag s SYMBOL_CHECK st) = insert s (finished st)"
    by (auto simp: clear_facts(2))
  have "(s, s) \<notin> (depends st)\<^sup>+"
  proof
    assume "(s, s) \<in> (depends st)\<^sup>+"
    then obtain b where "(s, b) \<in> depends st" "(b, s) \<in> (depends st)\<^sup>*" by (meson tranclD)
    then have "s \<in> finished st" using deps finished_closed [OF inv] by (auto simp: depends_def)
    then show False using s by (simp add: finished_def)
  qed
  moreover have "has_flag (clear_flag s SYMBOL_CHECK st) t SYMBOL_CHECK \<longrightarrow> has_flag (clear_flag s SYMBOL_CHECK st) t SYMBOL_CHECKED" for t
    using inv by (auto simp: search_inv_def clear_flag_def)
  ultimately show "search_inv (clear_flag s SYMBOL_CHECK st)"
    using inv deps unfolding search_inv_def d f by auto
qed

lemma sym_check_deps_marks: "sym_check_deps n st s = Some (r, st') \<Longrightarrow> same_but_marks st st'"
proof (induction n arbitrary: st s r st')
  case (Suc n)
  have loc: "marking (sym_check_deps n)" by unfold_locales (rule Suc.IH)
  note m = marking.sym_deps_marks [OF loc] marking.choice_deps_marks [OF loc]
  from Suc.prems show ?case
    by (auto simp: bind_eq_Some_conv split: if_splits dest!: m(1) intro: m(2) Suc.IH
        same_marks_trans [OF mark_marks same_marks_trans [OF _ clear_marks]])
qed simp

interpretation deps: marking "sym_check_deps n" for n
  by unfold_locales (rule sym_check_deps_marks)

lemma pop_result:
  assumes s: "\<not> has_flag st s SYMBOL_CHECK" "\<not> has_flag st s SYMBOL_CHECKED"
    and res: "search_result U (mark s st) (dep_list st s) r st1"
  shows "search_result U st [s] r (clear_flag s SYMBOL_CHECK st1)"
proof -
  have m: "same_but_marks st (clear_flag s SYMBOL_CHECK st1)" and m1: "same_but_marks st st1"
    using res mark_marks [of st s] clear_marks [of st1 s] by (auto simp: search_result_def intro: same_marks_trans)
  have D: "depends (mark s st) = depends st" by (rule marks_dep_list(2) [OF mark_marks])
  have u: "not_met U (clear_flag s SYMBOL_CHECK st1) \<subseteq> not_met U st"
    using res by (auto simp: search_result_def mark_facts clear_facts)
  show ?thesis
  proof (cases r)
    case None
    then have 1: "on_stack st1 = insert s (on_stack st)" "finished st - {s} \<union> set (dep_list st s) \<subseteq> finished st1" "search_inv st1"
      using res by (auto simp: search_result_def mark_facts)
    have "has_flag st1 s SYMBOL_CHECK" using 1(1) by (auto simp: on_stack_def)
    from pop_inv [OF 1(3) this] have "search_inv (clear_flag s SYMBOL_CHECK st1)"
      "finished (clear_flag s SYMBOL_CHECK st1) = insert s (finished st1)"
      using 1(2) marks_dep_list(1) [OF m1] by simp_all
    moreover have "on_stack (clear_flag s SYMBOL_CHECK st1) = on_stack st"
      unfolding clear_facts(1) 1(1) using s(1) by (auto simp: on_stack_def)
    ultimately show ?thesis using None m u 1(2) s(2) by (auto simp: search_result_def finished_def)
  next
    case (Some t)
    then obtain x where x: "x \<in> set (dep_list st s)" "(x, t) \<in> (depends st)\<^sup>*"
      and c: "(\<forall>g \<in> insert s (on_stack st). (g, x) \<in> (depends st)\<^sup>+) \<Longrightarrow> (t, t) \<in> (depends st)\<^sup>+"
      using res by (auto simp: search_result_def mark_facts D)
    have sx: "(s, x) \<in> depends st" using x(1) by (simp add: depends_def)
    have "(s, t) \<in> (depends st)\<^sup>*" using sx x(2) by simp
    moreover have "(\<forall>g \<in> on_stack st. (g, s) \<in> (depends st)\<^sup>+) \<Longrightarrow> (t, t) \<in> (depends st)\<^sup>+"
      using c sx by (auto intro: trancl_into_trancl)
    ultimately show ?thesis using Some m u by (simp add: search_result_def)
  qed
qed

lemma sym_check_deps_result:
  "searchable U st \<Longrightarrow> search_inv st \<Longrightarrow> s \<in> U \<Longrightarrow> card (not_met U st) < n \<Longrightarrow>
     \<exists>r st'. sym_check_deps n st s = Some (r, st') \<and> search_result U st [s] r st'"
proof (induction n arbitrary: st s)
  case (Suc n)
  show ?case
  proof (cases "has_flag st s SYMBOL_CHECK")
    case True
    then show ?thesis by (auto simp: search_result_def on_stack_def)
  next
    case stack: False
    show ?thesis
    proof (cases "has_flag st s SYMBOL_CHECKED")
      case True
      then show ?thesis using stack Suc.prems by (auto simp: search_result_def finished_def)
    next
      case False
      have plain: "\<not> sym_is_choice st s" "\<not> sym_is_choice_value st s" "set (dep_list st s) \<subseteq> U" "finite U"
        using Suc.prems by (auto simp: searchable_def)
      let ?st0 = "mark s st"
      note m0 = mark_marks [of st s]
      note d0 = marks_dep_list [OF m0]
      have "s \<in> not_met U st" "finite (not_met U st)" using False Suc.prems(3) plain(4) by (auto simp: not_met_def)
      then have "card (not_met U ?st0) < n" using Suc.prems(4) card_Diff1_less [of "not_met U st" s] by (simp add: mark_facts)
      moreover have "search_inv ?st0" using mark_inv Suc.prems(2) False by (auto simp: finished_def)
      moreover have "searchable U ?st0" using searchable_marks [OF m0 Suc.prems(1)] .
      ultimately obtain r st1 where seq: "check_seq (sym_check_deps n) (dep_list ?st0 s) ?st0 = Some (r, st1)"
        and res: "search_result U ?st0 (dep_list ?st0 s) r st1"
        using seq_result [of U n "sym_check_deps n" ?st0 "dep_list ?st0 s"] Suc.IH plain(3) d0(1) by metis
      have "\<not> sym_is_choice ?st0 s" using d0(3) plain(1) by simp
      then have "sym_check_deps (Suc n) st s = Some (r, clear_flag s SYMBOL_CHECK st1)"
        using stack False plain seq by (simp add: deps.check_sym_seq)
      with pop_result [OF stack False] res show ?thesis using d0(1) by auto
    qed
  qed
qed simp

subsection \<open>An example\<close>

text \<open>Two symbols that depend on each other.\<close>

definition ring :: kstate where
  "ring = (initial_state (=))\<lparr>next_sym := 2,
     st_syms := initial_syms
       (Sym 0 := (new_symbol (Some ''A'') {})\<lparr>ks_type := S_BOOLEAN, dir_dep := Some (E_SYMBOL (Sym 1))\<rparr>,
        Sym 1 := (new_symbol (Some ''B'') {})\<lparr>ks_type := S_BOOLEAN, dir_dep := Some (E_NOT (E_SYMBOL (Sym 0)))\<rparr>)\<rparr>"

lemma ring_searchable: "searchable {Sym 0, Sym 1} ring"
  by (simp add: searchable_def ring_def initial_state_def new_symbol_def dep_list_def opt_list_def
      sym_is_choice_def sym_is_choice_value_def)

lemma ring_fresh: "\<forall>t. \<not> has_flag ring t SYMBOL_CHECK \<and> \<not> has_flag ring t SYMBOL_CHECKED"
proof
  show "\<not> has_flag ring t SYMBOL_CHECK \<and> \<not> has_flag ring t SYMBOL_CHECKED" for t
    by (cases t) (simp_all add: ring_def initial_state_def new_symbol_def const_ksym_def)
qed

subsection \<open>Properties\<close>

text \<open>
  C15: The check for recursive dependencies is exact. Before any symbol has been checked, the check
  of a symbol ends after at most as many nested calls as there are symbols, it changes nothing but
  its own two flags, and it reports a symbol if and only if the symbol that is checked depends,
  directly or through others, on a symbol that depends on itself. Symbols of choices are excepted.
\<close>

theorem sym_check_deps_exact:
  assumes "searchable U st" "s \<in> U" "card U < n"
    and "\<forall>t. \<not> has_flag st t SYMBOL_CHECK \<and> \<not> has_flag st t SYMBOL_CHECKED"
  shows "\<exists>r st'. sym_check_deps n st s = Some (r, st') \<and> same_but_marks st st' \<and>
    (r \<noteq> None \<longleftrightarrow> (\<exists>t. (s, t) \<in> (depends st)\<^sup>* \<and> (t, t) \<in> (depends st)\<^sup>+))"
proof -
  have fresh: "search_inv st" "on_stack st = {}" using assms(4) by (auto simp: search_inv_def finished_def on_stack_def)
  have "card (not_met U st) \<le> card U" using assms(1) by (intro card_mono) (auto simp: searchable_def not_met_def)
  then obtain r st' where r: "sym_check_deps n st s = Some (r, st')" and res: "search_result U st [s] r st'"
    using sym_check_deps_result [OF assms(1) fresh(1) assms(2), of n] assms(3) by auto
  note m = sym_check_deps_marks [OF r]
  have "r \<noteq> None \<longleftrightarrow> (\<exists>t. (s, t) \<in> (depends st)\<^sup>* \<and> (t, t) \<in> (depends st)\<^sup>+)"
  proof (cases r)
    case None
    with res have "search_inv st'" "s \<in> finished st'" by (auto simp: search_result_def)
    then have "(t, t) \<notin> (depends st)\<^sup>+" if "(s, t) \<in> (depends st)\<^sup>*" for t
      using finished_closed [of st' s t] that marks_dep_list(2) [OF m] by (auto simp: search_inv_def)
    with None show ?thesis by blast
  next
    case (Some t)
    with res fresh(2) show ?thesis by (auto simp: search_result_def)
  qed
  with r m show ?thesis by blast
qed

theorem sym_check_deps_exact_witness:
  "\<exists>r st'. sym_check_deps 3 ring (Sym 0) = Some (r, st') \<and> same_but_marks ring st' \<and>
    (r \<noteq> None \<longleftrightarrow> (\<exists>t. (Sym 0, t) \<in> (depends ring)\<^sup>* \<and> (t, t) \<in> (depends ring)\<^sup>+))"
  by (rule sym_check_deps_exact [OF ring_searchable _ _ ring_fresh]) simp_all

end
