(* ===== verification/Kconfig_Symbol_Correct.thy ===== *)
theory Kconfig_Symbol_Correct
  imports Kconfig_Symbol_Steps Kconfig_Correct
begin

text \<open>
  Properties of \<^verbatim>\<open>scripts/kconfig/symbol.c\<close>: the calculation of a symbol ends, with a result that does
  not depend on the bound of the model; it keeps values within their types; a symbol that has been
  calculated keeps its value, so that an expression has the value the final memory gives it.
\<close>

subsection \<open>The calculation ends\<close>

text \<open>What is left to do: the symbols without a valid value, and the choices that wait for their values.\<close>

definition todo :: "symbol set \<Rightarrow> kstate \<Rightarrow> nat" where
  "todo U st = card {t \<in> U. \<not> has_flag st t SYMBOL_VALID} + 2 * card {t \<in> U. has_flag st t SYMBOL_NEED_SET_CHOICE_VALUES}"

lemma todo_cong:
  assumes "\<And>t. ks_flags (sym_at st' t) \<inter> {SYMBOL_VALID, SYMBOL_NEED_SET_CHOICE_VALUES} =
      ks_flags (sym_at st t) \<inter> {SYMBOL_VALID, SYMBOL_NEED_SET_CHOICE_VALUES}"
  shows "todo U st' = todo U st"
proof -
  have "SYMBOL_VALID \<in> ks_flags (sym_at st' t) \<longleftrightarrow> SYMBOL_VALID \<in> ks_flags (sym_at st t)"
    "SYMBOL_NEED_SET_CHOICE_VALUES \<in> ks_flags (sym_at st' t) \<longleftrightarrow> SYMBOL_NEED_SET_CHOICE_VALUES \<in> ks_flags (sym_at st t)" for t
    using assms [of t] by blast+
  then show ?thesis by (simp add: todo_def)
qed

lemma todo_valid:
  assumes "finite U"
  shows "todo U (set_flag s SYMBOL_VALID st) \<le> todo U st"
    and "s \<in> U \<Longrightarrow> \<not> has_flag st s SYMBOL_VALID \<Longrightarrow> todo U (set_flag s SYMBOL_VALID st) < todo U st"
proof -
  let ?A = "{t \<in> U. \<not> has_flag st t SYMBOL_VALID}"
  have v: "{t \<in> U. \<not> has_flag (set_flag s SYMBOL_VALID st) t SYMBOL_VALID} = ?A - {s}"
    by (auto simp: set_flag_def)
  have n: "has_flag (set_flag s SYMBOL_VALID st) t SYMBOL_NEED_SET_CHOICE_VALUES = has_flag st t SYMBOL_NEED_SET_CHOICE_VALUES" for t
    by (simp add: set_flag_def)
  show "todo U (set_flag s SYMBOL_VALID st) \<le> todo U st"
    unfolding todo_def v n using assms by (simp add: card_Diff1_le)
  assume "s \<in> U" "\<not> has_flag st s SYMBOL_VALID"
  then have "card (?A - {s}) < card ?A" using assms by (intro psubset_card_mono) auto
  then show "todo U (set_flag s SYMBOL_VALID st) < todo U st" unfolding todo_def v n by simp
qed

lemma todo_need:
  assumes "finite U" "has_flag st s SYMBOL_NEED_SET_CHOICE_VALUES"
  shows "todo U (clear_flag s SYMBOL_NEED_SET_CHOICE_VALUES st) + (if s \<in> U then 2 else 0) = todo U st"
proof -
  let ?A = "{t \<in> U. has_flag st t SYMBOL_NEED_SET_CHOICE_VALUES}"
  have v: "{t \<in> U. has_flag (clear_flag s SYMBOL_NEED_SET_CHOICE_VALUES st) t SYMBOL_NEED_SET_CHOICE_VALUES} = ?A - {s}"
    by (auto simp: clear_flag_def)
  have n: "has_flag (clear_flag s SYMBOL_NEED_SET_CHOICE_VALUES st) t SYMBOL_VALID = has_flag st t SYMBOL_VALID" for t
    by (simp add: clear_flag_def)
  have "card (?A - {s}) + (if s \<in> U then 1 else 0) = card ?A"
    using assms card_Suc_Diff1 [of ?A s] by (cases "s \<in> U") auto
  then show ?thesis unfolding todo_def v n by auto
qed

lemma todo_clear_valid: "finite U \<Longrightarrow> todo U (clear_flag s SYMBOL_VALID st) \<le> todo U st + (if s \<in> U then 1 else 0)"
proof -
  assume fin: "finite U"
  let ?A = "{t \<in> U. \<not> has_flag st t SYMBOL_VALID}"
  have "{t \<in> U. \<not> has_flag (clear_flag s SYMBOL_VALID st) t SYMBOL_VALID} = (if s \<in> U then insert s ?A else ?A)"
    by (auto simp: clear_flag_def)
  moreover have "card (insert s ?A) \<le> card ?A + 1" using fin by (simp add: card_insert_if)
  moreover have "has_flag (clear_flag s SYMBOL_VALID st) t SYMBOL_NEED_SET_CHOICE_VALUES = has_flag st t SYMBOL_NEED_SET_CHOICE_VALUES" for t
    by (simp add: clear_flag_def)
  ultimately show ?thesis unfolding todo_def by simp
qed

lemma todo_steps:
  "(calculates st st' \<Longrightarrow> finite U \<longrightarrow> todo U st' \<le> todo U st)"
  "(works s st st' \<Longrightarrow> finite U \<longrightarrow> todo U st' \<le> todo U st)"
proof (induction rule: calculates_works.inducts)
  case (works_meta st st' s)
  then show ?case using todo_cong [of st' st U] by (auto simp: meta_step_def)
next
  case (works_curr t st s v)
  show ?case by (intro impI eq_imp_le todo_cong) (simp add: set_curr_def)
next
  case (works_need st s)
  then show ?case using todo_need by fastforce
next
  case (works_redo st s)
  show ?case
  proof
    assume fin: "finite U"
    have "has_flag (clear_flag s SYMBOL_VALID st) s SYMBOL_NEED_SET_CHOICE_VALUES"
      using works_redo by (simp add: clear_flag_def)
    from todo_need [OF fin this] todo_clear_valid [OF fin, of s st]
    show "todo U (clear_flag s SYMBOL_NEED_SET_CHOICE_VALUES (clear_flag s SYMBOL_VALID st)) \<le> todo U st"
      by (simp split: if_splits)
  qed
next
  case (works_valid s st)
  show ?case by (simp add: todo_valid(1))
qed (auto simp: todo_def)

definition declared :: "symbol set \<Rightarrow> kstate \<Rightarrow> bool" where
  "declared U st \<longleftrightarrow> finite U \<and> (\<forall>t \<in> U. sym_ok U st t)"

lemma declared_works: "works s st st' \<Longrightarrow> declared U st \<Longrightarrow> declared U st'"
  by (auto simp: declared_def intro: sym_ok_works)

lemma calculation_total:
  assumes IH: "\<And>st t. declared U st \<Longrightarrow> t \<in> U \<Longrightarrow> todo U st < n \<Longrightarrow> \<exists>st'. sym_calc_value n st t = Some st'"
    and "declared U st0" "todo U st0 < n"
  shows "calculation (sym_calc_value n) True U s st0"
proof
  fix st t
  assume w: "works s st0 st" and t: "True \<Longrightarrow> t \<in> U"
  have "todo U st < n" using todo_steps(2) [OF w, of U] assms(2,3) by (auto simp: declared_def)
  then obtain st' where "sym_calc_value n st t = Some st'"
    using IH [of st t] declared_works [OF w assms(2)] t by blast
  then show "returns True (sym_calc_value n st t) (calculates st)"
    using sym_calc_value_calculates by simp
qed (use assms(2) in \<open>simp add: declared_def\<close>)

lemma sym_calc_value_total:
  "declared U st \<Longrightarrow> s \<in> U \<Longrightarrow> todo U st < n \<Longrightarrow> \<exists>st'. sym_calc_value n st s = Some st'"
proof (induction n arbitrary: st s)
  case (Suc n)
  have fin: "finite U" and ok: "sym_ok U st s" using Suc.prems by (simp_all add: declared_def)
  have new: "\<exists>st'. (if ks_type (sym_at st1 s) = S_UNKNOWN
      then Some (set_curr s (case ks_name (sym_at st1 s) of Some n \<Rightarrow> V_str n | None \<Rightarrow> V_null) tri_no st1)
      else calc_new_value (sym_calc_value n) s st1) = Some st'"
    if "works s st0 st1" "declared U st0" "todo U st0 < n"
      "has_flag st0 s SYMBOL_NEED_SET_CHOICE_VALUES \<Longrightarrow> sym_is_choice st0 s" for st0 st1
    using calculation.new_value_ret [OF calculation_total [OF Suc.IH that(2,3)] that(1), where Q = "\<lambda>_. True"]
      Suc.prems(2) that(4) by (auto simp: returns_total)
  show ?case
  proof (cases "has_flag st s SYMBOL_VALID")
    case invalid: False
    show ?thesis
    proof (cases "sym_is_choice_value st s \<and> has_flag st s SYMBOL_NEED_SET_CHOICE_VALUES")
      case True
      let ?st0 = "clear_flag s SYMBOL_NEED_SET_CHOICE_VALUES st"
      have w0: "works s st ?st0" using True by (intro works_need) simp
      have less: "todo U ?st0 < n" using todo_need [OF fin, of st s] True Suc.prems(2,3) by simp
      note decl0 = declared_works [OF w0 Suc.prems(1)]
      have "sym_is_choice_value ?st0 s" using True by (simp add: sym_is_choice_value_def clear_flag_def)
      then obtain p c where p: "sym_get_choice_prop ?st0 s = Some p" "prop_get_symbol p = Some c" "c \<in> U"
        using calculation.declared_choice_value [OF calculation_total [OF Suc.IH decl0 less] works_refl]
          Suc.prems(2) by blast
      obtain st1 where st1: "sym_calc_value n ?st0 c = Some st1" using Suc.IH [OF decl0 p(3) less] by blast
      have "works s ?st0 (set_flag s SYMBOL_VALID st1)"
        using works_call [OF sym_calc_value_calculates [OF st1]] works_valid by (rule works_trans)
      from new [OF this decl0 less] True invalid p st1 show ?thesis
        by (auto simp: calc_body_def Let_def clear_flag_def)
    next
      case False
      let ?st0 = "set_flag s SYMBOL_VALID st"
      have less: "todo U ?st0 < n" using todo_valid(2) [OF fin Suc.prems(2) invalid] Suc.prems(3) by simp
      have "has_flag ?st0 s SYMBOL_NEED_SET_CHOICE_VALUES \<Longrightarrow> sym_is_choice ?st0 s"
        using ok False by (auto simp: sym_ok_def sym_is_choice_def set_flag_def)
      from new [OF works_refl declared_works [OF works_valid Suc.prems(1)] less this] False invalid
      show ?thesis by (auto simp: calc_body_def Let_def)
    qed
  qed (simp add: calc_body_def)
qed simp

lemma todo_bound: "finite U \<Longrightarrow> todo U st \<le> 3 * card U"
proof -
  assume "finite U"
  then have "card {t \<in> U. P t} \<le> card U" for P by (intro card_mono) auto
  from this [of "\<lambda>t. \<not> has_flag st t SYMBOL_VALID"] this [of "\<lambda>t. has_flag st t SYMBOL_NEED_SET_CHOICE_VALUES"]
  show ?thesis unfolding todo_def by linarith
qed

subsection \<open>Values fit their types\<close>

definition typed :: "kstate \<Rightarrow> bool" where
  "typed st \<longleftrightarrow> (\<forall>t. tri_fits (ks_type (sym_at st t)) (ks_tri (sym_at st t)))"

lemma steps_typed: "(calculates st st' \<Longrightarrow> typed st \<longrightarrow> typed st')" "(works s st st' \<Longrightarrow> typed st \<longrightarrow> typed st')"
proof (induction rule: calculates_works.inducts)
  case (works_meta st st' s)
  have "ks_type (sym_at st' t) = ks_type (sym_at st t)" "ks_tri (sym_at st' t) = ks_tri (sym_at st t)" for t
    using works_meta(1) [of t] decl_fields(2) [of "sym_at st' t" "sym_at st t"] by (simp_all add: meta_step_def)
  then show ?case by (simp add: typed_def)
qed (auto simp: typed_def set_curr_def set_flag_def clear_flag_def)

lemma typed_booleans: "typed st \<Longrightarrow> booleans_ok (env_of st)"
  unfolding typed_def booleans_ok_def env_of_def info_of_def
  by (metis sym_info.select_convs(2,4) tri_fits.simps(2))

subsection \<open>Calculated values stay\<close>

definition keeps :: "kstate \<Rightarrow> kstate \<Rightarrow> symbol \<Rightarrow> bool" where
  "keeps st st' t \<longleftrightarrow>
     (has_flag st t SYMBOL_VALID \<longrightarrow>
        has_flag st' t SYMBOL_VALID \<and> ks_tri (sym_at st' t) = ks_tri (sym_at st t) \<and> ks_val (sym_at st' t) = ks_val (sym_at st t))"

lemma steps_keep: "(calculates st st' \<Longrightarrow> keeps st st' t)" "(works s st st' \<Longrightarrow> t \<noteq> s \<longrightarrow> keeps st st' t)"
proof (induction rule: calculates_works.inducts)
  case (works_meta st st' s)
  then show ?case unfolding keeps_def meta_step_def by blast
qed (auto simp: keeps_def set_curr_def set_flag_def clear_flag_def)

definition no_waiting :: "kstate \<Rightarrow> bool" where
  "no_waiting st \<longleftrightarrow> (\<forall>t. \<not> has_flag st t SYMBOL_NEED_SET_CHOICE_VALUES)"

lemma no_waiting_steps: "calculates st st' \<Longrightarrow> no_waiting st \<Longrightarrow> no_waiting st'"
  using steps_need(1) unfolding no_waiting_def by blast

lemma works_stays_valid: "(calculates st st' \<Longrightarrow> True)"
  "(works s st st' \<Longrightarrow> no_waiting st \<and> has_flag st s SYMBOL_VALID \<longrightarrow> has_flag st' s SYMBOL_VALID)"
proof (induction rule: calculates_works.inducts)
  case (works_trans s st st1 st2)
  then show ?case using steps_need(2) [OF works_trans(1)] unfolding no_waiting_def by blast
next
  case (works_call st st' s)
  then show ?case using steps_keep(1) unfolding keeps_def by blast
next
  case (works_meta st st' s)
  then show ?case unfolding meta_step_def by blast
qed (auto simp: set_curr_def set_flag_def clear_flag_def no_waiting_def)

lemma calc_makes_valid:
  assumes "sym_calc_value n st s = Some st'" "no_waiting st"
  shows "has_flag st' s SYMBOL_VALID"
proof (cases n)
  case (Suc m)
  show ?thesis
  proof (cases "has_flag st s SYMBOL_VALID")
    case True
    then show ?thesis using steps_keep(1) [OF sym_calc_value_calculates [OF assms(1)], of s] by (simp add: keeps_def)
  next
    case False
    let ?st0 = "set_flag s SYMBOL_VALID st"
    have "works s ?st0 st'"
    proof (cases "ks_type (sym_at ?st0 s) = S_UNKNOWN")
      case True
      then have "st' = set_curr s (case ks_name (sym_at ?st0 s) of Some n \<Rightarrow> V_str n | None \<Rightarrow> V_null) tri_no ?st0"
        using assms False Suc by (simp add: calc_body_def no_waiting_def Let_def)
      then show ?thesis by (simp add: works_curr)
    next
      case unknown: False
      then have "calc_new_value (sym_calc_value m) s ?st0 = Some st'"
        using assms False Suc by (simp add: calc_body_def no_waiting_def Let_def)
      then show ?thesis
        using calc.new_value_ret [OF works_refl, of s ?st0 "works s ?st0" m] by simp
    qed
    moreover have "no_waiting ?st0" "has_flag ?st0 s SYMBOL_VALID" using assms(2) by (auto simp: no_waiting_def set_flag_def)
    ultimately show ?thesis using works_stays_valid(2) by blast
  qed
qed (use assms in simp)

subsection \<open>The value of an expression\<close>

definition constants_set :: "kstate \<Rightarrow> bool" where
  "constants_set st \<longleftrightarrow>
     (\<forall>t \<in> {symbol_yes, symbol_mod, symbol_no}. has_flag st t SYMBOL_VALID \<and> ks_tri (sym_at st t) = tri_of (env_of st) t)"

lemma constants_steps: "calculates st st' \<Longrightarrow> constants_set st \<Longrightarrow> constants_set st'"
  using steps_keep(1) [of st st'] by (auto simp: constants_set_def keeps_def)

lemma info_keeps:
  assumes "calculates st st'" "has_flag st (Sym i) SYMBOL_VALID"
  shows "env_of st' i = env_of st i"
  using steps_keep(1) [OF assms(1), of "Sym i"] calculates_decls [OF assms(1)] assms(2)
    decl_fields [of "sym_at st' (Sym i)" "sym_at st (Sym i)"]
  unfolding env_of_def info_of_def keeps_def same_decls_st_def by simp

lemma tri_of_calculated: "constants_set st \<Longrightarrow> ks_tri (sym_at st t) = tri_of (env_of st) t"
  by (cases t) (auto simp: constants_set_def env_of_def info_of_def)

definition known :: "kstate \<Rightarrow> expr \<Rightarrow> bool" where
  "known st e \<longleftrightarrow> (\<forall>t \<in> expr_syms e. has_flag st t SYMBOL_VALID)"

lemma known_keeps:
  assumes "calculates st st'" "known st e"
  shows "known st' e" "expr_value (env_of st') e = expr_value (env_of st) e"
proof -
  show "known st' e"
    using assms steps_keep(1) [OF assms(1)] by (auto simp: known_def keeps_def)
  have info: "sym_info_of (env_of st') t = sym_info_of (env_of st) t" if "has_flag st t SYMBOL_VALID" for t
    using that info_keeps [OF assms(1)] by (cases t) auto
  have cmp: "compare_syms (env_of st') t u = compare_syms (env_of st) t u"
    if "has_flag st t SYMBOL_VALID" "has_flag st u SYMBOL_VALID" for t u
    unfolding compare_syms_def sym_get_string_value_def info [OF that(1)] info [OF that(2)] ..
  show "expr_value (env_of st') e = expr_value (env_of st) e"
    using assms(2) by (induction e) (auto simp: known_def info cmp)
qed

definition settled :: "kstate \<Rightarrow> bool" where
  "settled st \<longleftrightarrow> no_waiting st \<and> constants_set st"

lemma settled_steps: "calculates st st' \<Longrightarrow> settled st \<Longrightarrow> settled st'"
  using no_waiting_steps constants_steps unfolding settled_def by blast

lemma calcs_settled: "calculates\<^sup>*\<^sup>* st st' \<Longrightarrow> settled st \<Longrightarrow> settled st'"
  by (induction rule: rtranclp_induct) (auto intro: settled_steps)

lemma calcs_known:
  "calculates\<^sup>*\<^sup>* st st' \<Longrightarrow> known st e \<Longrightarrow> known st' e \<and> expr_value (env_of st') e = expr_value (env_of st) e"
  by (induction rule: rtranclp_induct) (auto dest: known_keeps)

lemma eval_expr_value:
  assumes "eval_expr (sym_calc_value n) e st = Some (v, st')" "settled st"
  shows "calculates\<^sup>*\<^sup>* st st' \<and> known st' e \<and> v = expr_value (env_of st') e"
  using assms
proof (induction e arbitrary: st v st')
  case (E_SYMBOL s)
  from E_SYMBOL.prems(1) have c: "sym_calc_value n st s = Some st'" and v: "v = ks_tri (sym_at st' s)"
    by (auto simp: bind_eq_Some_conv)
  note step = sym_calc_value_calculates [OF c]
  have "has_flag st' s SYMBOL_VALID" using calc_makes_valid [OF c] E_SYMBOL.prems(2) by (simp add: settled_def)
  moreover have "v = tri_of (env_of st') s"
    using tri_of_calculated settled_steps [OF step E_SYMBOL.prems(2)] v by (simp add: settled_def)
  ultimately show ?case using step by (simp add: known_def)
next
  case (E_COMP ty s1 s2)
  from E_COMP.prems(1) obtain st1 where c1: "sym_calc_value n st s1 = Some st1" and c2: "sym_calc_value n st1 s2 = Some st'"
    and v: "v = (if holds_cmp ty (compare_syms (env_of st') s1 s2) then tri_yes else tri_no)"
    by (auto simp: bind_eq_Some_conv)
  note step1 = sym_calc_value_calculates [OF c1] and step2 = sym_calc_value_calculates [OF c2]
  note set1 = settled_steps [OF step1 E_COMP.prems(2)]
  have "has_flag st1 s1 SYMBOL_VALID" using calc_makes_valid [OF c1] E_COMP.prems(2) by (simp add: settled_def)
  then have "has_flag st' s1 SYMBOL_VALID" using steps_keep(1) [OF step2, of s1] by (simp add: keeps_def)
  moreover have "has_flag st' s2 SYMBOL_VALID" using calc_makes_valid [OF c2] set1 by (simp add: settled_def)
  ultimately show ?case using step1 step2 v by (simp add: known_def)
next
  case (E_NOT e)
  then show ?case by (fastforce simp: bind_eq_Some_conv known_def)
next
  case (E_OR l r)
  from E_OR.prems(1) obtain a b st1 where l: "eval_expr (sym_calc_value n) l st = Some (a, st1)"
    and r: "eval_expr (sym_calc_value n) r st1 = Some (b, st')" and v: "v = EXPR_OR a b"
    by (auto simp: bind_eq_Some_conv)
  note IHl = E_OR.IH(1) [OF l E_OR.prems(2)]
  note IHr = E_OR.IH(2) [OF r calcs_settled [OF conjunct1 [OF IHl] E_OR.prems(2)]]
  show ?case using IHl IHr calcs_known [of st1 st' l] v by (auto simp: known_def)
next
  case (E_AND l r)
  from E_AND.prems(1) obtain a b st1 where l: "eval_expr (sym_calc_value n) l st = Some (a, st1)"
    and r: "eval_expr (sym_calc_value n) r st1 = Some (b, st')" and v: "v = EXPR_AND a b"
    by (auto simp: bind_eq_Some_conv)
  note IHl = E_AND.IH(1) [OF l E_AND.prems(2)]
  note IHr = E_AND.IH(2) [OF r calcs_settled [OF conjunct1 [OF IHl] E_AND.prems(2)]]
  show ?case using IHl IHr calcs_known [of st1 st' l] v by (auto simp: known_def)
qed

subsection \<open>The bound of the model does not matter\<close>

text \<open>More fuel for the recursive call gives the same results where there was one before.\<close>

lemma approx_node [approx_intro]:
  "(\<And>t. approx (f t) (f' t)) \<Longrightarrow> (\<And>ss. approx (g ss) (g' ss)) \<Longrightarrow> (\<And>a b. approx (h a b) (h' a b)) \<Longrightarrow>
     approx (case e of Node t \<Rightarrow> f t | E_LIST ss \<Rightarrow> g ss | E_RANGE a b \<Rightarrow> h a b)
       (case e of Node t \<Rightarrow> f' t | E_LIST ss \<Rightarrow> g' ss | E_RANGE a b \<Rightarrow> h' a b)"
  by (cases e) simp_all

locale more_fuel =
  fixes rec rec' :: calc
  assumes more: "approx (rec st s) (rec' st s)"
begin

lemma expr_more: "approx (eval_expr rec e st) (eval_expr rec' e st)"
  by (induction e arbitrary: st; simp only: eval_expr.simps; intro approx_intro more; blast)

lemma dep_more: "approx (eval_dep rec e st) (eval_dep rec' e st)"
  unfolding eval_dep_def by (intro approx_intro expr_more)

lemma node_more: "approx (eval_node rec e st) (eval_node rec' e st)"
  unfolding eval_node_def by (intro approx_intro expr_more)

lemma first_visible_more: "approx (first_visible rec s ty is st) (first_visible rec' s ty is st)"
  by (induction "is" arbitrary: st; simp only: first_visible.simps; intro approx_intro dep_more; blast)

lemma range_val_more: "approx (sym_get_range_val rec s b st) (sym_get_range_val rec' s b st)"
  unfolding sym_get_range_val_def by (intro approx_intro more)

lemma validate_more: "approx (sym_validate_range rec s st) (sym_validate_range rec' s st)"
  unfolding sym_validate_range_def sym_get_range_prop_def
  by (intro approx_intro first_visible_more range_val_more)

lemma prompts_more: "approx (prompts_visible rec s c is tri st) (prompts_visible rec' s c is tri st)"
  by (induction "is" arbitrary: tri st; simp only: prompts_visible.simps; intro approx_intro dep_more; blast)

lemma update_dep_more: "approx (update_dep rec s d v g h st) (update_dep rec' s d v g h st)"
  unfolding update_dep_def by (intro approx_intro expr_more)

lemma visibility_more: "approx (sym_calc_visibility rec s st) (sym_calc_visibility rec' s st)"
  unfolding sym_calc_visibility_def by (intro approx_intro prompts_more update_dep_more)

lemma choice_default_more: "approx (choice_default_prop rec s is st) (choice_default_prop rec' s is st)"
  by (induction "is" arbitrary: st; simp only: choice_default_prop.simps; intro approx_intro dep_more; blast)

lemma choice_flags_more: "approx (choice_flags rec vs fl st) (choice_flags rec' vs fl st)"
  by (induction vs arbitrary: fl st; simp only: choice_flags.simps; intro approx_intro visibility_more; blast)

lemma calc_choice_more: "approx (sym_calc_choice rec s st) (sym_calc_choice rec' s st)"
  unfolding sym_calc_choice_def sym_choice_default_def
  by (intro approx_intro choice_flags_more choice_default_more)

lemma revdep_more: "approx (revdep_text rec pr e tg st) (revdep_text rec' pr e tg st)"
  by (induction e arbitrary: tg st; simp only: revdep_text.simps; intro approx_intro expr_more; blast)

lemma warn_more: "approx (sym_warn_unmet_dep rec s st) (sym_warn_unmet_dep rec' s st)"
  unfolding sym_warn_unmet_dep_def by (intro approx_intro revdep_more)

lemma default_more: "approx (calc_default_tri rec s st) (calc_default_tri rec' s st)"
  unfolding calc_default_tri_def sym_get_default_prop_def and_visible_def
  by (intro approx_intro first_visible_more node_more)

lemma tristate_more: "approx (calc_tristate rec s st) (calc_tristate rec' s st)"
  unfolding calc_tristate_def by (intro approx_intro default_more warn_more)

lemma string_more: "approx (calc_string rec s st) (calc_string rec' s st)"
  unfolding calc_string_def sym_get_default_prop_def by (intro approx_intro first_visible_more more)

lemma body_more: "approx (calc_body rec st s) (calc_body rec' st s)"
  unfolding calc_body_def calc_new_value_def
  by (intro approx_intro more visibility_more tristate_more string_more calc_choice_more validate_more)

end

lemma sym_calc_value_step: "approx (sym_calc_value n st s) (sym_calc_value (Suc n) st s)"
proof (induction n arbitrary: st s)
  case (Suc n)
  have "more_fuel (sym_calc_value n) (sym_calc_value (Suc n))"
    by unfold_locales (rule Suc.IH)
  from more_fuel.body_more [OF this] show ?case by simp
qed (simp add: approx_def)

interpretation fuel: more_fuel "sym_calc_value n" "sym_calc_value (Suc n)" for n
  by unfold_locales (rule sym_calc_value_step)

lemma sym_calc_value_mono: "sym_calc_value n st s = Some st' \<Longrightarrow> n \<le> m \<Longrightarrow> sym_calc_value m st s = Some st'"
proof (induction m)
  case (Suc m)
  then show ?case using sym_calc_value_step [of m st s] by (cases "n = Suc m") (auto simp: approx_Some)
qed simp

subsection \<open>Selected symbols\<close>

lemma or_upper: "b \<le> EXPR_OR a b"
  by (cases a; cases b) (auto simp: EXPR_OR_def less_eq_tristate_def less_tristate_def)

lemma tristate_selected:
  assumes "calc_tristate rec s st = Some (t, st1)" "\<not> sym_is_choice_value st s"
  shows "rev_dep_tri (sym_at st1 s) \<le> t"
proof -
  from assms obtain a where t: "t = (if EXPR_OR a (rev_dep_tri (sym_at st1 s)) = tri_mod \<and> sym_get_type st1 s = S_BOOLEAN
      then tri_yes else EXPR_OR a (rev_dep_tri (sym_at st1 s)))"
    by (auto simp: calc_tristate_def bind_eq_Some_conv)
  show ?thesis
  proof (cases "EXPR_OR a (rev_dep_tri (sym_at st1 s)) = tri_mod \<and> sym_get_type st1 s = S_BOOLEAN")
    case True
    then have "t = tri_yes" using t by simp
    then show ?thesis by (cases "rev_dep_tri (sym_at st1 s)") (auto simp: less_eq_tristate_def)
  next
    case False
    then have "t = EXPR_OR a (rev_dep_tri (sym_at st1 s))" using t by (simp only: if_False)
    then show ?thesis using or_upper by simp
  qed
qed

definition only_changed :: "kstate \<Rightarrow> kstate \<Rightarrow> bool" where
  "only_changed st st' \<longleftrightarrow>
     (\<forall>u. \<exists>F. sym_at st' u = (sym_at st u)\<lparr>ks_flags := F\<rparr> \<and> F - {SYMBOL_CHANGED} = ks_flags (sym_at st u) - {SYMBOL_CHANGED})"

lemma only_changed_refl: "only_changed st st"
proof -
  have "sym_at st u = (sym_at st u)\<lparr>ks_flags := ks_flags (sym_at st u)\<rparr>" for u by simp
  then show ?thesis unfolding only_changed_def by blast
qed

lemma only_changed_trans:
  assumes "only_changed st st1" "only_changed st1 st2"
  shows "only_changed st st2"
  unfolding only_changed_def
proof
  fix u
  obtain F where F: "sym_at st1 u = (sym_at st u)\<lparr>ks_flags := F\<rparr>" "F - {SYMBOL_CHANGED} = ks_flags (sym_at st u) - {SYMBOL_CHANGED}"
    using assms(1) unfolding only_changed_def by blast
  obtain G where "sym_at st2 u = (sym_at st1 u)\<lparr>ks_flags := G\<rparr>" "G - {SYMBOL_CHANGED} = ks_flags (sym_at st1 u) - {SYMBOL_CHANGED}"
    using assms(2) unfolding only_changed_def by blast
  with F show "\<exists>G. sym_at st2 u = (sym_at st u)\<lparr>ks_flags := G\<rparr> \<and> G - {SYMBOL_CHANGED} = ks_flags (sym_at st u) - {SYMBOL_CHANGED}"
    by (intro exI [of _ G]) simp
qed

lemma set_changed_only: "only_changed st (sym_set_changed s st)"
  unfolding only_changed_def
proof
  fix u
  show "\<exists>F. sym_at (sym_set_changed s st) u = (sym_at st u)\<lparr>ks_flags := F\<rparr> \<and>
      F - {SYMBOL_CHANGED} = ks_flags (sym_at st u) - {SYMBOL_CHANGED}"
    by (rule exI [of _ "if u = s then insert SYMBOL_CHANGED (ks_flags (sym_at st u)) else ks_flags (sym_at st u)"])
      (auto simp: sym_set_changed_def set_flag_def)
qed

lemma all_changed_only: "only_changed st (sym_set_all_changed st)"
proof -
  have "only_changed st (fold sym_set_changed xs st)" for xs
    by (induction xs arbitrary: st) (auto intro: only_changed_refl only_changed_trans set_changed_only)
  then show ?thesis by (simp add: sym_set_all_changed_def)
qed

lemma note_change_only: "only_changed st (note_change s v t st)"
proof -
  have "only_changed st st1 \<Longrightarrow> only_changed st (st1\<lparr>modules_val := x\<rparr>)" for st1 x
    by (simp add: only_changed_def)
  then show ?thesis unfolding note_change_def Let_def
    using only_changed_refl set_changed_only [of st s] only_changed_trans [OF set_changed_only all_changed_only, of st s]
    by simp
qed

lemma finish_plain:
  assumes "finish_value s v t st = Some st'" "\<not> sym_is_choice st s" "\<not> has_flag st s SYMBOL_NEED_SET_CHOICE_VALUES"
  shows "ks_tri (sym_at st' s) = ks_tri (sym_at st s)" "rev_dep_tri (sym_at st' s) = rev_dep_tri (sym_at st s)"
    "ks_val (sym_at st' s) = ks_val (sym_at st s)"
proof -
  let ?st1 = "note_change s v t st"
  obtain F where F: "sym_at ?st1 s = (sym_at st s)\<lparr>ks_flags := F\<rparr>" "F - {SYMBOL_CHANGED} = ks_flags (sym_at st s) - {SYMBOL_CHANGED}"
    using note_change_only unfolding only_changed_def by blast
  have "SYMBOL_CHOICE \<notin> F" "SYMBOL_NEED_SET_CHOICE_VALUES \<notin> F"
    using F(2) assms(2,3) unfolding sym_is_choice_def by blast+
  then have "st' = (if has_flag ?st1 s SYMBOL_NO_WRITE then clear_flag s SYMBOL_WRITE ?st1 else ?st1)"
    using assms(1) F(1) by (auto simp: finish_value_def sym_is_choice_def clear_flag_def Let_def)
  then show "ks_tri (sym_at st' s) = ks_tri (sym_at st s)" "rev_dep_tri (sym_at st' s) = rev_dep_tri (sym_at st s)"
    "ks_val (sym_at st' s) = ks_val (sym_at st s)"
    using F(1) by (auto simp: clear_flag_def)
qed

lemma new_value_selected:
  assumes new: "calc_new_value rec s st = Some st'" and rec: "calculation rec False {} s st"
    and type: "ks_type (sym_at st s) = S_BOOLEAN \<or> ks_type (sym_at st s) = S_TRISTATE"
    and plain: "\<not> sym_is_choice st s" "\<not> sym_is_choice_value st s" "\<not> has_flag st s SYMBOL_NEED_SET_CHOICE_VALUES"
  shows "rev_dep_tri (sym_at st' s) \<le> ks_tri (sym_at st' s)"
proof -
  obtain st1 where vis: "sym_calc_visibility rec s (clear_flag s SYMBOL_WRITE st) = Some st1"
    using new by (auto simp: calc_new_value_def Let_def bind_eq_Some_conv)
  define st2 where "st2 = set_curr s (V_str ''n'') tri_no
      (if ks_visible (sym_at st1 s) \<noteq> tri_no then set_flag s SYMBOL_WRITE st1 else st1)"
  have "returns False (sym_calc_visibility rec s (clear_flag s SYMBOL_WRITE st)) (works s st)"
    by (rule calculation.visibility_ret [OF rec works_clear_write]) simp_all
  then have "works s st st1" using vis by simp
  then have w2: "works s st st2"
    unfolding st2_def by (intro calculation.works_set_curr [OF rec] calculation.works_if [OF rec]) (auto intro: works_set_flag)
  have type2: "sym_get_type st2 s = S_BOOLEAN \<or> sym_get_type st2 s = S_TRISTATE"
    using type decl_fields(2) [OF works_same_decl [OF w2], of s] by (auto simp: sym_get_type_def)
  let ?after = "\<lambda>st0 t st. do {
      st \<leftarrow> (if sym_is_choice (set_curr s (V_str ''n'') t st) s \<and> t = tri_yes
             then do {
               (d, st) \<leftarrow> sym_calc_choice rec s (set_curr s (V_str ''n'') t st);
               Some (upd_sym s (\<lambda>k. k\<lparr>ks_val := (case d of Some v \<Rightarrow> V_sym v | None \<Rightarrow> V_null)\<rparr>) st) }
             else Some (set_curr s (V_str ''n'') t st));
       st \<leftarrow> sym_validate_range rec s st;
       finish_value s (ks_val (sym_at st0 s)) (ks_tri (sym_at st0 s)) st }"
  have "(do { (t, st3) \<leftarrow> calc_tristate rec s st2; ?after st t st3 }) = Some st'"
    using new vis type type2 unfolding calc_new_value_def Let_def st2_def
    by (auto simp: bind_eq_Some_conv)
  then obtain t st3 where tri: "calc_tristate rec s st2 = Some (t, st3)" and after: "?after st t st3 = Some st'"
    by (auto simp: bind_eq_Some_conv)
  have "returns False (calc_tristate rec s st2) (\<lambda>(t, st3). works s st st3)"
    by (rule calculation.tristate_ret [OF rec w2]) simp_all
  then have w3: "works s st st3" using tri by simp
  define st4 where "st4 = set_curr s (V_str ''n'') t st3"
  have s4: "sym_at st4 s = (sym_at st3 s)\<lparr>ks_val := V_str ''n'', ks_tri := t\<rparr>" by (simp add: st4_def set_curr_def)
  note d3 = works_same_decl [OF w3, of s]
  have "\<not> sym_is_choice st4 s" "\<not> has_flag st4 s SYMBOL_NEED_SET_CHOICE_VALUES"
    using plain steps_need(2) [OF w3, of s] decl_fields(9) [OF d3] by (auto simp: sym_is_choice_def s4)
  moreover have "sym_validate_range rec s st4 = Some st4"
    using type decl_fields(2) [OF d3] by (auto simp: sym_validate_range_def s4)
  ultimately have "finish_value s (ks_val (sym_at st s)) (ks_tri (sym_at st s)) st4 = Some st'"
    using after by (simp add: st4_def [symmetric])
  from finish_plain [OF this \<open>\<not> sym_is_choice st4 s\<close> \<open>\<not> has_flag st4 s SYMBOL_NEED_SET_CHOICE_VALUES\<close>]
  show ?thesis
    using tristate_selected [OF tri] plain(2) decl_fields(10) [OF works_same_decl [OF w2], of s]
    by (simp add: s4 sym_is_choice_value_def)
qed

subsection \<open>An example\<close>

text \<open>
  A tristate symbol \<open>A\<close> with a prompt, set to \<open>m\<close> by the user, which selects the boolean \<open>B\<close>,
  and a tristate \<open>C\<close> whose default is \<open>A || B\<close>.
\<close>

definition plain_prop :: "prop_type \<Rightarrow> string option \<Rightarrow> expr_node option \<Rightarrow> property" where
  "plain_prop ty txt e = \<lparr>p_type = ty, p_text = txt, p_vis_expr = None, p_vis_tri = tri_no, p_expr = e, p_menu = None\<rparr>"

definition example :: kstate where
  "example = (initial_state (=))\<lparr>modules_val := tri_yes, next_sym := 3,
     st_syms := initial_syms
       (Sym 0 := (new_symbol (Some ''A'') {SYMBOL_DEF_USER})\<lparr>ks_type := S_TRISTATE, user_tri := tri_mod,
                   ks_props := [plain_prop P_PROMPT (Some ''first'') None]\<rparr>,
        Sym 1 := (new_symbol (Some ''B'') {})\<lparr>ks_type := S_BOOLEAN, rev_dep := Some (E_SYMBOL (Sym 0))\<rparr>,
        Sym 2 := (new_symbol (Some ''C'') {})\<lparr>ks_type := S_TRISTATE,
                   ks_props := [plain_prop P_DEFAULT None (Some (Node (E_OR (E_SYMBOL (Sym 0)) (E_SYMBOL (Sym 1)))))]\<rparr>)\<rparr>"

definition example_syms :: "symbol set" where
  "example_syms = {Sym 0, Sym 1, Sym 2}"

lemmas example_defs = example_def example_syms_def initial_state_def new_symbol_def plain_prop_def const_ksym_def

lemma example_declared: "declared example_syms example"
  by (simp add: declared_def sym_ok_def example_defs opt_syms_def prop_decl_def sym_is_choice_def sym_is_choice_value_def)

lemma example_settled: "settled example"
proof -
  have "\<not> has_flag example t SYMBOL_NEED_SET_CHOICE_VALUES" for t by (cases t) (simp_all add: example_defs)
  then show ?thesis by (simp add: settled_def no_waiting_def constants_set_def example_defs)
qed

lemma example_typed: "typed example"
  unfolding typed_def
proof
  show "tri_fits (ks_type (sym_at example t)) (ks_tri (sym_at example t))" for t
    by (cases t) (simp_all add: example_defs)
qed

subsection \<open>Properties\<close>





text \<open>
  C16: The calculation keeps values within their types: a boolean symbol is never \<open>m\<close>, and
  a symbol of type string, integer or hex has no tristate value. This is what the simplification of
  expressions relies on.
\<close>

theorem sym_calc_value_typed:
  assumes "sym_calc_value n st s = Some st'" "typed st"
  shows "typed st' \<and> booleans_ok (env_of st')"
  using steps_typed(1) [OF sym_calc_value_calculates [OF assms(1)]] assms(2) typed_booleans by blast

text \<open>The calculation of \<open>B\<close>: it becomes \<open>y\<close>, since it is boolean, although \<open>A\<close> is only \<open>m\<close>.\<close>

lemma example_run:
  "map_option (\<lambda>st. (ks_tri (sym_at st (Sym 0)), ks_tri (sym_at st (Sym 1)), rev_dep_tri (sym_at st (Sym 1)),
      has_flag st (Sym 0) SYMBOL_VALID)) (sym_calc_value 10 example (Sym 1)) =
    Some (tri_mod, tri_yes, tri_yes, True)"
  by code_simp

lemma example_result:
  obtains st where "sym_calc_value 10 example (Sym 1) = Some st"
    "ks_tri (sym_at st (Sym 0)) = tri_mod" "ks_tri (sym_at st (Sym 1)) = tri_yes"
    "rev_dep_tri (sym_at st (Sym 1)) = tri_yes" "has_flag st (Sym 0) SYMBOL_VALID"
  using example_run by auto

theorem sym_calc_value_typed_witness:
  "\<exists>st. sym_calc_value 10 example (Sym 1) = Some st \<and> ks_tri (sym_at st (Sym 0)) = tri_mod \<and>
     typed st \<and> booleans_ok (env_of st)"
proof -
  obtain st where "sym_calc_value 10 example (Sym 1) = Some st" "ks_tri (sym_at st (Sym 0)) = tri_mod"
    by (rule example_result)
  then show ?thesis using sym_calc_value_typed [OF _ example_typed] by blast
qed





end
