(* ===== verification/Kconfig_Table.thy ===== *)
theory Kconfig_Table
  imports Kconfig_Symbol_Correct
begin

text \<open>
  The table of symbols of \<^verbatim>\<open>scripts/kconfig/symbol.c\<close> as a map from names to symbols, and the operations
  that change the value a user gave to a symbol.
\<close>

subsection \<open>The table of names\<close>

text \<open>
  Every symbol of a bucket is an old one, and a name is in the bucket its hash selects.
\<close>

definition table_ok :: "kstate \<Rightarrow> bool" where
  "table_ok st \<longleftrightarrow>
     (\<forall>b. \<forall>i \<in> set (symbol_hash st b). i < next_sym st \<and>
        (\<forall>nm. ks_name (sym_at st (Sym i)) = Some nm \<longrightarrow> b = sym_bucket nm))"

text \<open>A name that no choice has.\<close>

definition no_choice_name :: "kstate \<Rightarrow> string \<Rightarrow> bool" where
  "no_choice_name st nm \<longleftrightarrow>
     (\<forall>i \<in> set (symbol_hash st (sym_bucket nm)). ks_name (sym_at st (Sym i)) = Some nm \<longrightarrow> \<not> sym_is_choice st (Sym i))"

lemma add_symbol_table:
  assumes "table_ok st" "\<And>nm. name = Some nm \<Longrightarrow> b = sym_bucket nm"
  shows "table_ok (snd (add_symbol name flags b st))"
proof -
  have old: "i < Suc (next_sym st)" "i \<noteq> next_sym st" "ks_name (sym_at st (Sym i)) = Some nm \<Longrightarrow> c = sym_bucket nm"
    if "i \<in> set (symbol_hash st c)" for i c nm
    using assms(1) that unfolding table_ok_def by (auto intro: less_SucI)
  show ?thesis
    unfolding table_ok_def add_symbol_def by (auto simp: new_symbol_def assms(2) dest: old split: if_splits)
qed

lemma find_front: "P x \<Longrightarrow> find P (x # xs) = Some x"
  by simp

lemma find_cong_pred: "(\<And>x. x \<in> set xs \<Longrightarrow> P x = Q x) \<Longrightarrow> find P xs = find Q xs"
  by (induction xs) auto

lemma sym_find_added:
  assumes ok: "table_ok st" and "const_symbol nm = None" "nm' \<noteq> nm"
  shows "sym_find (Some nm') (snd (add_symbol (Some nm) flags (sym_bucket nm) st)) = sym_find (Some nm') st"
proof -
  let ?st = "snd (add_symbol (Some nm) flags (sym_bucket nm) st)"
  let ?P = "\<lambda>st s. ks_name (sym_at st s) = Some nm' \<and> \<not> has_flag st s SYMBOL_CONST"
  have new: "\<not> ?P ?st (Sym (next_sym st))" using assms(3) by (simp add: add_symbol_def new_symbol_def)
  have "find (?P ?st) (map Sym (symbol_hash st (sym_bucket nm'))) = find (?P st) (map Sym (symbol_hash st (sym_bucket nm')))"
    using ok by (intro find_cong_pred) (auto simp: table_ok_def add_symbol_def)
  moreover have "symbol_hash ?st (sym_bucket nm') =
      (if sym_bucket nm' = sym_bucket nm then [next_sym st] else []) @ symbol_hash st (sym_bucket nm')"
    by (simp add: add_symbol_def)
  ultimately show ?thesis using new by (auto simp: sym_find_def split: option.split)
qed



subsection \<open>Values given by the user\<close>

text \<open>What setting a value changes, before the symbols are calculated again.\<close>

definition user_step :: "kstate \<Rightarrow> kstate \<Rightarrow> bool" where
  "user_step st st' \<longleftrightarrow> modules_sym st' = modules_sym st \<and>
     (\<forall>t. ks_props (sym_at st' t) = ks_props (sym_at st t) \<and> dir_dep (sym_at st' t) = dir_dep (sym_at st t) \<and>
        rev_dep (sym_at st' t) = rev_dep (sym_at st t) \<and> implied (sym_at st' t) = implied (sym_at st t) \<and>
        rev_dep_tri (sym_at st' t) = rev_dep_tri (sym_at st t) \<and>
        (\<forall>f \<in> {SYMBOL_CHOICE, SYMBOL_CHOICEVAL, SYMBOL_NEED_SET_CHOICE_VALUES}. has_flag st' t f = has_flag st t f) \<and>
        (user_val (sym_at st' t) = user_val (sym_at st t) \<or> (\<exists>u. user_val (sym_at st' t) = V_sym u)))"

lemma user_step_refl: "user_step st st"
  by (simp add: user_step_def)

lemma user_step_trans: "user_step st st1 \<Longrightarrow> user_step st1 st2 \<Longrightarrow> user_step st st2"
  unfolding user_step_def by (simp, metis)

lemma user_step_fold: "(\<And>x st. user_step st (f x st)) \<Longrightarrow> user_step st (fold f xs st)"
  by (induction xs arbitrary: st) (auto intro: user_step_refl user_step_trans)

lemma user_step_prims:
  "user_step st (clear_flag t SYMBOL_VALID st)" "user_step st (set_flag t SYMBOL_DEF_USER st)"
  "user_step st (sym_set_changed t st)" "user_step st (conf_set_changed b st)"
  "user_step st (upd_sym t (\<lambda>k. k\<lparr>user_tri := v\<rparr>) st)" "user_step st (upd_sym t (\<lambda>k. k\<lparr>user_val := V_sym u\<rparr>) st)"
  by (auto simp: user_step_def clear_flag_def set_flag_def sym_set_changed_def conf_set_changed_def)

lemma user_step_choice:
  assumes "user_step st st'"
  shows "choice_of st' t = choice_of st t" "choice_values st' t = choice_values st t"
    "sym_is_choice st' t = sym_is_choice st t" "sym_is_choice_value st' t = sym_is_choice_value st t"
  using assms
  by (simp_all add: user_step_def choice_of_def choice_values_def sym_get_choice_prop_def sym_is_choice_def sym_is_choice_value_def)

lemma declared_user_step:
  assumes step: "user_step st st'" and decl: "declared U st"
  shows "declared U st'"
proof -
  have "sym_ok U st' t" if ok: "sym_ok U st t" for t
  proof -
    have "case user_val (sym_at st' t) of V_str _ \<Rightarrow> False | _ \<Rightarrow> True" if "sym_is_choice st t"
    proof -
      have "user_val (sym_at st' t) = user_val (sym_at st t) \<or> (\<exists>u. user_val (sym_at st' t) = V_sym u)"
        using step unfolding user_step_def by blast
      then show ?thesis using ok that by (elim disjE exE) (simp_all add: sym_ok_def)
    qed
    moreover have "has_flag st' t SYMBOL_NEED_SET_CHOICE_VALUES = has_flag st t SYMBOL_NEED_SET_CHOICE_VALUES"
      "ks_props (sym_at st' t) = ks_props (sym_at st t)" "dir_dep (sym_at st' t) = dir_dep (sym_at st t)"
      "rev_dep (sym_at st' t) = rev_dep (sym_at st t)" "implied (sym_at st' t) = implied (sym_at st t)"
      "rev_dep_tri (sym_at st' t) = rev_dep_tri (sym_at st t)"
      using step unfolding user_step_def by simp_all
    ultimately show ?thesis using ok unfolding sym_ok_def user_step_choice [OF step] by simp
  qed
  then show ?thesis using decl by (simp add: declared_def)
qed

text \<open>The symbols of a configuration: declared, with the choice of every value of a choice among them.\<close>

definition configuration :: "symbol set \<Rightarrow> kstate \<Rightarrow> bool" where
  "configuration U st \<longleftrightarrow> declared U st \<and> (\<forall>m. modules_sym st = Some m \<longrightarrow> m \<in> U) \<and>
     (\<forall>t \<in> U. sym_is_choice_value st t \<longrightarrow> (\<exists>c vs. choice_of st t = Some c \<and> choice_values st c = Some vs))"

lemma configuration_user_step: "user_step st st' \<Longrightarrow> configuration U st \<Longrightarrow> configuration U st'"
  using declared_user_step [of st st' U] user_step_choice [of st st']
  by (auto simp: configuration_def user_step_def)

lemma clear_all_valid_total:
  assumes "configuration U st" "3 * card U < n"
  shows "\<exists>st'. sym_clear_all_valid (sym_calc_value n) st = Some st'"
proof -
  define st1 where "st1 = conf_set_changed True (fold (\<lambda>s. clear_flag s SYMBOL_VALID) (all_symbols st) st)"
  have "user_step st st1" unfolding st1_def by (rule user_step_trans [OF user_step_fold]) (rule user_step_prims)+
  then have conf: "configuration U st1" using assms(1) by (rule configuration_user_step)
  show ?thesis
  proof (cases "modules_sym st1")
    case None
    then show ?thesis by (simp add: sym_clear_all_valid_def st1_def Let_def)
  next
    case (Some m)
    then have "m \<in> U" "declared U st1" "todo U st1 < n"
      using conf todo_bound [of U st1] assms(2) by (auto simp: configuration_def declared_def)
    then obtain st' where "sym_calc_value n st1 m = Some st'" using sym_calc_value_total by blast
    then show ?thesis using Some by (simp add: sym_clear_all_valid_def st1_def Let_def)
  qed
qed

lemma choose_value_total:
  assumes "configuration U st" "s \<in> U" "sym_is_choice_value st s"
  shows "\<exists>st'. choose_value s st = Some st' \<and> user_step st st'"
proof -
  obtain c vs where c: "choice_of st s = Some c" "choice_values st c = Some vs" using assms by (auto simp: configuration_def)
  define st1 where "st1 = set_flag c SYMBOL_DEF_USER (upd_sym c (\<lambda>k. k\<lparr>user_val := V_sym s\<rparr>) st)"
  have u1: "user_step st st1" unfolding st1_def by (rule user_step_trans) (rule user_step_prims)+
  have "choice_values st1 c = Some vs" using c user_step_choice [OF u1] by simp
  moreover have "user_step st1 (fold (\<lambda>v st. if ks_visible (sym_at st v) \<noteq> tri_no then set_flag v SYMBOL_DEF_USER st else st) vs st1)"
    by (rule user_step_fold) (simp add: user_step_refl user_step_prims)
  ultimately show ?thesis using c u1 by (auto simp: choose_value_def st1_def [symmetric] Let_def intro: user_step_trans)
qed

lemma set_tristate_total:
  assumes conf: "configuration U st" and s: "s \<in> U" and n: "3 * card U < n"
    and ok: "sym_get_tristate_value st s = val \<or> sym_tristate_within_range st s val"
  shows "\<exists>st'. sym_set_tristate_value (sym_calc_value n) s val st = Some (True, st')"
proof -
  define st1 where "st1 = (if sym_has_value st s then st else sym_set_changed s (set_flag s SYMBOL_DEF_USER st))"
  have "user_step st st1" unfolding st1_def
    using user_step_trans [OF user_step_prims(2,3)] by (simp add: user_step_refl)
  then have conf1: "configuration U st1" using conf by (rule configuration_user_step)
  obtain st2 where st2: "(if sym_is_choice_value st1 s \<and> val = tri_yes then choose_value s st1 else Some st1) = Some st2"
    "user_step st1 st2"
    using choose_value_total [OF conf1 s] user_step_refl by (cases "sym_is_choice_value st1 s \<and> val = tri_yes") auto
  define st3 where "st3 = upd_sym s (\<lambda>k. k\<lparr>user_tri := val\<rparr>) st2"
  have "configuration U st3" unfolding st3_def
    using conf1 st2(2) user_step_prims(5) by (blast intro: configuration_user_step)
  then obtain st4 where "(if sym_get_tristate_value st s \<noteq> val then sym_clear_all_valid (sym_calc_value n) st3 else Some st3) = Some st4"
    using clear_all_valid_total n by fastforce
  then show ?thesis
    using ok st2(1) unfolding sym_set_tristate_value_def Let_def st1_def [symmetric]
    by (auto simp: st3_def)
qed

text \<open>The next value that may be set, in the order \<open>n\<close>, \<open>m\<close>, \<open>y\<close>, \<open>n\<close>, or the old one.\<close>

definition toggled :: "kstate \<Rightarrow> symbol \<Rightarrow> tristate" where
  "toggled st s =
     (let v = ks_tri (sym_at st s) in
      if sym_tristate_within_range st s (next_tri v) then next_tri v
      else if sym_tristate_within_range st s (next_tri (next_tri v)) then next_tri (next_tri v)
      else v)"



end
