(* ===== verification/Kconfig_Confdata.thy ===== *)
theory Kconfig_Confdata
  imports Kconfig_Symbol
begin

text \<open>
  Reading and writing configurations, \<^verbatim>\<open>scripts/kconfig/confdata.c\<close>, with the visibility of menus from
  \<^verbatim>\<open>scripts/kconfig/menu.c\<close>.

  The environment of the process and the answers of the operating system are the record \<open>host\<close>, the
  files are the record \<open>filesys\<close>. Strings of the program do not contain the character 0; a
  line of a file may, and ends there for the program. The first character behind the end of a
  line is read when a file ends in a line that is only \<open>#\<close>; what the buffer holds there is the
  argument \<open>behind\<close>. The result \<open>None\<close> stands for a call of \<open>exit\<close>, for reading through \<open>NULL\<close>, and for
  running out of the bound on the depth of a calculation.
\<close>

subsection \<open>The surroundings\<close>

record host =
  getenv :: "string \<Rightarrow> string option"
  zconf_fopen :: "string \<Rightarrow> string option"
  can_write :: "string \<Rightarrow> bool"
  can_touch :: "string \<Rightarrow> bool"
  can_mkdir :: "string \<Rightarrow> bool"
  can_rename :: "string \<Rightarrow> string \<Rightarrow> bool"
  can_stat :: "string \<Rightarrow> bool"
  can_map :: "string \<Rightarrow> bool"
  write_error :: "string \<Rightarrow> bool"
  getpid :: nat
  behind :: string

record filesys =
  file_at :: "string \<Rightarrow> string option"
  dir_at :: "string \<Rightarrow> bool"

definition PATH_MAX :: nat where
  "PATH_MAX = 4096"

definition is_present :: "filesys \<Rightarrow> string \<Rightarrow> bool" where
  "is_present fs path \<longleftrightarrow> file_at fs path \<noteq> None \<or> dir_at fs path"

definition is_dir :: "filesys \<Rightarrow> string \<Rightarrow> bool" where
  "is_dir fs path = dir_at fs path"

text \<open>The result of \<open>fstat\<close>, -1 when it fails, becomes the result of the function.\<close>

definition is_same :: "host \<Rightarrow> filesys \<Rightarrow> string \<Rightarrow> string \<Rightarrow> bool" where
  "is_same h fs file1 file2 =
     (case (file_at fs file1, file_at fs file2) of
        (Some c1, Some c2) \<Rightarrow>
          if \<not> can_stat h file1 then True
          else if \<not> can_stat h file2 then True
          else if length c1 \<noteq> length c2 then False
          else if length c1 = 0 \<or> \<not> can_map h file1 \<or> \<not> can_map h file2 then False
          else c1 = c2
      | _ \<Rightarrow> False)"

text \<open>The prefixes of a path that end before a group of slashes, behind the leading ones.\<close>

fun parent_dirs :: "string \<Rightarrow> string \<Rightarrow> string list" where
  "parent_dirs pre [] = []"
| "parent_dirs pre (c # cs) =
     (if c = CHR ''/'' then
        (if pre \<noteq> [] \<and> last pre \<noteq> CHR ''/'' then [pre] else []) @ parent_dirs (pre @ [c]) cs
      else parent_dirs (pre @ [c]) cs)"

fun make_dirs :: "host \<Rightarrow> string list \<Rightarrow> filesys \<Rightarrow> int \<times> filesys" where
  "make_dirs h [] fs = (0, fs)"
| "make_dirs h (d # ds) fs =
     (if is_dir fs d then make_dirs h ds fs
      else if \<not> can_mkdir h d then (- 1, fs)
      else make_dirs h ds (fs\<lparr>dir_at := (dir_at fs)(d := True)\<rparr>))"

definition make_parent_dir :: "host \<Rightarrow> string \<Rightarrow> filesys \<Rightarrow> int \<times> filesys" where
  "make_parent_dir h path fs = make_dirs h (parent_dirs [] (take PATH_MAX path)) fs"

text \<open>Creating the file of a symbol: the name must fit behind the directory, with the final 0.\<close>

definition conf_touch_dep :: "host \<Rightarrow> string \<Rightarrow> string \<Rightarrow> filesys \<Rightarrow> int \<times> filesys" where
  "conf_touch_dep h prefix name fs =
     (if length prefix + length name + 1 > PATH_MAX then (- 1, fs)
      else if \<not> can_touch h (prefix @ name) then (- 1, fs)
      else (0, fs\<lparr>file_at := (file_at fs)(prefix @ name \<mapsto> [])\<rparr>))"

definition CONFIG_prefix :: "host \<Rightarrow> string" where
  "CONFIG_prefix h = (case getenv h ''CONFIG_'' of Some s \<Rightarrow> s | None \<Rightarrow> ''CONFIG_'')"

definition conf_get_configname :: "host \<Rightarrow> string" where
  "conf_get_configname h = (case getenv h ''KCONFIG_CONFIG'' of Some s \<Rightarrow> s | None \<Rightarrow> ''.config'')"

definition conf_get_autoconfig_name :: "host \<Rightarrow> string" where
  "conf_get_autoconfig_name h =
     (case getenv h ''KCONFIG_AUTOCONFIG'' of Some s \<Rightarrow> s | None \<Rightarrow> ''include/config/auto.conf'')"

definition conf_get_autoheader_name :: "host \<Rightarrow> string" where
  "conf_get_autoheader_name h =
     (case getenv h ''KCONFIG_AUTOHEADER'' of Some s \<Rightarrow> s | None \<Rightarrow> ''include/generated/autoconf.h'')"

definition conf_get_rustccfg_name :: "host \<Rightarrow> string" where
  "conf_get_rustccfg_name h =
     (case getenv h ''KCONFIG_RUSTCCFG'' of Some s \<Rightarrow> s | None \<Rightarrow> ''include/generated/rustc_cfg'')"

subsection \<open>Values from a file\<close>

text \<open>The two sets of values a file is read into.\<close>

datatype def_no = S_DEF_USER | S_DEF_AUTO

fun def_flag :: "def_no \<Rightarrow> sym_flag" where
  "def_flag S_DEF_USER = SYMBOL_DEF_USER"
| "def_flag S_DEF_AUTO = SYMBOL_DEF_AUTO"

fun def_tri :: "def_no \<Rightarrow> ksym \<Rightarrow> tristate" where
  "def_tri S_DEF_USER k = user_tri k"
| "def_tri S_DEF_AUTO k = auto_tri k"

fun def_val :: "def_no \<Rightarrow> ksym \<Rightarrow> symval" where
  "def_val S_DEF_USER k = user_val k"
| "def_val S_DEF_AUTO k = auto_val k"

fun set_def_tri :: "def_no \<Rightarrow> tristate \<Rightarrow> ksym \<Rightarrow> ksym" where
  "set_def_tri S_DEF_USER t k = k\<lparr>user_tri := t\<rparr>"
| "set_def_tri S_DEF_AUTO t k = k\<lparr>auto_tri := t\<rparr>"

fun set_def_val :: "def_no \<Rightarrow> symval \<Rightarrow> ksym \<Rightarrow> ksym" where
  "set_def_val S_DEF_USER v k = k\<lparr>user_val := v\<rparr>"
| "set_def_val S_DEF_AUTO v k = k\<lparr>auto_val := v\<rparr>"

definition give_tri :: "symbol \<Rightarrow> def_no \<Rightarrow> tristate \<Rightarrow> kstate \<Rightarrow> kstate" where
  "give_tri s d t st = set_flag s (def_flag d) (upd_sym s (set_def_tri d t) st)"

definition give_val :: "symbol \<Rightarrow> def_no \<Rightarrow> string \<Rightarrow> kstate \<Rightarrow> kstate" where
  "give_val s d v st = set_flag s (def_flag d) (upd_sym s (set_def_val d (V_str v)) st)"

text \<open>
  The loop that takes the escapes out of a quoted string, behind the first quote: every backslash
  is removed and the character behind it is kept as it is. \<open>None\<close>: there is no closing quote.
\<close>

fun unescape :: "string \<Rightarrow> string option" where
  "unescape [] = None"
| "unescape (c # cs) =
     (if c = CHR 0x22 then Some []
      else if c = CHR 0x5C then (case cs of [] \<Rightarrow> None | d # ds \<Rightarrow> map_option ((#) d) (unescape ds))
      else map_option ((#) c) (unescape cs))"

text \<open>The result says whether the value was refused; a refusal may come with a warning.\<close>

definition invalid_value :: "kstate \<Rightarrow> symbol \<Rightarrow> string \<Rightarrow> string" where
  "invalid_value st s p = ''symbol value '' @ [CHR 0x27] @ p @ [CHR 0x27] @ '' invalid for '' @ name_of st s"

definition set_bool_val :: "kstate \<Rightarrow> symbol \<Rightarrow> def_no \<Rightarrow> string \<Rightarrow> bool \<times> string list \<times> kstate" where
  "set_bool_val st s d p =
     (if take 1 p = ''y'' then (False, [], give_tri s d tri_yes st)
      else if take 1 p = ''n'' then (False, [], give_tri s d tri_no st)
      else (True, if d \<noteq> S_DEF_AUTO then [invalid_value st s p] else [], st))"

definition set_plain_val :: "kstate \<Rightarrow> symbol \<Rightarrow> def_no \<Rightarrow> string \<Rightarrow> bool \<times> string list \<times> kstate" where
  "set_plain_val st s d p =
     (if sym_string_valid (ks_type (sym_at st s)) p then (False, [], give_val s d p st)
      else (True, if d \<noteq> S_DEF_AUTO then [invalid_value st s p] else [], st))"

definition conf_set_sym_val :: "kstate \<Rightarrow> symbol \<Rightarrow> def_no \<Rightarrow> string \<Rightarrow> bool \<times> string list \<times> kstate" where
  "conf_set_sym_val st s d p =
     (case ks_type (sym_at st s) of
        S_TRISTATE \<Rightarrow> if take 1 p = ''m'' then (False, [], give_tri s d tri_mod st) else set_bool_val st s d p
      | S_BOOLEAN \<Rightarrow> set_bool_val st s d p
      | S_STRING \<Rightarrow>
          if d \<noteq> S_DEF_AUTO then
            (if take 1 p \<noteq> [CHR 0x22] then (False, [], st)
             else case unescape (drop 1 p) of
                    None \<Rightarrow> (True, [''invalid string found''], st)
                  | Some v \<Rightarrow> set_plain_val st s d v)
          else set_plain_val st s d p
      | S_INT \<Rightarrow> set_plain_val st s d p
      | S_HEX \<Rightarrow> set_plain_val st s d p
      | S_UNKNOWN \<Rightarrow> (False, [], st))"

subsection \<open>Lines\<close>

text \<open>The next line with its newline, and the rest of the file. \<open>None\<close>: the end of the file.\<close>

definition compat_getline :: "string \<Rightarrow> (string \<times> string) option" where
  "compat_getline stream =
     (if stream = [] then None
      else
        let l = takeWhile (\<lambda>c. c \<noteq> CHR 0x0A) stream; r = dropWhile (\<lambda>c. c \<noteq> CHR 0x0A) stream
        in Some (l @ take 1 r, drop 1 r))"

definition cstr :: "string \<Rightarrow> string" where
  "cstr buf = takeWhile (\<lambda>c. c \<noteq> CHR 0x00) buf"

text \<open>The part of a string before a character and the part behind it, as \<open>strchr\<close> finds it.\<close>

definition strchr :: "char \<Rightarrow> string \<Rightarrow> (string \<times> string) option" where
  "strchr c str =
     (if c \<in> set str then Some (takeWhile (\<lambda>d. d \<noteq> c) str, drop 1 (dropWhile (\<lambda>d. d \<noteq> c) str)) else None)"

text \<open>
  What a line says. A comment that unsets a symbol, an assignment, a line to skip, or
  something else.
\<close>

datatype conf_line = L_unset string | L_assign string string | L_skip | L_other string

definition assigned_text :: "string \<Rightarrow> string" where
  "assigned_text p =
     (case strchr (CHR 0x0A) p of
        None \<Rightarrow> p
      | Some (v, r) \<Rightarrow> if v \<noteq> [] \<and> last v = CHR 0x0D then butlast v else v)"

definition parse_line :: "string \<Rightarrow> string \<Rightarrow> string \<Rightarrow> conf_line" where
  "parse_line prefix after line =
     (let buf = line @ [CHR 0x00] @ after in
      if take 1 buf = ''#'' then
        (if take (length prefix) (drop 2 buf) \<noteq> prefix then L_skip
         else case strchr (CHR '' '') (cstr (drop (2 + length prefix) buf)) of
                None \<Rightarrow> L_skip
              | Some (name, p) \<Rightarrow> if take 10 p = ''is not set'' then L_unset name else L_skip)
      else if take (length prefix) buf = prefix then
        (case strchr (CHR ''='') (cstr (drop (length prefix) buf)) of
           None \<Rightarrow> L_skip
         | Some (name, p) \<Rightarrow> L_assign name (assigned_text p))
      else if take 1 buf \<noteq> [CHR 0x0D] \<and> take 1 buf \<noteq> [CHR 0x0A]
      then L_other (takeWhile (\<lambda>c. c \<noteq> CHR 0x0D \<and> c \<noteq> CHR 0x0A) (cstr buf))
      else L_skip)"

subsection \<open>Reading a file\<close>

text \<open>The name of the file, the number of the line and the number of warnings are global.\<close>

record reader =
  r_state :: kstate
  r_files :: filesys
  conf_filename :: string
  conf_lineno :: nat
  conf_warnings :: nat

definition conf_warning :: "string \<Rightarrow> reader \<Rightarrow> reader" where
  "conf_warning txt r =
     r\<lparr>conf_warnings := conf_warnings r + 1,
       r_state := (r_state r)\<lparr>messages := messages (r_state r) @
         [conf_filename r @ '':'' @ decimal (conf_lineno r) @ '':warning: '' @ txt @ newline]\<rparr>\<rparr>"

definition conf_message :: "string \<Rightarrow> kstate \<Rightarrow> kstate" where
  "conf_message txt st = st\<lparr>messages := messages st @ [''#'' @ newline @ ''# '' @ txt @ newline @ ''#'' @ newline]\<rparr>"

definition print_error :: "string \<Rightarrow> kstate \<Rightarrow> kstate" where
  "print_error txt st = st\<lparr>messages := messages st @ [txt]\<rparr>"

abbreviation with_state :: "(kstate \<Rightarrow> kstate) \<Rightarrow> reader \<Rightarrow> reader" where
  "with_state f r \<equiv> r\<lparr>r_state := f (r_state r)\<rparr>"

definition warn_override :: "def_no \<Rightarrow> symbol \<Rightarrow> reader \<Rightarrow> reader" where
  "warn_override d s r =
     (if has_flag (r_state r) s (def_flag d)
      then conf_warning (''override: reassigning to symbol '' @ name_of (r_state r) s) r else r)"

definition unknown_symbol :: "host \<Rightarrow> string \<Rightarrow> reader \<Rightarrow> reader" where
  "unknown_symbol h name r =
     with_state (conf_set_changed True)
       (if getenv h ''KCONFIG_WARN_UNKNOWN_SYMBOLS'' \<noteq> None
        then conf_warning (''unknown symbol: '' @ name) r else r)"

text \<open>A value of a choice that the file sets also sets the choice.\<close>

definition read_choice_value :: "def_no \<Rightarrow> symbol \<Rightarrow> reader \<Rightarrow> reader option" where
  "read_choice_value d s r =
     (if \<not> sym_is_choice_value (r_state r) s then Some r
      else do {
        cs \<leftarrow> choice_of (r_state r) s;
        let r = (case def_tri d (sym_at (r_state r) s) of
                   tri_no \<Rightarrow> r
                 | tri_mod \<Rightarrow>
                     if def_tri d (sym_at (r_state r) cs) = tri_yes
                     then with_state (clear_flag cs (def_flag d))
                            (conf_warning (name_of (r_state r) s @ '' creates inconsistent choice state'') r)
                     else r
                 | tri_yes \<Rightarrow>
                     with_state (upd_sym cs (set_def_val d (V_sym s)))
                       (if def_tri d (sym_at (r_state r) cs) \<noteq> tri_no
                        then conf_warning (''override: '' @ name_of (r_state r) s @ '' changes choice state'') r
                        else r));
        Some (with_state (upd_sym cs (\<lambda>k. set_def_tri d
          (EXPR_OR (def_tri d k) (def_tri d (sym_at (r_state r) s))) k)) r) })"

text \<open>A comment that unsets a symbol. A file of generated values may name symbols that are not declared.\<close>

definition read_unset :: "host \<Rightarrow> def_no \<Rightarrow> string \<Rightarrow> reader \<Rightarrow> reader option" where
  "read_unset h d name r =
     (let found =
        (case d of
           S_DEF_USER \<Rightarrow> (sym_find (Some name) (r_state r), r_state r)
         | S_DEF_AUTO \<Rightarrow>
             let (s, st) = sym_lookup (Some name) {} (r_state r)
             in (Some s, if ks_type (sym_at st s) = S_UNKNOWN then upd_sym s (\<lambda>k. k\<lparr>ks_type := S_BOOLEAN\<rparr>) st else st))
      in case fst found of
           None \<Rightarrow> Some (unknown_symbol h name r)
         | Some s \<Rightarrow>
             let r = warn_override d s (r\<lparr>r_state := snd found\<rparr>);
                 ty = ks_type (sym_at (r_state r) s)
             in read_choice_value d s
                  (if ty = S_BOOLEAN \<or> ty = S_TRISTATE then with_state (give_tri s d tri_no) r else r))"

definition read_assign :: "host \<Rightarrow> string \<Rightarrow> def_no \<Rightarrow> string \<Rightarrow> string \<Rightarrow> reader \<Rightarrow> reader option" where
  "read_assign h depfiles d name p r =
     (case sym_find (Some name) (r_state r) of
        None \<Rightarrow>
          Some (if d = S_DEF_AUTO then r\<lparr>r_files := snd (conf_touch_dep h depfiles name (r_files r))\<rparr>
                else unknown_symbol h name r)
      | Some s \<Rightarrow>
          let r = warn_override d s r;
              (refused, ws, st) = conf_set_sym_val (r_state r) s d p;
              r = fold conf_warning ws (r\<lparr>r_state := st\<rparr>)
          in if refused then Some r else read_choice_value d s r)"

definition read_line :: "host \<Rightarrow> string \<Rightarrow> def_no \<Rightarrow> string \<Rightarrow> reader \<Rightarrow> reader option" where
  "read_line h depfiles d line r =
     (let r = r\<lparr>conf_lineno := conf_lineno r + 1\<rparr> in
      case parse_line (CONFIG_prefix h) (behind h) line of
        L_unset name \<Rightarrow> read_unset h d name r
      | L_assign name p \<Rightarrow> read_assign h depfiles d name p r
      | L_skip \<Rightarrow> Some r
      | L_other txt \<Rightarrow> Some (conf_warning (''unexpected data: '' @ txt) r))"

function read_lines :: "host \<Rightarrow> string \<Rightarrow> def_no \<Rightarrow> string \<Rightarrow> reader \<Rightarrow> reader option" where
  "read_lines h depfiles d stream r =
     (case compat_getline stream of
        None \<Rightarrow> Some r
      | Some (line, rest) \<Rightarrow>
          (case read_line h depfiles d line r of None \<Rightarrow> None | Some r' \<Rightarrow> read_lines h depfiles d rest r'))"
  by auto
termination
proof (relation "measure (\<lambda>(h, depfiles, d, stream, r). length stream)", simp)
  fix h depfiles d and stream :: string and r x line rest r'
  assume "compat_getline stream = Some x" "(line, rest) = x"
  then have "stream \<noteq> []" "rest = drop 1 (dropWhile (\<lambda>c. c \<noteq> CHR 0x0A) stream)"
    by (auto simp: compat_getline_def Let_def split: if_splits)
  then have "length rest < length stream"
    using length_dropWhile_le [of "\<lambda>c. c \<noteq> CHR 0x0A" stream]
    by (cases "dropWhile (\<lambda>c. c \<noteq> CHR 0x0A) stream") auto
  then show "((h, depfiles, d, rest, r'), h, depfiles, d, stream, r) \<in> measure (\<lambda>(h, depfiles, d, stream, r). length stream)"
    by simp
qed

declare read_lines.simps [simp del]

text \<open>What is forgotten before a file is read.\<close>

definition reset_symbol :: "def_no \<Rightarrow> symbol \<Rightarrow> kstate \<Rightarrow> kstate" where
  "reset_symbol d s st =
     upd_sym s (\<lambda>k. set_def_tri d tri_no (set_def_val d V_null
       (k\<lparr>ks_flags := (insert SYMBOL_CHANGED (ks_flags k) - {def_flag d, SYMBOL_VALID}) \<union>
          (if SYMBOL_CHOICE \<in> ks_flags k then {def_flag d} else {})\<rparr>))) st"

definition isspace :: "char \<Rightarrow> bool" where
  "isspace c \<longleftrightarrow> c \<in> {CHR '' '', CHR 0x09, CHR 0x0A, CHR 0x0B, CHR 0x0C, CHR 0x0D}"

text \<open>The files of \<^verbatim>\<open>KCONFIG_DEFCONFIG_LIST\<close>, tried in their order.\<close>

function words :: "string \<Rightarrow> string list" where
  "words env =
     (let e = dropWhile isspace env in
      if e = [] then [] else takeWhile (\<lambda>c. \<not> isspace c) e # words (dropWhile (\<lambda>c. \<not> isspace c) e))"
  by auto
termination
proof (relation "measure length", simp)
  fix env x
  assume x: "x = dropWhile isspace env" "x \<noteq> []"
  then have "\<not> isspace (hd x)" using hd_dropWhile by metis
  then have "length (dropWhile (\<lambda>c. \<not> isspace c) x) < length x"
    using x(2) by (cases x) (auto simp: less_Suc_eq_le length_dropWhile_le)
  moreover have "length x \<le> length env" unfolding x(1) by (rule length_dropWhile_le)
  ultimately show "(dropWhile (\<lambda>c. \<not> isspace c) x, env) \<in> measure length" by simp
qed

fun first_file :: "host \<Rightarrow> string list \<Rightarrow> (string \<times> string) option" where
  "first_file h [] = None"
| "first_file h (f # fs) = (case zconf_fopen h f of Some c \<Rightarrow> Some (f, c) | None \<Rightarrow> first_file h fs)"

text \<open>The content to load, and the memory after the messages about it.\<close>

definition find_config :: "host \<Rightarrow> string option \<Rightarrow> kstate \<Rightarrow> string option \<times> kstate" where
  "find_config h name st =
     (case name of
        Some n \<Rightarrow> (zconf_fopen h n, st)
      | None \<Rightarrow>
          (case zconf_fopen h (conf_get_configname h) of
             Some c \<Rightarrow> (Some c, st)
           | None \<Rightarrow>
               let st = conf_set_changed True st in
               (case getenv h ''KCONFIG_DEFCONFIG_LIST'' of
                  None \<Rightarrow> (None, st)
                | Some env \<Rightarrow>
                    (case first_file h (words env) of
                       None \<Rightarrow> (None, st)
                     | Some (f, c) \<Rightarrow> (Some c, conf_message (''using defaults found in '' @ f) st)))))"

definition conf_read_simple :: "host \<Rightarrow> string \<Rightarrow> string option \<Rightarrow> def_no \<Rightarrow> filesys \<Rightarrow> kstate \<Rightarrow> (int \<times> reader) option" where
  "conf_read_simple h depfiles name d fs st =
     (let (content, st) = find_config h name st;
          n = (case name of Some n \<Rightarrow> n | None \<Rightarrow> conf_get_configname h)
      in case content of
           None \<Rightarrow> Some (1, \<lparr>r_state = st, r_files = fs, conf_filename = n, conf_lineno = 0, conf_warnings = 0\<rparr>)
         | Some c \<Rightarrow> do {
             r \<leftarrow> read_lines h depfiles d c
                   \<lparr>r_state = fold (reset_symbol d) (all_symbols st) st, r_files = fs,
                    conf_filename = n, conf_lineno = 0, conf_warnings = 0\<rparr>;
             if conf_warnings r > 0 \<and> getenv h ''KCONFIG_WERROR'' \<noteq> None then None else Some (0, r) })"

text \<open>A string that the code reads through a pointer.\<close>

definition read_str :: "symval \<Rightarrow> string option" where
  "read_str v = (case v of V_str x \<Rightarrow> Some x | _ \<Rightarrow> None)"

definition calc_modules :: "calc \<Rightarrow> kstate \<Rightarrow> kstate option" where
  "calc_modules rec st = (case modules_sym st of None \<Rightarrow> Some st | Some m \<Rightarrow> rec st m)"

definition agrees_with_file :: "kstate \<Rightarrow> symbol \<Rightarrow> bool option" where
  "agrees_with_file st s =
     (let k = sym_at st s in
      if ks_type k = S_BOOLEAN \<or> ks_type k = S_TRISTATE then Some (user_tri k = ks_tri k)
      else do { a \<leftarrow> read_str (ks_val k); b \<leftarrow> read_str (user_val k); Some (a = b) })"

fun count_unsaved :: "calc \<Rightarrow> symbol list \<Rightarrow> nat \<Rightarrow> kstate \<Rightarrow> (nat \<times> kstate) option" where
  "count_unsaved rec [] u st = Some (u, st)"
| "count_unsaved rec (s # ss) u st =
     do {
       st \<leftarrow> rec st s;
       if sym_is_choice st s \<or> has_flag st s SYMBOL_NO_WRITE then count_unsaved rec ss u st
       else do {
         same \<leftarrow> (if sym_has_value st s \<and> has_flag st s SYMBOL_WRITE then agrees_with_file st s
                 else Some (\<not> sym_has_value st s \<and> \<not> has_flag st s SYMBOL_WRITE));
         count_unsaved rec ss (if same then u else u + 1) st } }"

fun reset_values :: "calc \<Rightarrow> symbol list \<Rightarrow> nat \<Rightarrow> kstate \<Rightarrow> (nat \<times> kstate) option" where
  "reset_values rec [] u st = Some (u, st)"
| "reset_values rec (s # ss) u st =
     (if \<not> sym_has_value st s \<or> sym_is_choice_value st s then reset_values rec ss u st
      else
        let st = (if ks_visible (sym_at st s) = tri_no \<and> u = 0 then clear_flag s SYMBOL_DEF_USER st else st);
            ty = ks_type (sym_at st s)
        in if ty = S_STRING \<or> ty = S_INT \<or> ty = S_HEX
           then do {
             v \<leftarrow> read_str (user_val (sym_at st s));
             (ok, st) \<leftarrow> sym_string_within_range rec s v st;
             if ok then reset_values rec ss u st
             else reset_values rec ss (u + 1) (clear_flag s SYMBOL_DEF_USER (clear_flag s SYMBOL_VALID st)) }
           else reset_values rec ss u st)"

definition conf_read :: "calc \<Rightarrow> host \<Rightarrow> string option \<Rightarrow> filesys \<Rightarrow> kstate \<Rightarrow> (int \<times> kstate) option" where
  "conf_read rec h name fs st =
     do {
       (ret, r) \<leftarrow> conf_read_simple h [] name S_DEF_USER fs (conf_set_changed False st);
       st \<leftarrow> calc_modules rec (r_state r);
       if ret \<noteq> 0 then Some (1, st)
       else do {
         (u, st) \<leftarrow> count_unsaved rec (all_symbols st) 0 st;
         (u, st) \<leftarrow> reset_values rec (all_symbols st) u st;
         Some (0, if conf_warnings r > 0 \<or> u > 0 then conf_set_changed True st else st) } }"

subsection \<open>Printing symbols\<close>

record comment_style =
  decoration :: string
  cs_prefix :: string
  postfix :: string

definition comment_style_pound :: comment_style where
  "comment_style_pound = \<lparr>decoration = ''#'', cs_prefix = ''#'', postfix = ''#''\<rparr>"

definition comment_style_c :: comment_style where
  "comment_style_c = \<lparr>decoration = '' *'', cs_prefix = ''/*'', postfix = '' */''\<rparr>"

definition conf_write_heading :: "string \<Rightarrow> comment_style option \<Rightarrow> string" where
  "conf_write_heading title cs =
     (case cs of
        None \<Rightarrow> []
      | Some c \<Rightarrow>
          cs_prefix c @ newline @ decoration c @ '' Automatically generated file; DO NOT EDIT.'' @ newline @
          decoration c @ '' '' @ title @ newline @ postfix c @ newline)"

text \<open>The loop copies the text up to the next quote or backslash and puts a backslash before that.\<close>

fun escape_chars :: "string \<Rightarrow> string" where
  "escape_chars [] = []"
| "escape_chars (c # cs) = (if c = CHR 0x22 \<or> c = CHR 0x5C then [CHR 0x5C, c] else [c]) @ escape_chars cs"

definition escape_string_value :: "string \<Rightarrow> string" where
  "escape_string_value txt = [CHR 0x22] @ escape_chars txt @ [CHR 0x22]"

datatype output_n = OUTPUT_N | OUTPUT_N_AS_UNSET | OUTPUT_N_NONE

abbreviation string_value :: "kstate \<Rightarrow> symbol \<Rightarrow> string" where
  "string_value st s \<equiv>
     (if ks_type (sym_at st s) = S_BOOLEAN \<or> ks_type (sym_at st s) = S_TRISTATE
      then tri_string (ks_tri (sym_at st s)) else val_str (ks_val (sym_at st s)))"

definition print_symbol :: "string \<Rightarrow> output_n \<Rightarrow> bool \<Rightarrow> kstate \<Rightarrow> symbol \<Rightarrow> string" where
  "print_symbol prefix out escape st s =
     (let ty = ks_type (sym_at st s); val = string_value st s in
      if ty = S_UNKNOWN then []
      else if (ty = S_BOOLEAN \<or> ty = S_TRISTATE) \<and> out \<noteq> OUTPUT_N \<and> take 1 val = ''n''
      then (if out = OUTPUT_N_AS_UNSET then ''# '' @ prefix @ name_of st s @ '' is not set'' @ newline else [])
      else prefix @ name_of st s @ ''='' @ (if ty = S_STRING \<and> escape then escape_string_value val else val) @ newline)"

definition print_symbol_for_dotconfig :: "string \<Rightarrow> kstate \<Rightarrow> symbol \<Rightarrow> string" where
  "print_symbol_for_dotconfig prefix st s = print_symbol prefix OUTPUT_N_AS_UNSET True st s"

definition print_symbol_for_autoconf :: "string \<Rightarrow> kstate \<Rightarrow> symbol \<Rightarrow> string" where
  "print_symbol_for_autoconf prefix st s = print_symbol prefix OUTPUT_N_NONE False st s"

definition print_symbol_for_listconfig :: "string \<Rightarrow> kstate \<Rightarrow> symbol \<Rightarrow> string" where
  "print_symbol_for_listconfig prefix st s = print_symbol prefix OUTPUT_N True st s"

definition print_symbol_for_c :: "string \<Rightarrow> kstate \<Rightarrow> symbol \<Rightarrow> string" where
  "print_symbol_for_c prefix st s =
     (let val = string_value st s;
          line = (\<lambda>suffix vprefix v. ''#define '' @ prefix @ name_of st s @ suffix @ '' '' @ vprefix @ v @ newline)
      in case ks_type (sym_at st s) of
           S_UNKNOWN \<Rightarrow> []
         | S_HEX \<Rightarrow> line [] (if has_hex_prefix val then [] else ''0x'') val
         | S_STRING \<Rightarrow> line [] [] (escape_string_value val)
         | S_INT \<Rightarrow> line [] [] val
         | _ \<Rightarrow> if take 1 val = ''n'' then []
                else line (if take 1 val = ''m'' then ''_MODULE'' else []) [] ''1'')"

definition print_symbol_for_rustccfg :: "string \<Rightarrow> kstate \<Rightarrow> symbol \<Rightarrow> string" where
  "print_symbol_for_rustccfg prefix st s =
     (let ty = ks_type (sym_at st s); val = string_value st s; tri = (ty = S_BOOLEAN \<or> ty = S_TRISTATE) in
      if ty = S_UNKNOWN \<or> tri \<and> take 1 val = ''n'' then []
      else (if tri then ''--cfg='' @ prefix @ name_of st s @ newline else []) @
        ''--cfg='' @ prefix @ name_of st s @ ''='' @
        escape_string_value ((if ty = S_HEX \<and> \<not> has_hex_prefix val then ''0x'' else []) @ val) @ newline)"

subsection \<open>Menus\<close>

text \<open>
  The prompt of a menu entry is a property of its symbol, by its number, or a property of its own.
  The links to the next entry, the first child and the parent make up a tree.
\<close>

datatype menu_prompt = Sym_prompt nat | Own_prompt prop_type string "expr option"

datatype menu = Menu "symbol option" "menu_prompt option" "expr option" "menu list"

fun prompt_text :: "kstate \<Rightarrow> symbol option \<Rightarrow> menu_prompt \<Rightarrow> string option" where
  "prompt_text st (Some s) (Sym_prompt i) = p_text (prop_at st s i)"
| "prompt_text st None (Sym_prompt i) = None"
| "prompt_text st sm (Own_prompt ty txt vis) = Some txt"

fun menu_get_prompt :: "kstate \<Rightarrow> menu \<Rightarrow> string option" where
  "menu_get_prompt st (Menu sm (Some p) vis ms) = prompt_text st sm p"
| "menu_get_prompt st (Menu (Some s) None vis ms) = ks_name (sym_at st s)"
| "menu_get_prompt st (Menu None None vis ms) = None"

fun prompt_visible :: "calc \<Rightarrow> symbol option \<Rightarrow> menu_prompt \<Rightarrow> kstate \<Rightarrow> (tristate \<times> kstate) option" where
  "prompt_visible rec (Some s) (Sym_prompt i) st = do { st \<leftarrow> rec st s; Some (p_vis_tri (prop_at st s i), st) }"
| "prompt_visible rec None (Own_prompt ty txt vis) st = eval_dep rec vis st"
| "prompt_visible rec sm p st = None"

fun menu_is_visible :: "calc \<Rightarrow> menu \<Rightarrow> kstate \<Rightarrow> (bool \<times> kstate) option"
  and any_visible :: "calc \<Rightarrow> symbol \<Rightarrow> menu list \<Rightarrow> kstate \<Rightarrow> (bool \<times> kstate) option" where
  "menu_is_visible rec (Menu sm prompt vis ms) st =
     (case prompt of
        None \<Rightarrow> Some (False, st)
      | Some p \<Rightarrow> do {
          (v, st) \<leftarrow> eval_dep rec vis st;
          if v = tri_no then Some (False, st)
          else do {
            (visible, st) \<leftarrow> prompt_visible rec sm p st;
            if visible \<noteq> tri_no then Some (True, st)
            else case sm of
                   None \<Rightarrow> Some (False, st)
                 | Some s \<Rightarrow> if ks_tri (sym_at st s) = tri_no then Some (False, st) else any_visible rec s ms st } })"
| "any_visible rec s [] st = Some (False, st)"
| "any_visible rec s (m # ms) st =
     do {
       (v, st) \<leftarrow> menu_is_visible rec m st;
       if v then Some (True, set_flag s SYMBOL_DEF_USER st) else any_visible rec s ms st }"

subsection \<open>Writing a configuration\<close>

type_synonym writer = "bool \<times> string \<times> kstate"

definition write_entry :: "calc \<Rightarrow> string \<Rightarrow> menu \<Rightarrow> writer \<Rightarrow> writer option" where
  "write_entry rec prefix m w =
     (case (m, w) of (Menu sm prompt vis ms, need_newline, out, st) \<Rightarrow>
        (case sm of
           None \<Rightarrow> do {
             (v, st) \<leftarrow> menu_is_visible rec m st;
             if \<not> v then Some (need_newline, out, st)
             else do {
               str \<leftarrow> menu_get_prompt st m;
               Some (False, out @ newline @ ''#'' @ newline @ ''# '' @ str @ newline @ ''#'' @ newline, st) } }
         | Some s \<Rightarrow>
             if has_flag st s SYMBOL_CHOICE \<or> has_flag st s SYMBOL_WRITTEN then Some w
             else do {
               st \<leftarrow> rec st s;
               if \<not> has_flag st s SYMBOL_WRITE then Some (need_newline, out, st)
               else
                 let st = set_flag s SYMBOL_WRITTEN st
                 in Some (False, out @ (if need_newline then newline else []) @ print_symbol_for_dotconfig prefix st s, st) }))"

definition write_end :: "calc \<Rightarrow> menu \<Rightarrow> writer \<Rightarrow> writer option" where
  "write_end rec m w =
     (case (m, w) of (Menu sm prompt vis ms, need_newline, out, st) \<Rightarrow>
        (case sm of
           Some s \<Rightarrow> Some w
         | None \<Rightarrow> do {
             (v, st) \<leftarrow> menu_is_visible rec m st;
             case prompt of
               Some (Own_prompt P_MENU txt pv) \<Rightarrow>
                 if v then Some (True, out @ ''# end of '' @ txt @ newline, st) else Some (need_newline, out, st)
             | _ \<Rightarrow> Some (need_newline, out, st) }))"

text \<open>An entry, the entries below it, and its end.\<close>

fun write_menu :: "calc \<Rightarrow> string \<Rightarrow> menu \<Rightarrow> writer \<Rightarrow> writer option"
  and write_menus :: "calc \<Rightarrow> string \<Rightarrow> menu list \<Rightarrow> writer \<Rightarrow> writer option" where
  "write_menu rec prefix (Menu sm prompt vis ms) w =
     do {
       w \<leftarrow> write_entry rec prefix (Menu sm prompt vis ms) w;
       w \<leftarrow> write_menus rec prefix ms w;
       write_end rec (Menu sm prompt vis ms) w }"
| "write_menus rec prefix [] w = Some w"
| "write_menus rec prefix (m # ms) w = do { w \<leftarrow> write_menu rec prefix m w; write_menus rec prefix ms w }"

text \<open>The root menu is no entry, but its visibility is calculated at the end of the walk.\<close>

definition write_root :: "calc \<Rightarrow> string \<Rightarrow> menu \<Rightarrow> string \<Rightarrow> kstate \<Rightarrow> (string \<times> kstate) option" where
  "write_root rec prefix root out st =
     (case root of Menu sm prompt vis ms \<Rightarrow>
        if ms = [] then Some (out, st)
        else do {
          (nn, out, st) \<leftarrow> write_menus rec prefix ms (False, out, st);
          (v, st) \<leftarrow> (if sm = None then menu_is_visible rec root st else Some (False, st));
          Some (out, st) })"

definition rename_file :: "host \<Rightarrow> string \<Rightarrow> string \<Rightarrow> filesys \<Rightarrow> bool \<times> filesys" where
  "rename_file h a b fs =
     (case file_at fs a of
        Some c \<Rightarrow>
          if \<not> can_rename h a b then (False, fs)
          else if a = b then (True, fs)
          else (True, fs\<lparr>file_at := (file_at fs)(b \<mapsto> c, a := None)\<rparr>)
      | None \<Rightarrow> (False, fs))"

definition write_file :: "string \<Rightarrow> string \<Rightarrow> filesys \<Rightarrow> filesys" where
  "write_file name txt fs = fs\<lparr>file_at := (file_at fs)(name \<mapsto> txt)\<rparr>"

definition config_text :: "calc \<Rightarrow> host \<Rightarrow> menu \<Rightarrow> kstate \<Rightarrow> (string \<times> kstate) option" where
  "config_text rec h root st =
     do {
       title \<leftarrow> menu_get_prompt st root;
       st \<leftarrow> (if conf_changed st then Some st else sym_clear_all_valid rec st);
       (out, st) \<leftarrow> write_root rec (CONFIG_prefix h) root (conf_write_heading title (Some comment_style_pound)) st;
       Some (out, fold (\<lambda>s. clear_flag s SYMBOL_WRITTEN) (all_symbols st) st) }"

definition conf_write :: "calc \<Rightarrow> host \<Rightarrow> menu \<Rightarrow> string option \<Rightarrow> filesys \<Rightarrow> kstate \<Rightarrow> (int \<times> filesys \<times> kstate) option" where
  "conf_write rec h root nm fs st =
     (let name = (case nm of Some n \<Rightarrow> n | None \<Rightarrow> conf_get_configname h) in
      if name = [] then Some (- 1, fs, print_error (''config name is empty'' @ newline) st)
      else if is_dir fs name then Some (- 1, fs, print_error (name @ '': Is a directory'' @ newline) st)
      else
        let (ret, fs) = make_parent_dir h name fs in
        if ret \<noteq> 0 then Some (- 1, fs, st)
        else
          let overwrite = (case getenv h ''KCONFIG_OVERWRITECONFIG'' of Some e \<Rightarrow> e \<noteq> [] | None \<Rightarrow> False);
              tmpname = take PATH_MAX (name @ ''.'' @ decimal (getpid h) @ ''.tmp'');
              target = (if overwrite then name else tmpname)
          in if \<not> can_write h target then Some (1, fs, st)
             else do {
               (txt, st) \<leftarrow> config_text rec h root st;
               let fs = write_file target txt fs;
               let written = conf_set_changed False (conf_message (''configuration written to '' @ name) st);
               if overwrite then Some (0, fs, written)
               else if is_same h fs name tmpname
               then Some (0, fs\<lparr>file_at := (file_at fs)(tmpname := None)\<rparr>,
                          conf_set_changed False (conf_message (''No change to '' @ name) st))
               else
                 let fs = snd (rename_file h name (take PATH_MAX (name @ ''.old'')) fs);
                     (ok, fs) = rename_file h tmpname name fs
                 in if \<not> ok then Some (1, fs, st) else Some (0, fs, written) })"

subsection \<open>Writing a minimal configuration\<close>

text \<open>Whether the walk skips a value of a choice because it is the default of the choice anyway.\<close>

definition is_choice_default :: "calc \<Rightarrow> symbol \<Rightarrow> kstate \<Rightarrow> (bool \<times> kstate) option" where
  "is_choice_default rec s st =
     (if \<not> sym_is_choice_value st s then Some (False, st)
      else do {
        cs \<leftarrow> choice_of st s;
        (ds, st) \<leftarrow> sym_choice_default rec cs st;
        Some (\<not> sym_is_optional st cs \<and> ds = Some s \<and> ks_type (sym_at st s) = S_BOOLEAN \<and>
              sym_get_tristate_value st s = tri_yes, st) })"

definition defconfig_entry :: "calc \<Rightarrow> string \<Rightarrow> menu \<Rightarrow> string \<times> kstate \<Rightarrow> (string \<times> kstate) option" where
  "defconfig_entry rec prefix m w =
     (case (m, w) of (Menu sm prompt vis ms, out, st) \<Rightarrow>
        (case sm of
           None \<Rightarrow> do { (v, st) \<leftarrow> menu_is_visible rec m st; Some (out, st) }
         | Some s \<Rightarrow>
             if sym_is_choice st s then Some w
             else do {
               st \<leftarrow> rec st s;
               if \<not> has_flag st s SYMBOL_WRITE then Some (out, st)
               else do {
                 let st = clear_flag s SYMBOL_WRITE st;
                 if \<not> sym_is_changeable st s then Some (out, st)
                 else do {
                   let val = string_value st s;
                   (dflt, st) \<leftarrow> sym_get_string_default rec s st;
                   if val = dflt then Some (out, st)
                   else do {
                     (skip, st) \<leftarrow> is_choice_default rec s st;
                     Some (if skip then out else out @ print_symbol_for_dotconfig prefix st s, st) } } } }))"

fun defconfig_menu :: "calc \<Rightarrow> string \<Rightarrow> menu \<Rightarrow> string \<times> kstate \<Rightarrow> (string \<times> kstate) option"
  and defconfig_menus :: "calc \<Rightarrow> string \<Rightarrow> menu list \<Rightarrow> string \<times> kstate \<Rightarrow> (string \<times> kstate) option" where
  "defconfig_menu rec prefix (Menu sm prompt vis ms) w =
     do { w \<leftarrow> defconfig_entry rec prefix (Menu sm prompt vis ms) w; defconfig_menus rec prefix ms w }"
| "defconfig_menus rec prefix [] w = Some w"
| "defconfig_menus rec prefix (m # ms) w =
     do { w \<leftarrow> defconfig_menu rec prefix m w; defconfig_menus rec prefix ms w }"

definition conf_write_defconfig :: "calc \<Rightarrow> host \<Rightarrow> menu \<Rightarrow> string \<Rightarrow> filesys \<Rightarrow> kstate \<Rightarrow> (int \<times> filesys \<times> kstate) option" where
  "conf_write_defconfig rec h root filename fs st =
     (if \<not> can_write h filename then Some (1, fs, st)
      else do {
        st \<leftarrow> sym_clear_all_valid rec st;
        (out, st) \<leftarrow> (case root of Menu sm prompt vis ms \<Rightarrow> defconfig_menus rec (CONFIG_prefix h) ms ([], st));
        Some (0, write_file filename out fs, st) })"

subsection \<open>Writing the files for the build\<close>

text \<open>
  The names of the files the parser has read and the lines about environment variables, which
  \<open>env_write_dep\<close> writes, are arguments.
\<close>

definition conf_write_autoconf_cmd :: "host \<Rightarrow> string list \<Rightarrow> string \<Rightarrow> string \<Rightarrow> filesys \<Rightarrow> int \<times> filesys" where
  "conf_write_autoconf_cmd h file_list env_deps autoconf_name fs =
     (let name = autoconf_name @ ''.cmd''; tmp = autoconf_name @ ''.cmd.tmp'' in
      if length name \<ge> PATH_MAX then (- 1, fs)
      else
        let (ret, fs) = make_parent_dir h name fs in
        if ret \<noteq> 0 then (- 1, fs)
        else if length tmp \<ge> PATH_MAX then (- 1, fs)
        else if \<not> can_write h tmp then (- 1, fs)
        else
          let fs = write_file tmp
                (''deps_config := '' @ [CHR 0x5C] @ newline @
                 concat (map (\<lambda>f. [CHR 0x09] @ f @ '' '' @ [CHR 0x5C] @ newline) file_list) @
                 newline @ autoconf_name @ '': $(deps_config)'' @ newline @ newline @ env_deps @
                 newline @ ''$(deps_config): ;'' @ newline) fs
          in if write_error h tmp then (- 1, fs)
             else let (ok, fs) = rename_file h tmp name fs in (if ok then 0 else - 1, fs))"

text \<open>Whether a symbol has the value it had when the files for the build were last written.\<close>

definition unchanged_since :: "kstate \<Rightarrow> symbol \<Rightarrow> bool option" where
  "unchanged_since st s =
     (let k = sym_at st s; tri = (ks_type k = S_BOOLEAN \<or> ks_type k = S_TRISTATE) in
      if has_flag st s SYMBOL_WRITE then
        (if has_flag st s SYMBOL_DEF_AUTO then
           (if tri then Some (ks_tri k = auto_tri k)
            else if ks_type k = S_UNKNOWN then Some False
            else do { a \<leftarrow> read_str (ks_val k); b \<leftarrow> read_str (auto_val k); Some (a = b) })
         else Some (tri \<and> ks_tri k = tri_no))
      else Some (\<not> has_flag st s SYMBOL_DEF_AUTO))"

fun touch_changed :: "calc \<Rightarrow> host \<Rightarrow> string \<Rightarrow> symbol list \<Rightarrow> filesys \<Rightarrow> kstate \<Rightarrow> (int \<times> filesys \<times> kstate) option" where
  "touch_changed rec h prefix [] fs st = Some (0, fs, st)"
| "touch_changed rec h prefix (s # ss) fs st =
     do {
       st \<leftarrow> rec st s;
       if has_flag st s SYMBOL_NO_WRITE \<or> ks_name (sym_at st s) = None then touch_changed rec h prefix ss fs st
       else do {
         same \<leftarrow> unchanged_since st s;
         if same then touch_changed rec h prefix ss fs st
         else
           let (res, fs) = conf_touch_dep h prefix (name_of st s) fs
           in if res \<noteq> 0 then Some (res, fs, st) else touch_changed rec h prefix ss fs st } }"

definition dir_prefix :: "string \<Rightarrow> string" where
  "dir_prefix name = rev (dropWhile (\<lambda>c. c \<noteq> CHR ''/'') (rev name))"

definition conf_touch_deps :: "calc \<Rightarrow> host \<Rightarrow> filesys \<Rightarrow> kstate \<Rightarrow> (int \<times> filesys \<times> kstate) option" where
  "conf_touch_deps rec h fs st =
     (let name = conf_get_autoconfig_name h; prefix = dir_prefix name in
      if length prefix + 1 > PATH_MAX then Some (- 1, fs, st)
      else do {
        (ret, r) \<leftarrow> conf_read_simple h prefix (Some name) S_DEF_AUTO fs st;
        st \<leftarrow> calc_modules rec (r_state r);
        touch_changed rec h prefix (all_symbols st) (r_files r) st })"

definition write_autoconf :: "host \<Rightarrow> string \<Rightarrow> string \<Rightarrow> (kstate \<Rightarrow> symbol \<Rightarrow> string) \<Rightarrow> comment_style option \<Rightarrow>
    filesys \<Rightarrow> kstate \<Rightarrow> int \<times> filesys" where
  "write_autoconf h title filename print style fs st =
     (let (ret, fs) = make_parent_dir h filename fs; tmp = filename @ ''.tmp'' in
      if ret \<noteq> 0 then (- 1, fs)
      else if length tmp \<ge> PATH_MAX then (- 1, fs)
      else if \<not> can_write h tmp then (- 1, fs)
      else
        let fs = write_file tmp
              (conf_write_heading title style @
               concat (map (print st) (filter (\<lambda>s. has_flag st s SYMBOL_WRITE \<and> ks_name (sym_at st s) \<noteq> None) (all_symbols st)))) fs
        in if write_error h tmp then (- 1, fs)
           else let (ok, fs) = rename_file h tmp filename fs in (if ok then 0 else - 1, fs))"

fun calc_all :: "calc \<Rightarrow> symbol list \<Rightarrow> kstate \<Rightarrow> kstate option" where
  "calc_all rec [] st = Some st"
| "calc_all rec (s # ss) st = do { st \<leftarrow> rec st s; calc_all rec ss st }"

definition conf_write_autoconf :: "calc \<Rightarrow> host \<Rightarrow> string list \<Rightarrow> string \<Rightarrow> string \<Rightarrow> bool \<Rightarrow> filesys \<Rightarrow> kstate \<Rightarrow>
    (int \<times> filesys \<times> kstate) option" where
  "conf_write_autoconf rec h file_list env_deps title overwrite fs st =
     (let autoconf_name = conf_get_autoconfig_name h; pre = CONFIG_prefix h in
      if \<not> overwrite \<and> is_present fs autoconf_name then Some (0, fs, st)
      else
        let (ret, fs) = conf_write_autoconf_cmd h file_list env_deps autoconf_name fs in
        if ret \<noteq> 0 then Some (- 1, fs, st)
        else do {
          (ret, fs, st) \<leftarrow> conf_touch_deps rec h fs st;
          if ret \<noteq> 0 then Some (1, fs, st)
          else do {
            st \<leftarrow> calc_all rec (all_symbols st) st;
            let (ret, fs) = write_autoconf h title (conf_get_autoheader_name h) (print_symbol_for_c pre) (Some comment_style_c) fs st;
            if ret \<noteq> 0 then Some (ret, fs, st)
            else do {
              let (ret, fs) = write_autoconf h title (conf_get_rustccfg_name h) (print_symbol_for_rustccfg pre) None fs st;
              if ret \<noteq> 0 then Some (ret, fs, st)
              else do {
                let (ret, fs) = write_autoconf h title autoconf_name (print_symbol_for_autoconf pre) (Some comment_style_pound) fs st;
                Some (ret, fs, st) } } } })"

definition conf_get_changed :: "kstate \<Rightarrow> bool" where
  "conf_get_changed st = conf_changed st"

end
