(* ===== verification/Kconfig_Confdata_Correct.thy ===== *)
theory Kconfig_Confdata_Correct
  imports Kconfig_Confdata Kconfig_Symbol_Correct
begin

text \<open>
  Properties of \<^verbatim>\<open>scripts/kconfig/confdata.c\<close>: a configuration that was written is read back with the same
  values.
\<close>

subsection \<open>Escapes\<close>

lemma unescape_escape: "unescape (escape_chars v @ CHR 0x22 # rest) = Some v"
  by (induction v) auto

subsection \<open>Lines\<close>

text \<open>A printed line, cut where the program cuts it.\<close>

lemma takeWhile_notin: "c \<notin> set xs \<Longrightarrow> takeWhile (\<lambda>d. d \<noteq> c) (xs @ c # ys) = xs"
  by (induction xs) auto

lemma dropWhile_notin: "c \<notin> set xs \<Longrightarrow> dropWhile (\<lambda>d. d \<noteq> c) (xs @ c # ys) = c # ys"
  by (induction xs) auto

lemma strchr_first: "c \<notin> set xs \<Longrightarrow> strchr c (xs @ c # ys) = Some (xs, ys)"
  by (simp add: strchr_def takeWhile_notin dropWhile_notin)

lemma cstr_line: "CHR 0x00 \<notin> set xs \<Longrightarrow> cstr (xs @ CHR 0x00 # ys) = xs"
  by (simp add: cstr_def takeWhile_notin)

lemma newline_char: "newline = [CHR 0x0A]"
  by code_simp

lemma getline_line: "CHR 0x0A \<notin> set l \<Longrightarrow> compat_getline (l @ newline @ rest) = Some (l @ newline, rest)"
  by (simp add: compat_getline_def newline_char takeWhile_notin dropWhile_notin Let_def)

text \<open>Names and prefixes that do not get into the way of the syntax of a line.\<close>

definition name_ok :: "string \<Rightarrow> string \<Rightarrow> bool" where
  "name_ok prefix nm \<longleftrightarrow>
     set nm \<inter> {CHR ''='', CHR '' '', CHR 0x00, CHR 0x0A} = {} \<and> set prefix \<inter> {CHR 0x00, CHR 0x0A} = {} \<and>
     take 1 (prefix @ nm) \<noteq> ''#'' \<and> nm \<noteq> []"

lemma parse_unset:
  assumes "name_ok prefix nm"
  shows "parse_line prefix after (''# '' @ prefix @ nm @ '' is not set'' @ newline) = L_unset nm"
proof -
  have "CHR 0x00 \<notin> set (nm @ '' is not set'' @ newline)" using assms by (auto simp: name_ok_def newline_char)
  from cstr_line [OF this, of after]
  have "cstr (nm @ '' is not set'' @ newline @ CHR 0x00 # after) = nm @ CHR '' '' # ''is not set'' @ newline" by simp
  moreover have "CHR '' '' \<notin> set nm" using assms by (auto simp: name_ok_def)
  ultimately show ?thesis
    using strchr_first [of "CHR '' ''" nm] by (simp add: parse_line_def Let_def)
qed

lemma parse_assign:
  assumes "name_ok prefix nm" "set val \<inter> {CHR 0x00, CHR 0x0A} = {}" "val = [] \<or> last val \<noteq> CHR 0x0D"
  shows "parse_line prefix after (prefix @ nm @ ''='' @ val @ newline) = L_assign nm val"
proof -
  have "CHR 0x00 \<notin> set (nm @ ''='' @ val @ newline)" using assms by (auto simp: name_ok_def newline_char)
  from cstr_line [OF this, of after]
  have c: "cstr (nm @ CHR ''='' # val @ newline @ CHR 0x00 # after) = nm @ CHR ''='' # val @ newline" by simp
  have "CHR ''='' \<notin> set nm" using assms(1) by (auto simp: name_ok_def)
  from strchr_first [OF this] have e: "strchr (CHR ''='') (nm @ CHR ''='' # val @ newline) = Some (nm, val @ newline)" by simp
  have "assigned_text (val @ newline) = val"
    using strchr_first [of "CHR 0x0A" val "[]"] assms(2,3) by (auto simp: assigned_text_def newline_char)
  moreover have "take 1 (prefix @ nm @ ''='' @ val @ newline @ CHR 0x00 # after) \<noteq> ''#''"
    using assms(1) by (cases prefix; cases nm) (auto simp: name_ok_def)
  ultimately show ?thesis using c e by (simp add: parse_line_def Let_def)
qed

subsection \<open>Reading a printed symbol\<close>

text \<open>Symbols with a name and a value of their type that has no line break.\<close>

definition printable :: "string \<Rightarrow> kstate \<Rightarrow> symbol \<Rightarrow> bool" where
  "printable prefix st s \<longleftrightarrow>
     name_ok prefix (name_of st s) \<and>
     (let v = val_str (ks_val (sym_at st s)) in
      case ks_type (sym_at st s) of
        S_UNKNOWN \<Rightarrow> False
      | S_BOOLEAN \<Rightarrow> ks_tri (sym_at st s) \<noteq> tri_mod
      | S_TRISTATE \<Rightarrow> True
      | S_STRING \<Rightarrow> set v \<inter> {CHR 0x00, CHR 0x0A} = {}
      | S_INT \<Rightarrow> int_valid v
      | S_HEX \<Rightarrow> hex_valid v)"

definition is_tri :: "kstate \<Rightarrow> symbol \<Rightarrow> bool" where
  "is_tri st s \<longleftrightarrow> ks_type (sym_at st s) = S_BOOLEAN \<or> ks_type (sym_at st s) = S_TRISTATE"

text \<open>The value of \<open>s\<close> in \<open>st\<close>, given to it by the user in \<open>st'\<close>.\<close>

definition read_back :: "kstate \<Rightarrow> symbol \<Rightarrow> kstate \<Rightarrow> kstate" where
  "read_back st s st' =
     (if is_tri st s then give_tri s S_DEF_USER (ks_tri (sym_at st s)) st'
      else give_val s S_DEF_USER (val_str (ks_val (sym_at st s))) st')"

lemma no_digits: "\<not> is_digit_of 16 (CHR 0x00)" "\<not> is_digit_of 16 (CHR 0x0A)" "\<not> is_digit_of 16 (CHR 0x0D)"
  by code_simp+

lemma dec_is_hex: "is_dec c \<Longrightarrow> is_xdigit c"
  by (auto simp: is_dec_def is_xdigit_def is_digit_of_def split: option.splits)

lemma xdigit_chars: "is_xdigit c \<Longrightarrow> c \<notin> {CHR 0x00, CHR 0x0A, CHR 0x0D}"
  using no_digits by (auto simp: is_xdigit_def)

lemma int_valid_chars:
  assumes "int_valid v" "c \<in> set v"
  shows "is_xdigit c \<or> c = CHR ''-''"
proof (cases v)
  case (Cons d ds)
  then show ?thesis
    using assms by (cases "d = CHR ''-''"; cases ds) (auto simp: int_valid_def list_all_iff dest: dec_is_hex)
qed (use assms in simp)

lemma hex_valid_chars:
  assumes "hex_valid v" "c \<in> set v"
  shows "is_xdigit c \<or> c \<in> {CHR ''0'', CHR ''x'', CHR ''X''}"
proof (cases "has_hex_prefix v")
  case True
  then obtain d ds where v: "v = CHR ''0'' # d # ds" "d = CHR ''x'' \<or> d = CHR ''X''"
    by (auto simp: has_hex_prefix_def split: list.splits)
  then show ?thesis using assms True by (auto simp: hex_valid_def list_all_iff)
next
  case False
  then show ?thesis using assms by (auto simp: hex_valid_def list_all_iff)
qed

lemma valid_chars:
  assumes "int_valid v \<or> hex_valid v" "c \<in> set v"
  shows "c \<notin> {CHR 0x00, CHR 0x0A, CHR 0x0D}"
  using assms int_valid_chars hex_valid_chars xdigit_chars by fastforce

lemma escape_chars_set: "set (escape_chars v) \<subseteq> set v \<union> {CHR 0x5C, CHR 0x22}"
  by (induction v) auto

definition printed_value :: "kstate \<Rightarrow> symbol \<Rightarrow> string" where
  "printed_value st s =
     (if ks_type (sym_at st s) = S_STRING then escape_string_value (val_str (ks_val (sym_at st s))) else string_value st s)"

definition unset :: "kstate \<Rightarrow> symbol \<Rightarrow> bool" where
  "unset st s \<longleftrightarrow> is_tri st s \<and> ks_tri (sym_at st s) = tri_no"

lemma print_dotconfig:
  assumes "printable prefix st s"
  shows "print_symbol_for_dotconfig prefix st s =
    (if unset st s then ''# '' @ prefix @ name_of st s @ '' is not set'' @ newline
     else prefix @ name_of st s @ ''='' @ printed_value st s @ newline)"
  using assms
  by (cases "ks_type (sym_at st s)"; cases "ks_tri (sym_at st s)")
    (simp_all add: printable_def print_symbol_for_dotconfig_def print_symbol_def unset_def is_tri_def printed_value_def)

lemma printed_value_chars:
  assumes "printable prefix st s"
  shows "set (printed_value st s) \<inter> {CHR 0x00, CHR 0x0A} = {} \<and> (printed_value st s = [] \<or> last (printed_value st s) \<noteq> CHR 0x0D)"
proof -
  define v where "v = val_str (ks_val (sym_at st s))"
  have number: "set v \<inter> {CHR 0x00, CHR 0x0A} = {} \<and> (v = [] \<or> last v \<noteq> CHR 0x0D)" if "int_valid v \<or> hex_valid v"
    using valid_chars [OF that] last_in_set [of v] by blast
  have tri: "set (tri_string t) \<inter> {CHR 0x00, CHR 0x0A} = {} \<and> last (tri_string t) \<noteq> CHR 0x0D" for t by (cases t) auto
  show ?thesis
  proof (cases "ks_type (sym_at st s)")
    case S_STRING
    then have "set v \<inter> {CHR 0x00, CHR 0x0A} = {}" using assms by (simp add: printable_def v_def Let_def)
    then show ?thesis using S_STRING escape_chars_set [of v] by (auto simp: printed_value_def escape_string_value_def v_def)
  qed (use assms number tri in \<open>simp_all add: printable_def printed_value_def v_def [symmetric] Let_def\<close>)
qed

lemma set_printed_value:
  assumes "printable prefix st s" "\<not> unset st s" "ks_type (sym_at st' s) = ks_type (sym_at st s)"
  shows "conf_set_sym_val st' s S_DEF_USER (printed_value st s) = (False, [], read_back st s st')"
proof (cases "ks_type (sym_at st s)")
  case S_STRING
  then show ?thesis
    using assms(3) unescape_escape
    by (simp add: conf_set_sym_val_def printed_value_def escape_string_value_def set_plain_val_def sym_string_valid_def
        read_back_def is_tri_def)
next
  case S_BOOLEAN
  then show ?thesis
    using assms by (cases "ks_tri (sym_at st s)")
      (simp_all add: printable_def unset_def is_tri_def conf_set_sym_val_def printed_value_def set_bool_val_def read_back_def)
next
  case S_TRISTATE
  then show ?thesis
    using assms by (cases "ks_tri (sym_at st s)")
      (simp_all add: printable_def unset_def is_tri_def conf_set_sym_val_def printed_value_def set_bool_val_def read_back_def)
qed (use assms in \<open>simp_all add: printable_def conf_set_sym_val_def printed_value_def set_plain_val_def sym_string_valid_def
      read_back_def is_tri_def Let_def\<close>)

subsection \<open>What reading leaves alone\<close>

definition same_input :: "kstate \<Rightarrow> kstate \<Rightarrow> bool" where
  "same_input st st' \<longleftrightarrow> symbol_hash st' = symbol_hash st \<and>
     (\<forall>t. ks_name (sym_at st' t) = ks_name (sym_at st t) \<and> ks_type (sym_at st' t) = ks_type (sym_at st t) \<and>
        ks_props (sym_at st' t) = ks_props (sym_at st t) \<and>
        (\<forall>f \<in> {SYMBOL_CONST, SYMBOL_CHOICEVAL}. has_flag st' t f = has_flag st t f))"

lemma same_input_refl: "same_input st st"
  by (simp add: same_input_def)

lemma same_input_trans: "same_input st st1 \<Longrightarrow> same_input st1 st2 \<Longrightarrow> same_input st st2"
  by (simp add: same_input_def)

lemma same_input_facts:
  assumes "same_input st st'"
  shows "sym_find nm st' = sym_find nm st" "choice_of st' t = choice_of st t"
    "sym_is_choice_value st' t = sym_is_choice_value st t" "ks_type (sym_at st' t) = ks_type (sym_at st t)"
  using assms
  by (simp_all add: same_input_def sym_find_def choice_of_def sym_get_choice_prop_def sym_is_choice_value_def
      split: option.split)

lemma same_input_upd:
  assumes "\<And>k. ks_name (f k) = ks_name k \<and> ks_type (f k) = ks_type k \<and> ks_props (f k) = ks_props k \<and>
      ks_flags (f k) \<inter> {SYMBOL_CONST, SYMBOL_CHOICEVAL} = ks_flags k \<inter> {SYMBOL_CONST, SYMBOL_CHOICEVAL}"
  shows "same_input st (upd_sym t f st)"
proof -
  have "has_flag (upd_sym t f st) u g = has_flag st u g" if "g \<in> {SYMBOL_CONST, SYMBOL_CHOICEVAL}" for u g
    using assms [of "sym_at st t"] that by auto
  then show ?thesis using assms by (simp add: same_input_def)
qed

lemma same_input_give: "same_input st (give_tri s d v st)" "same_input st (give_val s d str st)"
proof -
  have t: "same_input st (upd_sym s (set_def_tri d v) st)" by (rule same_input_upd) (cases d; simp)
  have w: "same_input st (upd_sym s (set_def_val d (V_str str)) st)" by (rule same_input_upd) (cases d; simp)
  have f: "same_input st1 (set_flag s (def_flag d) st1)" for st1
    unfolding set_flag_def by (rule same_input_upd) (cases d; auto)
  show "same_input st (give_tri s d v st)" "same_input st (give_val s d str st)"
    unfolding give_tri_def give_val_def using same_input_trans [OF t f] same_input_trans [OF w f] by simp_all
qed

lemma warning_state [simp]:
  "sym_at (r_state (conf_warning txt r)) = sym_at (r_state r)" "symbol_hash (r_state (conf_warning txt r)) = symbol_hash (r_state r)"
  by (simp_all add: conf_warning_def)

lemma same_input_warning: "same_input st (r_state (conf_warning txt r)) = same_input st (r_state r)"
  by (simp add: same_input_def)

lemma choice_value_read:
  assumes "sym_is_choice_value (r_state r) s \<Longrightarrow> choice_of (r_state r) s = Some c"
  shows "\<exists>r'. read_choice_value S_DEF_USER s r = Some r' \<and> same_input (r_state r) (r_state r') \<and>
    (\<forall>t. sym_is_choice_value (r_state r) s \<and> t = c \<or> sym_at (r_state r') t = sym_at (r_state r) t)"
proof (cases "sym_is_choice_value (r_state r) s")
  case False
  then show ?thesis by (simp add: read_choice_value_def same_input_refl)
next
  case True
  have u: "same_input st (upd_sym c (\<lambda>k. set_def_tri S_DEF_USER (g k) k) st)"
    "same_input st (upd_sym c (set_def_val S_DEF_USER v) st)" for st g v
    by (rule same_input_upd; simp)+
  have f: "same_input st (clear_flag c SYMBOL_DEF_USER st)" for st
    unfolding clear_flag_def by (rule same_input_upd) auto
  define r1 where "r1 = (case def_tri S_DEF_USER (sym_at (r_state r) s) of
      tri_no \<Rightarrow> r
    | tri_mod \<Rightarrow> if def_tri S_DEF_USER (sym_at (r_state r) c) = tri_yes
        then with_state (clear_flag c (def_flag S_DEF_USER))
          (conf_warning (name_of (r_state r) s @ '' creates inconsistent choice state'') r) else r
    | tri_yes \<Rightarrow> with_state (upd_sym c (set_def_val S_DEF_USER (V_sym s)))
        (if def_tri S_DEF_USER (sym_at (r_state r) c) \<noteq> tri_no
         then conf_warning (''override: '' @ name_of (r_state r) s @ '' changes choice state'') r else r))"
  have "same_input (r_state r) (r_state r1) \<and> (\<forall>t. t \<noteq> c \<longrightarrow> sym_at (r_state r1) t = sym_at (r_state r) t)"
  proof (cases "user_tri (sym_at (r_state r) s)")
    case tri_no
    then show ?thesis by (simp add: r1_def same_input_refl)
  next
    case tri_mod
    then show ?thesis
      using same_input_trans [OF _ f] by (auto simp: r1_def same_input_refl same_input_warning clear_flag_def [symmetric])
        (simp add: clear_flag_def)
  next
    case tri_yes
    then show ?thesis
      using same_input_trans [OF _ u(2)] by (auto simp: r1_def same_input_refl same_input_warning)
  qed
  moreover have "read_choice_value S_DEF_USER s r =
      Some (with_state (upd_sym c (\<lambda>k. set_def_tri S_DEF_USER
        (EXPR_OR (def_tri S_DEF_USER k) (def_tri S_DEF_USER (sym_at (r_state r1) s))) k)) r1)"
    using True assms unfolding read_choice_value_def r1_def Let_def
    by (simp only: not_True_eq_False if_False Option.bind.bind_lunit)
  ultimately show ?thesis
    using same_input_trans [OF _ u(1)] True by (auto simp del: set_def_tri.simps)
qed

subsection \<open>Round trip\<close>

text \<open>The symbol \<open>s\<close> has in \<open>st'\<close>, given by the user, the value it has in \<open>st\<close>.\<close>

definition given :: "kstate \<Rightarrow> symbol \<Rightarrow> kstate \<Rightarrow> bool" where
  "given st s st' \<longleftrightarrow> has_flag st' s SYMBOL_DEF_USER \<and>
     (if is_tri st s then user_tri (sym_at st' s) = ks_tri (sym_at st s)
      else user_val (sym_at st' s) = V_str (val_str (ks_val (sym_at st s))))"

lemma given_read_back: "given st s (read_back st s st')"
  by (simp add: given_def read_back_def give_tri_def give_val_def set_flag_def)

lemma read_back_others: "t \<noteq> s \<Longrightarrow> sym_at (read_back st s st') t = sym_at st' t"
  by (simp add: read_back_def give_tri_def give_val_def set_flag_def)

lemma same_input_read_back: "same_input st' (read_back st s st')"
  by (simp add: read_back_def same_input_give)

text \<open>The reader finds the symbol by its name; a value of a choice has a choice, which is another symbol.\<close>

definition findable :: "kstate \<Rightarrow> kstate \<Rightarrow> symbol \<Rightarrow> bool" where
  "findable st st' s \<longleftrightarrow> sym_find (Some (name_of st s)) st' = Some s \<and> ks_type (sym_at st' s) = ks_type (sym_at st s) \<and>
     (sym_is_choice_value st' s \<longrightarrow> (\<exists>c. choice_of st' s = Some c \<and> c \<noteq> s))"

definition choice_link :: "kstate \<Rightarrow> symbol \<Rightarrow> symbol \<Rightarrow> bool" where
  "choice_link st s c \<longleftrightarrow> sym_is_choice_value st s \<and> choice_of st s = Some c"

lemma read_printed_symbol:
  assumes "printable (CONFIG_prefix h) st s" "findable st (r_state r) s"
  shows "\<exists>r'. read_line h dep S_DEF_USER (print_symbol_for_dotconfig (CONFIG_prefix h) st s) r = Some r' \<and>
    same_input (r_state r) (r_state r') \<and> given st s (r_state r') \<and>
    (\<forall>t. t = s \<or> choice_link (r_state r) s t \<or> sym_at (r_state r') t = sym_at (r_state r) t)"
proof -
  define r0 where "r0 = r\<lparr>conf_lineno := conf_lineno r + 1\<rparr>"
  have r0: "r_state r0 = r_state r" "r0\<lparr>r_state := r_state r\<rparr> = r0" by (simp_all add: r0_def)
  define r1 where "r1 = warn_override S_DEF_USER s r0"
  have r1: "sym_at (r_state r1) = sym_at (r_state r)" "symbol_hash (r_state r1) = symbol_hash (r_state r)"
    by (simp_all add: r1_def warn_override_def r0)
  then have in1: "same_input (r_state r) (r_state r1)" by (simp add: same_input_def)
  define r2 where "r2 = r1\<lparr>r_state := read_back st s (r_state r1)\<rparr>"
  have in2: "same_input (r_state r) (r_state r2)"
    unfolding r2_def using same_input_trans [OF in1 same_input_read_back] by simp
  have found: "sym_find (Some (name_of st s)) (r_state r) = Some s" using assms(2) by (simp add: findable_def)
  have type: "ks_type (sym_at (r_state r1) s) = ks_type (sym_at st s)" using assms(2) r1(1) by (simp add: findable_def)
  have "read_line h dep S_DEF_USER (print_symbol_for_dotconfig (CONFIG_prefix h) st s) r = read_choice_value S_DEF_USER s r2"
  proof (cases "unset st s")
    case True
    then have "read_back st s st' = give_tri s S_DEF_USER tri_no st'" for st' by (simp add: read_back_def unset_def)
    moreover have "read_line h dep S_DEF_USER (print_symbol_for_dotconfig (CONFIG_prefix h) st s) r = read_unset h S_DEF_USER (name_of st s) r0"
      using True parse_unset [of "CONFIG_prefix h" "name_of st s"] assms(1) print_dotconfig [OF assms(1)]
      by (simp add: read_line_def printable_def r0_def)
    ultimately show ?thesis
      using True found type by (simp add: read_unset_def unset_def is_tri_def r2_def r1_def r0 Let_def)
  next
    case False
    have "read_line h dep S_DEF_USER (print_symbol_for_dotconfig (CONFIG_prefix h) st s) r =
        read_assign h dep S_DEF_USER (name_of st s) (printed_value st s) r0"
      using False parse_assign [of "CONFIG_prefix h" "name_of st s"] printed_value_chars [OF assms(1)]
        assms(1) print_dotconfig [OF assms(1)]
      by (simp add: read_line_def printable_def r0_def)
    then show ?thesis
      using found set_printed_value [OF assms(1) False type] by (simp add: read_assign_def r2_def r1_def r0 Let_def)
  qed
  moreover obtain c where c: "sym_is_choice_value (r_state r2) s \<Longrightarrow> choice_of (r_state r2) s = Some c" "sym_is_choice_value (r_state r2) s \<Longrightarrow> c \<noteq> s"
    using assms(2) same_input_facts [OF in2] by (auto simp: findable_def)
  moreover obtain r' where r': "read_choice_value S_DEF_USER s r2 = Some r'" "same_input (r_state r2) (r_state r')"
    "\<forall>t. sym_is_choice_value (r_state r2) s \<and> t = c \<or> sym_at (r_state r') t = sym_at (r_state r2) t"
    using choice_value_read [OF c(1)] by blast
  have "sym_at (r_state r') s = sym_at (r_state r2) s" using r'(3) [rule_format, of s] c(2) by auto
  then have "given st s (r_state r')" using given_read_back [of st s "r_state r1"] by (simp add: given_def r2_def)
  moreover have "t = s \<or> choice_link (r_state r) s t \<or> sym_at (r_state r') t = sym_at (r_state r) t" for t
    using r'(3) [rule_format, of t] c(1) same_input_facts [OF in2] read_back_others [of t s st "r_state r1"] r1(1)
    by (auto simp: choice_link_def r2_def)
  ultimately show ?thesis using r'(1,2) same_input_trans [OF in2] by auto
qed

text \<open>A file of printed symbols and of lines that say nothing.\<close>

datatype entry = Symbol_line symbol | Comment_line string

fun entry_text :: "string \<Rightarrow> kstate \<Rightarrow> entry \<Rightarrow> string" where
  "entry_text prefix st (Symbol_line s) = print_symbol_for_dotconfig prefix st s"
| "entry_text prefix st (Comment_line c) = c @ newline"

fun entry_syms :: "entry list \<Rightarrow> symbol list" where
  "entry_syms [] = []"
| "entry_syms (Symbol_line s # es) = s # entry_syms es"
| "entry_syms (Comment_line c # es) = entry_syms es"

definition silent :: "host \<Rightarrow> string \<Rightarrow> bool" where
  "silent h c \<longleftrightarrow> CHR 0x0A \<notin> set c \<and> parse_line (CONFIG_prefix h) (behind h) (c @ newline) = L_skip"

lemma getline_printed:
  assumes "printable prefix st s"
  shows "compat_getline (print_symbol_for_dotconfig prefix st s @ rest) = Some (print_symbol_for_dotconfig prefix st s, rest)"
proof -
  have n: "CHR 0x0A \<notin> set prefix" "CHR 0x0A \<notin> set (name_of st s)"
    using assms by (auto simp: printable_def name_ok_def)
  show ?thesis
  proof (cases "unset st s")
    case True
    show ?thesis
      using getline_line [of "''# '' @ prefix @ name_of st s @ '' is not set''" rest] n
      unfolding print_dotconfig [OF assms] if_P [OF True] by simp
  next
    case False
    show ?thesis
      using getline_line [of "prefix @ name_of st s @ ''='' @ printed_value st s" rest] n printed_value_chars [OF assms]
      unfolding print_dotconfig [OF assms] if_not_P [OF False] by simp
  qed
qed

lemma read_entries:
  assumes "\<And>s. s \<in> set (entry_syms es) \<Longrightarrow> printable (CONFIG_prefix h) st s \<and> findable st (r_state r) s"
    and "\<And>c. Comment_line c \<in> set es \<Longrightarrow> silent h c"
    and "distinct (entry_syms es)"
    and "\<And>s c. s \<in> set (entry_syms es) \<Longrightarrow> choice_link (r_state r) s c \<Longrightarrow> c \<notin> set (entry_syms es)"
  shows "\<exists>r'. read_lines h dep S_DEF_USER (concat (map (entry_text (CONFIG_prefix h) st) es)) r = Some r' \<and>
    same_input (r_state r) (r_state r') \<and> (\<forall>s \<in> set (entry_syms es). given st s (r_state r')) \<and>
    (\<forall>t. t \<in> set (entry_syms es) \<or> (\<exists>s \<in> set (entry_syms es). choice_link (r_state r) s t) \<or>
       sym_at (r_state r') t = sym_at (r_state r) t)"
  using assms
proof (induction es arbitrary: r)
  case Nil
  then show ?case by (simp add: read_lines.simps compat_getline_def same_input_refl)
next
  case (Cons e es)
  show ?case
  proof (cases e)
    case (Comment_line c)
    then have c: "CHR 0x0A \<notin> set c" "parse_line (CONFIG_prefix h) (behind h) (c @ newline) = L_skip"
      using Cons.prems(2) by (auto simp: silent_def)
    let ?r = "r\<lparr>conf_lineno := conf_lineno r + 1\<rparr>"
    have "read_line h dep S_DEF_USER (c @ newline) r = Some ?r" using c(2) by (simp add: read_line_def)
    then have "read_lines h dep S_DEF_USER (concat (map (entry_text (CONFIG_prefix h) st) (e # es))) r =
        read_lines h dep S_DEF_USER (concat (map (entry_text (CONFIG_prefix h) st) es)) ?r"
      using getline_line [OF c(1)] Comment_line by (subst read_lines.simps) simp
    moreover have "\<exists>r'. read_lines h dep S_DEF_USER (concat (map (entry_text (CONFIG_prefix h) st) es)) ?r = Some r' \<and>
      same_input (r_state ?r) (r_state r') \<and> (\<forall>s \<in> set (entry_syms es). given st s (r_state r')) \<and>
      (\<forall>t. t \<in> set (entry_syms es) \<or> (\<exists>s \<in> set (entry_syms es). choice_link (r_state ?r) s t) \<or>
         sym_at (r_state r') t = sym_at (r_state ?r) t)"
      by (rule Cons.IH) (use Cons.prems Comment_line in auto)
    ultimately show ?thesis using Comment_line by simp
  next
    case (Symbol_line s)
    have s: "printable (CONFIG_prefix h) st s" "findable st (r_state r) s" using Cons.prems(1) Symbol_line by auto
    obtain r1 where r1: "read_line h dep S_DEF_USER (print_symbol_for_dotconfig (CONFIG_prefix h) st s) r = Some r1"
      "same_input (r_state r) (r_state r1)" "given st s (r_state r1)"
      "\<And>t. t = s \<or> choice_link (r_state r) s t \<or> sym_at (r_state r1) t = sym_at (r_state r) t"
      using read_printed_symbol [OF s] by blast
    have link: "choice_link (r_state r1) a b = choice_link (r_state r) a b" for a b
      using same_input_facts [OF r1(2)] by (simp add: choice_link_def)
    have "\<exists>r'. read_lines h dep S_DEF_USER (concat (map (entry_text (CONFIG_prefix h) st) es)) r1 = Some r' \<and>
      same_input (r_state r1) (r_state r') \<and> (\<forall>s \<in> set (entry_syms es). given st s (r_state r')) \<and>
      (\<forall>t. t \<in> set (entry_syms es) \<or> (\<exists>s \<in> set (entry_syms es). choice_link (r_state r1) s t) \<or>
         sym_at (r_state r') t = sym_at (r_state r1) t)"
    proof (rule Cons.IH)
      show "printable (CONFIG_prefix h) st t \<and> findable st (r_state r1) t" if "t \<in> set (entry_syms es)" for t
        using Cons.prems(1) [of t] that Symbol_line same_input_facts [OF r1(2)] by (simp add: findable_def)
      show "silent h c" if "Comment_line c \<in> set es" for c using Cons.prems(2) that by simp
      show "distinct (entry_syms es)" using Cons.prems(3) Symbol_line by simp
      show "c \<notin> set (entry_syms es)" if "t \<in> set (entry_syms es)" "choice_link (r_state r1) t c" for t c
        using Cons.prems(4) [of t c] that Symbol_line link by simp
    qed
    then obtain r' where r': "read_lines h dep S_DEF_USER (concat (map (entry_text (CONFIG_prefix h) st) es)) r1 = Some r'"
      "same_input (r_state r1) (r_state r')" "\<forall>s \<in> set (entry_syms es). given st s (r_state r')"
      "\<forall>t. t \<in> set (entry_syms es) \<or> (\<exists>s \<in> set (entry_syms es). choice_link (r_state r1) s t) \<or>
         sym_at (r_state r') t = sym_at (r_state r1) t"
      by (elim exE conjE) (rule that)
    note others = r'(4) [rule_format, unfolded link]
    have "s \<notin> set (entry_syms es)" using Cons.prems(3) Symbol_line by simp
    moreover have "\<not> choice_link (r_state r) a s" if "a \<in> set (entry_syms es)" for a
      using Cons.prems(4) [of a s] that Symbol_line by auto
    ultimately have "sym_at (r_state r') s = sym_at (r_state r1) s" using others [of s] by blast
    then have "given st s (r_state r')" using r1(3) by (simp add: given_def)
    moreover have "read_lines h dep S_DEF_USER (concat (map (entry_text (CONFIG_prefix h) st) (e # es))) r = Some r'"
      using getline_printed [OF s(1)] r1(1) r'(1) Symbol_line by (subst read_lines.simps) simp
    moreover have "t \<in> set (entry_syms (e # es)) \<or> (\<exists>s \<in> set (entry_syms (e # es)). choice_link (r_state r) s t) \<or>
        sym_at (r_state r') t = sym_at (r_state r) t" for t
      using r1(4) [of t] others [of t] Symbol_line by auto
    moreover have "\<forall>a \<in> set (entry_syms (e # es)). given st a (r_state r')"
      using \<open>given st s (r_state r')\<close> r'(3) Symbol_line by simp
    ultimately show ?thesis using same_input_trans [OF r1(2) r'(2)] by blast
  qed
qed

end
