(* ===== verification/Kconfig_Roundtrip.thy ===== *)
theory Kconfig_Roundtrip
  imports Kconfig_Confdata_Correct "HOL-Library.Sublist"
begin

text \<open>
  The walk over the menus that writes a configuration, \<^verbatim>\<open>conf_write\<close> of \<^verbatim>\<open>scripts/kconfig/confdata.c\<close>, composed with
  \<^verbatim>\<open>conf_read_simple\<close>: what was written is read back.
\<close>

subsection \<open>What a walk leaves alone\<close>

definition undisturbed :: "kstate \<Rightarrow> kstate \<Rightarrow> bool" where
  "undisturbed st st' \<longleftrightarrow> (no_waiting st \<longrightarrow> no_waiting st') \<and>
     (\<forall>t. keeps st st' t \<and> decl_of (sym_at st' t) = decl_of (sym_at st t))"

lemma undisturbed_refl: "undisturbed st st"
  by (simp add: undisturbed_def keeps_def)

lemma undisturbed_trans: "undisturbed st st1 \<Longrightarrow> undisturbed st1 st2 \<Longrightarrow> undisturbed st st2"
  by (simp add: undisturbed_def keeps_def)

lemma undisturbed_calc: "sym_calc_value n st s = Some st' \<Longrightarrow> undisturbed st st'"
  using sym_calc_value_calculates [of n st s st'] steps_keep(1) [of st st'] no_waiting_steps [of st st'] calculates_decls [of st st']
  by (simp add: undisturbed_def same_decls_st_def)

lemma undisturbed_user: "undisturbed st (set_flag s SYMBOL_DEF_USER st)"
  by (auto simp: undisturbed_def keeps_def no_waiting_def set_flag_def decl_of_def)

subsection \<open>The text behind the walk\<close>

text \<open>
  The text written so far consists of comments that say nothing to the reader and of the lines of
  the written symbols, one for each, with the values they have now.
\<close>

definition written_ok :: "host \<Rightarrow> symbol set \<Rightarrow> string \<Rightarrow> kstate \<Rightarrow> bool" where
  "written_ok h S out st \<longleftrightarrow> no_waiting st \<and>
     (\<exists>es. out = concat (map (entry_text (CONFIG_prefix h) st) es) \<and> (\<forall>c. Comment_line c \<in> set es \<longrightarrow> silent h c) \<and>
       distinct (entry_syms es) \<and> set (entry_syms es) = {s. has_flag st s SYMBOL_WRITTEN} \<and> set (entry_syms es) \<subseteq> S \<and>
       (\<forall>s \<in> set (entry_syms es). has_flag st s SYMBOL_VALID \<and> \<not> has_flag st s SYMBOL_CHOICE))"

lemma entry_syms_append: "entry_syms (es @ es') = entry_syms es @ entry_syms es'"
  by (induction es rule: entry_syms.induct) auto

lemma entry_sym_mem: "Symbol_line s \<in> set es \<Longrightarrow> s \<in> set (entry_syms es)"
  by (induction es rule: entry_syms.induct) auto

lemma print_cong:
  assumes "ks_name (sym_at st' s) = ks_name (sym_at st s)" "ks_type (sym_at st' s) = ks_type (sym_at st s)"
    "ks_tri (sym_at st' s) = ks_tri (sym_at st s)" "ks_val (sym_at st' s) = ks_val (sym_at st s)"
  shows "print_symbol_for_dotconfig pre st' s = print_symbol_for_dotconfig pre st s"
  unfolding print_symbol_for_dotconfig_def print_symbol_def name_of_def assms ..

lemma entry_text_cong:
  assumes "undisturbed st st'" "\<forall>s \<in> set (entry_syms es). has_flag st s SYMBOL_VALID"
  shows "map (entry_text pre st') es = map (entry_text pre st) es"
proof (rule map_cong [OF refl])
  fix e assume e: "e \<in> set es"
  show "entry_text pre st' e = entry_text pre st e"
  proof (cases e)
    case (Symbol_line s)
    then have "has_flag st s SYMBOL_VALID" using e assms(2) entry_sym_mem by blast
    then have v: "ks_tri (sym_at st' s) = ks_tri (sym_at st s)" "ks_val (sym_at st' s) = ks_val (sym_at st s)"
      using assms(1) by (simp_all add: undisturbed_def keeps_def)
    have d: "decl_of (sym_at st' s) = decl_of (sym_at st s)" using assms(1) by (simp add: undisturbed_def)
    have "print_symbol_for_dotconfig pre st' s = print_symbol_for_dotconfig pre st s"
      by (rule print_cong [OF decl_fields(1) [OF d] decl_fields(2) [OF d] v])
    then show ?thesis using Symbol_line by simp
  qed simp
qed

lemma written_flag: "decl_of k' = decl_of k \<Longrightarrow> SYMBOL_WRITTEN \<in> ks_flags k' \<longleftrightarrow> SYMBOL_WRITTEN \<in> ks_flags k"
  by (auto simp: decl_of_def)

lemma written_step:
  assumes "written_ok h S out st" "undisturbed st st'"
  shows "written_ok h S out st'"
proof -
  obtain es where es: "out = concat (map (entry_text (CONFIG_prefix h) st) es)" "\<forall>c. Comment_line c \<in> set es \<longrightarrow> silent h c"
    "distinct (entry_syms es)" "set (entry_syms es) = {s. has_flag st s SYMBOL_WRITTEN}"
    "set (entry_syms es) \<subseteq> S"
    "\<forall>s \<in> set (entry_syms es). has_flag st s SYMBOL_VALID \<and> \<not> has_flag st s SYMBOL_CHOICE"
    using assms(1) unfolding written_ok_def by blast
  have "has_flag st' t SYMBOL_WRITTEN = has_flag st t SYMBOL_WRITTEN" "has_flag st' t SYMBOL_CHOICE = has_flag st t SYMBOL_CHOICE"
    "has_flag st t SYMBOL_VALID \<longrightarrow> has_flag st' t SYMBOL_VALID" for t
  proof -
    have d: "decl_of (sym_at st' t) = decl_of (sym_at st t)" and k: "keeps st st' t" using assms(2) by (simp_all add: undisturbed_def)
    show "has_flag st' t SYMBOL_WRITTEN = has_flag st t SYMBOL_WRITTEN" by (rule written_flag [OF d])
    show "has_flag st' t SYMBOL_CHOICE = has_flag st t SYMBOL_CHOICE" by (rule decl_fields(9) [OF d])
    show "has_flag st t SYMBOL_VALID \<longrightarrow> has_flag st' t SYMBOL_VALID" using k by (simp add: keeps_def)
  qed
  moreover have "out = concat (map (entry_text (CONFIG_prefix h) st') es)"
    unfolding es(1) by (subst entry_text_cong [OF assms(2)]) (use es(6) in auto)
  moreover have "no_waiting st'" using assms by (simp add: undisturbed_def written_ok_def)
  ultimately show ?thesis unfolding written_ok_def using es(2-6) by (intro conjI exI [of _ es]) auto
qed

lemma written_comment:
  assumes "written_ok h S out st" "silent h c"
  shows "written_ok h S (out @ c @ newline) st"
proof -
  obtain es where es: "out = concat (map (entry_text (CONFIG_prefix h) st) es)" "\<forall>c. Comment_line c \<in> set es \<longrightarrow> silent h c"
    "distinct (entry_syms es)" "set (entry_syms es) = {s. has_flag st s SYMBOL_WRITTEN}"
    "set (entry_syms es) \<subseteq> S"
    "\<forall>s \<in> set (entry_syms es). has_flag st s SYMBOL_VALID \<and> \<not> has_flag st s SYMBOL_CHOICE"
    using assms(1) unfolding written_ok_def by blast
  then show ?thesis
    using assms unfolding written_ok_def
    by (intro conjI exI [of _ "es @ [Comment_line c]"]) (auto simp: entry_syms_append)
qed

lemma written_symbol:
  assumes "written_ok h S out st" "s \<in> S" "has_flag st s SYMBOL_VALID" "\<not> has_flag st s SYMBOL_WRITTEN" "\<not> has_flag st s SYMBOL_CHOICE"
  shows "written_ok h S (out @ print_symbol_for_dotconfig (CONFIG_prefix h) (set_flag s SYMBOL_WRITTEN st) s) (set_flag s SYMBOL_WRITTEN st)"
proof -
  let ?st = "set_flag s SYMBOL_WRITTEN st"
  obtain es where es: "out = concat (map (entry_text (CONFIG_prefix h) st) es)" "\<forall>c. Comment_line c \<in> set es \<longrightarrow> silent h c"
    "distinct (entry_syms es)" "set (entry_syms es) = {s. has_flag st s SYMBOL_WRITTEN}"
    "set (entry_syms es) \<subseteq> S"
    "\<forall>s \<in> set (entry_syms es). has_flag st s SYMBOL_VALID \<and> \<not> has_flag st s SYMBOL_CHOICE"
    using assms(1) unfolding written_ok_def by blast
  have "print_symbol_for_dotconfig p ?st t = print_symbol_for_dotconfig p st t" for p t
    by (rule print_cong) (simp_all add: set_flag_def)
  then have "entry_text p ?st = entry_text p st" for p by (intro ext) (case_tac x; simp)
  then have lines: "out = concat (map (entry_text (CONFIG_prefix h) ?st) es)" using es(1) by simp
  have "{t. has_flag ?st t SYMBOL_WRITTEN} = insert s {t. has_flag st t SYMBOL_WRITTEN}" by (auto simp: set_flag_def)
  moreover have "has_flag ?st t f = has_flag st t f" if "f \<noteq> SYMBOL_WRITTEN" for t f using that by (simp add: set_flag_def)
  moreover have "no_waiting ?st" using assms(1) by (simp add: written_ok_def no_waiting_def set_flag_def)
  ultimately show ?thesis
    using es(2-6) assms(2-5) lines unfolding written_ok_def
    by (intro conjI exI [of _ "es @ [Symbol_line s]"]) (simp_all add: entry_syms_append)
qed

subsection \<open>The walk\<close>

text \<open>
  Comments that the reader does not take for something else: they do not contain the words by
  which a symbol is unset.
\<close>

definition plain_title :: "string \<Rightarrow> bool" where
  "plain_title title \<longleftrightarrow> CHR 0x0A \<notin> set title \<and> \<not> sublist ''is not set'' title"

fun quiet :: "menu \<Rightarrow> bool" where
  "quiet (Menu sm prompt vis ms) \<longleftrightarrow>
     (case (sm, prompt) of
        (None, Some (Own_prompt ty title v)) \<Rightarrow> plain_title title \<and> plain_title (''end of '' @ title)
      | _ \<Rightarrow> True) \<and> list_all quiet ms"

text \<open>The symbols of a menu and of the menus below it.\<close>

fun menu_syms :: "menu \<Rightarrow> symbol set" where
  "menu_syms (Menu sm prompt vis ms) = set_option sm \<union> (\<Union>m \<in> set ms. menu_syms m)"

definition prefix_ok :: "host \<Rightarrow> bool" where
  "prefix_ok h \<longleftrightarrow> set (CONFIG_prefix h) \<inter> {CHR 0x00, CHR 0x0A} = {}"

lemma silent_blank:
  assumes "prefix_ok h"
  shows "silent h ''#''" "silent h []"
  using assms by (cases "CONFIG_prefix h"; simp add: silent_def prefix_ok_def parse_line_def newline_char Let_def strchr_def cstr_def)+

lemma sublist_line:
  assumes "sublist xs (t @ [c])" "c \<notin> set xs"
  shows "sublist xs t"
proof -
  obtain a b where "t @ [c] = a @ xs @ b" using assms(1) by (auto simp: sublist_def)
  then show ?thesis using assms(2) by (cases b rule: rev_cases; cases xs rule: rev_cases) (auto simp: sublist_def)
qed

lemma strchr_sublist: "strchr c str = Some (a, b) \<Longrightarrow> sublist b str"
  using suffix_imp_sublist [OF suffix_order.trans [OF suffix_drop suffix_dropWhile]]
  by (auto simp: strchr_def split: if_splits)

lemma plain_silent:
  assumes "prefix_ok h" "plain_title t"
  shows "silent h (''# '' @ t)"
proof (rule ccontr)
  let ?p = "CONFIG_prefix h" and ?buf = "t @ newline @ CHR 0x00 # behind h"
  assume "\<not> silent h (''# '' @ t)"
  then obtain name q where m: "take (length ?p) ?buf = ?p"
    and q: "strchr (CHR '' '') (cstr (drop (length ?p) ?buf)) = Some (name, q)" "take 10 q = ''is not set''"
    using assms(2) by (auto simp: silent_def plain_title_def parse_line_def Let_def newline_char split: if_splits option.splits)
  have "length ?p \<le> length t"
  proof (rule ccontr)
    assume "\<not> length ?p \<le> length t"
    then have "length t < length ?p" "?p ! length t = CHR 0x0A"
      using m [THEN arg_cong, of "\<lambda>xs. xs ! length t"] by (auto simp: newline_char nth_append)
    then have "CHR 0x0A \<in> set ?p" by (metis nth_mem)
    then show False using assms(1) by (simp add: prefix_ok_def)
  qed
  then have c: "cstr (drop (length ?p) ?buf) = cstr (drop (length ?p) t @ newline)"
    by (auto simp: cstr_def newline_char takeWhile_append)
  have "sublist (cstr xs) xs" for xs unfolding cstr_def by (rule prefix_imp_sublist) (rule takeWhile_is_prefix)
  from sublist_order.order_trans [OF strchr_sublist [OF q(1) [unfolded c]] this]
  have "sublist q (drop (length ?p) t @ newline)" .
  moreover have "sublist ''is not set'' q" using prefix_imp_sublist [OF take_is_prefix, of 10 q] q(2) by simp
  ultimately have "sublist ''is not set'' (drop (length ?p) t @ [CHR 0x0A])"
    using sublist_order.order_trans [of "''is not set''" q] by (simp add: newline_char)
  then have "sublist ''is not set'' (drop (length ?p) t)" by (rule sublist_line) simp
  from sublist_order.order_trans [OF this sublist_drop] have "sublist ''is not set'' t" .
  then show False using assms(2) by (simp add: plain_title_def)
qed

text \<open>What the walk needs of the calculation it calls.\<close>

locale menu_walk =
  fixes rec :: calc
  assumes rec_undisturbed: "rec st s = Some st' \<Longrightarrow> undisturbed st st'"
    and rec_valid: "rec st s = Some st' \<Longrightarrow> no_waiting st \<Longrightarrow> has_flag st' s SYMBOL_VALID"
begin

lemma rec_walk: "undisturbed st0 st \<Longrightarrow> (\<And>st'. undisturbed st0 st' \<Longrightarrow> Q st') \<Longrightarrow> returns False (rec st s) Q"
  using rec_undisturbed undisturbed_trans by (auto simp: returns_partial)

lemma eval_expr_walk:
  "undisturbed st0 st \<Longrightarrow> (\<And>v st'. undisturbed st0 st' \<Longrightarrow> Q (v, st')) \<Longrightarrow> returns False (eval_expr rec e st) Q"
proof (induction e arbitrary: st Q)
  case (E_OR a b)
  show ?case by (simp, rule E_OR.IH(1) [OF E_OR.prems(1)], simp, rule E_OR.IH(2), assumption) (simp add: E_OR.prems(2))
next
  case (E_AND a b)
  show ?case by (simp, rule E_AND.IH(1) [OF E_AND.prems(1)], simp, rule E_AND.IH(2), assumption) (simp add: E_AND.prems(2))
next
  case (E_NOT a)
  show ?case by (simp, rule E_NOT.IH [OF E_NOT.prems(1)]) (simp add: E_NOT.prems(2))
next
  case (E_COMP c a b)
  show ?case by (simp, rule rec_walk [OF E_COMP.prems(1)], rule rec_walk, assumption) (simp add: E_COMP.prems(2))
next
  case (E_SYMBOL a)
  show ?case by (simp, rule rec_walk [OF E_SYMBOL.prems(1)]) (simp add: E_SYMBOL.prems(2))
qed

lemma eval_dep_walk:
  "undisturbed st0 st \<Longrightarrow> (\<And>v st'. undisturbed st0 st' \<Longrightarrow> Q (v, st')) \<Longrightarrow> returns False (eval_dep rec e st) Q"
  using eval_expr_walk by (cases e) (auto simp: eval_dep_def)

lemma prompt_visible_walk:
  assumes "undisturbed st0 st" "\<And>v st'. undisturbed st0 st' \<Longrightarrow> Q (v, st')"
  shows "returns False (prompt_visible rec sm p st) Q"
  using assms eval_dep_walk [OF assms(1)] rec_walk [OF assms(1)] by (cases sm; cases p) auto

lemma any_visible_walk:
  assumes "\<And>m st Q. m \<in> set ms \<Longrightarrow> undisturbed st0 st \<Longrightarrow> (\<And>v st'. undisturbed st0 st' \<Longrightarrow> Q (v, st')) \<Longrightarrow>
      returns False (menu_is_visible rec m st) Q"
    and "undisturbed st0 st" "\<And>v st'. undisturbed st0 st' \<Longrightarrow> Q (v, st')"
  shows "returns False (any_visible rec s ms st) Q"
  using assms(1,2)
proof (induction ms arbitrary: st)
  case (Cons m ms)
  have "returns False (any_visible rec s ms st') Q" if "undisturbed st0 st'" for st'
    using Cons.IH [OF _ that] Cons.prems(1) by simp
  then show ?case
    by (simp, intro Cons.prems(1) [OF _ Cons.prems(2)])
      (auto intro: assms(3) undisturbed_trans [OF _ undisturbed_user])
qed (simp add: assms(3))

lemma menu_is_visible_walk:
  "undisturbed st0 st \<Longrightarrow> (\<And>v st'. undisturbed st0 st' \<Longrightarrow> Q (v, st')) \<Longrightarrow> returns False (menu_is_visible rec m st) Q"
proof (induction m arbitrary: st Q)
  case (Menu sm prompt vis ms)
  have any: "returns False (any_visible rec s ms st') Q" if "undisturbed st0 st'" for s st'
    by (rule any_visible_walk [OF _ that]) (rule Menu.IH, assumption+, rule Menu.prems(2))
  show ?case
  proof (cases prompt)
    case (Some p)
    show ?thesis
      unfolding menu_is_visible.simps Some option.case returns_bind prod.case
      by (rule eval_dep_walk [OF Menu.prems(1)], unfold prod.case, rule returns_if, simp add: Menu.prems(2),
          unfold returns_bind, rule prompt_visible_walk, assumption)
        (simp add: Menu.prems(2) any split: option.split)
  qed (simp add: Menu.prems)
qed

lemma write_entry_walk:
  assumes "prefix_ok h" "quiet m" "written_ok h S out st" "menu_syms m \<subseteq> S"
  shows "returns False (write_entry rec (CONFIG_prefix h) m (nn, out, st)) (\<lambda>(nn, out, st). written_ok h S out st)"
proof (cases m)
  case (Menu sm prompt vis ms)
  show ?thesis
  proof (cases sm)
    case None
    have title: "written_ok h S (out @ newline @ ''#'' @ newline @ ''# '' @ str @ newline @ ''#'' @ newline) st'"
      if t: "undisturbed st st'" "menu_get_prompt st' (Menu None prompt vis ms) = Some str" for str st'
    proof -
      obtain ty v where "prompt = Some (Own_prompt ty str v)"
        using t(2) Menu None by (cases prompt; cases "the prompt") auto
      then have "silent h (''# '' @ str)" using plain_silent [OF assms(1)] assms(2) Menu None by simp
      from written_comment [OF written_comment [OF written_comment [OF written_comment
            [OF written_step [OF assms(3) t(1)] silent_blank(2)] silent_blank(1)] this] silent_blank(1)]
      show ?thesis using assms(1) by simp
    qed
    show ?thesis
      unfolding write_entry_def Menu None prod.case menu.case option.case returns_bind
      by (rule menu_is_visible_walk [OF undisturbed_refl])
        (auto simp: returns_partial written_step [OF assms(3)] title [simplified] bind_eq_Some_conv)
  next
    case (Some s)
    have "written_ok h S (out @ (if nn then newline else []) @ print_symbol_for_dotconfig (CONFIG_prefix h) (set_flag s SYMBOL_WRITTEN st') s)
        (set_flag s SYMBOL_WRITTEN st')"
      if new: "\<not> has_flag st s SYMBOL_CHOICE" "\<not> has_flag st s SYMBOL_WRITTEN" and calc: "rec st s = Some st'" for st'
    proof -
      have u: "undisturbed st st'" and v: "has_flag st' s SYMBOL_VALID"
        using rec_undisturbed [OF calc] rec_valid [OF calc] assms(3) by (auto simp: written_ok_def)
      have d: "decl_of (sym_at st' s) = decl_of (sym_at st s)" using u by (simp add: undisturbed_def)
      have "written_ok h S (out @ (if nn then newline else [])) st'"
        using written_step [OF assms(3) u] written_comment [OF written_step [OF assms(3) u] silent_blank(2) [OF assms(1)]] by simp
      from written_symbol [OF this _ v] show ?thesis using new written_flag [OF d] decl_fields(9) [OF d] assms(4) Menu Some by simp
    qed
    then show ?thesis
      using assms(3) written_step [OF assms(3) rec_undisturbed]
      unfolding write_entry_def Menu Some prod.case menu.case option.case
      by (auto simp: returns_partial bind_eq_Some_conv Let_def split: if_splits)
  qed
qed

lemma write_end_walk:
  assumes "prefix_ok h" "quiet m" "written_ok h S out st"
  shows "returns False (write_end rec m (nn, out, st)) (\<lambda>(nn, out, st). written_ok h S out st)"
proof (cases m)
  case (Menu sm prompt vis ms)
  show ?thesis
  proof (cases sm)
    case None
    have "written_ok h S (out @ ''# end of '' @ title @ newline) st'"
      if "undisturbed st st'" "prompt = Some (Own_prompt ty title v)" for st' ty title v
      using written_comment [OF written_step [OF assms(3) that(1)], of "''# end of '' @ title"] plain_silent [OF assms(1), of "''end of '' @ title"] assms(2) that(2) Menu None by simp
    then show ?thesis
      unfolding write_end_def Menu None prod.case menu.case option.case returns_bind
      by (intro menu_is_visible_walk [OF undisturbed_refl])
        (auto simp: written_step [OF assms(3)] split: option.splits menu_prompt.splits prop_type.splits)
  qed (simp add: write_end_def Menu assms(3))
qed

lemma write_menus_walk:
  assumes "\<And>m nn out st. m \<in> set ms \<Longrightarrow> written_ok h S out st \<Longrightarrow>
      returns False (write_menu rec (CONFIG_prefix h) m (nn, out, st)) (\<lambda>(nn, out, st). written_ok h S out st)"
    and "written_ok h S out st"
  shows "returns False (write_menus rec (CONFIG_prefix h) ms (nn, out, st)) (\<lambda>(nn, out, st). written_ok h S out st)"
  using assms
proof (induction ms arbitrary: nn out st)
  case (Cons m ms)
  have "returns False (write_menus rec (CONFIG_prefix h) ms w) (\<lambda>(nn, out, st). written_ok h S out st)"
    if "case w of (nn, out, st) \<Rightarrow> written_ok h S out st" for w
    using Cons.IH Cons.prems(1) that by (cases w) simp
  then show ?case
    unfolding write_menus.simps returns_bind
    by (rule returns_mono [OF Cons.prems(1) [OF _ Cons.prems(2)], rotated]) simp_all
qed simp

lemma write_menu_walk:
  "prefix_ok h \<Longrightarrow> quiet m \<Longrightarrow> written_ok h S out st \<Longrightarrow> menu_syms m \<subseteq> S \<Longrightarrow>
     returns False (write_menu rec (CONFIG_prefix h) m (nn, out, st)) (\<lambda>(nn, out, st). written_ok h S out st)"
proof (induction m arbitrary: nn out st)
  case (Menu sm prompt vis ms)
  have below: "returns False (write_menus rec (CONFIG_prefix h) ms w) (\<lambda>(nn, out, st). written_ok h S out st)"
    if "case w of (nn, out, st) \<Rightarrow> written_ok h S out st" for w
    using write_menus_walk [of ms h S] Menu.IH Menu.prems that by (cases w) (auto simp: list_all_iff UN_subset_iff)
  have last: "returns False (write_end rec (Menu sm prompt vis ms) w) (\<lambda>(nn, out, st). written_ok h S out st)"
    if "case w of (nn, out, st) \<Rightarrow> written_ok h S out st" for w
    using write_end_walk [OF Menu.prems(1,2)] that by (cases w) simp
  show ?case
    unfolding write_menu.simps returns_bind
    by (rule returns_mono [OF write_entry_walk [OF Menu.prems]], rule returns_mono [OF below], assumption, rule last)
qed

lemma write_root_walk:
  assumes "prefix_ok h" "quiet root" "written_ok h S out st" "menu_syms root \<subseteq> S"
    and "write_root rec (CONFIG_prefix h) root out st = Some (out', st')"
  shows "written_ok h S out' st'"
proof (cases root)
  case (Menu sm prompt vis ms)
  have below: "returns False (write_menus rec (CONFIG_prefix h) ms (False, out, st)) (\<lambda>(nn, out, st). written_ok h S out st)"
    using write_menus_walk [of ms h S] write_menu_walk assms(1-4) Menu by (auto simp: list_all_iff UN_subset_iff)
  have title: "returns False (if sm = None then menu_is_visible rec (Menu sm prompt vis ms) st1 else Some (False, st1)) (\<lambda>(v, st2). undisturbed st1 st2)" for st1
    by (rule returns_if, rule menu_is_visible_walk [OF undisturbed_refl]) (simp_all add: undisturbed_refl)
  have "returns False (write_root rec (CONFIG_prefix h) root out st) (\<lambda>(out, st). written_ok h S out st)"
    unfolding write_root_def Menu menu.case
    by (rule returns_if, simp add: assms(3), unfold returns_bind, rule returns_mono [OF below], clarify,
        unfold returns_bind, rule returns_mono [OF title], clarify, simp, rule written_step)
  then show ?thesis using assms(5) by (simp add: returns_partial)
qed

end

interpretation calc_walk: menu_walk "sym_calc_value n" for n
  by unfold_locales (rule undisturbed_calc, assumption, rule calc_makes_valid)

lemma written_heading:
  assumes "prefix_ok h" "plain_title title" "no_waiting st" "\<forall>s. \<not> has_flag st s SYMBOL_WRITTEN"
  shows "written_ok h S (conf_write_heading title (Some comment_style_pound)) st"
proof -
  have "written_ok h S [] st" unfolding written_ok_def using assms(3,4) by (intro conjI exI [of _ "[]"]) simp_all
  moreover have "plain_title ''Automatically generated file; DO NOT EDIT.''" unfolding plain_title_def by code_simp
  ultimately show ?thesis
    using written_comment [OF written_comment [OF written_comment [OF written_comment]], of h S "[]" st "''#''"
        "''# Automatically generated file; DO NOT EDIT.''" "''# '' @ title" "''#''"]
      silent_blank [OF assms(1)] plain_silent [OF assms(1)] assms(2)
    by (fastforce simp: conf_write_heading_def comment_style_pound_def)
qed

subsection \<open>Reading it back\<close>

lemma same_input_reset: "same_input st (fold (reset_symbol d) ss st)"
proof (induction ss arbitrary: st)
  case (Cons s ss)
  have "same_input st (reset_symbol d s st)" unfolding reset_symbol_def by (rule same_input_upd) (cases d; auto)
  then show ?case using same_input_trans Cons.IH by simp
qed (simp add: same_input_refl)

lemma reset_not_given:
  assumes "s \<in> set ss" "\<not> has_flag st s SYMBOL_CHOICE"
  shows "\<not> has_flag (fold (reset_symbol S_DEF_USER) ss st) s SYMBOL_DEF_USER"
proof -
  have step: "\<not> has_flag (reset_symbol S_DEF_USER t st) s SYMBOL_CHOICE" if "\<not> has_flag st s SYMBOL_CHOICE" for t st
    using that by (auto simp: reset_symbol_def)
  have keep: "\<not> has_flag (fold (reset_symbol S_DEF_USER) ss st) s SYMBOL_DEF_USER"
    if "\<not> has_flag st s SYMBOL_CHOICE" "\<not> has_flag st s SYMBOL_DEF_USER" for ss st
    using that
  proof (induction ss arbitrary: st)
    case (Cons t ss)
    moreover have "\<not> has_flag (reset_symbol S_DEF_USER t st) s SYMBOL_DEF_USER" using Cons.prems by (auto simp: reset_symbol_def)
    ultimately show ?case using step by simp
  qed simp
  show ?thesis using assms
  proof (induction ss arbitrary: st)
    case (Cons t ss)
    show ?case
    proof (cases "t = s")
      case True
      then have "\<not> has_flag (reset_symbol S_DEF_USER t st) s SYMBOL_DEF_USER" using Cons.prems(2) by (simp add: reset_symbol_def)
      then show ?thesis using keep step [OF Cons.prems(2)] by simp
    next
      case False
      then show ?thesis using Cons.IH [OF _ step [OF Cons.prems(2)]] Cons.prems(1) by simp
    qed
  qed simp
qed

text \<open>A menu over the symbols of the example, and a process whose file is what is written for it.\<close>

definition example_menu :: menu where
  "example_menu =
     Menu None (Some (Own_prompt P_MENU ''Main menu'' None)) None
       [Menu (Some (Sym 0)) (Some (Sym_prompt 0)) None [],
        Menu None (Some (Own_prompt P_MENU ''Drivers'' None)) None
          [Menu (Some (Sym 1)) None None [], Menu (Some (Sym 2)) None None []]]"

definition example_config :: string where
  "example_config = conf_write_heading ''Linux'' (Some comment_style_pound) @
     ''CONFIG_A=m'' @ newline @ newline @ ''#'' @ newline @ ''# Drivers'' @ newline @ ''#'' @ newline @
     ''CONFIG_B=y'' @ newline @ ''CONFIG_C=y'' @ newline @ ''# end of Drivers'' @ newline"

definition example_host :: host where
  "example_host = \<lparr>getenv = (\<lambda>_. None), zconf_fopen = (\<lambda>n. if n = ''.config'' then Some example_config else None),
     can_write = (\<lambda>_. True), can_touch = (\<lambda>_. True), can_mkdir = (\<lambda>_. True), can_rename = (\<lambda>_ _. True),
     can_stat = (\<lambda>_. True), can_map = (\<lambda>_. True), write_error = (\<lambda>_. False), getpid = 1, behind = []\<rparr>"

definition example_table :: kstate where
  "example_table = example\<lparr>symbol_hash := (\<lambda>b. filter (\<lambda>i. b = sym_bucket (name_of example (Sym i))) [0, 1, 2])\<rparr>"

lemma example_written:
  "map_option (\<lambda>(out, st). (out, map (\<lambda>s. has_flag st s SYMBOL_WRITTEN \<and> printable ''CONFIG_'' st s \<and>
        ks_name (sym_at st s) = ks_name (sym_at example s) \<and> ks_type (sym_at st s) = ks_type (sym_at example s))
        [Sym 0, Sym 1, Sym 2], ks_tri (sym_at st (Sym 0))))
     (write_root (sym_calc_value 10) ''CONFIG_'' example_menu (conf_write_heading ''Linux'' (Some comment_style_pound)) example) =
   Some (example_config, [True, True, True], tri_mod)"
  by code_simp

lemma written_walk:
  assumes "no_waiting st" "\<forall>s. \<not> has_flag st s SYMBOL_WRITTEN" "prefix_ok h" "plain_title title" "quiet root"
    and "write_root (sym_calc_value n) (CONFIG_prefix h) root (conf_write_heading title (Some comment_style_pound)) st = Some (txt, st')"
  shows "written_ok h (menu_syms root) txt st'"
  by (rule calc_walk.write_root_walk [OF assms(3,5) written_heading [OF assms(3,4,1,2)] order_refl assms(6)])

lemma written_in_menus: "written_ok h S txt st \<Longrightarrow> has_flag st s SYMBOL_WRITTEN \<Longrightarrow> s \<in> S"
  unfolding written_ok_def by blast


lemma example_sane:
  "no_waiting example" "\<forall>s. \<not> has_flag example s SYMBOL_WRITTEN" "prefix_ok example_host" "plain_title ''Linux''" "quiet example_menu"
  "CONFIG_prefix example_host = ''CONFIG_''" "\<not> choice_link example_table s c"
proof -
  show "no_waiting example" using example_settled by (simp add: settled_def)
  have "\<not> has_flag example s SYMBOL_WRITTEN" for s by (cases s) (simp_all add: example_defs)
  then show "\<forall>s. \<not> has_flag example s SYMBOL_WRITTEN" by blast
  show p: "CONFIG_prefix example_host = ''CONFIG_''" by (simp add: CONFIG_prefix_def example_host_def)
  show "prefix_ok example_host" by (simp add: prefix_ok_def p)
  show "plain_title ''Linux''" "quiet example_menu" by code_simp+
  show "\<not> choice_link example_table s c"
    by (cases s) (simp_all add: choice_link_def example_table_def example_defs sym_is_choice_value_def)
qed


end
