(* ===== verification/Bitops.thy ===== *)
theory Bitops
  imports Prelude
begin

text \<open>
  Bit operations on machine words of the tools library: \<^verbatim>\<open>tools/include/asm-generic/bitops/\<close> and
  \<^verbatim>\<open>tools/lib/hweight.c\<close>, for words of 64 bits (\<^verbatim>\<open>BITS_PER_LONG\<close> = 64). \<open>__ffs\<close> is \<open>ffs_word\<close> and \<open>__fls\<close> is
  \<open>fls_word\<close>, since names do not begin with an underscore. Whether a word is known at compile
  time, and whether the multiplier is fast, are arguments.
\<close>

unbundle bit_operations_syntax

subsection \<open>First and last set bit\<close>

text \<open>One step of the binary search: skip the low half when it is zero.\<close>

definition ffs_step :: "nat \<Rightarrow> int \<times> u64 \<Rightarrow> int \<times> u64" where
  "ffs_step k nw =
     (case nw of (num, word) \<Rightarrow> if word AND mask k = 0 then (num + int k, drop_bit k word) else (num, word))"

definition ffs_word :: "u64 \<Rightarrow> int" where
  "ffs_word word =
     (let (num, word) = ffs_step 2 (ffs_step 4 (ffs_step 8 (ffs_step 16 (ffs_step 32 (0, word)))))
      in if word AND 0x1 = 0 then num + 1 else num)"

definition ffz :: "u64 \<Rightarrow> int" where
  "ffz x = ffs_word (NOT x)"

definition fls_step :: "nat \<Rightarrow> int \<times> u64 \<Rightarrow> int \<times> u64" where
  "fls_step k nw =
     (case nw of (num, word) \<Rightarrow> if word AND push_bit (64 - k) (- 1) = 0 then (num - int k, push_bit k word) else (num, word))"

definition fls_word :: "u64 \<Rightarrow> int" where
  "fls_word word =
     (let (num, word) = fls_step 2 (fls_step 4 (fls_step 8 (fls_step 16 (fls_step 32 (63, word)))))
      in if word AND push_bit 63 (- 1) = 0 then num - 1 else num)"

definition fls64 :: "u64 \<Rightarrow> int" where
  "fls64 x = (if x = 0 then 0 else fls_word x + 1)"

definition fls_half :: "nat \<Rightarrow> u32 \<Rightarrow> u32 \<times> int \<Rightarrow> u32 \<times> int" where
  "fls_half k m xr = (case xr of (x, r) \<Rightarrow> if x AND m = 0 then (push_bit k x, r - int k) else (x, r))"

definition fls :: "u32 \<Rightarrow> int" where
  "fls x =
     (if x = 0 then 0
      else snd (fls_half 1 0x80000000 (fls_half 2 0xc0000000 (fls_half 4 0xf0000000
             (fls_half 8 0xff000000 (fls_half 16 0xffff0000 (x, 32)))))))"

subsection \<open>Number of set bits\<close>

definition sw_hweight32 :: "bool \<Rightarrow> u32 \<Rightarrow> u32" where
  "sw_hweight32 fast w =
     (if fast then
        let w = w - (drop_bit 1 w AND 0x55555555);
            w = (w AND 0x33333333) + (drop_bit 2 w AND 0x33333333);
            w = (w + drop_bit 4 w) AND 0x0f0f0f0f
        in drop_bit 24 (w * 0x01010101)
      else
        let res = w - (drop_bit 1 w AND 0x55555555);
            res = (res AND 0x33333333) + (drop_bit 2 res AND 0x33333333);
            res = (res + drop_bit 4 res) AND 0x0F0F0F0F;
            res = res + drop_bit 8 res
        in (res + drop_bit 16 res) AND 0x000000FF)"

definition sw_hweight16 :: "u32 \<Rightarrow> u32" where
  "sw_hweight16 w =
     (let res = w - (drop_bit 1 w AND 0x5555);
          res = (res AND 0x3333) + (drop_bit 2 res AND 0x3333);
          res = (res + drop_bit 4 res) AND 0x0F0F
      in (res + drop_bit 8 res) AND 0x00FF)"

definition sw_hweight8 :: "u32 \<Rightarrow> u32" where
  "sw_hweight8 w =
     (let res = w - (drop_bit 1 w AND 0x55);
          res = (res AND 0x33) + (drop_bit 2 res AND 0x33)
      in (res + drop_bit 4 res) AND 0x0F)"

definition sw_hweight64 :: "bool \<Rightarrow> u64 \<Rightarrow> u64" where
  "sw_hweight64 fast w =
     (if fast then
        let w = w - (drop_bit 1 w AND 0x5555555555555555);
            w = (w AND 0x3333333333333333) + (drop_bit 2 w AND 0x3333333333333333);
            w = (w + drop_bit 4 w) AND 0x0f0f0f0f0f0f0f0f
        in drop_bit 56 (w * 0x0101010101010101)
      else
        let res = w - (drop_bit 1 w AND 0x5555555555555555);
            res = (res AND 0x3333333333333333) + (drop_bit 2 res AND 0x3333333333333333);
            res = (res + drop_bit 4 res) AND 0x0F0F0F0F0F0F0F0F;
            res = res + drop_bit 8 res;
            res = res + drop_bit 16 res
        in (res + drop_bit 32 res) AND 0x00000000000000FF)"

definition const_hweight8 :: "u64 \<Rightarrow> u32" where
  "const_hweight8 w =
     of_bool (w AND push_bit 0 1 \<noteq> 0) + of_bool (w AND push_bit 1 1 \<noteq> 0) + of_bool (w AND push_bit 2 1 \<noteq> 0) +
     of_bool (w AND push_bit 3 1 \<noteq> 0) + of_bool (w AND push_bit 4 1 \<noteq> 0) + of_bool (w AND push_bit 5 1 \<noteq> 0) +
     of_bool (w AND push_bit 6 1 \<noteq> 0) + of_bool (w AND push_bit 7 1 \<noteq> 0)"

definition const_hweight16 :: "u64 \<Rightarrow> u32" where
  "const_hweight16 w = const_hweight8 w + const_hweight8 (drop_bit 8 w)"

definition const_hweight32 :: "u64 \<Rightarrow> u32" where
  "const_hweight32 w = const_hweight16 w + const_hweight16 (drop_bit 16 w)"

definition const_hweight64 :: "u64 \<Rightarrow> u32" where
  "const_hweight64 w = const_hweight32 w + const_hweight32 (drop_bit 32 w)"

text \<open>\<open>hweight_long\<close> is \<open>hweight64\<close> for long words of 64 bits; its argument is a variable.\<close>

definition hweight_long :: "bool \<Rightarrow> u64 \<Rightarrow> u64" where
  "hweight_long fast w = sw_hweight64 fast w"

subsection \<open>Single bits in memory\<close>

definition BIT_MASK :: "u64 \<Rightarrow> u64" where
  "BIT_MASK nr = push_bit (unat (nr mod 64)) 1"

definition BIT_WORD :: "u64 \<Rightarrow> nat" where
  "BIT_WORD nr = unat (nr div 64)"

text \<open>The memory is an array of words; \<open>None\<close> is an access behind its end.\<close>

type_synonym bitmap = "u64 list"

definition update_word :: "(u64 \<Rightarrow> u64 \<Rightarrow> u64) \<Rightarrow> u64 \<Rightarrow> bitmap \<Rightarrow> (bool \<times> bitmap) option" where
  "update_word f nr addr =
     (let m = BIT_MASK nr; p = BIT_WORD nr in
      if p < length addr then Some (addr ! p AND m \<noteq> 0, addr[p := f (addr ! p) m]) else None)"

definition set_bit_at :: "u64 \<Rightarrow> bitmap \<Rightarrow> bitmap option" where
  "set_bit_at nr addr = map_option snd (update_word (\<lambda>old m. old OR m) nr addr)"

definition clear_bit_at :: "u64 \<Rightarrow> bitmap \<Rightarrow> bitmap option" where
  "clear_bit_at nr addr = map_option snd (update_word (\<lambda>old m. old AND NOT m) nr addr)"

definition change_bit_at :: "u64 \<Rightarrow> bitmap \<Rightarrow> bitmap option" where
  "change_bit_at nr addr = map_option snd (update_word (\<lambda>old m. old XOR m) nr addr)"

definition test_and_set_bit :: "u64 \<Rightarrow> bitmap \<Rightarrow> (bool \<times> bitmap) option" where
  "test_and_set_bit nr addr = update_word (\<lambda>old m. old OR m) nr addr"

definition test_and_clear_bit :: "u64 \<Rightarrow> bitmap \<Rightarrow> (bool \<times> bitmap) option" where
  "test_and_clear_bit nr addr = update_word (\<lambda>old m. old AND NOT m) nr addr"

definition test_and_change_bit :: "u64 \<Rightarrow> bitmap \<Rightarrow> (bool \<times> bitmap) option" where
  "test_and_change_bit nr addr = update_word (\<lambda>old m. old XOR m) nr addr"

definition test_bit :: "u64 \<Rightarrow> bitmap \<Rightarrow> bool option" where
  "test_bit nr addr =
     (if BIT_WORD nr < length addr then Some (1 AND drop_bit (unat (nr AND 63)) (addr ! BIT_WORD nr) \<noteq> 0) else None)"

definition rol32 :: "u32 \<Rightarrow> u32 \<Rightarrow> u32" where
  "rol32 word shift = push_bit (unat shift) word OR drop_bit (unat (- shift AND 31)) word"

subsection \<open>The first set bit\<close>

definition lowest :: "'a::len word \<Rightarrow> nat \<Rightarrow> bool" where
  "lowest w n \<longleftrightarrow> bit w n \<and> (\<forall>j < n. \<not> bit w j)"

lemma lowest_exists: "w \<noteq> 0 \<Longrightarrow> \<exists>n < LENGTH('a). lowest w n" for w :: "'a::len word"
proof -
  assume "w \<noteq> 0"
  then obtain i where "bit w i" by (auto simp: bit_eq_iff)
  then have "lowest w (LEAST i. bit w i)"
    unfolding lowest_def by (intro conjI allI impI LeastI [of "bit w"] not_less_Least)
  then show ?thesis using bit_imp_le_length unfolding lowest_def by blast
qed

lemma low_bits_zero: "word AND mask k = 0 \<longleftrightarrow> (\<forall>j < k. \<not> bit word j)" for word :: "'a::len word"
  by (auto simp: bit_eq_iff bit_and_iff bit_mask_iff dest: bit_imp_le_length)

lemma ffs_step_lowest:
  assumes "lowest word n" "n < 2 * k"
  shows "\<exists>n'. case ffs_step k (num, word) of (num', word') \<Rightarrow> lowest word' n' \<and> n' < k \<and> num' + int n' = num + int n"
proof (cases "word AND mask k = 0")
  case True
  then have "k \<le> n" using assms(1) by (auto simp: low_bits_zero lowest_def not_less [symmetric])
  then have "lowest (drop_bit k word) (n - k)" using assms(1) by (auto simp: lowest_def bit_drop_bit_eq)
  then show ?thesis using True assms(2) \<open>k \<le> n\<close> by (intro exI [of _ "n - k"]) (auto simp: ffs_step_def)
next
  case False
  then have "n < k" using assms(1) by (auto simp: low_bits_zero lowest_def not_less) (meson le_trans not_le)
  then show ?thesis using False assms(1) by (auto simp: ffs_step_def)
qed

lemma ffs_word_lowest:
  assumes "lowest w n"
  shows "ffs_word w = int n"
proof -
  have "n < 64" using assms bit_imp_le_length by (fastforce simp: lowest_def)
  obtain a1 w1 where 1: "ffs_step 32 (0, w) = (a1, w1)" by (cases "ffs_step 32 (0, w)")
  obtain a2 w2 where 2: "ffs_step 16 (a1, w1) = (a2, w2)" by (cases "ffs_step 16 (a1, w1)")
  obtain a3 w3 where 3: "ffs_step 8 (a2, w2) = (a3, w3)" by (cases "ffs_step 8 (a2, w2)")
  obtain a4 w4 where 4: "ffs_step 4 (a3, w3) = (a4, w4)" by (cases "ffs_step 4 (a3, w3)")
  obtain a5 w5 where 5: "ffs_step 2 (a4, w4) = (a5, w5)" by (cases "ffs_step 2 (a4, w4)")
  obtain n1 where n1: "lowest w1 n1" "n1 < 32" "a1 + int n1 = int n"
    using ffs_step_lowest [OF assms, of 32 0] \<open>n < 64\<close> 1 by auto
  obtain n2 where n2: "lowest w2 n2" "n2 < 16" "a2 + int n2 = int n"
    using ffs_step_lowest [OF n1(1), of 16 a1] n1 2 by auto
  obtain n3 where n3: "lowest w3 n3" "n3 < 8" "a3 + int n3 = int n"
    using ffs_step_lowest [OF n2(1), of 8 a2] n2 3 by auto
  obtain n4 where n4: "lowest w4 n4" "n4 < 4" "a4 + int n4 = int n"
    using ffs_step_lowest [OF n3(1), of 4 a3] n3 4 by auto
  obtain n5 where n5: "lowest w5 n5" "n5 < 2" "a5 + int n5 = int n"
    using ffs_step_lowest [OF n4(1), of 2 a4] n4 5 by auto
  have "w5 AND 1 = 0 \<longleftrightarrow> n5 = 1"
    using n5(1,2) low_bits_zero [of w5 1] by (auto simp: lowest_def less_2_cases_iff)
  then show ?thesis using n5 by (auto simp: ffs_word_def 1 2 3 4 5 less_2_cases_iff)
qed

subsection \<open>The last set bit\<close>

definition highest :: "'a::len word \<Rightarrow> nat \<Rightarrow> bool" where
  "highest w n \<longleftrightarrow> bit w n \<and> (\<forall>j > n. \<not> bit w j)"

lemma highest_exists: "w \<noteq> 0 \<Longrightarrow> \<exists>n < LENGTH('a). highest w n" for w :: "'a::len word"
proof -
  assume "w \<noteq> 0"
  then obtain i where i: "bit w i" by (auto simp: bit_eq_iff)
  define S where "S = {j. bit w j}"
  have fin: "finite S"
    unfolding S_def by (rule finite_subset [of _ "{..< LENGTH('a)}"]) (auto dest: bit_imp_le_length)
  have "Max S \<in> S" using i fin by (intro Max_in) (auto simp: S_def)
  moreover have "j \<notin> S" if "Max S < j" for j using Max_ge [OF fin] that by fastforce
  ultimately have "highest w (Max S)" unfolding highest_def S_def mem_Collect_eq by blast
  then show ?thesis using bit_imp_le_length unfolding highest_def by blast
qed

lemma high_bits_zero:
  "word AND NOT (mask m) = 0 \<longleftrightarrow> (\<forall>j \<ge> m. \<not> bit word j)" for word :: "'a::len word"
  by (simp add: bit_eq_iff bit_and_iff bit_not_iff bit_mask_iff) (meson bit_imp_le_length linorder_not_le)

text \<open>Shifting out high bits that are zero.\<close>

lemma highest_shift:
  fixes word :: "'a::len word"
  assumes "highest word n" "LENGTH('a) - 2 * k \<le> n" "2 * k \<le> LENGTH('a)"
  shows "\<exists>n'. LENGTH('a) - k \<le> n' \<and>
    (if word AND NOT (mask (LENGTH('a) - k)) = 0 then highest (push_bit k word) n' \<and> n' = n + k
     else highest word n' \<and> n' = n)"
proof (cases "word AND NOT (mask (LENGTH('a) - k)) = 0")
  case True
  then have "n < LENGTH('a) - k" using assms(1) by (auto simp: high_bits_zero highest_def not_le [symmetric])
  then have "highest (push_bit k word) (n + k)" using assms(1) by (auto simp: highest_def bit_push_bit_iff)
  then show ?thesis using True assms(2,3) by simp
next
  case False
  then have "LENGTH('a) - k \<le> n" using assms(1) by (auto simp: high_bits_zero highest_def) (meson le_trans linorder_not_le)
  then show ?thesis using False assms(1) by auto
qed

lemma fls_step_highest:
  assumes "highest word n" "64 - 2 * k \<le> n" "2 * k \<le> 64" "fls_step k (num, word) = (num', word')"
  shows "\<exists>n'. highest word' n' \<and> 64 - k \<le> n' \<and> num' + int n' = num + int n"
  using highest_shift [of word n k] assms by (auto simp: fls_step_def split: if_splits)

lemma fls_word_highest:
  assumes "highest w n"
  shows "fls_word w = int n"
proof -
  obtain a1 w1 where 1: "fls_step 32 (63, w) = (a1, w1)" by (cases "fls_step 32 (63, w)")
  obtain a2 w2 where 2: "fls_step 16 (a1, w1) = (a2, w2)" by (cases "fls_step 16 (a1, w1)")
  obtain a3 w3 where 3: "fls_step 8 (a2, w2) = (a3, w3)" by (cases "fls_step 8 (a2, w2)")
  obtain a4 w4 where 4: "fls_step 4 (a3, w3) = (a4, w4)" by (cases "fls_step 4 (a3, w3)")
  obtain a5 w5 where 5: "fls_step 2 (a4, w4) = (a5, w5)" by (cases "fls_step 2 (a4, w4)")
  obtain n1 where n1: "highest w1 n1" "32 \<le> n1" "a1 + int n1 = 63 + int n"
    using fls_step_highest [OF assms _ _ 1] by auto
  obtain n2 where n2: "highest w2 n2" "48 \<le> n2" "a2 + int n2 = 63 + int n"
    using fls_step_highest [OF n1(1) _ _ 2] n1 by auto
  obtain n3 where n3: "highest w3 n3" "56 \<le> n3" "a3 + int n3 = 63 + int n"
    using fls_step_highest [OF n2(1) _ _ 3] n2 by auto
  obtain n4 where n4: "highest w4 n4" "60 \<le> n4" "a4 + int n4 = 63 + int n"
    using fls_step_highest [OF n3(1) _ _ 4] n3 by auto
  obtain n5 where n5: "highest w5 n5" "62 \<le> n5" "a5 + int n5 = 63 + int n"
    using fls_step_highest [OF n4(1) _ _ 5] n4 by auto
  have "n5 < 64" using n5(1) bit_imp_le_length by (fastforce simp: highest_def)
  moreover have "w5 AND NOT (mask 63) = 0 \<longleftrightarrow> n5 = 62"
  proof
    assume "w5 AND NOT (mask 63) = 0"
    then have "\<not> bit w5 63" using high_bits_zero [of w5 63] by blast
    then show "n5 = 62" using n5(1,2) \<open>n5 < 64\<close> by (cases "n5 = 63") (auto simp: highest_def)
  next
    assume "n5 = 62"
    then show "w5 AND NOT (mask 63) = 0" using n5(1) high_bits_zero [of w5 63] by (auto simp: highest_def)
  qed
  ultimately show ?thesis using n5 by (auto simp: fls_word_def 1 2 3 4 5)
qed

lemma fls_half_highest:
  assumes "highest x n" "32 - 2 * k \<le> n" "2 * k \<le> 32" "m = push_bit (32 - k) (- 1)" "fls_half k m (x, r) = (x', r')"
  shows "\<exists>n'. highest x' n' \<and> 32 - k \<le> n' \<and> r' + int n' = r + int n"
  using highest_shift [of x n k] assms by (auto simp: fls_half_def split: if_splits)

lemma fls_masks:
  "0xffff0000 = (push_bit (32 - 16) (- 1) :: u32)" "0xff000000 = (push_bit (32 - 8) (- 1) :: u32)"
  "0xf0000000 = (push_bit (32 - 4) (- 1) :: u32)" "0xc0000000 = (push_bit (32 - 2) (- 1) :: u32)"
  "0x80000000 = (push_bit (32 - 1) (- 1) :: u32)"
  by (simp_all add: mask_eq_exp_minus_1)

lemma fls_highest:
  assumes "highest x n"
  shows "fls x = int n + 1"
proof -
  obtain x1 r1 where 1: "fls_half 16 0xffff0000 (x, 32) = (x1, r1)" by (cases "fls_half 16 0xffff0000 (x, 32)")
  obtain x2 r2 where 2: "fls_half 8 0xff000000 (x1, r1) = (x2, r2)" by (cases "fls_half 8 0xff000000 (x1, r1)")
  obtain x3 r3 where 3: "fls_half 4 0xf0000000 (x2, r2) = (x3, r3)" by (cases "fls_half 4 0xf0000000 (x2, r2)")
  obtain x4 r4 where 4: "fls_half 2 0xc0000000 (x3, r3) = (x4, r4)" by (cases "fls_half 2 0xc0000000 (x3, r3)")
  obtain x5 r5 where 5: "fls_half 1 0x80000000 (x4, r4) = (x5, r5)" by (cases "fls_half 1 0x80000000 (x4, r4)")
  obtain n1 where n1: "highest x1 n1" "16 \<le> n1" "r1 + int n1 = 32 + int n"
    using fls_half_highest [OF assms _ _ fls_masks(1) 1] by auto
  obtain n2 where n2: "highest x2 n2" "24 \<le> n2" "r2 + int n2 = 32 + int n"
    using fls_half_highest [OF n1(1) _ _ fls_masks(2) 2] n1 by auto
  obtain n3 where n3: "highest x3 n3" "28 \<le> n3" "r3 + int n3 = 32 + int n"
    using fls_half_highest [OF n2(1) _ _ fls_masks(3) 3] n2 by auto
  obtain n4 where n4: "highest x4 n4" "30 \<le> n4" "r4 + int n4 = 32 + int n"
    using fls_half_highest [OF n3(1) _ _ fls_masks(4) 4] n3 by auto
  obtain n5 where n5: "highest x5 n5" "31 \<le> n5" "r5 + int n5 = 32 + int n"
    using fls_half_highest [OF n4(1) _ _ fls_masks(5) 5] n4 by auto
  have "n5 < 32" using n5(1) bit_imp_le_length by (fastforce simp: highest_def)
  moreover have "x \<noteq> 0" using assms by (auto simp: highest_def)
  ultimately show ?thesis using n5 by (simp add: fls_def 1 2 3 4 5 [simplified])
qed

subsection \<open>Numbers as sequences of digits\<close>

text \<open>
  The number whose digits to the base \<open>2 ^ k\<close> are the first \<open>n\<close> values of \<open>c\<close>. Counting the bits of a word in
  parallel is arithmetic on such digits.
\<close>

definition dsum :: "nat \<Rightarrow> nat \<Rightarrow> (nat \<Rightarrow> nat) \<Rightarrow> nat" where
  "dsum k n c = (\<Sum>i < n. c i * 2 ^ (k * i))"

lemma dsum_0 [simp]: "dsum k 0 c = 0"
  by (simp add: dsum_def)

lemma dsum_zero: "dsum k n (\<lambda>_. 0) = 0"
  by (simp add: dsum_def)

lemma dsum_Suc: "dsum k (Suc n) c = c 0 + 2 ^ k * dsum k n (\<lambda>i. c (Suc i))"
  by (simp add: dsum_def sum.lessThan_Suc_shift sum_distrib_left power_add mult.left_commute del: sum.lessThan_Suc)

lemma dsum_cong: "(\<And>i. i < n \<Longrightarrow> c i = d i) \<Longrightarrow> dsum k n c = dsum k n d"
  by (simp add: dsum_def)

lemma dsum_add: "dsum k n c + dsum k n d = dsum k n (\<lambda>i. c i + d i)"
  by (simp add: dsum_def sum.distrib distrib_right)

lemma dsum_mono: "(\<And>i. i < n \<Longrightarrow> c i \<le> d i) \<Longrightarrow> dsum k n c \<le> dsum k n d"
  by (auto simp: dsum_def intro!: sum_mono)

lemma dsum_diff:
  assumes "\<And>i. i < n \<Longrightarrow> d i \<le> c i"
  shows "dsum k n c - dsum k n d = dsum k n (\<lambda>i. c i - d i)"
proof -
  have "dsum k n (\<lambda>i. c i - d i) + dsum k n d = dsum k n c" unfolding dsum_add by (rule dsum_cong) (use assms in simp)
  then show ?thesis by simp
qed

lemma dsum_less: "(\<And>i. i < n \<Longrightarrow> c i < 2 ^ k) \<Longrightarrow> dsum k n c < 2 ^ (k * n)"
proof (induction n arbitrary: c)
  case (Suc n)
  have "dsum k n (\<lambda>i. c (Suc i)) < 2 ^ (k * n)" by (rule Suc.IH) (use Suc.prems in auto)
  then have "dsum k n (\<lambda>i. c (Suc i)) + 1 \<le> 2 ^ (k * n)" by simp
  then have "2 ^ k * (dsum k n (\<lambda>i. c (Suc i)) + 1) \<le> 2 ^ k * 2 ^ (k * n)" by (rule mult_le_mono2)
  then show ?case using Suc.prems [of 0] by (simp add: dsum_Suc power_add)
qed simp

lemma dsum_split: "dsum k (2 * n) c = dsum (2 * k) n (\<lambda>i. c (2 * i) + 2 ^ k * c (2 * i + 1))"
proof (induction n arbitrary: c)
  case (Suc n)
  have "dsum k (2 * Suc n) c = c 0 + 2 ^ k * (c 1 + 2 ^ k * dsum k (2 * n) (\<lambda>i. c (i + 2)))"
    by (simp add: dsum_Suc)
  also have "\<dots> = c 0 + 2 ^ k * c 1 + 2 ^ (2 * k) * dsum k (2 * n) (\<lambda>i. c (i + 2))"
    by (simp add: distrib_left mult_2 power_add)
  finally show ?case by (simp add: Suc.IH dsum_Suc)
qed simp

lemma bit_digit:
  fixes a A :: nat
  assumes "a < 2 ^ m"
  shows "bit (a + 2 ^ m * A) j \<longleftrightarrow> (if j < m then bit a j else bit A (j - m))"
proof (cases "j < m")
  case True
  have "take_bit m (a + 2 ^ m * A) = a" using assms by (simp add: take_bit_eq_mod)
  then show ?thesis using True bit_take_bit_iff [of m "a + 2 ^ m * A" j] by simp
next
  case False
  have "drop_bit m (a + 2 ^ m * A) = A" using assms by (simp add: drop_bit_eq_div)
  then have "bit A (j - m) = bit (drop_bit m (a + 2 ^ m * A)) (j - m)" by simp
  then show ?thesis using False by (simp add: bit_drop_bit_eq)
qed

lemma and_digit:
  fixes a b A B :: nat
  assumes "a < 2 ^ m" "b < 2 ^ m"
  shows "(a + 2 ^ m * A) AND (b + 2 ^ m * B) = (a AND b) + 2 ^ m * (A AND B)"
proof -
  have "a AND b = take_bit m (a AND b)" using assms by (simp add: take_bit_nat_eq_self)
  then have "a AND b < 2 ^ m" using take_bit_nat_less_exp [of m "a AND b"] by simp
  then show ?thesis by (intro bit_eqI) (simp add: bit_digit assms bit_and_iff)
qed

lemma dsum_and:
  "(\<And>i. i < n \<Longrightarrow> c i < 2 ^ m) \<Longrightarrow> (\<And>i. i < n \<Longrightarrow> d i < 2 ^ m) \<Longrightarrow>
     dsum m n c AND dsum m n d = dsum m n (\<lambda>i. c i AND d i)"
proof (induction n arbitrary: c d)
  case (Suc n)
  have "dsum m n (\<lambda>i. c (Suc i)) AND dsum m n (\<lambda>i. d (Suc i)) = dsum m n (\<lambda>i. c (Suc i) AND d (Suc i))"
    by (rule Suc.IH) (use Suc.prems in auto)
  then show ?case using and_digit [of "c 0" m "d 0"] Suc.prems by (simp add: dsum_Suc)
qed simp

lemma dsum_shift:
  assumes "\<And>i. c i < 2 ^ k" "\<And>i. i \<ge> n \<Longrightarrow> c i = 0"
  shows "drop_bit k (dsum k n c) = dsum k n (\<lambda>i. c (Suc i))"
proof (cases n)
  case (Suc m)
  have "dsum k n (\<lambda>i. c (Suc i)) = dsum k m (\<lambda>i. c (Suc i))" using assms(2) Suc by (simp add: dsum_def)
  then show ?thesis using assms(1) [of 0] Suc by (simp add: dsum_Suc drop_bit_eq_div)
qed simp

lemma dsum_bits: "dsum 1 n (\<lambda>i. of_bool (bit w i)) = take_bit n w"
proof (induction n arbitrary: w)
  case (Suc n)
  show ?case
    using Suc.IH [of "w div 2"]
    by (simp add: dsum_Suc take_bit_Suc bit_0 bit_Suc [symmetric] add.commute mod_2_eq_odd)
qed simp

text \<open>Keeping the low half of every digit, and of every digit shifted by one half.\<close>

lemma dsum_halves:
  assumes "\<And>i. c i < 2 ^ k" "\<And>i. i \<ge> 2 * n \<Longrightarrow> c i = 0"
  shows "dsum k (2 * n) c AND dsum (2 * k) n (\<lambda>_. 2 ^ k - 1) = dsum (2 * k) n (\<lambda>i. c (2 * i))"
    "drop_bit k (dsum k (2 * n) c) AND dsum (2 * k) n (\<lambda>_. 2 ^ k - 1) = dsum (2 * k) n (\<lambda>i. c (2 * i + 1))"
proof -
  have digit: "(x + 2 ^ k * y) AND (2 ^ k - 1) = x" "x + 2 ^ k * y < 2 ^ (2 * k)" if "x < 2 ^ k" "y < 2 ^ k" for x y :: nat
  proof -
    show "(x + 2 ^ k * y) AND (2 ^ k - 1) = x"
      unfolding mask_eq_exp_minus_1 [symmetric] take_bit_eq_mask [symmetric] using that(1) by (simp add: take_bit_eq_mod)
    have "2 ^ k * (y + 1) \<le> (2 ^ k * 2 ^ k :: nat)" using that(2) by (intro mult_le_mono2) simp
    then show "x + 2 ^ k * y < 2 ^ (2 * k)" using that(1) by (simp add: mult_2 power_add)
  qed
  have half: "dsum k (2 * n) d AND dsum (2 * k) n (\<lambda>_. 2 ^ k - 1) = dsum (2 * k) n (\<lambda>i. d (2 * i))"
    if "\<And>i. d i < 2 ^ k" for d
  proof -
    have "(2 ^ k - 1 :: nat) < 2 ^ (2 * k)" by (rule less_le_trans [of _ "2 ^ k"]) simp_all
    then show ?thesis unfolding dsum_split using that by (subst dsum_and) (auto intro!: dsum_cong simp: digit digit(1) [simplified])
  qed
  show "dsum k (2 * n) c AND dsum (2 * k) n (\<lambda>_. 2 ^ k - 1) = dsum (2 * k) n (\<lambda>i. c (2 * i))"
    by (rule half) (rule assms(1))
  show "drop_bit k (dsum k (2 * n) c) AND dsum (2 * k) n (\<lambda>_. 2 ^ k - 1) = dsum (2 * k) n (\<lambda>i. c (2 * i + 1))"
    using half [of "\<lambda>i. c (Suc i)"] dsum_shift [of c k "2 * n"] assms by simp
qed

text \<open>The first three steps, common to all variants: the bytes of the result count the bits of the bytes of \<open>w\<close>.\<close>

definition byte_weight :: "nat \<Rightarrow> nat \<Rightarrow> nat" where
  "byte_weight w i = (\<Sum>j < 8. of_bool (bit w (8 * i + j)))"

lemma sum_pairs: "(\<Sum>i < 2 * n. c i) = (\<Sum>i < n. c (2 * i) + c (2 * i + 1))" for c :: "nat \<Rightarrow> nat"
  by (induction n) simp_all

lemma sum_eight: "(\<Sum>j < 8. g j) = (g 0 + g 1 + (g 2 + g 3)) + (g 4 + g 5 + (g 6 + g 7))" for g :: "nat \<Rightarrow> nat"
  by (simp add: eval_nat_numeral)

lemma swar_bytes:
  fixes w :: nat
  assumes "w < 2 ^ (8 * n)"
  defines "m1 \<equiv> dsum 2 (4 * n) (\<lambda>_. 1)" and "m2 \<equiv> dsum 4 (2 * n) (\<lambda>_. 3)" and "m3 \<equiv> dsum 8 n (\<lambda>_. 15)"
  defines "x1 \<equiv> w - (drop_bit 1 w AND m1)"
  defines "x2 \<equiv> (x1 AND m2) + (drop_bit 2 x1 AND m2)"
  shows "drop_bit 1 w AND m1 \<le> w" "x1 < 2 ^ (8 * n)" "x2 < 2 ^ (8 * n)" "x2 + drop_bit 4 x2 < 2 ^ (8 * n)"
    "(x2 + drop_bit 4 x2) AND m3 = dsum 8 n (byte_weight w)"
proof -
  define b :: "nat \<Rightarrow> nat" where "b = (\<lambda>i. of_bool (bit w i))"
  have zero: "b i = 0" if "i \<ge> 8 * n" for i
  proof -
    have "\<not> bit (take_bit (8 * n) w) i" using that by (simp add: bit_take_bit_iff)
    then show ?thesis using assms(1) by (simp add: b_def take_bit_nat_eq_self)
  qed
  have b1: "b i < 2 ^ 1" for i by (simp add: b_def)
  have w: "w = dsum 1 (2 * (4 * n)) b" using dsum_bits [of "8 * n" w] assms(1) by (simp add: b_def take_bit_nat_eq_self)
  have h1: "drop_bit 1 w AND m1 = dsum 2 (4 * n) (\<lambda>i. b (2 * i + 1))"
    using dsum_halves(2) [of b 1 "4 * n"] b1 zero unfolding m1_def w by (simp add: numeral_2_eq_2)
  have w2: "w = dsum 2 (4 * n) (\<lambda>i. b (2 * i) + 2 * b (2 * i + 1))" unfolding w dsum_split by simp
  show "drop_bit 1 w AND m1 \<le> w" unfolding h1 by (subst w2) (intro dsum_mono; simp)
  define c where "c = (\<lambda>i. b (2 * i) + b (2 * i + 1))"
  have x1: "x1 = dsum 2 (2 * (2 * n)) c"
    unfolding x1_def h1 by (subst w2) (subst dsum_diff; auto intro!: dsum_cong simp: c_def)
  have c1: "c i < 2 ^ 2" for i using b1 [of "2 * i"] b1 [of "2 * i + 1"] by (simp add: c_def)
  show "x1 < 2 ^ (8 * n)" unfolding x1 using dsum_less [of "4 * n" c 2] c1 by simp
  have cz: "c i = 0" if "i \<ge> 4 * n" for i using that zero by (simp add: c_def)
  define d where "d = (\<lambda>i. c (2 * i) + c (2 * i + 1))"
  have x2: "x2 = dsum 4 (2 * n) d"
    using dsum_halves [of c 2 "2 * n"] c1 cz unfolding x2_def m2_def x1 by (simp add: dsum_add d_def)
  have c2: "c i \<le> 2" for i using b1 [of "2 * i"] b1 [of "2 * i + 1"] by (simp add: c_def)
  have d1: "d i \<le> 4" for i using add_mono [OF c2 [of "2 * i"] c2 [of "2 * i + 1"]] by (simp add: d_def)
  have d2: "d i < 2 ^ 4" "d i + d j < 2 ^ 4" for i j using d1 [of i] d1 [of j] by simp_all
  have dz: "d i = 0" if "i \<ge> 2 * n" for i using that cz by (simp add: d_def)
  show "x2 < 2 ^ (8 * n)" unfolding x2 using dsum_less [of "2 * n" d 4] d2 by simp
  have x3: "x2 + drop_bit 4 x2 = dsum 4 (2 * n) (\<lambda>i. d i + d (Suc i))"
    unfolding x2 using dsum_shift [of d 4 "2 * n"] d2 dz by (simp add: dsum_add)
  show "x2 + drop_bit 4 x2 < 2 ^ (8 * n)"
    unfolding x3 using dsum_less [of "2 * n" "\<lambda>i. d i + d (Suc i)" 4] d2 by simp
  have "(x2 + drop_bit 4 x2) AND m3 = dsum 8 n (\<lambda>i. d (2 * i) + d (2 * i + 1))"
    using dsum_halves(1) [of "\<lambda>i. d i + d (Suc i)" 4 n] d2 dz unfolding x3 m3_def by simp
  also have "\<dots> = dsum 8 n (byte_weight w)"
  proof (rule dsum_cong)
    fix i
    have "byte_weight w i = (\<Sum>j < 8. b (8 * i + j))" unfolding byte_weight_def b_def ..
    then show "d (2 * i) + d (2 * i + 1) = byte_weight w i"
      unfolding sum_eight by (simp add: d_def c_def numeral_eq_Suc ac_simps)
  qed
  finally show "(x2 + drop_bit 4 x2) AND m3 = dsum 8 n (byte_weight w)" .
qed

subsection \<open>Counting bits\<close>

definition weight :: "'a::len word \<Rightarrow> nat" where
  "weight w = card {i. bit w i}"

lemma sum_groups: "(\<Sum>i < k * n. f i) = (\<Sum>i < n. \<Sum>j < k. f (k * i + j))" for f :: "nat \<Rightarrow> nat"
proof -
  have "sum f {m * k ..< m * k + k} = (\<Sum>j < k. f (k * m + j))" for m
    using sum.shift_bounds_nat_ivl [of f 0 "m * k" k] by (simp add: lessThan_atLeast0 ac_simps)
  then show ?thesis using sum.nat_group [of f k n] by (simp add: mult.commute)
qed

lemma weight_bytes:
  fixes w :: "'a::len word"
  assumes "unat w < 2 ^ (8 * n)"
  shows "weight w = (\<Sum>i < n. byte_weight (unat w) i)"
proof -
  have b: "bit w i = bit (unat w) i" for i by (simp add: bit_unsigned_iff)
  have "\<not> bit (unat w) i" if "i \<ge> 8 * n" for i
    using that assms bit_take_bit_iff [of "8 * n" "unat w" i] by (simp add: take_bit_nat_eq_self)
  then have "{i. bit w i} = {..<8 * n} \<inter> {i. bit (unat w) i}" unfolding b by (auto simp: not_le [symmetric])
  then have "weight w = (\<Sum>i < 8 * n. of_bool (bit (unat w) i))"
    unfolding weight_def by (simp only: sum_of_bool_eq finite_lessThan of_nat_id)
  also have "\<dots> = (\<Sum>i < n. byte_weight (unat w) i)"
    unfolding byte_weight_def by (rule sum_groups)
  finally show ?thesis .
qed

lemma dsum_shifts:
  assumes "\<And>i. c i < 2 ^ k" "\<And>i. i \<ge> n \<Longrightarrow> c i = 0"
  shows "drop_bit (k * m) (dsum k n c) = dsum k n (\<lambda>i. c (i + m))"
proof (induction m)
  case (Suc m)
  have "drop_bit (k * Suc m) (dsum k n c) = drop_bit k (drop_bit (k * m) (dsum k n c))" by simp
  also have "\<dots> = dsum k n (\<lambda>i. c (Suc i + m))"
    unfolding Suc.IH by (rule dsum_shift) (use assms in auto)
  finally show ?case by simp
qed simp

lemma dsum_mod: "0 < n \<Longrightarrow> c 0 < 2 ^ k \<Longrightarrow> dsum k n c AND mask k = c 0"
  unfolding take_bit_eq_mask [symmetric] by (cases n) (simp_all add: dsum_Suc take_bit_eq_mod)

lemma byte_weight_le: "byte_weight w i \<le> 8"
proof -
  have "byte_weight w i \<le> (\<Sum>j < (8 :: nat). 1)" unfolding byte_weight_def by (rule sum_mono) simp
  then show ?thesis by simp
qed

lemma byte_weight_zero:
  assumes "w < 2 ^ (8 * n)" "i \<ge> n"
  shows "byte_weight w i = 0"
proof -
  have "\<not> bit w (8 * i + j)" for j
    using assms bit_take_bit_iff [of "8 * n" w "8 * i + j"] by (simp add: take_bit_nat_eq_self)
  then show ?thesis by (simp add: byte_weight_def)
qed

text \<open>The steps on words do not overflow.\<close>

lemma swar_word:
  fixes w :: "'a::len word"
  assumes "unat w < 2 ^ (8 * n)" "8 * n \<le> LENGTH('a)"
    and "m1 = of_nat (dsum 2 (4 * n) (\<lambda>_. 1))" "m2 = of_nat (dsum 4 (2 * n) (\<lambda>_. 3))" "m3 = of_nat (dsum 8 n (\<lambda>_. 15))"
    and "x1 = w - (drop_bit 1 w AND m1)" "x2 = (x1 AND m2) + (drop_bit 2 x1 AND m2)"
  shows "unat ((x2 + drop_bit 4 x2) AND m3) = dsum 8 n (byte_weight (unat w))"
proof -
  note s = swar_bytes [OF assms(1)]
  have len: "x < 2 ^ LENGTH('a)" if "x < 2 ^ (8 * n)" for x :: nat
    using that assms(2) by (meson less_le_trans one_le_numeral power_increasing)
  have m: "unat m1 = dsum 2 (4 * n) (\<lambda>_. 1)" "unat m2 = dsum 4 (2 * n) (\<lambda>_. 3)" "unat m3 = dsum 8 n (\<lambda>_. 15)"
    using len [OF dsum_less [of "4 * n" "\<lambda>_. 1" 2, simplified]] len [OF dsum_less [of "2 * n" "\<lambda>_. 3" 4, simplified]]
      len [OF dsum_less [of n "\<lambda>_. 15" 8]]
    by (simp_all add: assms(3-5) unsigned_of_nat take_bit_nat_eq_self)
  have "drop_bit 1 w AND m1 \<le> w"
    using s(1) by (simp add: word_le_nat_alt unsigned_and_eq unat_drop_bit_eq m)
  then have x1: "unat x1 = unat w - (drop_bit 1 (unat w) AND dsum 2 (4 * n) (\<lambda>_. 1))"
    by (simp add: assms(6) unat_sub unsigned_and_eq unat_drop_bit_eq m)
  have sum: "unat (a + b) = unat a + unat b" if "unat a + unat b < 2 ^ (8 * n)" for a b :: "'a word"
    using len [OF that] by (simp add: unat_word_ariths)
  have x2: "unat x2 = (unat x1 AND dsum 4 (2 * n) (\<lambda>_. 3)) + (drop_bit 2 (unat x1) AND dsum 4 (2 * n) (\<lambda>_. 3))"
    using s(3) sum unfolding assms(7) by (simp add: unsigned_and_eq unat_drop_bit_eq m x1)
  have "unat (x2 + drop_bit 4 x2) = unat x2 + drop_bit 4 (unat x2)"
    using s(4) sum [of x2 "drop_bit 4 x2"] by (simp add: unat_drop_bit_eq x2 x1)
  then show ?thesis using s(5) by (simp add: unsigned_and_eq m x2 x1)
qed

lemma digit_masks:
  "0x5555555555555555 = (of_nat (dsum 2 (4 * 8) (\<lambda>_. 1)) :: u64)" "0x3333333333333333 = (of_nat (dsum 4 (2 * 8) (\<lambda>_. 3)) :: u64)"
  "0x0f0f0f0f0f0f0f0f = (of_nat (dsum 8 8 (\<lambda>_. 15)) :: u64)"
  "0x55555555 = (of_nat (dsum 2 (4 * 4) (\<lambda>_. 1)) :: u32)" "0x33333333 = (of_nat (dsum 4 (2 * 4) (\<lambda>_. 3)) :: u32)"
  "0x0f0f0f0f = (of_nat (dsum 8 4 (\<lambda>_. 15)) :: u32)"
  "0x5555 = (of_nat (dsum 2 (4 * 2) (\<lambda>_. 1)) :: u32)" "0x3333 = (of_nat (dsum 4 (2 * 2) (\<lambda>_. 3)) :: u32)"
  "0x0f0f = (of_nat (dsum 8 2 (\<lambda>_. 15)) :: u32)"
  "0x55 = (of_nat (dsum 2 (4 * 1) (\<lambda>_. 1)) :: u32)" "0x33 = (of_nat (dsum 4 (2 * 1) (\<lambda>_. 3)) :: u32)"
  "0x0f = (of_nat (dsum 8 1 (\<lambda>_. 15)) :: u32)"
  by (simp_all add: dsum_def lessThan_nat_numeral)

text \<open>Adding up the bytes of \<open>x\<close>, by shifts or by a multiplication.\<close>

lemma fold_bytes:
  fixes x :: "'a::len word"
  assumes "unat x = dsum 8 n c" "8 * n \<le> LENGTH('a)" "\<And>i. c i + c (i + m) < 2 ^ 8" "\<And>i. i \<ge> n \<Longrightarrow> c i = 0"
  shows "unat (x + drop_bit (8 * m) x) = dsum 8 n (\<lambda>i. c i + c (i + m))"
proof -
  have c: "c i < 2 ^ 8" for i using assms(3) [of i] by simp
  have "dsum 8 n (\<lambda>i. c i + c (i + m)) < 2 ^ (8 * n)" by (rule dsum_less) (rule assms(3))
  also have "(2 :: nat) ^ (8 * n) \<le> 2 ^ LENGTH('a)" using assms(2) by (intro power_increasing) auto
  finally show ?thesis
    using dsum_shifts [of c 8 n m, OF c assms(4)] by (simp add: unat_word_ariths unat_drop_bit_eq assms(1) dsum_add)
qed

lemma last_byte:
  fixes x :: "'a::len word"
  assumes "unat x = dsum 8 n c" "0 < n" "c 0 < 2 ^ 8" "8 \<le> LENGTH('a)"
  shows "unat (x AND 0xFF) = c 0"
proof -
  have "(0xFF :: 'a word) = mask 8" by (simp add: mask_eq_exp_minus_1)
  moreover have "unat (x AND mask 8) = unat x AND mask 8"
    unfolding take_bit_eq_mask [symmetric] by (simp add: unsigned_take_bit_eq)
  ultimately show ?thesis using dsum_mod [of n c 8] assms by simp
qed

lemma hweight64_slow:
  assumes "unat x = dsum 8 8 c" "\<And>i. c i \<le> 8" "\<And>i. i \<ge> 8 \<Longrightarrow> c i = 0"
    and "y = x + drop_bit 8 x" "z = y + drop_bit 16 y"
  shows "unat ((z + drop_bit 32 z) AND (0xFF :: u64)) = (\<Sum>i < 8. c i)"
proof -
  define d where "d = (\<lambda>i. c i + c (i + 1))"
  have d: "d i \<le> 16" "i \<ge> 8 \<Longrightarrow> d i = 0" for i using add_mono [OF assms(2) [of i] assms(2) [of "i + 1"]] assms(3) by (simp_all add: d_def)
  have "c i + c (i + 1) < 2 ^ 8" for i using d(1) [of i] by (simp add: d_def)
  from fold_bytes [OF assms(1) _ this assms(3)] have y: "unat y = dsum 8 8 d" by (simp add: d_def assms(4))
  define e where "e = (\<lambda>i. d i + d (i + 2))"
  have e: "e i \<le> 32" "i \<ge> 8 \<Longrightarrow> e i = 0" for i using add_mono [OF d(1) [of i] d(1) [of "i + 2"]] d(2) by (simp_all add: e_def)
  have "d i + d (i + 2) < 2 ^ 8" for i using e(1) [of i] by (simp add: e_def)
  from fold_bytes [OF y _ this d(2)] have z: "unat z = dsum 8 8 e" by (simp add: e_def assms(5))
  have f: "e i + e (i + 4) < 2 ^ 8" for i using add_mono [OF e(1) [of i] e(1) [of "i + 4"]] by simp
  have "unat (z + drop_bit 32 z) = dsum 8 8 (\<lambda>i. e i + e (i + 4))"
    using fold_bytes [OF z _ f e(2)] by simp
  from last_byte [OF this] f [of 0] show ?thesis
    by (simp add: e_def d_def sum_eight) (simp add: numeral_eq_Suc)
qed

text \<open>Multiplying by a number whose digits are all one makes every digit the sum of the digits up to it.\<close>

lemma mult_ones:
  "\<exists>R. dsum 8 8 c * unat (0x0101010101010101 :: u64) = dsum 8 8 (\<lambda>i. \<Sum>j \<le> i. c j) + 2 ^ (8 * 8) * R"
  "\<exists>R. dsum 8 4 c * unat (0x01010101 :: u32) = dsum 8 4 (\<lambda>i. \<Sum>j \<le> i. c j) + 2 ^ (8 * 4) * R"
proof -
  let ?R = "c 1 + 0x101 * c 2 + 0x10101 * c 3 + 0x1010101 * c 4 + 0x101010101 * c 5 + 0x10101010101 * c 6 + 0x1010101010101 * c 7"
  have "dsum 8 8 c * unat (0x0101010101010101 :: u64) = dsum 8 8 (\<lambda>i. \<Sum>j \<le> i. c j) + 2 ^ (8 * 8) * ?R"
    by (simp add: dsum_def lessThan_nat_numeral atMost_nat_numeral atMost_Suc)
  then show "\<exists>R. dsum 8 8 c * unat (0x0101010101010101 :: u64) = dsum 8 8 (\<lambda>i. \<Sum>j \<le> i. c j) + 2 ^ (8 * 8) * R" ..
  let ?S = "c 1 + 0x101 * c 2 + 0x10101 * c 3"
  have "dsum 8 4 c * unat (0x01010101 :: u32) = dsum 8 4 (\<lambda>i. \<Sum>j \<le> i. c j) + 2 ^ (8 * 4) * ?S"
    by (simp add: dsum_def lessThan_nat_numeral atMost_nat_numeral atMost_Suc)
  then show "\<exists>R. dsum 8 4 c * unat (0x01010101 :: u32) = dsum 8 4 (\<lambda>i. \<Sum>j \<le> i. c j) + 2 ^ (8 * 4) * R" ..
qed

lemma hweight_fast:
  fixes x :: "'a::len word"
  assumes "unat x = dsum 8 n c" "LENGTH('a) = 8 * n" "0 < n" "\<And>i. c i \<le> 8" "n \<le> 8"
    and "dsum 8 n c * unat m = dsum 8 n (\<lambda>i. \<Sum>j \<le> i. c j) + 2 ^ (8 * n) * R"
  shows "unat (drop_bit (8 * (n - 1)) (x * m)) = (\<Sum>i < n. c i)"
proof -
  define d where "d i = (if i < n then \<Sum>j \<le> i. c j else 0)" for i
  have d8: "d i < 2 ^ 8" for i
  proof -
    have "(\<Sum>j \<le> i. c j) \<le> (\<Sum>j \<le> i. 8)" by (rule sum_mono) (rule assms(4))
    then show ?thesis using assms(5) by (auto simp: d_def)
  qed
  have "dsum 8 n (\<lambda>i. \<Sum>j \<le> i. c j) = dsum 8 n d" by (rule dsum_cong) (simp add: d_def)
  then have "unat (x * m) = dsum 8 n d"
    using dsum_less [of n d 8] d8 by (simp add: unat_word_ariths assms(1,2,6))
  then have "unat (drop_bit (8 * (n - 1)) (x * m)) = dsum 8 n (\<lambda>i. d (i + (n - 1)))"
    using dsum_shifts [of d 8 n "n - 1"] d8 by (simp add: unat_drop_bit_eq d_def)
  also have "\<dots> = d (n - 1)" using assms(3) by (cases n) (simp_all add: dsum_Suc d_def dsum_zero)
  also have "\<dots> = (\<Sum>i < n. c i)" using assms(3) by (cases n) (simp_all add: d_def lessThan_Suc_atMost)
  finally show ?thesis .
qed

lemma sw_hweight64_weight: "unat (sw_hweight64 fast w) = weight w"
proof -
  let ?c = "byte_weight (unat w)"
  define x1 where "x1 = w - (drop_bit 1 w AND 0x5555555555555555)"
  define x2 where "x2 = (x1 AND 0x3333333333333333) + (drop_bit 2 x1 AND 0x3333333333333333)"
  define x where "x = (x2 + drop_bit 4 x2) AND 0x0f0f0f0f0f0f0f0f"
  have lt: "unat w < 2 ^ (8 * 8)" using unsigned_less [of w, where ?'a = nat] by simp
  have x: "unat x = dsum 8 8 ?c"
    unfolding x_def by (rule swar_word [OF lt _ digit_masks(1-3) x1_def x2_def]) simp
  obtain R where "dsum 8 8 ?c * unat (0x0101010101010101 :: u64) = dsum 8 8 (\<lambda>i. \<Sum>j \<le> i. ?c j) + 2 ^ (8 * 8) * R"
    using mult_ones(1) [of ?c] by blast
  from hweight_fast [OF x _ _ byte_weight_le _ this]
  have "unat (drop_bit 56 (x * 0x0101010101010101)) = (\<Sum>i < 8. ?c i)" by simp
  moreover define y where "y = x + drop_bit 8 x"
  have "unat ((y + drop_bit 16 y + drop_bit 32 (y + drop_bit 16 y)) AND 0xFF) = (\<Sum>i < 8. ?c i)"
    by (rule hweight64_slow [OF x byte_weight_le byte_weight_zero [OF lt] y_def refl])
  moreover have "sw_hweight64 fast w =
      (if fast then drop_bit 56 (x * 0x0101010101010101) else (y + drop_bit 16 y + drop_bit 32 (y + drop_bit 16 y)) AND 0xFF)"
    unfolding sw_hweight64_def Let_def y_def x_def x2_def x1_def ..
  ultimately show ?thesis unfolding weight_bytes [OF lt] by simp
qed

lemma sw_hweight32_weight: "unat (sw_hweight32 fast w) = weight w"
proof -
  let ?c = "byte_weight (unat w)"
  define x1 where "x1 = w - (drop_bit 1 w AND 0x55555555)"
  define x2 where "x2 = (x1 AND 0x33333333) + (drop_bit 2 x1 AND 0x33333333)"
  define x where "x = (x2 + drop_bit 4 x2) AND 0x0f0f0f0f"
  have lt: "unat w < 2 ^ (8 * 4)" using unsigned_less [of w, where ?'a = nat] by simp
  have x: "unat x = dsum 8 4 ?c"
    unfolding x_def by (rule swar_word [OF lt _ digit_masks(4-6) x1_def x2_def]) simp
  obtain R where "dsum 8 4 ?c * unat (0x01010101 :: u32) = dsum 8 4 (\<lambda>i. \<Sum>j \<le> i. ?c j) + 2 ^ (8 * 4) * R"
    using mult_ones(2) [of ?c] by blast
  from hweight_fast [OF x _ _ byte_weight_le _ this]
  have "unat (drop_bit 24 (x * 0x01010101)) = (\<Sum>i < 4. ?c i)" by simp
  moreover define y where "y = x + drop_bit 8 x"
  define d where "d = (\<lambda>i. ?c i + ?c (i + 1))"
  have d: "d i \<le> 16" "i \<ge> 4 \<Longrightarrow> d i = 0" for i
    using add_mono [OF byte_weight_le [of "unat w" i] byte_weight_le [of "unat w" "i + 1"]] byte_weight_zero [OF lt] by (simp_all add: d_def)
  have "?c i + ?c (i + 1) < 2 ^ 8" for i using d(1) [of i] by (simp add: d_def)
  from fold_bytes [OF x _ this byte_weight_zero [OF lt]] have y: "unat y = dsum 8 4 d" by (simp add: d_def y_def)
  have f: "d i + d (i + 2) < 2 ^ 8" for i using add_mono [OF d(1) [of i] d(1) [of "i + 2"]] by simp
  have "unat (y + drop_bit 16 y) = dsum 8 4 (\<lambda>i. d i + d (i + 2))" using fold_bytes [OF y _ f d(2)] by simp
  from last_byte [OF this] f [of 0] have "unat ((y + drop_bit 16 y) AND 0xFF) = (\<Sum>i < 4. ?c i)"
    by (simp add: d_def lessThan_nat_numeral) (simp add: numeral_eq_Suc)
  moreover have "sw_hweight32 fast w = (if fast then drop_bit 24 (x * 0x01010101) else (y + drop_bit 16 y) AND 0xFF)"
    unfolding sw_hweight32_def Let_def y_def x_def x2_def x1_def ..
  ultimately show ?thesis unfolding weight_bytes [OF lt] by simp
qed

lemma sw_hweight16_weight:
  assumes "w < 2 ^ 16"
  shows "unat (sw_hweight16 w) = weight w"
proof -
  let ?c = "byte_weight (unat w)"
  define x1 where "x1 = w - (drop_bit 1 w AND 0x5555)"
  define x2 where "x2 = (x1 AND 0x3333) + (drop_bit 2 x1 AND 0x3333)"
  define x where "x = (x2 + drop_bit 4 x2) AND 0x0f0f"
  have lt: "unat w < 2 ^ (8 * 2)" using assms by (simp add: word_less_nat_alt)
  have x: "unat x = dsum 8 2 ?c"
    unfolding x_def by (rule swar_word [OF lt _ digit_masks(7-9) x1_def x2_def]) simp
  have f: "?c i + ?c (i + 1) < 2 ^ 8" for i
    using add_mono [OF byte_weight_le [of "unat w" i] byte_weight_le [of "unat w" "i + 1"]] by simp
  from fold_bytes [OF x _ this byte_weight_zero [OF lt]] have "unat (x + drop_bit 8 x) = dsum 8 2 (\<lambda>i. ?c i + ?c (i + 1))" by simp
  from last_byte [OF this] f [of 0] have "unat ((x + drop_bit 8 x) AND 0xFF) = (\<Sum>i < 2. ?c i)"
    by (simp add: lessThan_nat_numeral)
  moreover have "sw_hweight16 w = (x + drop_bit 8 x) AND 0xFF"
    unfolding sw_hweight16_def Let_def x_def x2_def x1_def ..
  ultimately show ?thesis unfolding weight_bytes [OF lt] by simp
qed

lemma sw_hweight8_weight:
  assumes "w < 2 ^ 8"
  shows "unat (sw_hweight8 w) = weight w"
proof -
  define x1 where "x1 = w - (drop_bit 1 w AND 0x55)"
  define x2 where "x2 = (x1 AND 0x33) + (drop_bit 2 x1 AND 0x33)"
  have lt: "unat w < 2 ^ (8 * 1)" using assms by (simp add: word_less_nat_alt)
  have "unat ((x2 + drop_bit 4 x2) AND 0x0f) = dsum 8 1 (byte_weight (unat w))"
    by (rule swar_word [OF lt _ digit_masks(10-12) x1_def x2_def]) simp
  moreover have "sw_hweight8 w = (x2 + drop_bit 4 x2) AND 0x0F" unfolding sw_hweight8_def Let_def x2_def x1_def ..
  ultimately show ?thesis unfolding weight_bytes [OF lt] by (simp add: dsum_def)
qed

lemma const_hweight8_byte: "const_hweight8 w = of_nat (byte_weight (unat w) 0)"
proof -
  have "(w AND push_bit i 1 \<noteq> 0) = bit (unat w) i" for i
    unfolding bit_iff_and_push_bit_not_eq_0 [symmetric] by (simp add: bit_unsigned_iff)
  then show ?thesis
    unfolding const_hweight8_def byte_weight_def sum_eight
    by (simp only: mult_0_right mult_zero_left add_0_left add_0_right of_nat_add of_nat_of_bool ac_simps)
qed

lemma byte_weight_drop: "byte_weight (unat (drop_bit (8 * k) w)) i = byte_weight (unat w) (i + k)" for w :: "'a::len word"
  by (simp add: byte_weight_def unat_drop_bit_eq bit_drop_bit_eq algebra_simps)

lemma const_hweight64_weight: "unat (const_hweight64 w) = weight w"
proof -
  have lt: "unat w < 2 ^ (8 * 8)" using unsigned_less [of w, where ?'a = nat] by simp
  let ?c = "byte_weight (unat w)"
  have drop: "const_hweight8 (drop_bit (8 * k) w) = of_nat (?c k)" for k
    unfolding const_hweight8_byte byte_weight_drop by simp
  have "const_hweight64 w = of_nat (\<Sum>i < 8. ?c i)"
    unfolding const_hweight64_def const_hweight32_def const_hweight16_def sum_eight
    using drop [of 0] drop [of 1] drop [of 2] drop [of 3] drop [of 4] drop [of 5] drop [of 6] drop [of 7] by simp
  moreover have "(\<Sum>i < 8. ?c i) \<le> (\<Sum>i < (8 :: nat). 8)" by (rule sum_mono) (rule byte_weight_le)
  ultimately show ?thesis
    unfolding weight_bytes [OF lt] by (simp add: unsigned_of_nat take_bit_nat_eq_self del: of_nat_sum)
qed

text \<open>
  C22: Counting in parallel counts the set bits. Both variants of \<open>__sw_hweight64\<close> and
  \<open>__sw_hweight32\<close>, the compile-time version, and the narrow versions on words that fit, return
  the number of set bits of every word, although every intermediate sum wraps at the width of the word.
\<close>

theorem hweight_counts:
  fixes w :: u64 and v :: u32
  shows "unat (sw_hweight64 fast w) = card {i. bit w i} \<and> unat (const_hweight64 w) = card {i. bit w i} \<and>
    unat (sw_hweight32 fast v) = card {i. bit v i} \<and>
    (v < 2 ^ 16 \<longrightarrow> unat (sw_hweight16 v) = card {i. bit v i}) \<and> (v < 2 ^ 8 \<longrightarrow> unat (sw_hweight8 v) = card {i. bit v i})"
  using sw_hweight64_weight [of fast w] const_hweight64_weight [of w] sw_hweight32_weight [of fast v]
    sw_hweight16_weight [of v] sw_hweight8_weight [of v]
  by (simp add: weight_def)

theorem hweight_counts_witness:
  "unat (sw_hweight64 True 0xF0F0000000000001) = card {i. bit (0xF0F0000000000001 :: u64) i} \<and> sw_hweight64 True 0xF0F0000000000001 = 9 \<and>
   unat (sw_hweight16 0x8001) = card {i. bit (0x8001 :: u32) i} \<and> sw_hweight16 0x8001 = 2 \<and>
   unat (sw_hweight8 0xFF) = card {i. bit (0xFF :: u32) i} \<and> sw_hweight8 0xFF = 8"
  using hweight_counts [where fast = True and w = "0xF0F0000000000001" and v = "0x8001"]
    hweight_counts [where fast = True and w = "0xF0F0000000000001" and v = "0xFF"]
  by (simp add: sw_hweight64_def sw_hweight16_def sw_hweight8_def Let_def)

end
