(* ===== verification/Bitmap.thy ===== *)
theory Bitmap
  imports Bitops "HOL-Library.Monad_Syntax" "HOL-Library.Signed_Division"
begin

text \<open>
  Bitmaps of the tools library: \<^verbatim>\<open>tools/lib/find_bit.c\<close>, \<^verbatim>\<open>tools/lib/bitmap.c\<close> and the inline functions of
  \<^verbatim>\<open>tools/include/linux/find.h\<close> and \<^verbatim>\<open>tools/include/linux/bitmap.h\<close>. A bitmap is an array of words of 64 bits; the result
  \<open>None\<close> is an access outside of an array. Functions that begin with underscores in the sources
  end in \<open>_loop\<close> or begin with \<open>slow_\<close> here. Whether the compiler knows the size is the argument \<open>const\<close>.
\<close>

subsection \<open>Searching\<close>

text \<open>\<open>FETCH\<close> is a word at an index; the arguments and the index of the loops have 64 bits.\<close>

type_synonym fetch = "u64 \<Rightarrow> u64 option"

definition word_at :: "bitmap \<Rightarrow> fetch" where
  "word_at addr idx = (if unat idx < length addr then Some (addr ! unat idx) else None)"

definition and_at :: "bitmap \<Rightarrow> bitmap \<Rightarrow> fetch" where
  "and_at addr1 addr2 idx = do { a \<leftarrow> word_at addr1 idx; b \<leftarrow> word_at addr2 idx; Some (a AND b) }"

definition not_at :: "bitmap \<Rightarrow> fetch" where
  "not_at addr idx = do { a \<leftarrow> word_at addr idx; Some (NOT a) }"

partial_function (option) FIND_FIRST_BIT :: "fetch \<Rightarrow> u64 \<Rightarrow> u64 \<Rightarrow> u64 option" where
  [code]: "FIND_FIRST_BIT fetch sz idx =
     (if idx * 64 < sz then do {
        val \<leftarrow> fetch idx;
        if val \<noteq> 0 then Some (min (idx * 64 + of_int (ffs_word val)) sz) else FIND_FIRST_BIT fetch sz (idx + 1) }
      else Some sz)"

definition BITMAP_FIRST_WORD_MASK :: "u64 \<Rightarrow> u64" where
  "BITMAP_FIRST_WORD_MASK start = push_bit (unat (start AND 63)) (- 1)"

text \<open>The argument is the value of the expression; for unsigned sizes the result is the same, as 64 divides \<open>2 ^ 32\<close>.\<close>

definition BITMAP_LAST_WORD_MASK :: "int \<Rightarrow> u64" where
  "BITMAP_LAST_WORD_MASK nbits = drop_bit (nat (- nbits AND 63)) (- 1)"

partial_function (option) find_next_loop :: "fetch \<Rightarrow> u64 \<Rightarrow> u64 \<Rightarrow> u64 \<Rightarrow> u64 option" where
  [code]: "find_next_loop fetch sz idx tmp =
     (if tmp \<noteq> 0 then Some (min (idx * 64 + of_int (ffs_word tmp)) sz)
      else if (idx + 1) * 64 \<ge> sz then Some sz
      else do { t \<leftarrow> fetch (idx + 1); find_next_loop fetch sz (idx + 1) t })"

definition FIND_NEXT_BIT :: "fetch \<Rightarrow> u64 \<Rightarrow> u64 \<Rightarrow> u64 option" where
  "FIND_NEXT_BIT fetch sz start =
     (if start \<ge> sz then Some sz
      else do { t \<leftarrow> fetch (start div 64); find_next_loop fetch sz (start div 64) (t AND BITMAP_FIRST_WORD_MASK start) })"

definition slow_find_first_bit :: "bitmap \<Rightarrow> u64 \<Rightarrow> u64 option" where
  "slow_find_first_bit addr sz = FIND_FIRST_BIT (word_at addr) sz 0"

definition slow_find_first_and_bit :: "bitmap \<Rightarrow> bitmap \<Rightarrow> u64 \<Rightarrow> u64 option" where
  "slow_find_first_and_bit addr1 addr2 sz = FIND_FIRST_BIT (and_at addr1 addr2) sz 0"

definition slow_find_first_zero_bit :: "bitmap \<Rightarrow> u64 \<Rightarrow> u64 option" where
  "slow_find_first_zero_bit addr sz = FIND_FIRST_BIT (not_at addr) sz 0"

definition slow_find_next_bit :: "bitmap \<Rightarrow> u64 \<Rightarrow> u64 \<Rightarrow> u64 option" where
  "slow_find_next_bit addr nbits start = FIND_NEXT_BIT (word_at addr) nbits start"

definition slow_find_next_and_bit :: "bitmap \<Rightarrow> bitmap \<Rightarrow> u64 \<Rightarrow> u64 \<Rightarrow> u64 option" where
  "slow_find_next_and_bit addr1 addr2 nbits start = FIND_NEXT_BIT (and_at addr1 addr2) nbits start"

definition slow_find_next_zero_bit :: "bitmap \<Rightarrow> u64 \<Rightarrow> u64 \<Rightarrow> u64 option" where
  "slow_find_next_zero_bit addr nbits start = FIND_NEXT_BIT (not_at addr) nbits start"

definition GENMASK :: "u64 \<Rightarrow> u64 \<Rightarrow> u64" where
  "GENMASK hi lo = (- 1 - push_bit (unat lo) 1 + 1) AND drop_bit (unat (64 - 1 - hi)) (- 1)"

definition small_const_nbits :: "bool \<Rightarrow> u64 \<Rightarrow> bool" where
  "small_const_nbits const nbits \<longleftrightarrow> const \<and> nbits \<le> 64 \<and> nbits > 0"

definition find_next_bit :: "bool \<Rightarrow> bitmap \<Rightarrow> u64 \<Rightarrow> u64 \<Rightarrow> u64 option" where
  "find_next_bit const addr sz offset =
     (if small_const_nbits const sz then
        (if offset \<ge> sz then Some sz
         else do {
           a \<leftarrow> word_at addr 0;
           let val = a AND GENMASK (sz - 1) offset;
           Some (if val \<noteq> 0 then of_int (ffs_word val) else sz) })
      else slow_find_next_bit addr sz offset)"

definition find_next_and_bit :: "bool \<Rightarrow> bitmap \<Rightarrow> bitmap \<Rightarrow> u64 \<Rightarrow> u64 \<Rightarrow> u64 option" where
  "find_next_and_bit const addr1 addr2 sz offset =
     (if small_const_nbits const sz then
        (if offset \<ge> sz then Some sz
         else do {
           a \<leftarrow> and_at addr1 addr2 0;
           let val = a AND GENMASK (sz - 1) offset;
           Some (if val \<noteq> 0 then of_int (ffs_word val) else sz) })
      else slow_find_next_and_bit addr1 addr2 sz offset)"

definition find_next_zero_bit :: "bool \<Rightarrow> bitmap \<Rightarrow> u64 \<Rightarrow> u64 \<Rightarrow> u64 option" where
  "find_next_zero_bit const addr sz offset =
     (if small_const_nbits const sz then
        (if offset \<ge> sz then Some sz
         else do {
           a \<leftarrow> word_at addr 0;
           let val = a OR NOT (GENMASK (sz - 1) offset);
           Some (if val = - 1 then sz else of_int (ffz val)) })
      else slow_find_next_zero_bit addr sz offset)"

definition find_first_bit :: "bool \<Rightarrow> bitmap \<Rightarrow> u64 \<Rightarrow> u64 option" where
  "find_first_bit const addr sz =
     (if small_const_nbits const sz then do {
        a \<leftarrow> word_at addr 0;
        let val = a AND GENMASK (sz - 1) 0;
        Some (if val \<noteq> 0 then of_int (ffs_word val) else sz) }
      else slow_find_first_bit addr sz)"

definition find_first_and_bit :: "bool \<Rightarrow> bitmap \<Rightarrow> bitmap \<Rightarrow> u64 \<Rightarrow> u64 option" where
  "find_first_and_bit const addr1 addr2 sz =
     (if small_const_nbits const sz then do {
        a \<leftarrow> and_at addr1 addr2 0;
        let val = a AND GENMASK (sz - 1) 0;
        Some (if val \<noteq> 0 then of_int (ffs_word val) else sz) }
      else slow_find_first_and_bit addr1 addr2 sz)"

definition find_first_zero_bit :: "bool \<Rightarrow> bitmap \<Rightarrow> u64 \<Rightarrow> u64 option" where
  "find_first_zero_bit const addr sz =
     (if small_const_nbits const sz then do {
        a \<leftarrow> word_at addr 0;
        let val = a OR NOT (GENMASK (sz - 1) 0);
        Some (if val = - 1 then sz else of_int (ffz val)) }
      else slow_find_first_zero_bit addr sz)"

subsection \<open>Operations on whole bitmaps\<close>

definition read_word :: "bitmap \<Rightarrow> nat \<Rightarrow> u64 option" where
  "read_word bm k = (if k < length bm then Some (bm ! k) else None)"

definition write_word :: "bitmap \<Rightarrow> nat \<Rightarrow> u64 \<Rightarrow> bitmap option" where
  "write_word bm k v = (if k < length bm then Some (bm[k := v]) else None)"

text \<open>The number of full words, and whether bits remain; a negative size becomes a huge unsigned limit.\<close>

definition word_limit :: "int \<Rightarrow> nat" where
  "word_limit bits = unat (word_of_int (bits sdiv 64) :: u32)"

fun weight_loop :: "bool \<Rightarrow> bitmap \<Rightarrow> nat \<Rightarrow> nat \<Rightarrow> u32 \<Rightarrow> u32 option" where
  "weight_loop fast bm k 0 w = Some w"
| "weight_loop fast bm k (Suc n) w =
     do { v \<leftarrow> read_word bm k; weight_loop fast bm (k + 1) n (w + ucast (hweight_long fast v)) }"

definition slow_bitmap_weight :: "bool \<Rightarrow> bitmap \<Rightarrow> int \<Rightarrow> u32 option" where
  "slow_bitmap_weight fast bm bits =
     do {
       let lim = word_limit bits;
       w \<leftarrow> weight_loop fast bm 0 lim 0;
       if bits smod 64 \<noteq> 0 then do {
         v \<leftarrow> read_word bm lim;
         Some (w + ucast (hweight_long fast (v AND BITMAP_LAST_WORD_MASK bits))) }
       else Some w }"

definition BITS_TO_LONGS :: "u64 \<Rightarrow> u64" where
  "BITS_TO_LONGS nr = (nr + 64 - 1) div 64"

text \<open>The destination may be one of the operands: all three are arrays of one memory.\<close>

record bitmaps =
  dst_bm :: bitmap
  src1 :: bitmap
  src2 :: bitmap
  alias1 :: bool
  alias2 :: bool

definition get1 :: "bitmaps \<Rightarrow> bitmap" where
  "get1 b = (if alias1 b then dst_bm b else src1 b)"

definition get2 :: "bitmaps \<Rightarrow> bitmap" where
  "get2 b = (if alias2 b then dst_bm b else src2 b)"

definition store :: "nat \<Rightarrow> u64 \<Rightarrow> bitmaps \<Rightarrow> bitmaps option" where
  "store k v b = do { d \<leftarrow> write_word (dst_bm b) k v; Some (b\<lparr>dst_bm := d\<rparr>) }"

fun or_loop :: "nat \<Rightarrow> nat \<Rightarrow> bitmaps \<Rightarrow> bitmaps option" where
  "or_loop k 0 b = Some b"
| "or_loop k (Suc n) b =
     do {
       v1 \<leftarrow> read_word (get1 b) k; v2 \<leftarrow> read_word (get2 b) k;
       b \<leftarrow> store k (v1 OR v2) b;
       or_loop (k + 1) n b }"

definition slow_bitmap_or :: "bitmaps \<Rightarrow> int \<Rightarrow> bitmaps option" where
  "slow_bitmap_or b bits =
     (let nr = sint (ucast (BITS_TO_LONGS (word_of_int bits)) :: 32 word)
      in or_loop 0 (nat nr) b)"

fun and_loop :: "nat \<Rightarrow> nat \<Rightarrow> u64 \<Rightarrow> bitmaps \<Rightarrow> (u64 \<times> bitmaps) option" where
  "and_loop k 0 result b = Some (result, b)"
| "and_loop k (Suc n) result b =
     do {
       v1 \<leftarrow> read_word (get1 b) k; v2 \<leftarrow> read_word (get2 b) k;
       b \<leftarrow> store k (v1 AND v2) b;
       and_loop (k + 1) n (result OR (v1 AND v2)) b }"

definition slow_bitmap_and :: "bitmaps \<Rightarrow> u32 \<Rightarrow> (bool \<times> bitmaps) option" where
  "slow_bitmap_and b bits =
     do {
       let lim = unat (bits div 64);
       (result, b) \<leftarrow> and_loop 0 lim 0 b;
       if bits mod 64 \<noteq> 0 then do {
         v1 \<leftarrow> read_word (get1 b) lim; v2 \<leftarrow> read_word (get2 b) lim;
         let v = v1 AND v2 AND BITMAP_LAST_WORD_MASK (uint bits);
         b \<leftarrow> store lim v b;
         Some (result OR v \<noteq> 0, b) }
       else Some (result \<noteq> 0, b) }"

fun equal_loop :: "bitmap \<Rightarrow> bitmap \<Rightarrow> nat \<Rightarrow> nat \<Rightarrow> bool option" where
  "equal_loop a b k 0 = Some True"
| "equal_loop a b k (Suc n) =
     do { v1 \<leftarrow> read_word a k; v2 \<leftarrow> read_word b k; if v1 \<noteq> v2 then Some False else equal_loop a b (k + 1) n }"

definition slow_bitmap_equal :: "bitmap \<Rightarrow> bitmap \<Rightarrow> u32 \<Rightarrow> bool option" where
  "slow_bitmap_equal a b bits =
     do {
       let lim = unat (bits div 64);
       same \<leftarrow> equal_loop a b 0 lim;
       if \<not> same then Some False
       else if bits mod 64 \<noteq> 0 then do {
         v1 \<leftarrow> read_word a lim; v2 \<leftarrow> read_word b lim;
         Some ((v1 XOR v2) AND BITMAP_LAST_WORD_MASK (uint bits) = 0) }
       else Some True }"

fun intersects_loop :: "bitmap \<Rightarrow> bitmap \<Rightarrow> nat \<Rightarrow> nat \<Rightarrow> bool option" where
  "intersects_loop a b k 0 = Some False"
| "intersects_loop a b k (Suc n) =
     do { v1 \<leftarrow> read_word a k; v2 \<leftarrow> read_word b k; if v1 AND v2 \<noteq> 0 then Some True else intersects_loop a b (k + 1) n }"

definition slow_bitmap_intersects :: "bitmap \<Rightarrow> bitmap \<Rightarrow> u32 \<Rightarrow> bool option" where
  "slow_bitmap_intersects a b bits =
     do {
       let lim = unat (bits div 64);
       found \<leftarrow> intersects_loop a b 0 lim;
       if found then Some True
       else if bits mod 64 \<noteq> 0 then do {
         v1 \<leftarrow> read_word a lim; v2 \<leftarrow> read_word b lim;
         Some ((v1 AND v2) AND BITMAP_LAST_WORD_MASK (uint bits) \<noteq> 0) }
       else Some False }"

subsection \<open>The inline functions\<close>

definition set_words :: "bitmap \<Rightarrow> nat \<Rightarrow> u64 \<Rightarrow> bitmap option" where
  "set_words bm n v = (if n \<le> length bm then Some (replicate n v @ drop n bm) else None)"

definition bitmap_zero :: "bool \<Rightarrow> bitmap \<Rightarrow> u32 \<Rightarrow> bitmap option" where
  "bitmap_zero const dst nbits =
     (if small_const_nbits const (ucast nbits) then write_word dst 0 0
      else set_words dst (unat (BITS_TO_LONGS (ucast nbits))) 0)"

text \<open>For a size of 0 the number of words is 0, and one less than it wraps.\<close>

definition bitmap_fill :: "bool \<Rightarrow> bitmap \<Rightarrow> u32 \<Rightarrow> bitmap option" where
  "bitmap_fill const dst nbits =
     do {
       let nlongs = (ucast (BITS_TO_LONGS (ucast nbits)) :: u32);
       dst \<leftarrow> (if small_const_nbits const (ucast nbits) then Some dst
               else let len = (ucast ((ucast (nlongs - 1) :: u64) * 8) :: u32) in set_words dst (unat len div 8) (- 1));
       write_word dst (unat (nlongs - 1)) (BITMAP_LAST_WORD_MASK (uint nbits)) }"

definition bitmap_empty :: "bool \<Rightarrow> bitmap \<Rightarrow> u32 \<Rightarrow> bool option" where
  "bitmap_empty const src nbits =
     (if small_const_nbits const (ucast nbits)
      then do { a \<leftarrow> read_word src 0; Some (a AND BITMAP_LAST_WORD_MASK (uint nbits) = 0) }
      else do { r \<leftarrow> find_first_bit const src (ucast nbits); Some (r = ucast nbits) })"

definition bitmap_full :: "bool \<Rightarrow> bitmap \<Rightarrow> u32 \<Rightarrow> bool option" where
  "bitmap_full const src nbits =
     (if small_const_nbits const (ucast nbits)
      then do { a \<leftarrow> read_word src 0; Some (NOT a AND BITMAP_LAST_WORD_MASK (uint nbits) = 0) }
      else do { r \<leftarrow> find_first_zero_bit const src (ucast nbits); Some (r = ucast nbits) })"

definition bitmap_weight :: "bool \<Rightarrow> bool \<Rightarrow> bitmap \<Rightarrow> u32 \<Rightarrow> u32 option" where
  "bitmap_weight fast const src nbits =
     (if small_const_nbits const (ucast nbits)
      then do { a \<leftarrow> read_word src 0; Some (ucast (hweight_long fast (a AND BITMAP_LAST_WORD_MASK (uint nbits)))) }
      else slow_bitmap_weight fast src (sint nbits))"

definition bitmap_or :: "bool \<Rightarrow> bitmaps \<Rightarrow> u32 \<Rightarrow> bitmaps option" where
  "bitmap_or const b nbits =
     (if small_const_nbits const (ucast nbits)
      then do { v1 \<leftarrow> read_word (get1 b) 0; v2 \<leftarrow> read_word (get2 b) 0; store 0 (v1 OR v2) b }
      else slow_bitmap_or b (sint nbits))"

definition bitmap_and :: "bool \<Rightarrow> bitmaps \<Rightarrow> u32 \<Rightarrow> (bool \<times> bitmaps) option" where
  "bitmap_and const b nbits =
     (if small_const_nbits const (ucast nbits)
      then do {
        v1 \<leftarrow> read_word (get1 b) 0; v2 \<leftarrow> read_word (get2 b) 0;
        let v = v1 AND v2 AND BITMAP_LAST_WORD_MASK (uint nbits);
        b \<leftarrow> store 0 v b;
        Some (v \<noteq> 0, b) }
      else slow_bitmap_and b nbits)"

text \<open>The bytes of a bitmap in the memory of a little-endian machine.\<close>

definition byte_at :: "bitmap \<Rightarrow> nat \<Rightarrow> u8" where
  "byte_at bm j = ucast (drop_bit (8 * (j mod 8)) (bm ! (j div 8)))"

definition bytes_equal :: "bitmap \<Rightarrow> bitmap \<Rightarrow> nat \<Rightarrow> bool option" where
  "bytes_equal a b n =
     (if n \<le> 8 * length a \<and> n \<le> 8 * length b then Some (list_all (\<lambda>j. byte_at a j = byte_at b j) [0..<n]) else None)"

definition bitmap_equal :: "bool \<Rightarrow> bool \<Rightarrow> bitmap \<Rightarrow> bitmap \<Rightarrow> u32 \<Rightarrow> bool option" where
  "bitmap_equal const const_mask a b nbits =
     (if small_const_nbits const (ucast nbits)
      then do { v1 \<leftarrow> read_word a 0; v2 \<leftarrow> read_word b 0; Some ((v1 XOR v2) AND BITMAP_LAST_WORD_MASK (uint nbits) = 0) }
      else if const_mask \<and> nbits AND 7 = 0 then bytes_equal a b (unat (nbits div 8))
      else slow_bitmap_equal a b nbits)"

definition bitmap_intersects :: "bool \<Rightarrow> bitmap \<Rightarrow> bitmap \<Rightarrow> u32 \<Rightarrow> bool option" where
  "bitmap_intersects const a b nbits =
     (if small_const_nbits const (ucast nbits)
      then do { v1 \<leftarrow> read_word a 0; v2 \<leftarrow> read_word b 0; Some ((v1 AND v2) AND BITMAP_LAST_WORD_MASK (uint nbits) \<noteq> 0) }
      else slow_bitmap_intersects a b nbits)"

subsection \<open>Printing\<close>

text \<open>
  The part of a buffer that is written, and the return value so far. \<open>scnprintf\<close> of the tools
  library returns the signed room minus one when the text does not fit, which is -1 when there is no
  room at all; the next call then writes before the buffer.
\<close>

type_synonym printed = "u64 \<times> string"

definition scnprintf :: "u64 \<Rightarrow> string \<Rightarrow> printed \<Rightarrow> printed option" where
  "scnprintf sz txt w =
     (case w of (ret, out) \<Rightarrow>
        let room = sz - ret;
          i = (if int (length txt) \<ge> sint room then scast (ucast (room - 1) :: u32) else of_nat (length txt))
        in if room \<noteq> 0 \<and> ret \<noteq> of_nat (length out) then None
           else Some (ret + i, out @ take (unat room - 1) txt))"

text \<open>The conversion \<open>%d\<close>.\<close>

definition show_d :: "u32 \<Rightarrow> string" where
  "show_d x = (if sint x < 0 then ''-'' @ decimal (nat (- sint x)) else decimal (nat (sint x)))"

partial_function (option) scnprintf_loop ::
  "bitmap \<Rightarrow> u32 \<Rightarrow> u64 \<Rightarrow> u32 \<Rightarrow> u32 \<Rightarrow> bool \<Rightarrow> printed \<Rightarrow> printed option" where
  [code]: "scnprintf_loop bm nbits sz cur rbot first w =
     (if cur < nbits then do {
        let rtop = cur;
        c \<leftarrow> slow_find_next_bit bm (ucast nbits) (ucast (cur + 1));
        let cur = ucast c;
        if cur < nbits \<and> cur \<le> rtop + 1 then scnprintf_loop bm nbits sz cur rbot first w
        else do {
          w \<leftarrow> (if first then Some w else scnprintf sz '','' w);
          w \<leftarrow> scnprintf sz (show_d rbot) w;
          w \<leftarrow> (if rbot < rtop then scnprintf sz (''-'' @ show_d rtop) w else Some w);
          scnprintf_loop bm nbits sz cur cur False w } }
      else Some w)"

definition bitmap_scnprintf :: "bitmap \<Rightarrow> u32 \<Rightarrow> u64 \<Rightarrow> printed option" where
  "bitmap_scnprintf bm nbits sz =
     do { c \<leftarrow> slow_find_first_bit bm (ucast nbits); scnprintf_loop bm nbits sz (ucast c) (ucast c) True (0, []) }"

end
