(* ===== verification/Bitmap_Correct.thy ===== *)
theory Bitmap_Correct
  imports Bitmap
begin

text \<open>
  Bitmaps are sets of numbers: what the searches of \<^verbatim>\<open>tools/lib/find_bit.c\<close> return, that the fast paths for
  small constant sizes agree with the loops, that the operations of \<^verbatim>\<open>tools/lib/bitmap.c\<close> are the operations on
  sets, and what \<open>bitmap_scnprintf\<close> prints.
\<close>

subsection \<open>Searching\<close>

text \<open>The next member of \<open>B\<close> from \<open>start\<close> on and below \<open>n\<close>, or \<open>n\<close>.\<close>

definition next_in :: "nat set \<Rightarrow> nat \<Rightarrow> nat \<Rightarrow> nat \<Rightarrow> bool" where
  "next_in B start n r \<longleftrightarrow>
     (\<forall>i. start \<le> i \<and> i < r \<and> i < n \<longrightarrow> i \<notin> B) \<and> (r = n \<or> start \<le> r \<and> r < n \<and> r \<in> B)"

lemma next_in_unique: "next_in B start n r \<Longrightarrow> next_in B start n r' \<Longrightarrow> r = r'"
  unfolding next_in_def by (metis linorder_neqE_nat)

lemma next_in_none: "n \<le> start \<Longrightarrow> next_in B start n n"
  by (auto simp: next_in_def)

lemma unat_low_bits: "unat (w AND 63) = unat w mod 64" for w :: u64
proof -
  have "(63 :: u64) = mask 6" by (simp add: mask_eq_exp_minus_1)
  then show ?thesis by (simp only: take_bit_eq_mask [symmetric]) (simp add: take_bit_eq_mod unat_mod_distrib)
qed

text \<open>Words that come from a set; the array is not so long that its bits cannot be numbered.\<close>

locale bit_source =
  fixes fetch :: fetch and len :: nat and B :: "nat set"
  assumes short: "64 * len < 2 ^ 64"
    and fetch_bits: "unat idx < len \<Longrightarrow> \<exists>w. fetch idx = Some w \<and> (\<forall>j < 64. bit w j \<longleftrightarrow> 64 * unat idx + j \<in> B)"
begin

lemma unat_index:
  fixes idx :: u64
  assumes "unat idx \<le> len"
  shows "unat (idx * 64) = 64 * unat idx"
proof -
  have "64 * unat idx \<le> 64 * len" using assms by simp
  then show ?thesis using short by (simp add: unat_word_ariths)
qed

lemma unat_next:
  fixes idx :: u64
  assumes "unat idx < len"
  shows "unat (idx + 1) = unat idx + 1" "unat ((idx + 1) * 64) = 64 * unat idx + 64"
proof -
  show plus: "unat (idx + 1) = unat idx + 1" using assms short by (simp add: unat_word_ariths)
  show "unat ((idx + 1) * 64) = 64 * unat idx + 64" using unat_index [of "idx + 1"] assms plus by simp
qed

lemma unat_found:
  fixes idx :: u64
  assumes "unat idx < len" "j < 64"
  shows "unat (idx * 64 + of_int (int j)) = 64 * unat idx + j"
proof -
  have "64 * unat idx + j < 64 * len" using assms by linarith
  then have "64 * unat idx + j < 2 ^ 64" using short by simp
  moreover have "unat (of_nat j :: u64) = j" using assms(2) by (simp add: unsigned_of_nat take_bit_nat_eq_self)
  ultimately show ?thesis using unat_index [of idx] assms(1) by (simp add: unat_word_ariths)
qed

lemma found:
  fixes idx sz :: u64
  assumes "unat idx < len" "tmp \<noteq> 0" "\<And>j. j < 64 \<Longrightarrow> bit tmp j \<longleftrightarrow> 64 * unat idx + j \<in> B \<and> start \<le> 64 * unat idx + j"
    and "\<And>i. start \<le> i \<Longrightarrow> i < 64 * unat idx \<Longrightarrow> i \<notin> B"
  shows "next_in B start (unat sz) (unat (min (idx * 64 + of_int (ffs_word tmp)) sz))"
proof -
  obtain j where j: "j < 64" "lowest tmp j" using lowest_exists [OF assms(2)] by auto
  have u: "unat (idx * 64 + of_int (ffs_word tmp)) = 64 * unat idx + j"
    unfolding ffs_word_lowest [OF j(2)] by (rule unat_found [OF assms(1) j(1)])
  have "bit tmp j" using j(2) by (simp add: lowest_def)
  then have in_B: "64 * unat idx + j \<in> B" "start \<le> 64 * unat idx + j" using assms(3) [OF j(1)] by auto
  have "i \<notin> B" if "start \<le> i" "i < 64 * unat idx + j" for i
  proof (cases "i < 64 * unat idx")
    case False
    then have "\<not> bit tmp (i - 64 * unat idx)" using that(2) j by (auto simp: lowest_def)
    then show ?thesis using assms(3) [of "i - 64 * unat idx"] False that j(1) by auto
  qed (use assms(4) that in blast)
  then show ?thesis using in_B by (auto simp: next_in_def unat_min u)
qed

lemma find_next_loop_next:
  assumes "unat idx < len" "64 * unat idx < unat sz" "unat sz \<le> 64 * len"
    and "\<And>j. j < 64 \<Longrightarrow> bit tmp j \<longleftrightarrow> 64 * unat idx + j \<in> B \<and> start \<le> 64 * unat idx + j"
    and "start < 64 * unat idx + 64" "\<And>i. start \<le> i \<Longrightarrow> i < 64 * unat idx \<Longrightarrow> i \<notin> B"
  shows "\<exists>r. find_next_loop fetch sz idx tmp = Some r \<and> next_in B start (unat sz) (unat r)"
  using assms
proof (induction "len - unat idx" arbitrary: idx tmp rule: less_induct)
  case less
  show ?case
  proof (cases "tmp = 0")
    case False
    then show ?thesis using found [OF less.prems(1) False less.prems(4,6)] by (simp add: find_next_loop.simps)
  next
    case True
    have none: "i \<notin> B" if "start \<le> i" "i < 64 * unat idx + 64" for i
    proof (cases "i < 64 * unat idx")
      case False
      then show ?thesis using less.prems(4) [of "i - 64 * unat idx"] True that by auto
    qed (use less.prems(6) that in blast)
    note step = unat_next [OF less.prems(1)]
    show ?thesis
    proof (cases "(idx + 1) * 64 \<ge> sz")
      case stop: True
      then have "unat sz \<le> 64 * unat idx + 64" unfolding word_le_nat_alt step(2) .
      then show ?thesis using True stop none by (auto simp: find_next_loop.simps next_in_def)
    next
      case False
      then have more: "64 * unat idx + 64 < unat sz" unfolding word_le_nat_alt step(2) by simp
      then have in_range: "unat (idx + 1) < len" using less.prems(3) step by linarith
      obtain w where w: "fetch (idx + 1) = Some w" "\<forall>j < 64. bit w j \<longleftrightarrow> 64 * unat (idx + 1) + j \<in> B"
        using fetch_bits [OF in_range] by blast
      have "\<exists>r. find_next_loop fetch sz (idx + 1) w = Some r \<and> next_in B start (unat sz) (unat r)"
      proof (rule less.hyps)
        show "len - unat (idx + 1) < len - unat idx" using less.prems(1) step by simp
        show "bit w j \<longleftrightarrow> 64 * unat (idx + 1) + j \<in> B \<and> start \<le> 64 * unat (idx + 1) + j" if "j < 64" for j
          using w(2) that less.prems(5) step by auto
      qed (use in_range more less.prems(3,5) none step in auto)
      then show ?thesis using True False w(1) by (simp add: find_next_loop.simps)
    qed
  qed
qed

lemma FIND_NEXT_BIT_next:
  assumes "unat sz \<le> 64 * len"
  shows "\<exists>r. FIND_NEXT_BIT fetch sz start = Some r \<and> next_in B (unat start) (unat sz) (unat r)"
proof (cases "start \<ge> sz")
  case True
  then show ?thesis by (simp add: FIND_NEXT_BIT_def next_in_none word_le_nat_alt)
next
  case False
  let ?idx = "start div 64"
  have idx: "unat ?idx = unat start div 64" by (simp add: unat_div_distrib)
  have lt: "unat start < unat sz" using False by (simp add: word_le_nat_alt)
  then have "unat ?idx < len" using assms idx by simp
  then obtain w where w: "fetch ?idx = Some w" "\<forall>j < 64. bit w j \<longleftrightarrow> 64 * unat ?idx + j \<in> B" using fetch_bits by blast
  have off: "unat (start AND 63) = unat start mod 64" by (rule unat_low_bits)
  let ?t = "w AND BITMAP_FIRST_WORD_MASK start"
  have "\<exists>r. find_next_loop fetch sz ?idx ?t = Some r \<and> next_in B (unat start) (unat sz) (unat r)"
  proof (rule find_next_loop_next)
    show "bit ?t j \<longleftrightarrow> 64 * unat ?idx + j \<in> B \<and> unat start \<le> 64 * unat ?idx + j" if "j < 64" for j
    proof -
      have "unat start \<le> 64 * unat ?idx + j \<longleftrightarrow> unat start mod 64 \<le> j"
        unfolding idx using mult_div_mod_eq [of 64 "unat start"] by linarith
      then show ?thesis
        using w(2) that by (simp add: BITMAP_FIRST_WORD_MASK_def bit_and_iff bit_not_iff bit_mask_iff off not_less)
    qed
    show "64 * unat ?idx < unat sz" "unat start < 64 * unat ?idx + 64"
      unfolding idx using lt mult_div_mod_eq [of 64 "unat start"] mod_less_divisor [of 64 "unat start"] by linarith+
    show "i \<notin> B" if "unat start \<le> i" "i < 64 * unat ?idx" for i
      using that mult_div_mod_eq [of 64 "unat start"] unfolding idx by linarith
  qed fact+
  then show ?thesis using False w(1) by (simp add: FIND_NEXT_BIT_def)
qed

lemma FIND_FIRST_BIT_next:
  assumes "unat idx \<le> len" "unat sz \<le> 64 * len" "\<And>i. i < 64 * unat idx \<Longrightarrow> i \<notin> B"
  shows "\<exists>r. FIND_FIRST_BIT fetch sz idx = Some r \<and> next_in B 0 (unat sz) (unat r)"
  using assms(1,3)
proof (induction "len - unat idx" arbitrary: idx rule: less_induct)
  case less
  show ?case
  proof (cases "idx * 64 < sz")
    case False
    then have "unat sz \<le> 64 * unat idx" by (simp add: word_less_nat_alt unat_index [OF less.prems(1)])
    then show ?thesis using False less.prems(2) by (auto simp: FIND_FIRST_BIT.simps next_in_def)
  next
    case True
    then have "64 * unat idx < unat sz" by (simp add: word_less_nat_alt unat_index [OF less.prems(1)])
    then have lt: "unat idx < len" using assms(2) by simp
    then obtain w where w: "fetch idx = Some w" "\<forall>j < 64. bit w j \<longleftrightarrow> 64 * unat idx + j \<in> B" using fetch_bits by blast
    show ?thesis
    proof (cases "w = 0")
      case False
      have "next_in B 0 (unat sz) (unat (min (idx * 64 + of_int (ffs_word w)) sz))"
        by (rule found [OF lt False]) (use w(2) less.prems(2) in auto)
      then show ?thesis using True False w(1) by (simp add: FIND_FIRST_BIT.simps)
    next
      case zero: True
      have "i \<notin> B" if "i < 64 * unat (idx + 1)" for i
      proof (cases "i < 64 * unat idx")
        case False
        then show ?thesis using w(2) [rule_format, of "i - 64 * unat idx"] zero that unat_next(1) [OF lt] by auto
      qed (use less.prems(2) in blast)
      then have "\<exists>r. FIND_FIRST_BIT fetch sz (idx + 1) = Some r \<and> next_in B 0 (unat sz) (unat r)"
        using less.hyps [of "idx + 1"] lt unat_next(1) [OF lt] by auto
      then show ?thesis using True zero w(1) by (simp add: FIND_FIRST_BIT.simps [of fetch sz idx])
    qed
  qed
qed

end

text \<open>The numbers in a bitmap.\<close>

definition bits :: "bitmap \<Rightarrow> nat set" where
  "bits bm = {i. i < 64 * length bm \<and> bit (bm ! (i div 64)) (i mod 64)}"

abbreviation known :: "nat \<Rightarrow> nat" where
  "known n \<equiv> min n (2 ^ 58 - 1)"

lemma bits_at: "k < length bm \<Longrightarrow> j < 64 \<Longrightarrow> 64 * k + j \<in> bits bm \<longleftrightarrow> bit (bm ! k) j"
  by (simp add: bits_def)

interpretation word_source: bit_source "word_at bm" "known (length bm)" "bits bm" for bm
proof
  show "64 * known (length bm) < 2 ^ 64" by simp
  fix idx :: u64
  assume "unat idx < known (length bm)"
  then show "\<exists>w. word_at bm idx = Some w \<and> (\<forall>j < 64. bit w j \<longleftrightarrow> 64 * unat idx + j \<in> bits bm)"
    by (simp add: word_at_def bits_at)
qed

interpretation and_source: bit_source "and_at bm1 bm2" "known (min (length bm1) (length bm2))" "bits bm1 \<inter> bits bm2" for bm1 bm2
proof
  show "64 * known (min (length bm1) (length bm2)) < 2 ^ 64" by simp
  fix idx :: u64
  assume "unat idx < known (min (length bm1) (length bm2))"
  then show "\<exists>w. and_at bm1 bm2 idx = Some w \<and> (\<forall>j < 64. bit w j \<longleftrightarrow> 64 * unat idx + j \<in> bits bm1 \<inter> bits bm2)"
    by (simp add: and_at_def word_at_def bits_at bit_and_iff)
qed

interpretation zero_source: bit_source "not_at bm" "known (length bm)" "- bits bm" for bm
proof
  show "64 * known (length bm) < 2 ^ 64" by simp
  fix idx :: u64
  assume "unat idx < known (length bm)"
  then show "\<exists>w. not_at bm idx = Some w \<and> (\<forall>j < 64. bit w j \<longleftrightarrow> 64 * unat idx + j \<in> - bits bm)"
    by (simp add: not_at_def word_at_def bits_at bit_not_iff)
qed

subsection \<open>Small sizes\<close>

lemma bit_GENMASK:
  assumes "unat hi < 64" "unat lo < 64" "j < 64"
  shows "bit (GENMASK hi lo) j \<longleftrightarrow> unat lo \<le> j \<and> j \<le> unat hi"
proof -
  have "(- 1 - push_bit (unat lo) 1 + 1 :: u64) = push_bit (unat lo) (- 1)"
    by (simp add: push_bit_eq_mult)
  moreover have "unat (64 - 1 - hi) = 63 - unat hi"
    using assms(1) by (simp add: unat_sub word_le_nat_alt)
  ultimately show ?thesis
    using assms by (simp add: GENMASK_def bit_and_iff bit_not_iff bit_mask_iff bit_drop_bit_eq not_less) linarith
qed

lemma small_next:
  assumes "0 < unat sz" "unat sz \<le> 64" "unat start < unat sz" "\<And>j. j < 64 \<Longrightarrow> bit a j \<longleftrightarrow> j \<in> B"
  shows "next_in B (unat start) (unat sz)
    (unat (if a AND GENMASK (sz - 1) start \<noteq> 0 then of_int (ffs_word (a AND GENMASK (sz - 1) start)) else sz))"
proof -
  let ?v = "a AND GENMASK (sz - 1) start"
  have hi: "unat (sz - 1) = unat sz - 1" using assms(1) by (simp add: unat_sub word_le_nat_alt)
  have v: "bit ?v j \<longleftrightarrow> j \<in> B \<and> unat start \<le> j \<and> j < unat sz" if "j < 64" for j
    using bit_GENMASK [of "sz - 1" start j] assms that by (auto simp: bit_and_iff hi)
  show ?thesis
  proof (cases "?v = 0")
    case True
    then have "j \<notin> B" if "unat start \<le> j" "j < unat sz" for j using v [of j] that assms(2) by auto
    then show ?thesis using True by (simp add: next_in_def)
  next
    case False
    obtain n where n: "n < 64" "lowest ?v n" using lowest_exists [OF False] by auto
    then have "unat (of_int (ffs_word ?v) :: u64) = n"
      by (simp add: ffs_word_lowest unsigned_of_nat take_bit_nat_eq_self)
    then show ?thesis using False n v by (auto simp: next_in_def lowest_def)
  qed
qed

lemma small_zero:
  assumes "0 < unat sz" "unat sz \<le> 64" "unat start < unat sz" "\<And>j. j < 64 \<Longrightarrow> bit a j \<longleftrightarrow> j \<in> B"
  shows "next_in (- B) (unat start) (unat sz)
    (unat (if a OR NOT (GENMASK (sz - 1) start) = - 1 then sz else of_int (ffz (a OR NOT (GENMASK (sz - 1) start)))))"
proof -
  have "NOT (a OR NOT (GENMASK (sz - 1) start)) = NOT a AND GENMASK (sz - 1) start" by simp
  moreover have "a OR NOT (GENMASK (sz - 1) start) = - 1 \<longleftrightarrow> NOT a AND GENMASK (sz - 1) start = 0"
    by (metis calculation bit.compl_one bit.double_compl)
  ultimately show ?thesis
    using small_next [OF assms(1-3), of "NOT a" "- B"] assms(4) by (simp add: ffz_def bit_not_iff split: if_splits)
qed

lemma small_const_bounds: "small_const_nbits const sz \<Longrightarrow> 0 < unat sz \<and> unat sz \<le> 64"
  by (auto simp: small_const_nbits_def word_less_nat_alt word_le_nat_alt)

lemma word_0_bits: "0 < length bm \<Longrightarrow> j < 64 \<Longrightarrow> bit (bm ! 0) j \<longleftrightarrow> j \<in> bits bm"
  using bits_at [of 0 bm j] by simp

text \<open>The six searches, for a size within the bitmaps.\<close>

lemma find_next_bit_next:
  assumes "unat sz \<le> 64 * known (length bm)"
  shows "\<exists>r. find_next_bit const bm sz start = Some r \<and> next_in (bits bm) (unat start) (unat sz) (unat r)"
proof (cases "small_const_nbits const sz")
  case True
  note sz = small_const_bounds [OF True]
  then have "0 < length bm" using assms by (cases bm) auto
  then show ?thesis
    using True sz small_next [of sz start "bm ! 0" "bits bm"]
    by (auto simp: find_next_bit_def word_at_def word_0_bits next_in_none word_le_nat_alt Let_def)
qed (use word_source.FIND_NEXT_BIT_next [OF assms] in \<open>simp add: find_next_bit_def slow_find_next_bit_def\<close>)

lemma find_next_and_bit_next:
  assumes "unat sz \<le> 64 * known (min (length a) (length b))"
  shows "\<exists>r. find_next_and_bit const a b sz start = Some r \<and> next_in (bits a \<inter> bits b) (unat start) (unat sz) (unat r)"
proof (cases "small_const_nbits const sz")
  case True
  note sz = small_const_bounds [OF True]
  then have "0 < length a" "0 < length b" using assms by (cases a; cases b; auto)+
  then show ?thesis
    using True sz small_next [of sz start "a ! 0 AND b ! 0" "bits a \<inter> bits b"]
    by (auto simp: find_next_and_bit_def and_at_def word_at_def word_0_bits bit_and_iff next_in_none word_le_nat_alt Let_def)
qed (use and_source.FIND_NEXT_BIT_next [OF assms] in \<open>simp add: find_next_and_bit_def slow_find_next_and_bit_def\<close>)

lemma find_next_zero_bit_next:
  assumes "unat sz \<le> 64 * known (length bm)"
  shows "\<exists>r. find_next_zero_bit const bm sz start = Some r \<and> next_in (- bits bm) (unat start) (unat sz) (unat r)"
proof (cases "small_const_nbits const sz")
  case True
  note sz = small_const_bounds [OF True]
  then have "0 < length bm" using assms by (cases bm) auto
  then show ?thesis
    using True sz small_zero [of sz start "bm ! 0" "bits bm"]
    by (auto simp: find_next_zero_bit_def word_at_def word_0_bits next_in_none word_le_nat_alt Let_def)
qed (use zero_source.FIND_NEXT_BIT_next [OF assms] in \<open>simp add: find_next_zero_bit_def slow_find_next_zero_bit_def\<close>)

text \<open>The first bit is the next one from 0 on.\<close>

lemma find_first_bit_next:
  assumes "unat sz \<le> 64 * known (length bm)"
  shows "\<exists>r. find_first_bit const bm sz = Some r \<and> next_in (bits bm) 0 (unat sz) (unat r)"
proof (cases "small_const_nbits const sz")
  case True
  then have "find_first_bit const bm sz = find_next_bit const bm sz 0"
    using small_const_bounds [OF True] by (auto simp: find_first_bit_def find_next_bit_def word_le_nat_alt)
  then show ?thesis using find_next_bit_next [OF assms, of const 0] by simp
qed (use word_source.FIND_FIRST_BIT_next [OF _ assms, of 0] in \<open>simp add: find_first_bit_def slow_find_first_bit_def\<close>)

lemma find_first_and_bit_next:
  assumes "unat sz \<le> 64 * known (min (length a) (length b))"
  shows "\<exists>r. find_first_and_bit const a b sz = Some r \<and> next_in (bits a \<inter> bits b) 0 (unat sz) (unat r)"
proof (cases "small_const_nbits const sz")
  case True
  then have "find_first_and_bit const a b sz = find_next_and_bit const a b sz 0"
    using small_const_bounds [OF True] by (auto simp: find_first_and_bit_def find_next_and_bit_def word_le_nat_alt)
  then show ?thesis using find_next_and_bit_next [OF assms, of const 0] by simp
qed (use and_source.FIND_FIRST_BIT_next [OF _ assms, of 0] in \<open>simp add: find_first_and_bit_def slow_find_first_and_bit_def\<close>)

lemma find_first_zero_bit_next:
  assumes "unat sz \<le> 64 * known (length bm)"
  shows "\<exists>r. find_first_zero_bit const bm sz = Some r \<and> next_in (- bits bm) 0 (unat sz) (unat r)"
proof (cases "small_const_nbits const sz")
  case True
  then have "find_first_zero_bit const bm sz = find_next_zero_bit const bm sz 0"
    using small_const_bounds [OF True] by (auto simp: find_first_zero_bit_def find_next_zero_bit_def word_le_nat_alt)
  then show ?thesis using find_next_zero_bit_next [OF assms, of const 0] by simp
qed (use zero_source.FIND_FIRST_BIT_next [OF _ assms, of 0] in \<open>simp add: find_first_zero_bit_def slow_find_first_zero_bit_def\<close>)

text \<open>
  C23: The searches find the next bit. Each of the six functions returns, whether or not its size is
  a small constant, the number of the first bit from the start on and below the size that is in the
  bitmap, in both bitmaps, or not in the bitmap, and the size when there is none. The size must not
  exceed the bitmaps, which hold less than \<open>2 ^ 64\<close> bits; then nothing outside of them is read.
\<close>

theorem find_bit_next:
  assumes "unat sz \<le> 64 * length a" "unat sz \<le> 64 * length b" "64 * length a < 2 ^ 64" "64 * length b < 2 ^ 64"
  shows "(\<exists>r. find_next_bit const a sz start = Some r \<and> next_in (bits a) (unat start) (unat sz) (unat r)) \<and>
    (\<exists>r. find_next_and_bit const a b sz start = Some r \<and> next_in (bits a \<inter> bits b) (unat start) (unat sz) (unat r)) \<and>
    (\<exists>r. find_next_zero_bit const a sz start = Some r \<and> next_in (- bits a) (unat start) (unat sz) (unat r)) \<and>
    (\<exists>r. find_first_bit const a sz = Some r \<and> next_in (bits a) 0 (unat sz) (unat r)) \<and>
    (\<exists>r. find_first_and_bit const a b sz = Some r \<and> next_in (bits a \<inter> bits b) 0 (unat sz) (unat r)) \<and>
    (\<exists>r. find_first_zero_bit const a sz = Some r \<and> next_in (- bits a) 0 (unat sz) (unat r))"
proof -
  have len: "unat sz \<le> 64 * known (length a)" "unat sz \<le> 64 * known (min (length a) (length b))" using assms by auto
  show ?thesis
    by (intro conjI find_next_bit_next find_next_and_bit_next find_next_zero_bit_next find_first_bit_next
        find_first_and_bit_next find_first_zero_bit_next len)
qed

theorem find_bit_next_witness:
  "(\<exists>r. find_next_bit False [0, 0x10] 128 3 = Some r \<and> next_in (bits [0, 0x10]) 3 128 (unat r)) \<and> find_next_bit False [0, 0x10] 128 3 = Some 68"
proof -
  have "find_next_bit False [0, 0x10] 128 3 = Some 68" by code_simp
  then show ?thesis using find_bit_next [where a = "[0, 0x10]" and b = "[0, 0]" and sz = 128 and const = False and start = 3] by simp
qed

subsection \<open>Sets below a size\<close>

definition below :: "nat \<Rightarrow> bitmap \<Rightarrow> nat set" where
  "below n bm = {i \<in> bits bm. i < n}"

lemma bit_last_word_mask:
  assumes "n mod 64 \<noteq> 0" "j < 64"
  shows "bit (BITMAP_LAST_WORD_MASK (int n)) j \<longleftrightarrow> j < n mod 64"
proof -
  have "(- int n) AND 63 = (- int n) mod 64" using take_bit_eq_mask [of 6 "- int n"] by (simp add: mask_eq_exp_minus_1 take_bit_eq_mod)
  also have "\<dots> = 64 - int (n mod 64)" using assms(1) zmod_int [of n 64] by (simp add: zmod_zminus1_eq_if)
  finally have "nat (- int n AND 63) = 64 - n mod 64" by simp
  then show ?thesis using assms by (simp add: BITMAP_LAST_WORD_MASK_def bit_mask_iff)
qed

text \<open>The members below \<open>n\<close>: those in full words, and those in the low bits of the last one.\<close>

lemma below_iff:
  assumes "n \<le> 64 * length bm"
  shows "i \<in> below n bm \<longleftrightarrow>
    (i div 64 < n div 64 \<or> i div 64 = n div 64 \<and> i mod 64 < n mod 64) \<and> bit (bm ! (i div 64)) (i mod 64)"
proof -
  have digits: "i < n \<longleftrightarrow> a < c \<or> a = c \<and> b < d" if "i = 64 * a + b" "n = 64 * c + d" "b < 64" "d < 64" for a b c d
    using that by arith
  have "i < n \<longleftrightarrow> i div 64 < n div 64 \<or> i div 64 = n div 64 \<and> i mod 64 < n mod 64"
    by (rule digits) simp_all
  then show ?thesis using assms by (auto simp: below_def bits_def)
qed

lemma last_word_exists: "n \<le> 64 * length bm \<Longrightarrow> n mod 64 \<noteq> 0 \<Longrightarrow> n div 64 < length bm" for n :: nat
  by (metis le_neq_implies_less less_mult_imp_div_less mod_mult_self1_is_0 mult.commute)

lemma full_words_exist: "n \<le> 64 * length bm \<Longrightarrow> n div 64 \<le> length bm" for n :: nat
  by (metis div_le_mono nonzero_mult_div_cancel_left zero_neq_numeral)

subsection \<open>Operations on sets\<close>

lemma or_loop_words:
  assumes "k + n \<le> length (dst_bm b)" "k + n \<le> length (get1 b)" "k + n \<le> length (get2 b)"
  shows "\<exists>d. or_loop k n b = Some (b\<lparr>dst_bm := d\<rparr>) \<and> length d = length (dst_bm b) \<and>
    (\<forall>i < length d. d ! i = (if k \<le> i \<and> i < k + n then get1 b ! i OR get2 b ! i else dst_bm b ! i))"
  using assms
proof (induction n arbitrary: k b)
  case 0
  show ?case by (rule exI [of _ "dst_bm b"]) auto
next
  case (Suc n)
  define b' where "b' = b\<lparr>dst_bm := (dst_bm b)[k := get1 b ! k OR get2 b ! k]\<rparr>"
  have same: "get1 b' ! i = get1 b ! i" "get2 b' ! i = get2 b ! i" if "i \<noteq> k" for i
    using that by (simp_all add: get1_def get2_def b'_def)
  have "length (get1 b') = length (get1 b)" "length (get2 b') = length (get2 b)"
    by (simp_all add: get1_def get2_def b'_def)
  then have pre: "k + 1 + n \<le> length (dst_bm b')" "k + 1 + n \<le> length (get1 b')" "k + 1 + n \<le> length (get2 b')"
    using Suc.prems by (simp_all add: b'_def)
  obtain d where d: "or_loop (k + 1) n b' = Some (b'\<lparr>dst_bm := d\<rparr>)" "length d = length (dst_bm b')"
    "\<forall>i < length d. d ! i = (if k + 1 \<le> i \<and> i < k + 1 + n then get1 b' ! i OR get2 b' ! i else dst_bm b' ! i)"
    using Suc.IH [OF pre] by blast
  have "or_loop k (Suc n) b = or_loop (k + 1) n b'"
    using Suc.prems by (simp add: read_word_def store_def write_word_def b'_def)
  moreover have "d ! i = (if k \<le> i \<and> i < k + Suc n then get1 b ! i OR get2 b ! i else dst_bm b ! i)" if "i < length d" for i
    using d(2,3) that Suc.prems(1) same by (cases "i = k") (auto simp: b'_def)
  ultimately show ?case using d(1,2) by (auto simp: b'_def)
qed

lemma and_loop_words:
  assumes "k + n \<le> length (dst_bm b)" "k + n \<le> length (get1 b)" "k + n \<le> length (get2 b)"
  shows "\<exists>d r. and_loop k n result b = Some (r, b\<lparr>dst_bm := d\<rparr>) \<and> length d = length (dst_bm b) \<and>
    (\<forall>i < length d. d ! i = (if k \<le> i \<and> i < k + n then get1 b ! i AND get2 b ! i else dst_bm b ! i)) \<and>
    (r = 0 \<longleftrightarrow> result = 0 \<and> (\<forall>i. k \<le> i \<and> i < k + n \<longrightarrow> get1 b ! i AND get2 b ! i = 0))"
  using assms
proof (induction n arbitrary: k b result)
  case 0
  show ?case by (rule exI [of _ "dst_bm b"]) auto
next
  case (Suc n)
  let ?v = "get1 b ! k AND get2 b ! k"
  define b' where "b' = b\<lparr>dst_bm := (dst_bm b)[k := ?v]\<rparr>"
  have same: "get1 b' ! i = get1 b ! i" "get2 b' ! i = get2 b ! i" if "i \<noteq> k" for i
    using that by (simp_all add: get1_def get2_def b'_def)
  have "length (get1 b') = length (get1 b)" "length (get2 b') = length (get2 b)"
    by (simp_all add: get1_def get2_def b'_def)
  then have pre: "k + 1 + n \<le> length (dst_bm b')" "k + 1 + n \<le> length (get1 b')" "k + 1 + n \<le> length (get2 b')"
    using Suc.prems by (simp_all add: b'_def)
  obtain d r where d: "and_loop (k + 1) n (result OR ?v) b' = Some (r, b'\<lparr>dst_bm := d\<rparr>)" "length d = length (dst_bm b')"
    "\<forall>i < length d. d ! i = (if k + 1 \<le> i \<and> i < k + 1 + n then get1 b' ! i AND get2 b' ! i else dst_bm b' ! i)"
    "r = 0 \<longleftrightarrow> result OR ?v = 0 \<and> (\<forall>i. k + 1 \<le> i \<and> i < k + 1 + n \<longrightarrow> get1 b' ! i AND get2 b' ! i = 0)"
    using Suc.IH [OF pre, of "result OR ?v"] by blast
  have "and_loop k (Suc n) result b = and_loop (k + 1) n (result OR ?v) b'"
    using Suc.prems by (simp add: read_word_def store_def write_word_def b'_def)
  moreover have "d ! i = (if k \<le> i \<and> i < k + Suc n then get1 b ! i AND get2 b ! i else dst_bm b ! i)" if "i < length d" for i
    using d(2,3) that Suc.prems(1) same by (cases "i = k") (auto simp: b'_def)
  moreover have "r = 0 \<longleftrightarrow> result = 0 \<and> (\<forall>i. k \<le> i \<and> i < k + Suc n \<longrightarrow> get1 b ! i AND get2 b ! i = 0)"
    using d(4) same by (auto simp: or_eq_0_iff) (metis Suc_leI le_neq_implies_less)+
  ultimately show ?case using d(1,2) by (auto simp: b'_def)
qed

lemma range_Suc: "{k ..< k + Suc n} = insert k {Suc k ..< Suc k + n}"
  by auto

lemma equal_loop_words:
  "k + n \<le> length a \<Longrightarrow> k + n \<le> length b \<Longrightarrow> equal_loop a b k n = Some (\<forall>i \<in> {k ..< k + n}. a ! i = b ! i)"
proof (induction n arbitrary: k)
  case (Suc n)
  then show ?case unfolding range_Suc by (simp add: read_word_def)
qed simp

lemma intersects_loop_words:
  "k + n \<le> length a \<Longrightarrow> k + n \<le> length b \<Longrightarrow> intersects_loop a b k n = Some (\<exists>i \<in> {k ..< k + n}. a ! i AND b ! i \<noteq> 0)"
proof (induction n arbitrary: k)
  case (Suc n)
  then show ?case unfolding range_Suc by (simp add: read_word_def)
qed simp

text \<open>A word has no bits below the size of the last word exactly if its masked part is zero.\<close>

lemma masked_zero:
  assumes "n mod 64 \<noteq> 0"
  shows "w AND BITMAP_LAST_WORD_MASK (int n) = 0 \<longleftrightarrow> (\<forall>j < n mod 64. \<not> bit w j)"
proof
  assume z: "w AND BITMAP_LAST_WORD_MASK (int n) = 0"
  show "\<forall>j < n mod 64. \<not> bit w j"
  proof (intro allI impI)
    fix j assume j: "j < n mod 64"
    then have "j < 64" by (meson mod_less_divisor order_less_trans zero_less_numeral)
    then show "\<not> bit w j" using z j bit_last_word_mask [OF assms] bit_and_iff [of w "BITMAP_LAST_WORD_MASK (int n)" j] by simp
  qed
next
  assume "\<forall>j < n mod 64. \<not> bit w j"
  then show "w AND BITMAP_LAST_WORD_MASK (int n) = 0"
    using bit_last_word_mask [OF assms] by (auto simp: bit_eq_iff bit_and_iff)
qed

lemma word_zero_iff: "w = 0 \<longleftrightarrow> (\<forall>j < 64. \<not> bit w j)" for w :: u64
  by (auto simp: bit_eq_iff)

lemma word_eq_iff_bits: "v = w \<longleftrightarrow> (\<forall>j < 64. bit v j = bit w j)" for v w :: u64
  by (auto simp: bit_eq_iff)

text \<open>Quantifying over the members below a size means quantifying over full words and the low bits of the last one.\<close>

lemma below_all:
  "(\<forall>i < n. P (i div 64) (i mod 64)) \<longleftrightarrow> (\<forall>k < n div 64. \<forall>j < 64. P k j) \<and> (\<forall>j < n mod 64. P (n div 64) j)" for n :: nat
proof -
  have digits: "k * 64 + j < n \<longleftrightarrow> k < n div 64 \<or> k = n div 64 \<and> j < n mod 64" if "j < 64" for k j
  proof -
    have "x < n \<longleftrightarrow> k < c \<or> k = c \<and> j < d" if "x = k * 64 + j" "n = c * 64 + d" "d < 64" for x c d using that \<open>j < 64\<close> by arith
    from this [of "k * 64 + j" "n div 64" "n mod 64"] show ?thesis by simp
  qed
  show ?thesis
  proof (intro iffI conjI allI impI)
    assume all: "\<forall>i < n. P (i div 64) (i mod 64)"
    show "P k j" if "k < n div 64" "j < 64" for k j
      using all [rule_format, of "k * 64 + j"] digits [OF that(2), of k] that by simp
    show "P (n div 64) j" if "j < n mod 64" for j
    proof -
      have "j < 64" using that by (meson mod_less_divisor order_less_trans zero_less_numeral)
      then show ?thesis using all [rule_format, of "n div 64 * 64 + j"] digits [of j "n div 64"] that by simp
    qed
  next
    fix i
    assume all: "(\<forall>k < n div 64. \<forall>j < 64. P k j) \<and> (\<forall>j < n mod 64. P (n div 64) j)" and "i < n"
    then show "P (i div 64) (i mod 64)" using digits [of "i mod 64" "i div 64"] by auto
  qed
qed

lemma below_mem: "n \<le> 64 * length bm \<Longrightarrow> i \<in> below n bm \<longleftrightarrow> i < n \<and> bit (bm ! (i div 64)) (i mod 64)"
  by (auto simp: below_def bits_def)

lemma unsigned_digits: "unat (nbits div 64) = unat nbits div 64" "nbits mod 64 = 0 \<longleftrightarrow> unat nbits mod 64 = 0"
  for nbits :: u32
proof -
  show "unat (nbits div 64) = unat nbits div 64" by (simp add: unat_div_distrib)
  have "nbits mod 64 = 0 \<longleftrightarrow> unat (nbits mod 64) = 0" by (rule unat_eq_zero [symmetric])
  then show "nbits mod 64 = 0 \<longleftrightarrow> unat nbits mod 64 = 0" unfolding unat_mod_distrib by simp
qed

lemma uint_unat: "uint nbits = int (unat nbits)" for nbits :: u32
  by simp

lemma slow_equal_sets:
  assumes "unat nbits \<le> 64 * length a" "unat nbits \<le> 64 * length b"
  shows "slow_bitmap_equal a b nbits = Some (below (unat nbits) a = below (unat nbits) b)"
proof -
  let ?n = "unat nbits"
  have "below ?n a = below ?n b \<longleftrightarrow> (\<forall>i < ?n. bit (a ! (i div 64)) (i mod 64) = bit (b ! (i div 64)) (i mod 64))"
    unfolding set_eq_iff using below_mem [OF assms(1)] below_mem [OF assms(2)] by auto
  also have "\<dots> \<longleftrightarrow> (\<forall>k < ?n div 64. a ! k = b ! k) \<and> (\<forall>j < ?n mod 64. bit (a ! (?n div 64)) j = bit (b ! (?n div 64)) j)"
    unfolding below_all [of ?n "\<lambda>k j. bit (a ! k) j = bit (b ! k) j"] word_eq_iff_bits ..
  finally have sets: "below ?n a = below ?n b \<longleftrightarrow>
      (\<forall>k < ?n div 64. a ! k = b ! k) \<and> (\<forall>j < ?n mod 64. bit (a ! (?n div 64)) j = bit (b ! (?n div 64)) j)" .
  have loop: "equal_loop a b 0 (?n div 64) = Some (\<forall>k < ?n div 64. a ! k = b ! k)"
    using equal_loop_words [of 0 "?n div 64" a b] full_words_exist [OF assms(1)] full_words_exist [OF assms(2)]
    by (simp add: Ball_def)
  show ?thesis
  proof (cases "?n mod 64 = 0")
    case True
    then show ?thesis using loop sets by (simp add: slow_bitmap_equal_def unsigned_digits Let_def)
  next
    case False
    then have "(a ! (?n div 64) XOR b ! (?n div 64)) AND BITMAP_LAST_WORD_MASK (int ?n) = 0 \<longleftrightarrow>
        (\<forall>j < ?n mod 64. bit (a ! (?n div 64)) j = bit (b ! (?n div 64)) j)"
      unfolding masked_zero [OF False] by (simp add: bit_xor_iff)
    then show ?thesis
      using False loop sets last_word_exists [OF assms(1)] last_word_exists [OF assms(2)]
      by (simp add: slow_bitmap_equal_def unsigned_digits read_word_def Let_def)
  qed
qed

text \<open>Two bitmaps have no common member below a size exactly if no pair of words has, in the last word below the mask.\<close>

lemma disjoint_words:
  assumes "n \<le> 64 * length a" "n \<le> 64 * length b"
  shows "below n a \<inter> below n b = {} \<longleftrightarrow>
    (\<forall>k < n div 64. a ! k AND b ! k = 0) \<and> (\<forall>j < n mod 64. \<not> (bit (a ! (n div 64)) j \<and> bit (b ! (n div 64)) j))"
proof -
  have "below n a \<inter> below n b = {} \<longleftrightarrow> (\<forall>i < n. \<not> (bit (a ! (i div 64)) (i mod 64) \<and> bit (b ! (i div 64)) (i mod 64)))"
    using below_mem [OF assms(1)] below_mem [OF assms(2)] by auto
  also have "\<dots> \<longleftrightarrow> (\<forall>k < n div 64. \<forall>j < 64. \<not> (bit (a ! k) j \<and> bit (b ! k) j)) \<and>
      (\<forall>j < n mod 64. \<not> (bit (a ! (n div 64)) j \<and> bit (b ! (n div 64)) j))"
    by (rule below_all [of n "\<lambda>k j. \<not> (bit (a ! k) j \<and> bit (b ! k) j)"])
  finally show ?thesis unfolding word_zero_iff by (simp add: bit_and_iff)
qed

lemma slow_intersects_sets:
  assumes "unat nbits \<le> 64 * length a" "unat nbits \<le> 64 * length b"
  shows "slow_bitmap_intersects a b nbits = Some (below (unat nbits) a \<inter> below (unat nbits) b \<noteq> {})"
proof -
  let ?n = "unat nbits"
  note sets = disjoint_words [OF assms]
  have loop: "intersects_loop a b 0 (?n div 64) = Some (\<not> (\<forall>k < ?n div 64. a ! k AND b ! k = 0))"
    using intersects_loop_words [of 0 "?n div 64" a b] full_words_exist [OF assms(1)] full_words_exist [OF assms(2)]
    by (simp add: Bex_def)
  show ?thesis
  proof (cases "?n mod 64 = 0")
    case True
    then show ?thesis using loop sets by (simp add: slow_bitmap_intersects_def unsigned_digits Let_def)
  next
    case False
    then have "(a ! (?n div 64) AND b ! (?n div 64)) AND BITMAP_LAST_WORD_MASK (int ?n) = 0 \<longleftrightarrow>
        (\<forall>j < ?n mod 64. \<not> (bit (a ! (?n div 64)) j \<and> bit (b ! (?n div 64)) j))"
      unfolding masked_zero [OF False] by (simp add: bit_and_iff)
    then show ?thesis
      using False loop sets last_word_exists [OF assms(1)] last_word_exists [OF assms(2)]
      by (auto simp: slow_bitmap_intersects_def unsigned_digits read_word_def Let_def)
  qed
qed

definition fits :: "nat \<Rightarrow> bitmaps \<Rightarrow> bool" where
  "fits n b \<longleftrightarrow> n \<le> 64 * length (dst_bm b) \<and> n \<le> 64 * length (get1 b) \<and> n \<le> 64 * length (get2 b)"

lemma words_needed: "n \<le> 64 * m \<Longrightarrow> (n + 63) div 64 \<le> m" for n m :: nat
  by simp

lemma sint_small:
  fixes w :: u64
  assumes "unat w < 2 ^ 31"
  shows "sint (ucast w :: 32 word) = int (unat w)"
proof -
  have "int (unat w) < int (2 ^ 31)" using assms by (subst of_nat_less_iff)
  then have "uint w < 2 ^ 31" by simp
  then have "uint (ucast w :: 32 word) = uint w" by (simp add: unsigned_ucast_eq take_bit_int_eq_self)
  moreover have "- (2 ^ 31) \<le> uint w" by (rule order_trans [of _ 0]) simp_all
  ultimately show ?thesis using \<open>uint w < 2 ^ 31\<close> signed_take_bit_int_eq_self [of 31 "uint w"] by (simp add: sint_uint)
qed

lemma slow_or_sets:
  assumes "fits n b" "n < 2 ^ 31"
  shows "\<exists>b'. slow_bitmap_or b (int n) = Some b' \<and> below n (dst_bm b') = below n (get1 b) \<union> below n (get2 b)"
proof -
  have "unat (word_of_int (int n) + 64 - 1 :: u64) = n + 63" using assms(2) by (simp add: unat_word_ariths unsigned_of_nat take_bit_nat_eq_self)
  then have longs: "unat (BITS_TO_LONGS (word_of_int (int n))) = (n + 63) div 64"
    by (simp add: BITS_TO_LONGS_def unat_div_distrib)
  have small: "(n + 63) div 64 < 2 ^ 31" using assms(2) by simp
  have "sint (ucast (BITS_TO_LONGS (word_of_int (int n))) :: 32 word) = int ((n + 63) div 64)"
    by (rule sint_small [of "BITS_TO_LONGS (word_of_int (int n))", unfolded longs, OF small])
  then have nr: "nat (sint (ucast (BITS_TO_LONGS (word_of_int (int n))) :: 32 word)) = (n + 63) div 64" by simp
  have "0 + (n + 63) div 64 \<le> length (dst_bm b)" "0 + (n + 63) div 64 \<le> length (get1 b)" "0 + (n + 63) div 64 \<le> length (get2 b)"
    using assms(1) words_needed by (auto simp: fits_def)
  from or_loop_words [OF this] obtain d where d: "or_loop 0 ((n + 63) div 64) b = Some (b\<lparr>dst_bm := d\<rparr>)" "length d = length (dst_bm b)"
    "\<forall>i < length d. d ! i = (if i < (n + 63) div 64 then get1 b ! i OR get2 b ! i else dst_bm b ! i)" by auto
  have "i \<in> below n d \<longleftrightarrow> i \<in> below n (get1 b) \<union> below n (get2 b)" for i
  proof (cases "i < n")
    case True
    then have "i div 64 < (n + 63) div 64" "i div 64 < length d" using assms(1) d(2) by (auto simp: fits_def)
    then show ?thesis
      using True d(2,3) assms(1) below_mem [of n d i] below_mem [of n "get1 b" i] below_mem [of n "get2 b" i]
      by (auto simp: fits_def bit_or_iff)
  qed (simp add: below_def)
  then have "below n d = below n (get1 b) \<union> below n (get2 b)" by (intro set_eqI)
  then show ?thesis unfolding slow_bitmap_or_def Let_def nr d(1) by simp
qed

lemma slow_and_sets:
  assumes "fits (unat nbits) b"
  shows "\<exists>b'. slow_bitmap_and b nbits = Some (below (unat nbits) (get1 b) \<inter> below (unat nbits) (get2 b) \<noteq> {}, b') \<and>
    below (unat nbits) (dst_bm b') = below (unat nbits) (get1 b) \<inter> below (unat nbits) (get2 b)"
proof -
  let ?n = "unat nbits" and ?q = "unat nbits div 64"
  have lens: "?n \<le> 64 * length (dst_bm b)" "?n \<le> 64 * length (get1 b)" "?n \<le> 64 * length (get2 b)"
    using assms by (simp_all add: fits_def)
  have "\<exists>d r. and_loop 0 ?q 0 b = Some (r, b\<lparr>dst_bm := d\<rparr>) \<and> length d = length (dst_bm b) \<and>
    (\<forall>i < length d. d ! i = (if i < ?q then get1 b ! i AND get2 b ! i else dst_bm b ! i)) \<and>
    (r = 0 \<longleftrightarrow> (\<forall>i < ?q. get1 b ! i AND get2 b ! i = 0))"
    using and_loop_words [of 0 ?q b 0] full_words_exist [OF lens(1)] full_words_exist [OF lens(2)] full_words_exist [OF lens(3)] by simp
  then obtain d r where d: "and_loop 0 ?q 0 b = Some (r, b\<lparr>dst_bm := d\<rparr>)" "length d = length (dst_bm b)"
    "\<forall>i < length d. d ! i = (if i < ?q then get1 b ! i AND get2 b ! i else dst_bm b ! i)"
    "r = 0 \<longleftrightarrow> (\<forall>i < ?q. get1 b ! i AND get2 b ! i = 0)" by blast
  let ?b = "b\<lparr>dst_bm := d\<rparr>"
  note sets = disjoint_words [OF lens(2,3)]
  have mem: "i \<in> below ?n e \<longleftrightarrow> i \<in> below ?n (get1 b) \<inter> below ?n (get2 b)"
    if e: "length e = length d" "\<And>k. k < ?q \<Longrightarrow> e ! k = get1 b ! k AND get2 b ! k"
      "\<And>j. j < ?n mod 64 \<Longrightarrow> bit (e ! ?q) j \<longleftrightarrow> bit (get1 b ! ?q) j \<and> bit (get2 b ! ?q) j" for e i
  proof -
    have "?n \<le> 64 * length e" using e(1) d(2) lens(1) by simp
    then show ?thesis
      using e(2) [of "i div 64"] e(3) [of "i mod 64"] below_iff [of ?n e i] below_iff [OF lens(2), of i] below_iff [OF lens(3), of i]
      by (cases "i div 64 < ?q"; cases "i div 64 = ?q"; cases "i mod 64 < ?n mod 64") (simp_all add: bit_and_iff)
  qed
  have dq: "d ! k = get1 b ! k AND get2 b ! k" if "k < ?q" for k using d(2,3) that full_words_exist [OF lens(1)] by simp
  show ?thesis
  proof (cases "?n mod 64 = 0")
    case True
    then have "below ?n d = below ?n (get1 b) \<inter> below ?n (get2 b)" using mem [of d] dq by (intro set_eqI) simp
    moreover have "slow_bitmap_and b nbits = Some (r \<noteq> 0, ?b)"
      using True d(1) by (simp add: slow_bitmap_and_def unsigned_digits Let_def)
    ultimately show ?thesis using sets True d(4) by simp
  next
    case False
    have q: "?q < length d" using last_word_exists [OF lens(1) False] d(2) by simp
    have same: "get1 ?b ! ?q = get1 b ! ?q" "get2 ?b ! ?q = get2 b ! ?q" "?q < length (get1 ?b)" "?q < length (get2 ?b)"
      using d(2,3) q last_word_exists [OF lens(2) False] last_word_exists [OF lens(3) False] by (auto simp: get1_def get2_def)
    let ?v = "get1 b ! ?q AND get2 b ! ?q AND BITMAP_LAST_WORD_MASK (int ?n)"
    have v: "?v = 0 \<longleftrightarrow> (\<forall>j < ?n mod 64. \<not> (bit (get1 b ! ?q) j \<and> bit (get2 b ! ?q) j))"
      unfolding and.assoc [symmetric] masked_zero [OF False] by (simp add: bit_and_iff)
    have "slow_bitmap_and b nbits = Some (r OR ?v \<noteq> 0, b\<lparr>dst_bm := d[?q := ?v]\<rparr>)"
      using False d(1) q same by (simp add: slow_bitmap_and_def unsigned_digits Let_def read_word_def store_def write_word_def)
    moreover have "r OR ?v = 0 \<longleftrightarrow> below ?n (get1 b) \<inter> below ?n (get2 b) = {}"
      unfolding sets using d(4) v by (simp add: or_eq_0_iff)
    moreover have "below ?n (d[?q := ?v]) = below ?n (get1 b) \<inter> below ?n (get2 b)"
    proof (intro set_eqI mem)
      show "d[?q := ?v] ! k = get1 b ! k AND get2 b ! k" if "k < ?q" for k using dq that by simp
      show "bit (d[?q := ?v] ! ?q) j \<longleftrightarrow> bit (get1 b ! ?q) j \<and> bit (get2 b ! ?q) j" if "j < ?n mod 64" for j
      proof -
        have "j < 64" using that by (meson mod_less_divisor order_less_trans zero_less_numeral)
        then show ?thesis using q that bit_last_word_mask [OF False] by (simp add: bit_and_iff)
      qed
    qed simp
    ultimately show ?thesis by simp
  qed
qed

end
