(* ===== verification/Bitmap_Sets.thy ===== *)
theory Bitmap_Sets
  imports Bitmap_Correct
begin

text \<open>
  The inline functions of \<^verbatim>\<open>tools/include/linux/bitmap.h\<close> as operations on the set of the numbers below the size,
  on all their paths: the loops of \<^verbatim>\<open>tools/lib/bitmap.c\<close>, the single word of a small constant size, and the
  comparison of memory.
\<close>

subsection \<open>The number of members\<close>

lemma card_below_split:
  assumes "64 * k + r \<le> 64 * length bm" "r \<le> 64"
  shows "card (below (64 * k + r) bm) = card (below (64 * k) bm) + card {j. j < r \<and> bit (bm ! k) j}"
proof -
  let ?J = "{j. j < r \<and> bit (bm ! k) j}"
  have "i \<in> below (64 * k + r) bm \<longleftrightarrow> i \<in> below (64 * k) bm \<union> (\<lambda>j. 64 * k + j) ` ?J" for i
  proof (cases "i < 64 * k")
    case False
    then obtain j where j: "i = 64 * k + j" by (metis le_Suc_ex not_less)
    then show ?thesis using assms by (auto simp: below_def bits_def)
  qed (auto simp: below_def)
  then have "below (64 * k + r) bm = below (64 * k) bm \<union> (\<lambda>j. 64 * k + j) ` ?J" by (intro set_eqI)
  moreover have "below (64 * k) bm \<inter> (\<lambda>j. 64 * k + j) ` ?J = {}" by (auto simp: below_def)
  moreover have "finite (below m bm)" for m by (rule finite_subset [of _ "{..<m}"]) (auto simp: below_def)
  moreover have "finite ?J" by simp
  ultimately show ?thesis by (simp add: card_Un_disjoint card_image)
qed

lemma weight_word: "card {j. j < 64 \<and> bit w j} = weight w" for w :: u64
proof -
  have "{j. j < 64 \<and> bit w j} = {j. bit w j}" using bit_imp_le_length [of w] by auto
  then show ?thesis by (simp add: weight_def)
qed

lemma card_below_words: "m \<le> length bm \<Longrightarrow> card (below (64 * m) bm) = (\<Sum>i<m. weight (bm ! i))"
proof (induction m)
  case 0
  show ?case by (simp add: below_def)
next
  case (Suc m)
  then show ?case using card_below_split [of m 64 bm] by (simp add: weight_word add.commute)
qed

lemma hweight_long_u32: "(ucast (hweight_long fast w) :: u32) = of_nat (weight w)"
  unfolding sw_hweight64_weight [of fast w, symmetric] by (simp add: hweight_long_def)

lemma weight_loop_sum:
  "k + n \<le> length bm \<Longrightarrow> weight_loop fast bm k n w = Some (w + of_nat (\<Sum>i = k..<k + n. weight (bm ! i)))"
proof (induction n arbitrary: k w)
  case (Suc n)
  have "(\<Sum>i = k..<k + Suc n. weight (bm ! i)) = weight (bm ! k) + (\<Sum>i = k + 1..<k + 1 + n. weight (bm ! i))"
    by (simp add: sum.atLeast_Suc_lessThan)
  then show ?case using Suc by (simp add: read_word_def hweight_long_u32 add.assoc)
qed simp

lemma slow_weight_card:
  assumes "n \<le> 64 * length bm" "n < 2 ^ 31"
  shows "slow_bitmap_weight fast bm (int n) = Some (of_nat (card (below n bm)))"
proof -
  let ?q = "n div 64"
  have "int n sdiv 64 = int ?q" "int n smod 64 = int (n mod 64)"
    by (cases "n = 0"; simp add: signed_divide_int_def signed_modulo_int_def zdiv_int zmod_int minus_mult_div_eq_mod [symmetric])+
  then have lim: "word_limit (int n) = ?q" and rest: "int n smod 64 = 0 \<longleftrightarrow> n mod 64 = 0"
    using assms(2) by (simp_all add: word_limit_def unsigned_of_nat take_bit_nat_eq_self)
  have "n = 64 * ?q + n mod 64" by simp
  then have "card (below n bm) = card (below (64 * ?q) bm) + card {j. j < n mod 64 \<and> bit (bm ! ?q) j}"
    using card_below_split [of ?q "n mod 64" bm] assms(1) by simp
  also have "card (below (64 * ?q) bm) = (\<Sum>i<?q. weight (bm ! i))"
    by (rule card_below_words [OF full_words_exist [OF assms(1)]])
  finally have card: "card (below n bm) = (\<Sum>i<?q. weight (bm ! i)) + card {j. j < n mod 64 \<and> bit (bm ! ?q) j}" .
  have loop: "weight_loop fast bm 0 ?q 0 = Some (of_nat (\<Sum>i<?q. weight (bm ! i)))"
    using weight_loop_sum [of 0 ?q bm fast 0] full_words_exist [OF assms(1)] by (simp add: atLeast0LessThan)
  show ?thesis
  proof (cases "n mod 64 = 0")
    case True
    then show ?thesis using lim rest card loop by (simp add: slow_bitmap_weight_def)
  next
    case False
    have "{j. bit (bm ! ?q AND BITMAP_LAST_WORD_MASK (int n)) j} = {j. j < n mod 64 \<and> bit (bm ! ?q) j}"
      using bit_last_word_mask [OF False] bit_imp_le_length [of "bm ! ?q"] by (auto simp: bit_and_iff)
    then have "weight (bm ! ?q AND BITMAP_LAST_WORD_MASK (int n)) = card {j. j < n mod 64 \<and> bit (bm ! ?q) j}"
      by (simp add: weight_def)
    then show ?thesis
      using False lim rest card loop last_word_exists [OF assms(1)] by (simp add: slow_bitmap_weight_def read_word_def hweight_long_u32 Let_def)
  qed
qed

subsection \<open>Small constant sizes\<close>

lemma bit_small_mask:
  assumes "0 < n" "n \<le> 64" "j < 64"
  shows "bit (BITMAP_LAST_WORD_MASK (int n)) j \<longleftrightarrow> j < n"
proof (cases "n = 64")
  case True
  then show ?thesis using assms(3) by (simp add: BITMAP_LAST_WORD_MASK_def)
qed (use assms bit_last_word_mask [of n j] in simp)

lemma below_small:
  assumes "0 < n" "n \<le> 64" "bm \<noteq> []"
  shows "below n bm = {j. bit (bm ! 0 AND BITMAP_LAST_WORD_MASK (int n)) j}"
proof (intro set_eqI)
  fix i
  show "i \<in> below n bm \<longleftrightarrow> i \<in> {j. bit (bm ! 0 AND BITMAP_LAST_WORD_MASK (int n)) j}"
  proof (cases "i < 64")
    case True
    then show ?thesis using assms bit_small_mask [of n i] by (cases bm) (auto simp: below_def bits_def bit_and_iff)
  next
    case False
    then show ?thesis using assms bit_imp_le_length [of "bm ! 0" i] by (auto simp: below_def bit_and_iff)
  qed
qed

lemma no_bits: "{j. bit w j} = {} \<longleftrightarrow> w = 0" for w :: u64
  using word_zero_iff [of w] by auto

lemma same_bits: "{j. bit v j} = {j. bit w j} \<longleftrightarrow> v = w" for v w :: u64
  using word_eq_iff_bits [of v w] by auto

lemma unat_widen [simp]: "unat (ucast nbits :: u64) = unat nbits" for nbits :: u32
proof -
  have "unat nbits < 2 ^ 64" using unsigned_less [of nbits, where ?'a = nat] by simp
  then show ?thesis by (simp add: unsigned_ucast_eq take_bit_nat_eq_self)
qed

lemma narrow_widen [simp]: "(ucast (ucast nbits :: u64) :: u32) = nbits"
  by (intro bit_word_eqI) (simp add: bit_ucast_iff)

lemma sint_nonneg: "unat nbits < 2 ^ 31 \<Longrightarrow> sint nbits = int (unat nbits)" for nbits :: u32
  using sint_small [of "ucast nbits"] by simp

lemma small_size:
  fixes nbits :: u32
  assumes "small_const_nbits const (ucast nbits)"
  shows "0 < unat nbits" "unat nbits \<le> 64"
  using small_const_bounds [OF assms] by auto

subsection \<open>Questions\<close>

lemma bitmap_empty_iff:
  assumes "unat nbits \<le> 64 * known (length bm)"
  shows "bitmap_empty const bm nbits = Some (below (unat nbits) bm = {})"
proof (cases "small_const_nbits const (ucast nbits)")
  case True
  note n = small_size [OF True]
  have bm: "bm \<noteq> []" using n(1) assms by auto
  show ?thesis unfolding below_small [OF n bm] no_bits using True bm by (simp add: bitmap_empty_def read_word_def)
next
  case False
  obtain r where r: "find_first_bit const bm (ucast nbits) = Some r" "next_in (bits bm) 0 (unat nbits) (unat r)"
    using find_first_bit_next [of "ucast nbits" bm const] assms by auto
  have "r = ucast nbits \<longleftrightarrow> unat r = unat nbits" unfolding word_unat_eq_iff by simp
  also have "\<dots> \<longleftrightarrow> below (unat nbits) bm = {}" using r(2) by (auto simp: next_in_def below_def)
  finally show ?thesis using False r(1) by (simp add: bitmap_empty_def)
qed

lemma full_iff: "n \<le> 64 * length bm \<Longrightarrow> below n bm = {..<n} \<longleftrightarrow> (\<forall>i < n. bit (bm ! (i div 64)) (i mod 64))"
  by (auto simp: below_mem set_eq_iff)

lemma bitmap_full_iff:
  assumes "unat nbits \<le> 64 * known (length bm)"
  shows "bitmap_full const bm nbits = Some (below (unat nbits) bm = {..<unat nbits})"
proof (cases "small_const_nbits const (ucast nbits)")
  case True
  note n = small_size [OF True]
  have bm: "bm \<noteq> []" using n(1) assms by auto
  have "NOT (bm ! 0) AND BITMAP_LAST_WORD_MASK (int (unat nbits)) = 0 \<longleftrightarrow> (\<forall>j < unat nbits. bit (bm ! 0) j)"
    unfolding word_zero_iff using n bit_small_mask [OF n] by (simp add: bit_and_iff bit_not_iff) (meson order_less_le_trans)
  also have "\<dots> \<longleftrightarrow> below (unat nbits) bm = {..<unat nbits}"
  proof -
    have "unat nbits \<le> 64 * length bm" using assms by simp
    moreover have "i div 64 = 0 \<and> i mod 64 = i" if "i < unat nbits" for i using that n(2) by simp
    ultimately show ?thesis by (simp add: full_iff)
  qed
  finally show ?thesis using True bm by (simp add: bitmap_full_def read_word_def)
next
  case False
  obtain r where r: "find_first_zero_bit const bm (ucast nbits) = Some r" "next_in (- bits bm) 0 (unat nbits) (unat r)"
    using find_first_zero_bit_next [of "ucast nbits" bm const] assms by auto
  have "r = ucast nbits \<longleftrightarrow> unat r = unat nbits" unfolding word_unat_eq_iff by simp
  also have "\<dots> \<longleftrightarrow> below (unat nbits) bm = {..<unat nbits}" using r(2) by (auto simp: next_in_def below_def)
  finally show ?thesis using False r(1) by (simp add: bitmap_full_def)
qed

lemma bitmap_weight_card:
  assumes "unat nbits \<le> 64 * length bm" "unat nbits < 2 ^ 31"
  shows "bitmap_weight fast const bm nbits = Some (of_nat (card (below (unat nbits) bm)))"
proof (cases "small_const_nbits const (ucast nbits)")
  case True
  note n = small_size [OF True]
  have "bm \<noteq> []" using n(1) assms(1) by auto
  then show ?thesis
    using True below_small [OF n] by (simp add: bitmap_weight_def read_word_def hweight_long_u32 weight_def)
next
  case False
  then show ?thesis using slow_weight_card [OF assms] by (simp only: bitmap_weight_def sint_nonneg [OF assms(2)] if_False)
qed

lemma bitmap_intersects_iff:
  assumes "unat nbits \<le> 64 * length a" "unat nbits \<le> 64 * length b"
  shows "bitmap_intersects const a b nbits = Some (below (unat nbits) a \<inter> below (unat nbits) b \<noteq> {})"
proof (cases "small_const_nbits const (ucast nbits)")
  case True
  note n = small_size [OF True]
  have ne: "a \<noteq> []" "b \<noteq> []" using n(1) assms by auto
  let ?m = "BITMAP_LAST_WORD_MASK (int (unat nbits))"
  have "{j. bit (a ! 0 AND ?m) j} \<inter> {j. bit (b ! 0 AND ?m) j} = {j. bit (a ! 0 AND b ! 0 AND ?m) j}"
    by (auto simp: bit_and_iff)
  then have "below (unat nbits) a \<inter> below (unat nbits) b = {} \<longleftrightarrow> a ! 0 AND b ! 0 AND ?m = 0"
    unfolding below_small [OF n ne(1)] below_small [OF n ne(2)] by (simp only: no_bits)
  then show ?thesis using True ne by (simp add: bitmap_intersects_def read_word_def and.assoc)
qed (use slow_intersects_sets [OF assms] in \<open>simp add: bitmap_intersects_def\<close>)

text \<open>The comparison of memory: the bits of the bytes are those of the words.\<close>

lemma byte_at_eq: "byte_at a j = byte_at b j \<longleftrightarrow>
    (\<forall>t < 8. bit (a ! ((8 * j + t) div 64)) ((8 * j + t) mod 64) = bit (b ! ((8 * j + t) div 64)) ((8 * j + t) mod 64))"
proof -
  have pos: "(8 * j + t) div 64 = j div 8" "(8 * j + t) mod 64 = 8 * (j mod 8) + t" if "t < 8" for t
  proof -
    have eq: "8 * j + t = 64 * (j div 8) + (8 * (j mod 8) + t)" and "8 * (j mod 8) + t < 64"
      using mult_div_mod_eq [of 8 j] mod_less_divisor [of 8 j] that by linarith+
    moreover have "(64 * a + b) div 64 = a" "(64 * a + b) mod 64 = b" if "b < 64" for a b :: nat using that by simp_all
    ultimately show "(8 * j + t) div 64 = j div 8" "(8 * j + t) mod 64 = 8 * (j mod 8) + t" by (simp_all only: eq)
  qed
  have "bit (byte_at c j) t \<longleftrightarrow> t < 8 \<and> bit (c ! (j div 8)) (8 * (j mod 8) + t)" for c t
    by (auto simp: byte_at_def bit_ucast_iff bit_drop_bit_eq)
  then have "byte_at a j = byte_at b j \<longleftrightarrow>
      (\<forall>t < 8. bit (a ! (j div 8)) (8 * (j mod 8) + t) = bit (b ! (j div 8)) (8 * (j mod 8) + t))"
    by (auto simp: bit_eq_iff)
  then show ?thesis by (simp add: pos)
qed

lemma bytes_equal_iff:
  assumes "n mod 8 = 0" "n \<le> 64 * length a" "n \<le> 64 * length b"
  shows "bytes_equal a b (n div 8) = Some (below n a = below n b)"
proof -
  obtain m where m: "n = 8 * m" using assms(1) by auto
  have "below n a = below n b \<longleftrightarrow> (\<forall>i < n. bit (a ! (i div 64)) (i mod 64) = bit (b ! (i div 64)) (i mod 64))" (is "_ \<longleftrightarrow> (\<forall>i < n. ?P i)")
    unfolding set_eq_iff using below_mem [OF assms(2)] below_mem [OF assms(3)] by auto
  also have "\<dots> \<longleftrightarrow> (\<forall>j < m. \<forall>t < 8. ?P (8 * j + t))"
  proof (rule iffI; intro allI impI)
    fix j t assume "\<forall>i < n. ?P i" "j < m" "t < (8 :: nat)"
    then show "?P (8 * j + t)" by (simp add: m)
  next
    fix i assume all: "\<forall>j < m. \<forall>t < 8. ?P (8 * j + t)" and "i < n"
    then show "?P i" using all [rule_format, of "i div 8" "i mod 8"] m by simp
  qed
  also have "\<dots> \<longleftrightarrow> (\<forall>j < m. byte_at a j = byte_at b j)" unfolding byte_at_eq ..
  finally show ?thesis using assms(2,3) by (simp add: bytes_equal_def m list_all_iff Ball_def)
qed

lemma bitmap_equal_iff:
  assumes "unat nbits \<le> 64 * length a" "unat nbits \<le> 64 * length b"
  shows "bitmap_equal const const_mask a b nbits = Some (below (unat nbits) a = below (unat nbits) b)"
proof (cases "small_const_nbits const (ucast nbits)")
  case True
  note n = small_size [OF True]
  have ne: "a \<noteq> []" "b \<noteq> []" using n(1) assms by auto
  let ?m = "BITMAP_LAST_WORD_MASK (int (unat nbits))"
  have "(a ! 0 XOR b ! 0) AND ?m = 0 \<longleftrightarrow> a ! 0 AND ?m = b ! 0 AND ?m"
    by (auto simp: bit_eq_iff bit_and_iff bit_xor_iff)
  then show ?thesis
    unfolding below_small [OF n ne(1)] below_small [OF n ne(2)] same_bits
    using True ne by (simp add: bitmap_equal_def read_word_def)
next
  case False
  have "nbits AND 7 = 0 \<longleftrightarrow> unat nbits mod 8 = 0"
  proof -
    have "(7 :: u32) = mask 3" by (simp add: mask_eq_exp_minus_1)
    then have "unat (nbits AND 7) = unat nbits mod 8" by (simp only: take_bit_eq_mask [symmetric]) (simp add: take_bit_eq_mod unat_mod_distrib)
    then show ?thesis using unat_eq_zero [of "nbits AND 7"] by simp
  qed
  then show ?thesis
    using False bytes_equal_iff [OF _ assms] slow_equal_sets [OF assms] by (simp add: bitmap_equal_def unat_div_distrib)
qed

subsection \<open>Updates\<close>

lemma bitmap_and_sets:
  assumes "fits (unat nbits) b"
  shows "\<exists>b'. bitmap_and const b nbits = Some (below (unat nbits) (get1 b) \<inter> below (unat nbits) (get2 b) \<noteq> {}, b') \<and>
    below (unat nbits) (dst_bm b') = below (unat nbits) (get1 b) \<inter> below (unat nbits) (get2 b)"
proof (cases "small_const_nbits const (ucast nbits)")
  case True
  note n = small_size [OF True]
  have ne: "dst_bm b \<noteq> []" "get1 b \<noteq> []" "get2 b \<noteq> []" using n(1) assms by (auto simp: fits_def)
  let ?m = "BITMAP_LAST_WORD_MASK (int (unat nbits))"
  let ?v = "get1 b ! 0 AND get2 b ! 0 AND ?m" and ?S = "below (unat nbits) (get1 b) \<inter> below (unat nbits) (get2 b)"
  have S: "?S = {j. bit ?v j}"
    unfolding below_small [OF n ne(2)] below_small [OF n ne(3)] by (auto simp: bit_and_iff)
  have "(dst_bm b)[0 := ?v] \<noteq> []" using ne(1) by simp
  from below_small [OF n this] have d: "below (unat nbits) ((dst_bm b)[0 := ?v]) = ?S"
    unfolding S using ne(1) by (simp add: and.assoc)
  have "bitmap_and const b nbits = Some (?v \<noteq> 0, b\<lparr>dst_bm := (dst_bm b)[0 := ?v]\<rparr>)"
    using True ne by (simp add: bitmap_and_def read_word_def store_def write_word_def Let_def)
  moreover have "?v \<noteq> 0 \<longleftrightarrow> ?S \<noteq> {}" unfolding S no_bits ..
  ultimately show ?thesis using d by simp
qed (use slow_and_sets [OF assms] in \<open>simp add: bitmap_and_def\<close>)

lemma bitmap_or_sets:
  assumes "fits (unat nbits) b" "unat nbits < 2 ^ 31"
  shows "\<exists>b'. bitmap_or const b nbits = Some b' \<and>
    below (unat nbits) (dst_bm b') = below (unat nbits) (get1 b) \<union> below (unat nbits) (get2 b)"
proof (cases "small_const_nbits const (ucast nbits)")
  case True
  note n = small_size [OF True]
  have ne: "dst_bm b \<noteq> []" "get1 b \<noteq> []" "get2 b \<noteq> []" using n(1) assms by (auto simp: fits_def)
  let ?v = "get1 b ! 0 OR get2 b ! 0"
  have "(dst_bm b)[0 := ?v] \<noteq> []" using ne(1) by simp
  note below_small [OF n this]
  also have "{j. bit ((dst_bm b)[0 := ?v] ! 0 AND BITMAP_LAST_WORD_MASK (int (unat nbits))) j} =
      below (unat nbits) (get1 b) \<union> below (unat nbits) (get2 b)"
    unfolding below_small [OF n ne(2)] below_small [OF n ne(3)]
    by (rule set_eqI) (use ne(1) in \<open>simp add: bit_and_iff bit_or_iff; blast\<close>)
  finally have "below (unat nbits) ((dst_bm b)[0 := ?v]) = below (unat nbits) (get1 b) \<union> below (unat nbits) (get2 b)" .
  moreover have "bitmap_or const b nbits = Some (b\<lparr>dst_bm := (dst_bm b)[0 := ?v]\<rparr>)"
    using True ne by (simp add: bitmap_or_def read_word_def store_def write_word_def)
  ultimately show ?thesis by simp
next
  case False
  then show ?thesis using slow_or_sets [OF assms] by (simp only: bitmap_or_def sint_nonneg [OF assms(2)] if_False)
qed

lemma unat_longs: "unat (BITS_TO_LONGS (ucast nbits)) = (unat nbits + 63) div 64" for nbits :: u32
proof -
  have "unat nbits < 2 ^ 32" using unsigned_less [of nbits, where ?'a = nat] by simp
  then have "unat (ucast nbits + 64 - 1 :: u64) = unat nbits + 63" by (simp add: unat_word_ariths)
  then show ?thesis by (simp add: BITS_TO_LONGS_def unat_div_distrib)
qed

lemma bitmap_zero_sets:
  assumes "unat nbits \<le> 64 * length d"
  shows "\<exists>d'. bitmap_zero const d nbits = Some d' \<and> length d' = length d \<and> below (unat nbits) d' = {}"
proof (cases "small_const_nbits const (ucast nbits)")
  case True
  note n = small_size [OF True]
  have ne: "d \<noteq> []" using n(1) assms by auto
  have "d[0 := 0] \<noteq> []" using ne by simp
  from below_small [OF n this] have "below (unat nbits) (d[0 := 0]) = {}" using ne by simp
  then show ?thesis using True ne by (simp add: bitmap_zero_def write_word_def)
next
  case False
  let ?q = "(unat nbits + 63) div 64"
  have q: "?q \<le> length d" by (rule words_needed [OF assms])
  have "(replicate ?q 0 @ drop ?q d) ! k = 0" if "64 * k < unat nbits" for k
    using that by (auto simp: nth_append)
  then have "below (unat nbits) (replicate ?q 0 @ drop ?q d) = {}"
    using q by (auto simp: below_def bits_def)
  then show ?thesis using False q by (simp add: bitmap_zero_def set_words_def unat_longs)
qed

text \<open>Filling writes ones into all words but the last, and the mask into the last one; the size must not be 0.\<close>

lemma words_div: "(n + 63) div 64 = (if n mod 64 = 0 then n div 64 else n div 64 + 1)" for n :: nat
proof -
  have div: "(64 * c + r + 63) div 64 = (if r = 0 then c else c + 1)" if "r < 64" for c r :: nat
    using that by (intro div_nat_eqI) auto
  show ?thesis using div [of "n mod 64" "n div 64"] by simp
qed

lemma fill_words:
  assumes "0 < n" "n \<le> 64 * length d"
  defines "q \<equiv> (n + 63) div 64 - 1"
  shows "below n ((replicate q (- 1) @ drop q d)[q := BITMAP_LAST_WORD_MASK (int n)]) = {..<n}" (is "below n ?d = _")
    and "q < length d"
proof -
  show q: "q < length d" using assms words_needed [OF assms(2)] by simp
  have nth: "?d ! k = (if k < q then - 1 else BITMAP_LAST_WORD_MASK (int n))" if "k \<le> q" for k
    using that q by (auto simp: nth_append nth_list_update)
  have len: "n \<le> 64 * length ?d" using q assms(2) by simp
  show "below n ?d = {..<n}"
    unfolding full_iff [OF len] below_all [of n "\<lambda>k j. bit (?d ! k) j"]
  proof (intro conjI allI impI)
    fix k j :: nat
    assume k: "k < n div 64" and j: "j < 64"
    show "bit (?d ! k) j"
    proof (cases "k < q")
      case True
      then show ?thesis unfolding nth [OF less_imp_le [OF True]] using j by simp
    next
      case False
      then have "n mod 64 = 0" and "k = q" using k unfolding q_def words_div by (auto split: if_splits)
      then have "BITMAP_LAST_WORD_MASK (int n) = - 1"
        using take_bit_eq_mask [of 6 "- int n"] zmod_int [of n 64]
        by (simp add: BITMAP_LAST_WORD_MASK_def mask_eq_exp_minus_1 take_bit_eq_mod zmod_zminus1_eq_if)
      then show ?thesis using nth [of q] \<open>k = q\<close> j by simp
    qed
  next
    fix j assume j: "j < n mod 64"
    then have "n mod 64 \<noteq> 0" by simp
    then have "n div 64 = q" "j < 64" using j mod_less_divisor [of 64 n] unfolding q_def words_div by (simp, linarith)
    then show "bit (?d ! (n div 64)) j" using nth [of q] j bit_last_word_mask [of n j] by simp
  qed
qed

lemma bitmap_fill_sets:
  assumes "unat nbits \<le> 64 * length d" "0 < unat nbits"
  shows "\<exists>d'. bitmap_fill const d nbits = Some d' \<and> length d' = length d \<and> below (unat nbits) d' = {..<unat nbits}"
proof -
  let ?q = "(unat nbits + 63) div 64 - 1"
  let ?nl = "ucast (BITS_TO_LONGS (ucast nbits)) :: u32"
  note words = fill_words [OF assms(2,1)]
  have lt: "unat nbits < 2 ^ 32" using unsigned_less [of nbits, where ?'a = nat] by simp
  then have "unat ?nl = (unat nbits + 63) div 64" by (simp add: unsigned_ucast_eq unat_longs take_bit_nat_eq_self)
  then have nl: "unat (?nl - 1) = ?q" using assms(2) by (simp add: unat_sub word_le_nat_alt)
  then have "unat (ucast (?nl - 1) * 8 :: u64) = ?q * 8" using lt by (simp add: unat_word_ariths)
  then have len: "unat (ucast (ucast (?nl - 1) * 8 :: u64) :: u32) div 8 = ?q"
    using lt by (simp add: unsigned_ucast_eq take_bit_nat_eq_self)
  show ?thesis
  proof (cases "small_const_nbits const (ucast nbits)")
    case True
    then have "?q = 0" using small_size [OF True] by simp
    then show ?thesis using True words nl by (simp add: bitmap_fill_def write_word_def Let_def)
  next
    case False
    then show ?thesis using words nl len by (simp add: bitmap_fill_def write_word_def set_words_def Let_def)
  qed
qed

subsection \<open>The refinement\<close>

text \<open>
  C24: The questions about bitmaps are questions about sets. For a size within the bitmaps and below
  \<open>2 ^ 31\<close>, no function reads outside of them, and with the set of the numbers below the size for a bitmap:
  \<open>bitmap_empty\<close> asks whether it is empty, \<open>bitmap_full\<close> whether all numbers are in it, \<open>bitmap_weight\<close> is its
  cardinality, \<open>bitmap_equal\<close> and \<open>bitmap_intersects\<close> compare two sets. The bits from the size on never matter, and
  neither does the path: a single word for a small constant size, \<open>memcmp\<close> for whole bytes, or the loops.
\<close>

theorem bitmap_questions:
  assumes "unat nbits \<le> 64 * length a" "unat nbits \<le> 64 * length b" "unat nbits < 2 ^ 31"
  shows "bitmap_empty const a nbits = Some (below (unat nbits) a = {}) \<and>
    bitmap_full const a nbits = Some (below (unat nbits) a = {..<unat nbits}) \<and>
    (\<exists>w. bitmap_weight fast const a nbits = Some w \<and> unat w = card (below (unat nbits) a)) \<and>
    bitmap_equal const const_mask a b nbits = Some (below (unat nbits) a = below (unat nbits) b) \<and>
    bitmap_intersects const a b nbits = Some (below (unat nbits) a \<inter> below (unat nbits) b \<noteq> {})"
proof -
  have len: "unat nbits \<le> 64 * known (length a)" using assms by simp
  have "card (below (unat nbits) a) \<le> card {..<unat nbits}" by (rule card_mono) (auto simp: below_def)
  then have "unat (of_nat (card (below (unat nbits) a)) :: u32) = card (below (unat nbits) a)"
    using assms(3) by (simp add: unsigned_of_nat take_bit_nat_eq_self)
  then show ?thesis
    using bitmap_empty_iff [OF len] bitmap_full_iff [OF len] bitmap_weight_card [OF assms(1,3)]
      bitmap_equal_iff [OF assms(1,2)] bitmap_intersects_iff [OF assms(1,2)] by simp
qed

theorem bitmap_questions_witness:
  "bitmap_equal False True [0xff00, 1] [0xff00, 2] 64 = Some (below 64 [0xff00, 1] = below 64 [0xff00, 2]) \<and>
   bitmap_equal False True [0xff00, 1] [0xff00, 2] 64 = Some True \<and>
   (\<exists>w. bitmap_weight True False [0xff00, 1] 65 = Some w \<and> unat w = card (below 65 [0xff00, 1])) \<and>
   bitmap_weight True False [0xff00, 1] 65 = Some 9"
proof -
  have "bitmap_equal False True [0xff00, 1] [0xff00, 2] 64 = Some True" "bitmap_weight True False [0xff00, 1] 65 = Some 9"
    by code_simp+
  then show ?thesis
    using bitmap_questions [of 64 "[0xff00, 1]" "[0xff00, 2]" False True True]
      bitmap_questions [of 65 "[0xff00, 1]" "[0xff00, 2]" False True True] by simp
qed

text \<open>
  C25: The updates of bitmaps are updates of sets, in place or not. For a size within the bitmaps and below
  \<open>2 ^ 31\<close>, \<open>bitmap_or\<close> leaves the union in the destination and \<open>bitmap_and\<close> the intersection, also when the
  destination is one of the operands or both; \<open>bitmap_and\<close> tells whether anything is in it. \<open>bitmap_zero\<close> removes all
  numbers below the size, and \<open>bitmap_fill\<close> puts them all in, for a size other than 0. Nothing outside the bitmaps
  is written.
\<close>

theorem bitmap_updates:
  assumes "fits (unat nbits) b" "0 < unat nbits" "unat nbits < 2 ^ 31"
  shows "(\<exists>b'. bitmap_or const b nbits = Some b' \<and>
      below (unat nbits) (dst_bm b') = below (unat nbits) (get1 b) \<union> below (unat nbits) (get2 b)) \<and>
    (\<exists>b' r. bitmap_and const b nbits = Some (r, b') \<and>
      below (unat nbits) (dst_bm b') = below (unat nbits) (get1 b) \<inter> below (unat nbits) (get2 b) \<and>
      (r \<longleftrightarrow> below (unat nbits) (dst_bm b') \<noteq> {})) \<and>
    (\<exists>d'. bitmap_zero const (dst_bm b) nbits = Some d' \<and> length d' = length (dst_bm b) \<and> below (unat nbits) d' = {}) \<and>
    (\<exists>d'. bitmap_fill const (dst_bm b) nbits = Some d' \<and> length d' = length (dst_bm b) \<and> below (unat nbits) d' = {..<unat nbits})"
proof -
  have len: "unat nbits \<le> 64 * length (dst_bm b)" using assms(1) by (simp add: fits_def)
  show ?thesis
    using bitmap_or_sets [OF assms(1,3), of const] bitmap_and_sets [OF assms(1), of const]
      bitmap_zero_sets [OF len, of const] bitmap_fill_sets [OF len assms(2), of const] by auto
qed

text \<open>An intersection in place: the destination is the first operand.\<close>

theorem bitmap_updates_witness:
  "(\<exists>b' r. bitmap_and False \<lparr>dst_bm = [0xf0, 3], src1 = [], src2 = [0x3c, 2], alias1 = True, alias2 = False\<rparr> 66 = Some (r, b') \<and>
      below 66 (dst_bm b') = below 66 [0xf0, 3] \<inter> below 66 [0x3c, 2] \<and> (r \<longleftrightarrow> below 66 (dst_bm b') \<noteq> {})) \<and>
   bitmap_and False \<lparr>dst_bm = [0xf0, 3], src1 = [], src2 = [0x3c, 2], alias1 = True, alias2 = False\<rparr> 66 =
     Some (True, \<lparr>dst_bm = [0x30, 2], src1 = [], src2 = [0x3c, 2], alias1 = True, alias2 = False\<rparr>)"
proof -
  let ?b = "\<lparr>dst_bm = [0xf0, 3], src1 = [], src2 = [0x3c, 2], alias1 = True, alias2 = False\<rparr>"
  have "bitmap_and False ?b 66 = Some (True, \<lparr>dst_bm = [0x30, 2], src1 = [], src2 = [0x3c, 2], alias1 = True, alias2 = False\<rparr>)"
    by code_simp
  then show ?thesis using bitmap_updates [of 66 ?b False] by (auto simp: fits_def get1_def get2_def)
qed

end
