(* ===== verification/Bitmap_Print.thy ===== *)
theory Bitmap_Print
  imports Bitmap_Sets
begin

text \<open>
  What \<open>bitmap_scnprintf\<close> of \<^verbatim>\<open>tools/lib/bitmap.c\<close> leaves in a buffer: the maximal ranges of the set, in order,
  cut off at the end of the buffer.
\<close>

subsection \<open>Appending to a buffer\<close>

text \<open>The state of the buffer once a text has been printed into it.\<close>

definition shown :: "u64 \<Rightarrow> string \<Rightarrow> printed" where
  "shown sz txt = (let t = take (unat sz - 1) txt in (of_nat (length t), t))"

lemma sint_unat:
  fixes w :: u64
  assumes "unat w < 2 ^ 63"
  shows "sint w = int (unat w)"
proof -
  have "int (unat w) < int (2 ^ 63)" using assms by (subst of_nat_less_iff)
  then have "uint w < 2 ^ 63" by simp
  moreover have "- (2 ^ 63) \<le> uint w" by (rule order_trans [of _ 0]) simp_all
  ultimately show ?thesis using signed_take_bit_int_eq_self [of 63 "uint w"] by (simp add: sint_uint)
qed

lemma scnprintf_count:
  fixes room :: u64
  assumes "room \<noteq> 0" "unat room < 2 ^ 63" "length t \<le> 2 ^ 31"
  shows "(if int (length t) \<ge> sint room then scast (ucast (room - 1) :: u32) else of_nat (length t)) =
    (of_nat (length (take (unat room - 1) t)) :: u64)"
proof (cases "unat room \<le> length t")
  case True
  have one: "unat (room - 1) = unat room - 1" using assms(1) by (simp add: unat_minus_one)
  have pos: "0 < unat room" using assms(1) by (simp add: unat_gt_0)
  have "unat (room - 1) < 2 ^ 31" using True assms(3) pos one by linarith
  then have "sint (ucast (room - 1) :: u32) = int (unat (room - 1))" by (rule sint_small)
  then have "scast (ucast (room - 1) :: u32) = (of_nat (unat (room - 1)) :: u64)"
    by (metis of_int_of_nat_eq of_int_sint)
  moreover have "length (take (unat room - 1) t) = unat room - 1" using True by simp
  ultimately show ?thesis using True sint_unat [OF assms(2)] one by (simp only: of_nat_le_iff if_True)
next
  case False
  then have "take (unat room - 1) t = t" by simp
  then show ?thesis using False sint_unat [OF assms(2)] by (simp only: of_nat_le_iff if_False)
qed

lemma scnprintf_appends:
  assumes "0 < unat sz" "unat sz < 2 ^ 63" "length t \<le> 2 ^ 31"
  shows "scnprintf sz t (shown sz txt) = Some (shown sz (txt @ t))"
proof -
  let ?n = "length (take (unat sz - 1) txt)"
  let ?room = "sz - of_nat ?n"
  have n: "?n < unat sz" using assms(1) by simp
  then have ret: "unat (of_nat ?n :: u64) = ?n" using assms(2) by (simp add: unsigned_of_nat take_bit_nat_eq_self)
  have room: "unat ?room = unat sz - ?n" using n ret by (simp add: unat_sub word_le_nat_alt)
  then have pos: "?room \<noteq> 0" using n by (metis unat_0 zero_less_diff less_numeral_extra(3))
  have cut: "take (unat sz - 1) txt @ take (unat ?room - 1) t = take (unat sz - 1) (txt @ t)"
    unfolding room by (simp add: take_append) (cases "length txt \<le> unat sz - 1"; simp)
  have less: "unat ?room < 2 ^ 63" unfolding room using assms(2) by linarith
  have "length (take (unat sz - 1) txt) + length (take (unat ?room - 1) t) = length (take (unat sz - 1) (txt @ t))"
    unfolding cut [symmetric] by (simp only: length_append)
  then show ?thesis
    unfolding shown_def Let_def scnprintf_def prod.case scnprintf_count [OF pos less assms(3)] cut
    by (simp only: of_nat_add [symmetric]) simp
qed

subsection \<open>Ranges\<close>

type_synonym ranges = "(nat \<times> nat) list"

text \<open>The ranges are a set exactly if they cover it, and there is a gap between any two: they are maximal and in order.\<close>

definition ranges_of :: "ranges \<Rightarrow> nat set \<Rightarrow> bool" where
  "ranges_of rs S \<longleftrightarrow> (\<Union>(lo, hi) \<in> set rs. {lo..hi}) = S \<and> (\<forall>(lo, hi) \<in> set rs. lo \<le> hi) \<and>
     sorted_wrt (\<lambda>r s. snd r + 1 < fst s) rs"

definition range_text :: "nat \<times> nat \<Rightarrow> string" where
  "range_text r = decimal (fst r) @ (if fst r < snd r then ''-'' @ decimal (snd r) else [])"

fun ranges_text :: "ranges \<Rightarrow> string" where
  "ranges_text [] = []"
| "ranges_text [r] = range_text r"
| "ranges_text (r # rs) = range_text r @ '','' @ ranges_text rs"

lemma ranges_text_snoc: "ranges_text (rs @ [r]) = ranges_text rs @ (if rs = [] then [] else '','') @ range_text r"
  by (induction rs rule: ranges_text.induct) auto

lemma ranges_of_snoc:
  assumes "ranges_of rs S" "\<forall>i \<in> S. i + 1 < lo" "lo \<le> hi"
  shows "ranges_of (rs @ [(lo, hi)]) (S \<union> {lo..hi})"
proof -
  have "snd r + 1 < lo" if "r \<in> set rs" for r
  proof -
    have "snd r \<in> S" using assms(1) that by (force simp: ranges_of_def)
    then show ?thesis using assms(2) by simp
  qed
  then show ?thesis using assms by (auto simp: ranges_of_def sorted_wrt_append)
qed

lemma length_decimal: "length (decimal n) \<le> max 1 n"
proof (induction n rule: decimal.induct)
  case (1 n)
  then show ?case by (cases "n < 10") (auto simp: decimal.simps [of n])
qed

lemma show_d_decimal: "unat x < 2 ^ 31 \<Longrightarrow> show_d x = decimal (unat x)"
  by (simp add: show_d_def sint_nonneg del: of_nat_unat)

subsection \<open>The loop\<close>

lemma next_bit:
  fixes cur nbits :: u32
  assumes "cur < nbits" and size: "unat nbits \<le> 64 * length bm" "unat nbits < 2 ^ 31"
  shows "\<exists>c. slow_find_next_bit bm (ucast nbits) (ucast (cur + 1)) = Some c \<and>
    next_in (bits bm) (unat cur + 1) (unat nbits) (unat (ucast c :: u32))"
proof -
  have "unat cur + 1 < 2 ^ 32" using assms(1) size(2) by (simp add: word_less_nat_alt)
  then have cur: "unat (cur + 1) = unat cur + 1" by (simp add: unat_word_ariths)
  have "unat (ucast nbits :: u64) \<le> 64 * known (length bm)" using size by simp
  from word_source.FIND_NEXT_BIT_next [OF this, of "ucast (cur + 1)"]
  obtain c where c: "slow_find_next_bit bm (ucast nbits) (ucast (cur + 1)) = Some c"
    "next_in (bits bm) (unat cur + 1) (unat nbits) (unat c)"
    by (auto simp: slow_find_next_bit_def cur)
  then have "unat c < 2 ^ 32" using size(2) by (auto simp: next_in_def)
  then have "unat (ucast c :: u32) = unat c" by (simp add: unsigned_ucast_eq take_bit_nat_eq_self)
  then show ?thesis using c by simp
qed

lemma print_range:
  assumes "unat rbot \<le> unat rtop" "unat rtop < 2 ^ 31" "0 < unat sz" "unat sz < 2 ^ 63"
  shows "do {
      w \<leftarrow> (if first then Some (shown sz txt) else scnprintf sz '','' (shown sz txt));
      w \<leftarrow> scnprintf sz (show_d rbot) w;
      w \<leftarrow> (if rbot < rtop then scnprintf sz (''-'' @ show_d rtop) w else Some w);
      f w } = f (shown sz (txt @ (if first then [] else '','') @ range_text (unat rbot, unat rtop)))"
proof -
  note app = scnprintf_appends [OF assms(3,4)]
  have "unat rbot < 2 ^ 31" using assms(1,2) by linarith
  then have d: "show_d rbot = decimal (unat rbot)" "show_d rtop = decimal (unat rtop)"
    using show_d_decimal assms(2) by blast+
  have "length (decimal (unat rbot)) \<le> 2 ^ 31" "length (''-'' @ decimal (unat rtop)) \<le> 2 ^ 31"
    using length_decimal [of "unat rbot"] length_decimal [of "unat rtop"] assms(1,2) by auto
  then show ?thesis unfolding d by (simp add: app range_text_def word_less_nat_alt)
qed

lemma scnprintf_loop_ranges:
  assumes "unat nbits \<le> 64 * length bm" "unat nbits < 2 ^ 31" "0 < unat sz" "unat sz < 2 ^ 63"
    and "cur < nbits \<Longrightarrow> unat rbot \<le> unat cur \<and> {unat rbot..unat cur} \<subseteq> bits bm"
    and "\<not> cur < nbits \<Longrightarrow> rbot = cur \<and> unat cur = unat nbits"
    and "ranges_of rs {i \<in> bits bm. i < unat rbot}" "cur < nbits \<Longrightarrow> \<forall>i \<in> bits bm. i < unat rbot \<longrightarrow> i + 1 < unat rbot"
    and "first \<longleftrightarrow> rs = []"
  shows "\<exists>rs'. scnprintf_loop bm nbits sz cur rbot first (shown sz (ranges_text rs)) = Some (shown sz (ranges_text rs')) \<and>
    ranges_of rs' (below (unat nbits) bm)"
  using assms(5-)
proof (induction "unat nbits - unat cur" arbitrary: cur rbot rs first rule: less_induct)
  case less
  show ?case
  proof (cases "cur < nbits")
    case False
    then have "scnprintf_loop bm nbits sz cur rbot first (shown sz (ranges_text rs)) = Some (shown sz (ranges_text rs))"
      by (simp add: scnprintf_loop.simps)
    moreover have "{i \<in> bits bm. i < unat rbot} = below (unat nbits) bm" using less.prems(2) False by (simp add: below_def)
    ultimately show ?thesis using less.prems(3) by auto
  next
    case True
    then have lt: "unat cur < unat nbits" by (simp add: word_less_nat_alt)
    obtain c where c: "slow_find_next_bit bm (ucast nbits) (ucast (cur + 1)) = Some c"
      "next_in (bits bm) (unat cur + 1) (unat nbits) (unat (ucast c :: u32))"
      using next_bit [OF True assms(1,2)] by blast
    define cur' where "cur' = (ucast c :: u32)"
    have n: "next_in (bits bm) (unat cur + 1) (unat nbits) (unat cur')" using c(2) by (simp add: cur'_def)
    have next1: "unat (cur + 1) = unat cur + 1" using lt assms(2) by (simp add: unat_word_ariths)
    note unfold = scnprintf_loop.simps [of bm nbits sz cur rbot first]
    have r: "unat rbot \<le> unat cur" "{unat rbot..unat cur} \<subseteq> bits bm" using less.prems(1) True by auto
    show ?thesis
    proof (cases "cur' < nbits \<and> cur' \<le> cur + 1")
      case step: True
      then have eq: "unat cur' = unat cur + 1" "unat cur' \<in> bits bm"
        using n next1 by (auto simp: next_in_def word_less_nat_alt word_le_nat_alt)
      have "{unat rbot..unat cur'} \<subseteq> bits bm" using eq r by (simp add: atLeastAtMostSuc_conv)
      then have "\<exists>rs'. scnprintf_loop bm nbits sz cur' rbot first (shown sz (ranges_text rs)) = Some (shown sz (ranges_text rs')) \<and>
          ranges_of rs' (below (unat nbits) bm)"
        using less.hyps [of cur' rbot rs first] eq lt r step less.prems(3-) True by auto
      then show ?thesis unfolding unfold using True step c(1) by (simp add: cur'_def Let_def)
    next
      case False
      let ?rs = "rs @ [(unat rbot, unat cur)]"
      have after: "unat cur < unat cur'" "unat cur' \<le> unat nbits" using n lt by (auto simp: next_in_def)
      have gap: "i \<le> unat cur" if "i \<in> bits bm" "i < unat cur'" for i
        using n that after(2) by (auto simp: next_in_def not_le Suc_le_eq)
      have "{i \<in> bits bm. i < unat rbot} \<union> {unat rbot..unat cur} = {i \<in> bits bm. i < unat cur'}"
        using r after(1) gap by (auto simp: not_less)
      moreover have "\<forall>i \<in> {i \<in> bits bm. i < unat rbot}. i + 1 < unat rbot" using less.prems(4) True by simp
      ultimately have rs: "ranges_of ?rs {i \<in> bits bm. i < unat cur'}"
        using ranges_of_snoc [OF less.prems(3) _ r(1)] by simp
      have "\<exists>rs'. scnprintf_loop bm nbits sz cur' cur' False (shown sz (ranges_text ?rs)) = Some (shown sz (ranges_text rs')) \<and>
          ranges_of rs' (below (unat nbits) bm)"
      proof (rule less.hyps)
        show "unat nbits - unat cur' < unat nbits - unat cur" using lt after by linarith
        show "unat cur' \<le> unat cur' \<and> {unat cur'..unat cur'} \<subseteq> bits bm" if "cur' < nbits"
          using n that by (auto simp: next_in_def word_less_nat_alt)
        show "cur' = cur' \<and> unat cur' = unat nbits" if "\<not> cur' < nbits"
          using after(2) that by (simp add: word_less_nat_alt)
        show "\<forall>i \<in> bits bm. i < unat cur' \<longrightarrow> i + 1 < unat cur'" if "cur' < nbits"
          using gap False that next1 by (force simp: word_le_nat_alt)
      qed (use rs in simp_all)
      moreover have "unat cur < 2 ^ 31" using lt assms(2) by linarith
      from print_range [OF r(1) this assms(3,4), of first "ranges_text rs"]
      have "scnprintf_loop bm nbits sz cur rbot first (shown sz (ranges_text rs)) =
          scnprintf_loop bm nbits sz cur' cur' False (shown sz (ranges_text ?rs))"
        unfolding unfold ranges_text_snoc less.prems(5) [symmetric]
        by (simp only: True if_True c(1) Option.bind.simps Let_def cur'_def [symmetric] False if_False)
      ultimately show ?thesis by simp
    qed
  qed
qed

text \<open>
  C26: \<open>bitmap_scnprintf\<close> prints the maximal ranges of the set. It returns for every bitmap and every size below
  \<open>2 ^ 31\<close> within it; the text in the buffer is the list of the maximal ranges of the numbers below the size, in
  order and separated by commas, a range of one number written as the number, cut off one character before the end of
  the buffer. The result is the length of that text, so that the string fits with its final zero. The buffer must
  not be empty.
\<close>

theorem bitmap_scnprintf_ranges:
  assumes "unat nbits \<le> 64 * length bm" "unat nbits < 2 ^ 31" "0 < unat sz" "unat sz < 2 ^ 63"
  shows "\<exists>rs. ranges_of rs (below (unat nbits) bm) \<and>
    bitmap_scnprintf bm nbits sz = Some (of_nat (length (take (unat sz - 1) (ranges_text rs))), take (unat sz - 1) (ranges_text rs))"
proof -
  have "unat (ucast nbits :: u64) \<le> 64 * known (length bm)" using assms(1,2) by simp
  from word_source.FIND_FIRST_BIT_next [OF _ this, of 0]
  obtain c where c: "slow_find_first_bit bm (ucast nbits) = Some c" "next_in (bits bm) 0 (unat nbits) (unat c)"
    by (auto simp: slow_find_first_bit_def)
  let ?c = "ucast c :: u32"
  have "unat c < 2 ^ 32" using c(2) assms(2) by (auto simp: next_in_def)
  then have "unat ?c = unat c" by (simp add: unsigned_ucast_eq take_bit_nat_eq_self)
  then have n: "next_in (bits bm) 0 (unat nbits) (unat ?c)" using c(2) by simp
  then have none: "{i \<in> bits bm. i < unat ?c} = {}" by (auto simp: next_in_def)
  have "\<exists>rs. scnprintf_loop bm nbits sz ?c ?c True (shown sz (ranges_text [])) = Some (shown sz (ranges_text rs)) \<and>
      ranges_of rs (below (unat nbits) bm)"
    by (rule scnprintf_loop_ranges [OF assms])
      (use n none in \<open>auto simp: next_in_def word_less_nat_alt ranges_of_def\<close>)
  then show ?thesis using c(1) by (auto simp: bitmap_scnprintf_def shown_def Let_def)
qed

theorem bitmap_scnprintf_ranges_witness:
  "(\<exists>rs. ranges_of rs (below 70 [0x8000000000000027, 0x7]) \<and>
     bitmap_scnprintf [0x8000000000000027, 0x7] 70 8 = Some (of_nat (length (take 7 (ranges_text rs))), take 7 (ranges_text rs))) \<and>
   bitmap_scnprintf [0x8000000000000027, 0x7] 70 8 = Some (7, ''0-2,5,6'') \<and>
   bitmap_scnprintf [0x8000000000000027, 0x7] 70 80 = Some (11, ''0-2,5,63-66'')"
proof -
  have "bitmap_scnprintf [0x8000000000000027, 0x7] 70 8 = Some (7, ''0-2,5,6'')"
    "bitmap_scnprintf [0x8000000000000027, 0x7] 70 80 = Some (11, ''0-2,5,63-66'')" by code_simp+
  then show ?thesis using bitmap_scnprintf_ranges [of 70 "[0x8000000000000027, 0x7]" 8] by simp
qed

end
