(* ===== verification/Rbtree.thy ===== *)
theory Rbtree
  imports Prelude "HOL-Library.Monad_Syntax"
begin

text \<open>
  Red-black trees in memory, \<^verbatim>\<open>tools/lib/rbtree.c\<close> with the inline functions and macros of
  \<^verbatim>\<open>tools/include/linux/rbtree.h\<close> and \<^verbatim>\<open>tools/include/linux/rbtree_augmented.h\<close>. A pointer is the number of a
  byte, and NULL is 0; memory maps the addresses of nodes to nodes. The word \<^verbatim>\<open>__rb_parent_color\<close> holds the address
  of the parent and, in its lowest bit, the colour. The result \<open>None\<close> is the use of a pointer that is NULL or
  does not point to a node, or a loop that does not end.

  The sources have the rebalancing code twice, for the left and for the right side, with left and right
  exchanged. Here the side is an argument.
\<close>

unbundle bit_operations_syntax

subsection \<open>Nodes and memory\<close>

type_synonym ptr = u64

record rb_node =
  parent_color :: u64
  rb_right :: ptr
  rb_left :: ptr

text \<open>The nodes, the pointer of the \<^verbatim>\<open>rb_root\<close>, and what the callbacks of an augmented tree maintain.\<close>

record 'a rbmem =
  nodes :: "ptr \<Rightarrow> rb_node option"
  root_node :: ptr
  user :: 'a

datatype side = Lft | Rgt

fun opp :: "side \<Rightarrow> side" where
  "opp Lft = Rgt"
| "opp Rgt = Lft"

fun kid :: "side \<Rightarrow> rb_node \<Rightarrow> ptr" where
  "kid Lft n = rb_left n"
| "kid Rgt n = rb_right n"

fun put_child :: "side \<Rightarrow> ptr \<Rightarrow> rb_node \<Rightarrow> rb_node" where
  "put_child Lft p n = n\<lparr>rb_left := p\<rparr>"
| "put_child Rgt p n = n\<lparr>rb_right := p\<rparr>"

definition load :: "(rb_node \<Rightarrow> 'b) \<Rightarrow> ptr \<Rightarrow> 'a rbmem \<Rightarrow> 'b option" where
  "load f p st = (if p = 0 then None else map_option f (nodes st p))"

definition modify :: "(rb_node \<Rightarrow> rb_node) \<Rightarrow> ptr \<Rightarrow> 'a rbmem \<Rightarrow> 'a rbmem option" where
  "modify f p st = do { n \<leftarrow> load (\<lambda>n. n) p st; Some (st\<lparr>nodes := (nodes st)(p \<mapsto> f n)\<rparr>) }"

definition set_child :: "side \<Rightarrow> ptr \<Rightarrow> ptr \<Rightarrow> 'a rbmem \<Rightarrow> 'a rbmem option" where
  "set_child d p v st = modify (put_child d v) p st"

text \<open>The macros on the word of parent and colour.\<close>

definition RB_RED :: u64 where "RB_RED = 0"

definition RB_BLACK :: u64 where "RB_BLACK = 1"

definition pc_parent :: "u64 \<Rightarrow> ptr" where
  "pc_parent pc = pc AND NOT 3"

definition pc_color :: "u64 \<Rightarrow> u64" where
  "pc_color pc = pc AND 1"

definition pc_is_black :: "u64 \<Rightarrow> bool" where
  "pc_is_black pc \<longleftrightarrow> pc_color pc \<noteq> 0"

definition rb_parent :: "rb_node \<Rightarrow> ptr" where
  "rb_parent n = pc_parent (parent_color n)"

definition rb_is_black :: "rb_node \<Rightarrow> bool" where
  "rb_is_black n = pc_is_black (parent_color n)"

definition rb_is_red :: "rb_node \<Rightarrow> bool" where
  "rb_is_red n \<longleftrightarrow> \<not> rb_is_black n"

definition rb_red_parent :: "rb_node \<Rightarrow> ptr" where
  "rb_red_parent n = parent_color n"

definition rb_set_black :: "ptr \<Rightarrow> 'a rbmem \<Rightarrow> 'a rbmem option" where
  "rb_set_black rb st = modify (\<lambda>n. n\<lparr>parent_color := parent_color n OR RB_BLACK\<rparr>) rb st"

definition set_pc :: "ptr \<Rightarrow> u64 \<Rightarrow> 'a rbmem \<Rightarrow> 'a rbmem option" where
  "set_pc rb pc st = modify (\<lambda>n. n\<lparr>parent_color := pc\<rparr>) rb st"

definition rb_set_parent :: "ptr \<Rightarrow> ptr \<Rightarrow> 'a rbmem \<Rightarrow> 'a rbmem option" where
  "rb_set_parent rb p st = modify (\<lambda>n. n\<lparr>parent_color := pc_color (parent_color n) OR p\<rparr>) rb st"

definition rb_set_parent_color :: "ptr \<Rightarrow> ptr \<Rightarrow> u64 \<Rightarrow> 'a rbmem \<Rightarrow> 'a rbmem option" where
  "rb_set_parent_color rb p color st = set_pc rb (p OR color) st"

text \<open>A child that may be missing.\<close>

definition set_black_child :: "ptr \<Rightarrow> ptr \<Rightarrow> 'a rbmem \<Rightarrow> 'a rbmem option" where
  "set_black_child tmp p st = (if tmp \<noteq> 0 then rb_set_parent_color tmp p RB_BLACK st else Some st)"

definition rb_change_child :: "ptr \<Rightarrow> ptr \<Rightarrow> ptr \<Rightarrow> 'a rbmem \<Rightarrow> 'a rbmem option" where
  "rb_change_child old new parent st =
     (if parent \<noteq> 0 then do {
        l \<leftarrow> load rb_left parent st;
        if l = old then set_child Lft parent new st else set_child Rgt parent new st }
      else Some (st\<lparr>root_node := new\<rparr>))"

definition rb_rotate_set_parents :: "ptr \<Rightarrow> ptr \<Rightarrow> u64 \<Rightarrow> 'a rbmem \<Rightarrow> 'a rbmem option" where
  "rb_rotate_set_parents old new color st =
     do {
       parent \<leftarrow> load rb_parent old st;
       pc \<leftarrow> load parent_color old st;
       st \<leftarrow> set_pc new pc st;
       st \<leftarrow> rb_set_parent_color old new color st;
       rb_change_child old new parent st }"

text \<open>The callbacks read the tree and change what they maintain.\<close>

type_synonym 'a callback = "'a rbmem \<Rightarrow> ptr \<Rightarrow> ptr \<Rightarrow> 'a option"

record 'a rb_augment_callbacks =
  propagate :: "'a callback"
  copy :: "'a callback"
  rotate :: "'a callback"

definition call_back :: "'a callback \<Rightarrow> ptr \<Rightarrow> ptr \<Rightarrow> 'a rbmem \<Rightarrow> 'a rbmem option" where
  "call_back cb old new st = do { u \<leftarrow> cb st old new; Some (st\<lparr>user := u\<rparr>) }"

subsection \<open>Insertion\<close>

text \<open>
  The three cases of a red node with a red parent, which is on side \<open>d\<close> of the grandparent: the uncle is red;
  the node is on the inner side, and is rotated above its parent; the grandparent is rotated below the parent.
\<close>

definition insert_flip :: "ptr \<Rightarrow> ptr \<Rightarrow> ptr \<Rightarrow> 'a rbmem \<Rightarrow> (ptr \<times> 'a rbmem) option" where
  "insert_flip tmp parent gparent st =
     do {
       st \<leftarrow> rb_set_parent_color tmp gparent RB_BLACK st;
       st \<leftarrow> rb_set_parent_color parent gparent RB_BLACK st;
       parent \<leftarrow> load rb_parent gparent st;
       st \<leftarrow> rb_set_parent_color gparent parent RB_RED st;
       Some (parent, st) }"

definition insert_inner :: "'a callback \<Rightarrow> side \<Rightarrow> ptr \<Rightarrow> ptr \<Rightarrow> 'a rbmem \<Rightarrow> (ptr \<times> 'a rbmem) option" where
  "insert_inner augment_rotate d node parent st =
     do {
       tmp \<leftarrow> load (kid d) node st;
       st \<leftarrow> set_child (opp d) parent tmp st;
       st \<leftarrow> set_child d node parent st;
       st \<leftarrow> set_black_child tmp parent st;
       st \<leftarrow> rb_set_parent_color parent node RB_RED st;
       st \<leftarrow> call_back augment_rotate parent node st;
       tmp \<leftarrow> load (kid (opp d)) node st;
       Some (tmp, st) }"

definition insert_outer :: "'a callback \<Rightarrow> side \<Rightarrow> ptr \<Rightarrow> ptr \<Rightarrow> ptr \<Rightarrow> 'a rbmem \<Rightarrow> 'a rbmem option" where
  "insert_outer augment_rotate d tmp parent gparent st =
     do {
       st \<leftarrow> set_child d gparent tmp st;
       st \<leftarrow> set_child (opp d) parent gparent st;
       st \<leftarrow> set_black_child tmp gparent st;
       st \<leftarrow> rb_rotate_set_parents gparent parent RB_RED st;
       call_back augment_rotate gparent parent st }"

partial_function (option) rb_insert :: "'a callback \<Rightarrow> ptr \<Rightarrow> ptr \<Rightarrow> 'a rbmem \<Rightarrow> 'a rbmem option" where
  [code]: "rb_insert augment_rotate node parent st =
     (if parent = 0 then rb_set_parent_color node 0 RB_BLACK st
      else do {
        black \<leftarrow> load rb_is_black parent st;
        if black then Some st
        else do {
          gparent \<leftarrow> load rb_red_parent parent st;
          right \<leftarrow> load rb_right gparent st;
          let d = (if parent \<noteq> right then Lft else Rgt);
          tmp \<leftarrow> load (kid (opp d)) gparent st;
          red \<leftarrow> (if tmp = 0 then Some False else load rb_is_red tmp st);
          if red then do {
            (parent, st) \<leftarrow> insert_flip tmp parent gparent st;
            rb_insert augment_rotate gparent parent st }
          else do {
            tmp \<leftarrow> load (kid (opp d)) parent st;
            if node = tmp then do {
              (tmp, st) \<leftarrow> insert_inner augment_rotate d node parent st;
              insert_outer augment_rotate d tmp node gparent st }
            else insert_outer augment_rotate d tmp parent gparent st } } })"

definition rb_insert_augmented :: "ptr \<Rightarrow> 'a callback \<Rightarrow> 'a rbmem \<Rightarrow> 'a rbmem option" where
  "rb_insert_augmented node augment_rotate st =
     do { parent \<leftarrow> load rb_red_parent node st; rb_insert augment_rotate node parent st }"

definition dummy_callbacks :: "'a rb_augment_callbacks" where
  "dummy_callbacks =
     \<lparr>propagate = \<lambda>st node stop. Some (user st), copy = \<lambda>st old new. Some (user st), rotate = \<lambda>st old new. Some (user st)\<rparr>"

definition rb_insert_color :: "ptr \<Rightarrow> 'a rbmem \<Rightarrow> 'a rbmem option" where
  "rb_insert_color node st = rb_insert_augmented node (rotate dummy_callbacks) st"

text \<open>The callbacks the macro \<^verbatim>\<open>RB_DECLARE_CALLBACKS\<close> makes of a function that recomputes the value of a node.\<close>

type_synonym 'v compute = "ptr \<Rightarrow> bool \<Rightarrow> (ptr \<Rightarrow> 'v) rbmem \<Rightarrow> (bool \<times> (ptr \<Rightarrow> 'v)) option"

partial_function (option) callbacks_propagate :: "'v compute \<Rightarrow> (ptr \<Rightarrow> 'v) rbmem \<Rightarrow> ptr \<Rightarrow> ptr \<Rightarrow> (ptr \<Rightarrow> 'v) option" where
  [code]: "callbacks_propagate rbcompute st rb stop =
     (if rb = stop then Some (user st)
      else do {
        (quit, u) \<leftarrow> rbcompute rb True st;
        if quit then Some u
        else do { parent \<leftarrow> load rb_parent rb st; callbacks_propagate rbcompute (st\<lparr>user := u\<rparr>) parent stop } })"

definition callbacks_copy :: "(ptr \<Rightarrow> 'v) rbmem \<Rightarrow> ptr \<Rightarrow> ptr \<Rightarrow> (ptr \<Rightarrow> 'v) option" where
  "callbacks_copy st old new = Some ((user st)(new := user st old))"

definition callbacks_rotate :: "'v compute \<Rightarrow> (ptr \<Rightarrow> 'v) rbmem \<Rightarrow> ptr \<Rightarrow> ptr \<Rightarrow> (ptr \<Rightarrow> 'v) option" where
  "callbacks_rotate rbcompute st old new =
     do { (quit, u) \<leftarrow> rbcompute old False (st\<lparr>user := (user st)(new := user st old)\<rparr>); Some u }"

definition declare_callbacks :: "'v compute \<Rightarrow> (ptr \<Rightarrow> 'v) rb_augment_callbacks" where
  "declare_callbacks rbcompute =
     \<lparr>propagate = callbacks_propagate rbcompute, copy = callbacks_copy, rotate = callbacks_rotate rbcompute\<rparr>"

text \<open>The greatest value below a node, where \<open>f\<close> gives the value of a single node.\<close>

definition compute_max :: "(ptr \<Rightarrow> 'v :: linorder) \<Rightarrow> 'v compute" where
  "compute_max f node quit st =
     do {
       l \<leftarrow> load rb_left node st;
       r \<leftarrow> load rb_right node st;
       let m = f node;
       let m = (if l \<noteq> 0 \<and> user st l > m then user st l else m);
       let m = (if r \<noteq> 0 \<and> user st r > m then user st r else m);
       if quit \<and> user st node = m then Some (True, user st)
       else Some (False, (user st)(node := m)) }"

definition declare_callbacks_max :: "(ptr \<Rightarrow> 'v :: linorder) \<Rightarrow> (ptr \<Rightarrow> 'v) rb_augment_callbacks" where
  "declare_callbacks_max f = declare_callbacks (compute_max f)"

subsection \<open>Erasing\<close>

text \<open>
  The cases of a subtree on side \<open>d\<close> of its parent that lacks a black node: the sibling is red and is rotated
  above the parent; the sibling and its children are black, and the sibling is made red; the sibling's inner child is
  red and is rotated above the sibling; its outer child is red, and the sibling is rotated above the parent.
\<close>

definition erase_red_sibling :: "'a callback \<Rightarrow> side \<Rightarrow> ptr \<Rightarrow> ptr \<Rightarrow> 'a rbmem \<Rightarrow> (ptr \<times> 'a rbmem) option" where
  "erase_red_sibling augment_rotate d parent sibling st =
     do {
       tmp1 \<leftarrow> load (kid d) sibling st;
       st \<leftarrow> set_child (opp d) parent tmp1 st;
       st \<leftarrow> set_child d sibling parent st;
       st \<leftarrow> rb_set_parent_color tmp1 parent RB_BLACK st;
       st \<leftarrow> rb_rotate_set_parents parent sibling RB_RED st;
       st \<leftarrow> call_back augment_rotate parent sibling st;
       Some (tmp1, st) }"

definition erase_inner :: "'a callback \<Rightarrow> side \<Rightarrow> ptr \<Rightarrow> ptr \<Rightarrow> ptr \<Rightarrow> 'a rbmem \<Rightarrow> 'a rbmem option" where
  "erase_inner augment_rotate d parent sibling tmp2 st =
     do {
       tmp1 \<leftarrow> load (kid (opp d)) tmp2 st;
       st \<leftarrow> set_child d sibling tmp1 st;
       st \<leftarrow> set_child (opp d) tmp2 sibling st;
       st \<leftarrow> set_child (opp d) parent tmp2 st;
       st \<leftarrow> set_black_child tmp1 sibling st;
       call_back augment_rotate sibling tmp2 st }"

definition erase_outer :: "'a callback \<Rightarrow> side \<Rightarrow> ptr \<Rightarrow> ptr \<Rightarrow> ptr \<Rightarrow> 'a rbmem \<Rightarrow> 'a rbmem option" where
  "erase_outer augment_rotate d parent sibling tmp1 st =
     do {
       tmp2 \<leftarrow> load (kid d) sibling st;
       st \<leftarrow> set_child (opp d) parent tmp2 st;
       st \<leftarrow> set_child d sibling parent st;
       st \<leftarrow> rb_set_parent_color tmp1 sibling RB_BLACK st;
       st \<leftarrow> (if tmp2 \<noteq> 0 then rb_set_parent tmp2 parent st else Some st);
       st \<leftarrow> rb_rotate_set_parents parent sibling RB_BLACK st;
       call_back augment_rotate parent sibling st }"

definition missing_or_black :: "ptr \<Rightarrow> 'a rbmem \<Rightarrow> bool option" where
  "missing_or_black p st = (if p = 0 then Some True else load rb_is_black p st)"

partial_function (option) rb_erase_color :: "'a callback \<Rightarrow> ptr \<Rightarrow> ptr \<Rightarrow> 'a rbmem \<Rightarrow> 'a rbmem option" where
  [code]: "rb_erase_color augment_rotate node parent st =
     do {
       right \<leftarrow> load rb_right parent st;
       let d = (if node \<noteq> right then Lft else Rgt);
       sibling \<leftarrow> load (kid (opp d)) parent st;
       red \<leftarrow> load rb_is_red sibling st;
       (sibling, st) \<leftarrow> (if red then erase_red_sibling augment_rotate d parent sibling st else Some (sibling, st));
       tmp1 \<leftarrow> load (kid (opp d)) sibling st;
       black1 \<leftarrow> missing_or_black tmp1 st;
       if black1 then do {
         tmp2 \<leftarrow> load (kid d) sibling st;
         black2 \<leftarrow> missing_or_black tmp2 st;
         if black2 then do {
           st \<leftarrow> rb_set_parent_color sibling parent RB_RED st;
           red \<leftarrow> load rb_is_red parent st;
           if red then rb_set_black parent st
           else do {
             gparent \<leftarrow> load rb_parent parent st;
             if gparent \<noteq> 0 then rb_erase_color augment_rotate parent gparent st else Some st } }
         else do {
           st \<leftarrow> erase_inner augment_rotate d parent sibling tmp2 st;
           erase_outer augment_rotate d parent tmp2 sibling st } }
       else erase_outer augment_rotate d parent sibling tmp1 st }"

text \<open>
  Taking a node out: the node to rebalance from, or NULL. The loop goes down to the leftmost node below the
  right child and returns it with its parent.
\<close>

partial_function (option) erase_successor :: "ptr \<Rightarrow> ptr \<Rightarrow> 'a rbmem \<Rightarrow> (ptr \<times> ptr) option" where
  [code]: "erase_successor successor tmp st =
     do {
       left \<leftarrow> load rb_left tmp st;
       if left \<noteq> 0 then erase_successor tmp left st else Some (successor, tmp) }"

definition erase_one_child :: "ptr \<Rightarrow> ptr \<Rightarrow> 'a rbmem \<Rightarrow> (ptr \<times> ptr \<times> 'a rbmem) option" where
  "erase_one_child node child st =
     do {
       pc \<leftarrow> load parent_color node st;
       let parent = pc_parent pc;
       st \<leftarrow> rb_change_child node child parent st;
       if child \<noteq> 0 then do { st \<leftarrow> set_pc child pc st; Some (parent, 0, st) }
       else Some (parent, if pc_is_black pc then parent else 0, st) }"

definition erase_left_child :: "ptr \<Rightarrow> ptr \<Rightarrow> 'a rbmem \<Rightarrow> (ptr \<times> ptr \<times> 'a rbmem) option" where
  "erase_left_child node tmp st =
     do {
       pc \<leftarrow> load parent_color node st;
       st \<leftarrow> set_pc tmp pc st;
       let parent = pc_parent pc;
       st \<leftarrow> rb_change_child node tmp parent st;
       Some (parent, 0, st) }"

text \<open>The successor is the right child, or the leftmost node below it.\<close>

definition erase_take_successor ::
  "'a rb_augment_callbacks \<Rightarrow> ptr \<Rightarrow> ptr \<Rightarrow> 'a rbmem \<Rightarrow> (ptr \<times> ptr \<times> ptr \<times> 'a rbmem) option" where
  "erase_take_successor augment node child st =
     do {
       tmp \<leftarrow> load rb_left child st;
       if tmp = 0 then do {
         child2 \<leftarrow> load rb_right child st;
         st \<leftarrow> call_back (copy augment) node child st;
         Some (child, child, child2, st) }
       else do {
         (parent, successor) \<leftarrow> erase_successor child tmp st;
         child2 \<leftarrow> load rb_right successor st;
         st \<leftarrow> set_child Lft parent child2 st;
         st \<leftarrow> set_child Rgt successor child st;
         st \<leftarrow> rb_set_parent child successor st;
         st \<leftarrow> call_back (copy augment) node successor st;
         st \<leftarrow> call_back (propagate augment) parent successor st;
         Some (successor, parent, child2, st) } }"

definition erase_put_successor ::
  "ptr \<Rightarrow> ptr \<Rightarrow> ptr \<Rightarrow> ptr \<Rightarrow> 'a rbmem \<Rightarrow> (ptr \<times> ptr \<times> 'a rbmem) option" where
  "erase_put_successor node successor parent child2 st =
     do {
       tmp \<leftarrow> load rb_left node st;
       st \<leftarrow> set_child Lft successor tmp st;
       st \<leftarrow> rb_set_parent tmp successor st;
       pc \<leftarrow> load parent_color node st;
       st \<leftarrow> rb_change_child node successor (pc_parent pc) st;
       if child2 \<noteq> 0 then do {
         st \<leftarrow> set_pc successor pc st;
         st \<leftarrow> rb_set_parent_color child2 parent RB_BLACK st;
         Some (successor, 0, st) }
       else do {
         pc2 \<leftarrow> load parent_color successor st;
         st \<leftarrow> set_pc successor pc st;
         Some (successor, if pc_is_black pc2 then parent else 0, st) } }"

definition erase_two_children :: "'a rb_augment_callbacks \<Rightarrow> ptr \<Rightarrow> ptr \<Rightarrow> 'a rbmem \<Rightarrow> (ptr \<times> ptr \<times> 'a rbmem) option" where
  "erase_two_children augment node child st =
     do {
       (successor, parent, child2, st) \<leftarrow> erase_take_successor augment node child st;
       erase_put_successor node successor parent child2 st }"

definition rb_erase_unlink :: "ptr \<Rightarrow> 'a rb_augment_callbacks \<Rightarrow> 'a rbmem \<Rightarrow> (ptr \<times> 'a rbmem) option" where
  "rb_erase_unlink node augment st =
     do {
       child \<leftarrow> load rb_right node st;
       tmp \<leftarrow> load rb_left node st;
       (tmp, rebalance, st) \<leftarrow>
         (if tmp = 0 then erase_one_child node child st
          else if child = 0 then erase_left_child node tmp st
          else erase_two_children augment node child st);
       st \<leftarrow> call_back (propagate augment) tmp 0 st;
       Some (rebalance, st) }"

definition rb_erase_augmented :: "ptr \<Rightarrow> 'a rb_augment_callbacks \<Rightarrow> 'a rbmem \<Rightarrow> 'a rbmem option" where
  "rb_erase_augmented node augment st =
     do {
       (rebalance, st) \<leftarrow> rb_erase_unlink node augment st;
       if rebalance \<noteq> 0 then rb_erase_color (rotate augment) 0 rebalance st else Some st }"

definition rb_erase :: "ptr \<Rightarrow> 'a rbmem \<Rightarrow> 'a rbmem option" where
  "rb_erase node st = rb_erase_augmented node dummy_callbacks st"

subsection \<open>Walking\<close>

text \<open>Down on one side as far as possible.\<close>

partial_function (option) down :: "side \<Rightarrow> ptr \<Rightarrow> 'a rbmem \<Rightarrow> ptr option" where
  [code]: "down d n st = do { c \<leftarrow> load (kid d) n st; if c \<noteq> 0 then down d c st else Some n }"

definition rb_first :: "'a rbmem \<Rightarrow> ptr option" where
  "rb_first st = (let n = root_node st in if n = 0 then Some 0 else down Lft n st)"

definition rb_last :: "'a rbmem \<Rightarrow> ptr option" where
  "rb_last st = (let n = root_node st in if n = 0 then Some 0 else down Rgt n st)"

text \<open>Up while the node is on side \<open>d\<close> of its parent.\<close>

partial_function (option) climb :: "side \<Rightarrow> ptr \<Rightarrow> 'a rbmem \<Rightarrow> ptr option" where
  [code]: "climb d node st =
     do {
       parent \<leftarrow> load rb_parent node st;
       if parent = 0 then Some 0
       else do { c \<leftarrow> load (kid d) parent st; if node = c then climb d parent st else Some parent } }"

definition RB_EMPTY_NODE :: "ptr \<Rightarrow> 'a rbmem \<Rightarrow> bool option" where
  "RB_EMPTY_NODE node st = load (\<lambda>n. parent_color n = node) node st"

definition RB_CLEAR_NODE :: "ptr \<Rightarrow> 'a rbmem \<Rightarrow> 'a rbmem option" where
  "RB_CLEAR_NODE node st = set_pc node node st"

definition walk :: "side \<Rightarrow> ptr \<Rightarrow> 'a rbmem \<Rightarrow> ptr option" where
  "walk d node st =
     do {
       empty \<leftarrow> RB_EMPTY_NODE node st;
       if empty then Some 0
       else do { c \<leftarrow> load (kid d) node st; if c \<noteq> 0 then down (opp d) c st else climb d node st } }"

definition rb_next :: "ptr \<Rightarrow> 'a rbmem \<Rightarrow> ptr option" where
  "rb_next node st = walk Rgt node st"

definition rb_prev :: "ptr \<Rightarrow> 'a rbmem \<Rightarrow> ptr option" where
  "rb_prev node st = walk Lft node st"

partial_function (option) rb_left_deepest_node :: "ptr \<Rightarrow> 'a rbmem \<Rightarrow> ptr option" where
  [code]: "rb_left_deepest_node node st =
     do {
       l \<leftarrow> load rb_left node st;
       if l \<noteq> 0 then rb_left_deepest_node l st
       else do { r \<leftarrow> load rb_right node st; if r \<noteq> 0 then rb_left_deepest_node r st else Some node } }"

definition rb_next_postorder :: "ptr \<Rightarrow> 'a rbmem \<Rightarrow> ptr option" where
  "rb_next_postorder node st =
     (if node = 0 then Some 0
      else do {
        parent \<leftarrow> load rb_parent node st;
        if parent = 0 then Some 0
        else do {
          l \<leftarrow> load rb_left parent st;
          r \<leftarrow> load rb_right parent st;
          if node = l \<and> r \<noteq> 0 then rb_left_deepest_node r st else Some parent } })"

definition rb_first_postorder :: "'a rbmem \<Rightarrow> ptr option" where
  "rb_first_postorder st = (if root_node st = 0 then Some 0 else rb_left_deepest_node (root_node st) st)"

text \<open>The nodes \<^verbatim>\<open>rbtree_postorder_for_each_entry_safe\<close> visits; the next one is known before the body runs.\<close>

partial_function (option) postorder_from :: "ptr \<Rightarrow> 'a rbmem \<Rightarrow> ptr list option" where
  [code]: "postorder_from pos st =
     (if pos = 0 then Some []
      else do { n \<leftarrow> rb_next_postorder pos st; rest \<leftarrow> postorder_from n st; Some (pos # rest) })"

definition rbtree_postorder_for_each_entry_safe :: "'a rbmem \<Rightarrow> ptr list option" where
  "rbtree_postorder_for_each_entry_safe st = do { pos \<leftarrow> rb_first_postorder st; postorder_from pos st }"

subsection \<open>Replacing, adding and finding\<close>

definition rb_replace_node :: "ptr \<Rightarrow> ptr \<Rightarrow> 'a rbmem \<Rightarrow> 'a rbmem option" where
  "rb_replace_node victim new st =
     do {
       parent \<leftarrow> load rb_parent victim st;
       v \<leftarrow> load (\<lambda>n. n) victim st;
       st \<leftarrow> modify (\<lambda>_. v) new st;
       l \<leftarrow> load rb_left victim st;
       st \<leftarrow> (if l \<noteq> 0 then rb_set_parent l new st else Some st);
       r \<leftarrow> load rb_right victim st;
       st \<leftarrow> (if r \<noteq> 0 then rb_set_parent r new st else Some st);
       rb_change_child victim new parent st }"

text \<open>The place a pointer to a node is stored at.\<close>

datatype link = Root_link | Kid_link side ptr

fun read_link :: "link \<Rightarrow> 'a rbmem \<Rightarrow> ptr option" where
  "read_link Root_link st = Some (root_node st)"
| "read_link (Kid_link d p) st = load (kid d) p st"

fun write_link :: "link \<Rightarrow> ptr \<Rightarrow> 'a rbmem \<Rightarrow> 'a rbmem option" where
  "write_link Root_link v st = Some (st\<lparr>root_node := v\<rparr>)"
| "write_link (Kid_link d p) v st = set_child d p v st"

definition rb_link_node :: "ptr \<Rightarrow> ptr \<Rightarrow> link \<Rightarrow> 'a rbmem \<Rightarrow> 'a rbmem option" where
  "rb_link_node node parent rb_link st =
     do {
       st \<leftarrow> set_pc node parent st;
       st \<leftarrow> modify (\<lambda>n. n\<lparr>rb_right := 0, rb_left := 0\<rparr>) node st;
       write_link rb_link node st }"

definition rb_erase_init :: "ptr \<Rightarrow> 'a rbmem \<Rightarrow> 'a rbmem option" where
  "rb_erase_init n st = do { st \<leftarrow> rb_erase n st; RB_CLEAR_NODE n st }"

text \<open>Going down from a link; the last component tells whether only left links were taken.\<close>

partial_function (option) add_loop ::
  "(ptr \<Rightarrow> ptr \<Rightarrow> bool) \<Rightarrow> ptr \<Rightarrow> link \<Rightarrow> ptr \<Rightarrow> bool \<Rightarrow> 'a rbmem \<Rightarrow> (link \<times> ptr \<times> bool) option" where
  [code]: "add_loop lt node link parent leftmost st =
     do {
       p \<leftarrow> read_link link st;
       if p = 0 then Some (link, parent, leftmost)
       else if lt node p then add_loop lt node (Kid_link Lft p) p leftmost st
       else add_loop lt node (Kid_link Rgt p) p False st }"

definition rb_add :: "ptr \<Rightarrow> (ptr \<Rightarrow> ptr \<Rightarrow> bool) \<Rightarrow> 'a rbmem \<Rightarrow> 'a rbmem option" where
  "rb_add node lt st =
     do {
       (link, parent, leftmost) \<leftarrow> add_loop lt node Root_link 0 True st;
       st \<leftarrow> rb_link_node node parent link st;
       rb_insert_color node st }"

text \<open>A tree with a cached pointer to its leftmost node.\<close>

type_synonym 'a cached = "'a rbmem \<times> ptr"

definition rb_insert_color_cached :: "ptr \<Rightarrow> bool \<Rightarrow> 'a cached \<Rightarrow> 'a cached option" where
  "rb_insert_color_cached node leftmost root =
     (case root of (st, lm) \<Rightarrow>
        do { st \<leftarrow> rb_insert_color node st; Some (st, if leftmost then node else lm) })"

definition rb_add_cached :: "ptr \<Rightarrow> (ptr \<Rightarrow> ptr \<Rightarrow> bool) \<Rightarrow> 'a cached \<Rightarrow> 'a cached option" where
  "rb_add_cached node lt tree =
     (case tree of (st, lm) \<Rightarrow>
        do {
          (link, parent, leftmost) \<leftarrow> add_loop lt node Root_link 0 True st;
          st \<leftarrow> rb_link_node node parent link st;
          rb_insert_color_cached node leftmost (st, lm) })"

definition rb_erase_cached :: "ptr \<Rightarrow> 'a cached \<Rightarrow> 'a cached option" where
  "rb_erase_cached node root =
     (case root of (st, lm) \<Rightarrow>
        do {
          lm \<leftarrow> (if lm = node then rb_next node st else Some lm);
          st \<leftarrow> rb_erase node st;
          Some (st, lm) })"

definition rb_insert_augmented_cached :: "ptr \<Rightarrow> bool \<Rightarrow> 'a rb_augment_callbacks \<Rightarrow> 'a cached \<Rightarrow> 'a cached option" where
  "rb_insert_augmented_cached node newleft augment root =
     (case root of (st, lm) \<Rightarrow>
        do { st \<leftarrow> rb_insert_augmented node (rotate augment) st; Some (st, if newleft then node else lm) })"

definition rb_erase_augmented_cached :: "ptr \<Rightarrow> 'a rb_augment_callbacks \<Rightarrow> 'a cached \<Rightarrow> 'a cached option" where
  "rb_erase_augmented_cached node augment root =
     (case root of (st, lm) \<Rightarrow>
        do {
          lm \<leftarrow> (if lm = node then rb_next node st else Some lm);
          st \<leftarrow> rb_erase_augmented node augment st;
          Some (st, lm) })"

definition rb_replace_node_cached :: "ptr \<Rightarrow> ptr \<Rightarrow> 'a cached \<Rightarrow> 'a cached option" where
  "rb_replace_node_cached victim new root =
     (case root of (st, lm) \<Rightarrow>
        do { st \<leftarrow> rb_replace_node victim new st; Some (st, if lm = victim then new else lm) })"

definition rb_first_cached :: "'a cached \<Rightarrow> ptr" where
  "rb_first_cached root = snd root"

partial_function (option) find_add_loop ::
  "(ptr \<Rightarrow> ptr \<Rightarrow> int) \<Rightarrow> ptr \<Rightarrow> link \<Rightarrow> ptr \<Rightarrow> 'a rbmem \<Rightarrow> (link \<times> ptr \<times> bool) option" where
  [code]: "find_add_loop cmp node link parent st =
     do {
       p \<leftarrow> read_link link st;
       if p = 0 then Some (link, parent, False)
       else let c = cmp node p in
         if c < 0 then find_add_loop cmp node (Kid_link Lft p) p st
         else if c > 0 then find_add_loop cmp node (Kid_link Rgt p) p st
         else Some (link, p, True) }"

definition rb_find_add :: "ptr \<Rightarrow> (ptr \<Rightarrow> ptr \<Rightarrow> int) \<Rightarrow> 'a rbmem \<Rightarrow> (ptr \<times> 'a rbmem) option" where
  "rb_find_add node cmp st =
     do {
       (link, parent, found) \<leftarrow> find_add_loop cmp node Root_link 0 st;
       if found then Some (parent, st)
       else do {
         st \<leftarrow> rb_link_node node parent link st;
         st \<leftarrow> rb_insert_color node st;
         Some (0, st) } }"

partial_function (option) find_loop :: "(ptr \<Rightarrow> int) \<Rightarrow> ptr \<Rightarrow> 'a rbmem \<Rightarrow> ptr option" where
  [code]: "find_loop cmp node st =
     (if node = 0 then Some 0
      else let c = cmp node in
        if c < 0 then do { n \<leftarrow> load rb_left node st; find_loop cmp n st }
        else if c > 0 then do { n \<leftarrow> load rb_right node st; find_loop cmp n st }
        else Some node)"

definition rb_find :: "'k \<Rightarrow> ('k \<Rightarrow> ptr \<Rightarrow> int) \<Rightarrow> 'a rbmem \<Rightarrow> ptr option" where
  "rb_find key cmp st = find_loop (cmp key) (root_node st) st"

partial_function (option) find_first_loop :: "(ptr \<Rightarrow> int) \<Rightarrow> ptr \<Rightarrow> ptr \<Rightarrow> 'a rbmem \<Rightarrow> ptr option" where
  [code]: "find_first_loop cmp node match st =
     (if node = 0 then Some match
      else let c = cmp node in
        if c \<le> 0 then do { n \<leftarrow> load rb_left node st; find_first_loop cmp n (if c = 0 then node else match) st }
        else do { n \<leftarrow> load rb_right node st; find_first_loop cmp n match st })"

definition rb_find_first :: "'k \<Rightarrow> ('k \<Rightarrow> ptr \<Rightarrow> int) \<Rightarrow> 'a rbmem \<Rightarrow> ptr option" where
  "rb_find_first key cmp st = find_first_loop (cmp key) (root_node st) 0 st"

definition rb_next_match :: "'k \<Rightarrow> ptr \<Rightarrow> ('k \<Rightarrow> ptr \<Rightarrow> int) \<Rightarrow> 'a rbmem \<Rightarrow> ptr option" where
  "rb_next_match key node cmp st =
     do { n \<leftarrow> rb_next node st; Some (if n \<noteq> 0 \<and> cmp key n \<noteq> 0 then 0 else n) }"

text \<open>The nodes the loop \<^verbatim>\<open>rb_for_each\<close> visits.\<close>

partial_function (option) matches_from :: "'k \<Rightarrow> ('k \<Rightarrow> ptr \<Rightarrow> int) \<Rightarrow> ptr \<Rightarrow> 'a rbmem \<Rightarrow> ptr list option" where
  [code]: "matches_from key cmp node st =
     (if node = 0 then Some []
      else do { n \<leftarrow> rb_next_match key node cmp st; rest \<leftarrow> matches_from key cmp n st; Some (node # rest) })"

definition rb_for_each :: "'k \<Rightarrow> ('k \<Rightarrow> ptr \<Rightarrow> int) \<Rightarrow> 'a rbmem \<Rightarrow> ptr list option" where
  "rb_for_each key cmp st = do { node \<leftarrow> rb_find_first key cmp st; matches_from key cmp node st }"

end
