(* ===== verification/Rbtree_Shape.thy ===== *)
theory Rbtree_Shape
  imports Rbtree
begin

text \<open>
  Trees and the memory they are in. A shape is a binary tree of coloured addresses; a path leads from a subtree
  up to the root. The predicate \<open>tree_at\<close> says that memory holds a shape below a parent, \<open>path_at\<close> that it holds a path above a
  pointer, and \<open>mem\<close> that it holds a whole tree.
\<close>

subsection \<open>Shapes\<close>

datatype color = Red | Black

lemma other_color [simp]: "c \<noteq> Red \<longleftrightarrow> c = Black" "c \<noteq> Black \<longleftrightarrow> c = Red"
  by (cases c; simp)+

datatype shape = Nl | Nd color shape ptr shape

fun mk :: "side \<Rightarrow> color \<Rightarrow> shape \<Rightarrow> ptr \<Rightarrow> shape \<Rightarrow> shape" where
  "mk Lft c x a y = Nd c x a y"
| "mk Rgt c x a y = Nd c y a x"

primrec inorder :: "shape \<Rightarrow> ptr list" where
  "inorder Nl = []"
| "inorder (Nd c l a r) = inorder l @ a # inorder r"

abbreviation addrs :: "shape \<Rightarrow> ptr set" where
  "addrs t \<equiv> set (inorder t)"

primrec addr :: "shape \<Rightarrow> ptr" where
  "addr Nl = 0"
| "addr (Nd c l a r) = a"

primrec color_of :: "shape \<Rightarrow> color" where
  "color_of Nl = Black"
| "color_of (Nd c l a r) = c"

primrec paint :: "color \<Rightarrow> shape \<Rightarrow> shape" where
  "paint col Nl = Nl"
| "paint col (Nd c l a r) = Nd col l a r"

lemma opp_opp [simp]: "opp (opp d) = d"
  by (cases d) simp_all

lemma opp_neq [simp]: "opp d \<noteq> d" "d \<noteq> opp d"
  by (cases d; simp)+

lemma not_side: "d \<noteq> e \<longleftrightarrow> d = opp e" for d e :: side
  by (cases d; cases e) simp_all

lemma mk_cases:
  obtains (Nl) "t = Nl" | (mk) c x a y where "t = mk d c x a y"
  by (cases t; cases d) auto

lemma mk_simps [simp]:
  "mk (opp d) c x a y = mk d c y a x"
  "mk d c x a y \<noteq> Nl" "Nl \<noteq> mk d c x a y"
  "addr (mk d c x a y) = a"
  "color_of (mk d c x a y) = c"
  "paint col (mk d c x a y) = mk d col x a y"
  "mk d c x a y = mk d c' x' a' y' \<longleftrightarrow> c = c' \<and> x = x' \<and> a = a' \<and> y = y'"
  by (cases d; auto)+

lemma addrs_mk [simp]: "addrs (mk d c x a y) = insert a (addrs x \<union> addrs y)"
  by (cases d) auto

lemma distinct_mk [simp]:
  "distinct (inorder (mk d c x a y)) \<longleftrightarrow>
     distinct (inorder x) \<and> distinct (inorder y) \<and> a \<notin> addrs x \<and> a \<notin> addrs y \<and> addrs x \<inter> addrs y = {}"
  by (cases d) auto

lemma paint_simps [simp]:
  "inorder (paint col t) = inorder t" "addr (paint col t) = addr t" "paint col t = Nl \<longleftrightarrow> t = Nl"
  "Nl = paint col t \<longleftrightarrow> t = Nl"
  by (cases t; simp)+

lemma addr_in: "t \<noteq> Nl \<Longrightarrow> addr t \<in> addrs t"
  by (cases t) auto

subsection \<open>Paths\<close>

text \<open>A frame: the side of its parent a subtree is on, the colour and address of the parent, and the sibling.\<close>

type_synonym frame = "side \<times> color \<times> ptr \<times> shape"

fun plug :: "frame list \<Rightarrow> shape \<Rightarrow> shape" where
  "plug [] t = t"
| "plug ((d, c, a, s) # k) t = plug k (mk d c t a s)"

fun path_addrs :: "frame list \<Rightarrow> ptr set" where
  "path_addrs [] = {}"
| "path_addrs ((d, c, a, s) # k) = insert a (addrs s \<union> path_addrs k)"

fun path_distinct :: "frame list \<Rightarrow> bool" where
  "path_distinct [] \<longleftrightarrow> True"
| "path_distinct ((d, c, a, s) # k) \<longleftrightarrow>
     distinct (inorder s) \<and> a \<notin> addrs s \<and> a \<notin> path_addrs k \<and> addrs s \<inter> path_addrs k = {} \<and> path_distinct k"

text \<open>The address above a subtree, and the address of the whole tree.\<close>

fun up :: "frame list \<Rightarrow> ptr" where
  "up [] = 0"
| "up ((d, c, a, s) # k) = a"

fun root_of :: "frame list \<Rightarrow> ptr \<Rightarrow> ptr" where
  "root_of [] p = p"
| "root_of ((d, c, a, s) # k) p = root_of k a"

lemma addrs_plug [simp]: "addrs (plug k t) = addrs t \<union> path_addrs k"
  by (induction k t rule: plug.induct) auto

lemma distinct_plug [simp]:
  "distinct (inorder (plug k t)) \<longleftrightarrow> distinct (inorder t) \<and> path_distinct k \<and> addrs t \<inter> path_addrs k = {}"
  by (induction k t rule: plug.induct) auto

lemma addr_plug [simp]: "addr (plug k t) = root_of k (addr t)"
  by (induction k t rule: plug.induct) auto

lemma inorder_plug_cong: "inorder t = inorder t' \<Longrightarrow> inorder (plug k t) = inorder (plug k t')"
proof (induction k arbitrary: t t')
  case (Cons f k)
  obtain d c a s where "f = (d, c, a, s)" by (cases f)
  then show ?case using Cons by (cases d) auto
qed simp

subsection \<open>Memory\<close>

definition ptr_ok :: "ptr \<Rightarrow> bool" where
  "ptr_ok a \<longleftrightarrow> a \<noteq> 0 \<and> a AND 3 = 0"

definition bw :: "color \<Rightarrow> u64" where
  "bw c = (case c of Red \<Rightarrow> RB_RED | Black \<Rightarrow> RB_BLACK)"

text \<open>A node with the given children on side \<open>d\<close> and on the other side.\<close>

fun nd :: "side \<Rightarrow> u64 \<Rightarrow> ptr \<Rightarrow> ptr \<Rightarrow> rb_node" where
  "nd Lft pc x y = \<lparr>parent_color = pc, rb_right = y, rb_left = x\<rparr>"
| "nd Rgt pc x y = \<lparr>parent_color = pc, rb_right = x, rb_left = y\<rparr>"

lemma nd_simps [simp]:
  "nd (opp d) pc x y = nd d pc y x"
  "kid d (nd d pc x y) = x" "kid (opp d) (nd d pc x y) = y"
  "put_child d v (nd d pc x y) = nd d pc v y" "put_child (opp d) v (nd d pc x y) = nd d pc x v"
  "parent_color (nd d pc x y) = pc" "(nd d pc x y)\<lparr>parent_color := q\<rparr> = nd d q x y"
  by (cases d; simp)+

primrec tree_at :: "(ptr \<Rightarrow> rb_node option) \<Rightarrow> ptr \<Rightarrow> shape \<Rightarrow> bool" where
  "tree_at h q Nl \<longleftrightarrow> True"
| "tree_at h q (Nd c l a r) \<longleftrightarrow>
     ptr_ok a \<and> h a = Some (nd Lft (q OR bw c) (addr l) (addr r)) \<and> tree_at h a l \<and> tree_at h a r"

fun path_at :: "(ptr \<Rightarrow> rb_node option) \<Rightarrow> frame list \<Rightarrow> ptr \<Rightarrow> bool" where
  "path_at h [] p \<longleftrightarrow> True"
| "path_at h ((d, c, a, s) # k) p \<longleftrightarrow>
     ptr_ok a \<and> h a = Some (nd d (up k OR bw c) p (addr s)) \<and> tree_at h a s \<and> path_at h k a"

definition mem :: "'a rbmem \<Rightarrow> shape \<Rightarrow> bool" where
  "mem st t \<longleftrightarrow> tree_at (nodes st) 0 t \<and> root_node st = addr t \<and> distinct (inorder t)"

lemma tree_at_mk [simp]:
  "tree_at h q (mk d c x a y) \<longleftrightarrow>
     ptr_ok a \<and> h a = Some (nd d (q OR bw c) (addr x) (addr y)) \<and> tree_at h a x \<and> tree_at h a y"
  by (cases d) auto

lemma tree_at_plug: "tree_at h 0 (plug k t) \<longleftrightarrow> tree_at h (up k) t \<and> path_at h k (addr t)"
proof (induction k arbitrary: t)
  case (Cons f k)
  then show ?case by (cases f) auto
qed simp

lemma mem_plug: "mem st (plug k t) \<longleftrightarrow> tree_at (nodes st) (up k) t \<and> path_at (nodes st) k (addr t) \<and>
    root_node st = root_of k (addr t) \<and> distinct (inorder t) \<and> path_distinct k \<and> addrs t \<inter> path_addrs k = {}"
  by (simp add: mem_def tree_at_plug)

text \<open>Frame rules: memory elsewhere does not matter.\<close>

lemma tree_at_agree: "(\<And>a. a \<in> addrs t \<Longrightarrow> h' a = h a) \<Longrightarrow> tree_at h' q t = tree_at h q t"
  by (induction t arbitrary: q) auto

lemma path_at_agree: "(\<And>a. a \<in> path_addrs k \<Longrightarrow> h' a = h a) \<Longrightarrow> path_at h' k p = path_at h k p"
proof (induction k arbitrary: p)
  case (Cons f k)
  obtain d c a s where f: "f = (d, c, a, s)" by (cases f)
  have "tree_at h' a s = tree_at h a s" using Cons.prems by (intro tree_at_agree) (auto simp: f)
  then show ?case using Cons by (auto simp: f)
qed simp

lemma tree_at_upd [simp]: "a \<notin> addrs t \<Longrightarrow> tree_at (h(a := n)) q t = tree_at h q t"
  by (rule tree_at_agree) auto

lemma path_at_upd [simp]: "a \<notin> path_addrs k \<Longrightarrow> path_at (h(a := n)) k p = path_at h k p"
  by (rule path_at_agree) auto

lemma tree_at_ok: "tree_at h q t \<Longrightarrow> a \<in> addrs t \<Longrightarrow> ptr_ok a"
  by (induction t arbitrary: q) auto

lemma tree_at_0: "tree_at h q t \<Longrightarrow> 0 \<notin> addrs t"
  using tree_at_ok ptr_ok_def by blast

lemma path_at_ok: "path_at h k p \<Longrightarrow> a \<in> path_addrs k \<Longrightarrow> ptr_ok a"
proof (induction k arbitrary: p)
  case (Cons f k)
  then show ?case by (cases f) (auto dest: tree_at_ok)
qed simp

lemma up_ok: "path_at h k p \<Longrightarrow> up k = 0 \<or> ptr_ok (up k)"
  by (cases k) auto

lemma up_in: "up k \<noteq> 0 \<Longrightarrow> up k \<in> path_addrs k"
  by (cases k) auto

text \<open>The word of parent and colour.\<close>

lemma pc_simps:
  assumes "q AND 3 = 0"
  shows "pc_parent (q OR bw c) = q" "pc_color (q OR bw c) = bw c" "pc_is_black (q OR bw c) \<longleftrightarrow> c = Black"
    "pc_parent q = q" "pc_color q = 0" "(q OR bw c) OR RB_BLACK = q OR bw Black"
proof -
  have three: "bit (3 :: u64) i \<longleftrightarrow> i < 2" for i
    using bit_mask_iff [of 2 i, where 'a = u64] by (auto simp: mask_eq_exp_minus_1 dest: bit_imp_le_length)
  have keep: "bit (v AND NOT 3) i \<longleftrightarrow> bit v i \<and> \<not> i < 2" for v :: u64 and i
    unfolding bit_and_iff bit_not_iff three using bit_imp_le_length [of v i] by auto
  have low: "\<not> bit q i" if "i < 2" for i
    using assms that three [of i] bit_and_iff [of q 3 i] by simp
  have one: "bit (1 :: u64) i \<longleftrightarrow> i = 0" for i by (simp add: bit_1_iff)
  have b: "bit (bw c) i \<longleftrightarrow> c = Black \<and> i = 0" for c i
    by (cases c) (simp_all add: bw_def RB_RED_def RB_BLACK_def bit_1_iff)
  note simps = bit_and_iff bit_or_iff three one b
  show "pc_parent (q OR bw c) = q" "pc_parent q = q"
    unfolding pc_parent_def by (intro bit_word_eqI; unfold keep; use low in \<open>auto simp: simps\<close>)+
  show color: "pc_color (q OR bw c) = bw c" "pc_color q = 0"
    using low by (auto intro!: bit_word_eqI simp: pc_color_def simps)
  show "pc_is_black (q OR bw c) \<longleftrightarrow> c = Black"
    unfolding pc_is_black_def color by (cases c) (simp_all add: bw_def RB_RED_def RB_BLACK_def)
  show "(q OR bw c) OR RB_BLACK = q OR bw Black"
    by (auto intro!: bit_word_eqI simp: simps RB_BLACK_def)
qed

subsection \<open>Red-black trees\<close>

text \<open>The rules of the comment at the head of the file: 4) is \<open>invc\<close> and 5) is \<open>bht\<close>, the number of black nodes on every path.\<close>

primrec invc :: "shape \<Rightarrow> bool" where
  "invc Nl \<longleftrightarrow> True"
| "invc (Nd c l a r) \<longleftrightarrow> (c = Red \<longrightarrow> color_of l = Black \<and> color_of r = Black) \<and> invc l \<and> invc r"

primrec bht :: "shape \<Rightarrow> nat \<Rightarrow> bool" where
  "bht Nl n \<longleftrightarrow> n = 0"
| "bht (Nd c l a r) n \<longleftrightarrow>
     (case c of Red \<Rightarrow> bht l n \<and> bht r n | Black \<Rightarrow> 0 < n \<and> bht l (n - 1) \<and> bht r (n - 1))"

definition rb_shape :: "shape \<Rightarrow> bool" where
  "rb_shape t \<longleftrightarrow> invc t \<and> color_of t = Black \<and> (\<exists>n. bht t n)"

text \<open>What a path asks of the subtree at its end: its colour and its black height.\<close>

fun path_c :: "frame list \<Rightarrow> color \<Rightarrow> bool" where
  "path_c [] col \<longleftrightarrow> col = Black"
| "path_c ((d, c, a, s) # k) col \<longleftrightarrow> invc s \<and> (c = Red \<longrightarrow> col = Black \<and> color_of s = Black) \<and> path_c k c"

fun path_h :: "frame list \<Rightarrow> nat \<Rightarrow> bool" where
  "path_h [] n \<longleftrightarrow> True"
| "path_h ((d, c, a, s) # k) n \<longleftrightarrow> bht s n \<and> path_h k (case c of Red \<Rightarrow> n | Black \<Rightarrow> Suc n)"

lemma invc_mk [simp]:
  "invc (mk d c x a y) \<longleftrightarrow> (c = Red \<longrightarrow> color_of x = Black \<and> color_of y = Black) \<and> invc x \<and> invc y"
  by (cases d) auto

lemma bht_mk [simp]: "bht (mk d Red x a y) n \<longleftrightarrow> bht x n \<and> bht y n" "bht (mk d Black x a y) (Suc n) \<longleftrightarrow> bht x n \<and> bht y n"
  "\<not> bht (mk d Black x a y) 0"
  by (cases d; auto)+

lemma invc_paint: "invc t \<Longrightarrow> invc (paint Black t)"
  by (cases t) auto

lemma color_paint [simp]: "color_of (paint Black t) = Black"
  by (cases t) auto

lemma paint_black: "color_of t = Black \<Longrightarrow> paint Black t = t"
  by (cases t) auto

lemma bht_paint: "color_of t = Red \<Longrightarrow> bht t n \<Longrightarrow> bht (paint Black t) (Suc n)"
  by (cases t) auto

lemma path_c_Black: "path_c k c \<Longrightarrow> path_c k Black"
  by (cases k) auto

lemma rb_shape_plug: "rb_shape (plug k t) \<longleftrightarrow> invc t \<and> path_c k (color_of t) \<and> (\<exists>n. bht t n \<and> path_h k n)"
proof (induction k arbitrary: t)
  case Nil
  then show ?case by (auto simp: rb_shape_def)
next
  case (Cons f k)
  obtain d c a s where f: "f = (d, c, a, s)" by (cases f)
  have "(\<exists>n. bht (mk d c t a s) n \<and> path_h k n) \<longleftrightarrow> (\<exists>n. bht t n \<and> path_h (f # k) n)"
  proof (cases c)
    case Black
    have "(\<exists>n. bht (mk d Black t a s) n \<and> path_h k n) \<longleftrightarrow> (\<exists>n. bht (mk d Black t a s) (Suc n) \<and> path_h k (Suc n))"
      by (metis bht_mk(3) not0_implies_Suc)
    then show ?thesis by (auto simp: f Black)
  qed (auto simp: f)
  then show ?case using Cons.IH [of "mk d c t a s"] by (auto simp: f)
qed

end
