(* ===== verification/Rbtree_Insert.thy ===== *)
theory Rbtree_Insert
  imports Rbtree_Shape
begin

text \<open>
  Insertion into a red-black tree in memory: each case of the rebalancing code turns one shape into another.
\<close>

subsection \<open>Running the code\<close>

lemma load_run: "ptr_ok p \<Longrightarrow> nodes st p = Some n \<Longrightarrow> load f p st = Some (f n)"
  by (simp add: load_def ptr_ok_def)

lemma modify_run:
  "ptr_ok p \<Longrightarrow> nodes st p = Some n \<Longrightarrow> modify f p st = Some (st\<lparr>nodes := (nodes st)(p \<mapsto> f n)\<rparr>)"
  by (simp add: modify_def load_run)

lemmas run = load_run modify_run set_child_def set_pc_def rb_set_parent_color_def rb_set_parent_def rb_set_black_def

lemma ptr_ok_simps: "ptr_ok a \<Longrightarrow> a \<noteq> 0" "ptr_ok a \<Longrightarrow> a AND 3 = 0"
  by (simp_all add: ptr_ok_def)

lemma change_child_path:
  assumes "path_at (nodes st) k old" "path_distinct k" "ptr_ok old" "old \<notin> path_addrs k" "root_node st = root_of k old"
  shows "\<exists>h'. rb_change_child old new (up k) st = Some (st\<lparr>nodes := h', root_node := root_of k new\<rparr>) \<and>
    path_at h' k new \<and> (\<forall>a. a \<notin> path_addrs k \<longrightarrow> h' a = nodes st a)"
proof (cases k)
  case Nil
  then show ?thesis by (intro exI [of _ "nodes st"]) (simp add: rb_change_child_def)
next
  case (Cons f k')
  obtain d c a s where f: "f = (d, c, a, s)" by (cases f)
  have a: "ptr_ok a" "nodes st a = Some (nd d (up k' OR bw c) old (addr s))" using assms(1) by (auto simp: Cons f)
  have "addr s \<noteq> old"
    using assms(3,4) addr_in [of s] by (cases s) (auto simp: Cons f ptr_ok_def)
  then have "rb_change_child old new a st = set_child d a new st"
    using a by (cases d) (simp_all add: rb_change_child_def run ptr_ok_simps)
  also have "\<dots> = Some (st\<lparr>nodes := (nodes st)(a \<mapsto> nd d (up k' OR bw c) new (addr s))\<rparr>)"
    using a by (simp add: run)
  also have "\<dots> = Some (st\<lparr>nodes := (nodes st)(a \<mapsto> nd d (up k' OR bw c) new (addr s)), root_node := root_of k new\<rparr>)"
    using assms(5) by (simp add: Cons f)
  finally show ?thesis
    using assms(1,2) a by (intro exI [of _ "(nodes st)(a \<mapsto> nd d (up k' OR bw c) new (addr s))"]) (auto simp: Cons f)
qed

text \<open>Giving a subtree that may be missing a new parent and painting it black.\<close>

lemma set_black_run:
  assumes "tree_at (nodes st) q t" "distinct (inorder t)"
  shows "\<exists>h'. set_black_child (addr t) p st = Some (st\<lparr>nodes := h'\<rparr>) \<and> tree_at h' p (paint Black t) \<and>
    (\<forall>a. a \<notin> addrs t \<longrightarrow> h' a = nodes st a)"
proof (cases t)
  case Nl
  then show ?thesis by (intro exI [of _ "nodes st"]) (simp add: set_black_child_def)
next
  case (Nd c l a r)
  then show ?thesis using assms
    by (intro exI [of _ "(nodes st)(a \<mapsto> nd Lft (p OR RB_BLACK) (addr l) (addr r))"])
      (auto simp: set_black_child_def run ptr_ok_simps bw_def)
qed

lemma rotate_parents_run:
  assumes path: "path_at (nodes st) k old" "path_distinct k" "old \<notin> path_addrs k" "new \<notin> path_addrs k"
    and root: "root_node st = root_of k old" and nodes: "ptr_ok old" "ptr_ok new" "old \<noteq> new"
      "nodes st old = Some (nd d (up k OR bw c) x y)" "nodes st new = Some (nd d pc v w)"
  shows "\<exists>h'. rb_rotate_set_parents old new col st = Some (st\<lparr>nodes := h', root_node := root_of k new\<rparr>) \<and>
    path_at h' k new \<and> h' old = Some (nd d (new OR col) x y) \<and> h' new = Some (nd d (up k OR bw c) v w) \<and>
    (\<forall>a. a \<notin> path_addrs k \<longrightarrow> a \<noteq> old \<longrightarrow> a \<noteq> new \<longrightarrow> h' a = nodes st a)"
proof -
  define h where "h = (nodes st)(new \<mapsto> nd d (up k OR bw c) v w, old \<mapsto> nd d (new OR col) x y)"
  have up: "up k AND 3 = 0" using up_ok [OF path(1)] by (auto simp: ptr_ok_def)
  have "path_at h k old" using path by (simp add: h_def)
  then obtain h' where h': "rb_change_child old new (up k) (st\<lparr>nodes := h\<rparr>) =
      Some (st\<lparr>nodes := h, nodes := h', root_node := root_of k new\<rparr>)"
    "path_at h' k new" "\<forall>a. a \<notin> path_addrs k \<longrightarrow> h' a = h a"
    using change_child_path [of "st\<lparr>nodes := h\<rparr>" k old new] path nodes root by auto
  have "rb_rotate_set_parents old new col st = rb_change_child old new (up k) (st\<lparr>nodes := h\<rparr>)"
    using nodes by (simp add: rb_rotate_set_parents_def run rb_parent_def pc_simps [OF up] h_def)
  then show ?thesis using h' path nodes by (intro exI [of _ h']) (auto simp: h_def)
qed

subsection \<open>Augmented data\<close>

text \<open>
  What the callbacks maintain is a value for each node that depends on the sequence of the nodes below it.
\<close>

primrec fits :: "(ptr \<Rightarrow> 'v) \<Rightarrow> (ptr list \<Rightarrow> 'v) \<Rightarrow> shape \<Rightarrow> bool" where
  "fits v agg Nl \<longleftrightarrow> True"
| "fits v agg (Nd c l a r) \<longleftrightarrow> v a = agg (inorder l @ a # inorder r) \<and> fits v agg l \<and> fits v agg r"

fun join :: "side \<Rightarrow> ptr list \<Rightarrow> ptr \<Rightarrow> ptr list \<Rightarrow> ptr list" where
  "join Lft xs a ys = xs @ a # ys"
| "join Rgt xs a ys = ys @ a # xs"

fun path_fits :: "(ptr \<Rightarrow> 'v) \<Rightarrow> (ptr list \<Rightarrow> 'v) \<Rightarrow> frame list \<Rightarrow> ptr list \<Rightarrow> bool" where
  "path_fits v agg [] xs \<longleftrightarrow> True"
| "path_fits v agg ((d, c, a, s) # k) xs \<longleftrightarrow>
     v a = agg (join d xs a (inorder s)) \<and> fits v agg s \<and> path_fits v agg k (join d xs a (inorder s))"

lemma inorder_mk: "inorder (mk d c x a y) = join d (inorder x) a (inorder y)"
  by (cases d) simp_all

lemma join_opp: "join (opp d) xs a ys = join d ys a xs"
  by (cases d) simp_all

lemma join_assoc: "join d (join d xs a ys) b zs = join d xs a (join d ys b zs)"
  by (cases d) simp_all

lemma fits_mk [simp]:
  "fits v agg (mk d c x a y) \<longleftrightarrow> v a = agg (join d (inorder x) a (inorder y)) \<and> fits v agg x \<and> fits v agg y"
  by (cases d) auto

lemma fits_paint [simp]: "fits v agg (paint c t) = fits v agg t"
  by (cases t) auto

lemma fits_plug: "fits v agg (plug k t) \<longleftrightarrow> fits v agg t \<and> path_fits v agg k (inorder t)"
proof (induction k arbitrary: t)
  case (Cons f k)
  then show ?case by (cases f) (auto simp: inorder_mk)
qed simp

lemma fits_agree: "(\<And>a. a \<in> addrs t \<Longrightarrow> v' a = v a) \<Longrightarrow> fits v' agg t = fits v agg t"
  by (induction t) auto

lemma path_fits_agree: "(\<And>a. a \<in> path_addrs k \<Longrightarrow> v' a = v a) \<Longrightarrow> path_fits v' agg k xs = path_fits v agg k xs"
proof (induction k arbitrary: xs)
  case (Cons f k)
  obtain d c a s where f: "f = (d, c, a, s)" by (cases f)
  have "fits v' agg s = fits v agg s" using Cons.prems by (intro fits_agree) (auto simp: f)
  then show ?case using Cons by (auto simp: f)
qed simp

lemma fits_upd [simp]: "a \<notin> addrs t \<Longrightarrow> fits (v(a := x)) agg t = fits v agg t"
  by (rule fits_agree) auto

lemma path_fits_upd [simp]: "a \<notin> path_addrs k \<Longrightarrow> path_fits (v(a := x)) agg k xs = path_fits v agg k xs"
  by (rule path_fits_agree) auto

definition holds :: "('a \<Rightarrow> ptr \<Rightarrow> 'v) \<Rightarrow> (ptr list \<Rightarrow> 'v) \<Rightarrow> 'a rbmem \<Rightarrow> shape \<Rightarrow> bool" where
  "holds val agg st t \<longleftrightarrow> mem st t \<and> fits (val (user st)) agg t"

lemma holds_plugI:
  assumes "tree_at (nodes st) (up k) t" "path_at (nodes st) k (addr t)" "root_node st = root_of k (addr t)"
    and "distinct (inorder (plug k t0))" "inorder t = inorder t0"
    and "fits (val (user st)) agg t" "path_fits (val (user st)) agg k (inorder t)"
  shows "holds val agg st (plug k t)"
  using assms inorder_plug_cong [of t t0 k] by (simp add: holds_def mem_def tree_at_plug fits_plug)

lemma holds_distinct: "holds val agg st t \<Longrightarrow> distinct (inorder t)"
  by (simp add: holds_def mem_def)

text \<open>
  The contract of the rotation callback, which is called when \<open>new\<close> has taken the place of \<open>old\<close>, and \<open>old\<close> is its child.
\<close>

locale augmentation =
  fixes rot :: "'a callback" and val :: "'a \<Rightarrow> ptr \<Rightarrow> 'v" and agg :: "ptr list \<Rightarrow> 'v"
  assumes rotates: "\<lbrakk>ptr_ok old; nodes st old = Some (nd d pc (addr x) (addr y)); fits (val (user st)) agg x; fits (val (user st)) agg y;
      new \<noteq> old; new \<notin> addrs x; new \<notin> addrs y; old \<notin> addrs x; old \<notin> addrs y; 0 \<notin> addrs x; 0 \<notin> addrs y\<rbrakk> \<Longrightarrow>
    \<exists>u. rot st old new = Some u \<and>
      val u = (val (user st))(new := val (user st) old, old := agg (join d (inorder x) old (inorder y)))"
begin

text \<open>The end of every rotation: the parents are exchanged, and the callback is called.\<close>

lemma rotate_run:
  assumes ok: "ptr_ok g" "ptr_ok p"
    and at: "nodes st g = Some (nd d (up k OR bw c) (addr s) (addr u))" "nodes st p = Some (nd d pc (addr t) g)"
    and trees: "tree_at (nodes st) p t" "tree_at (nodes st) g s" "tree_at (nodes st) g u" "path_at (nodes st) k g"
    and root: "root_node st = root_of k g"
    and dist: "distinct (inorder (plug k (mk d c t p (mk d c' s g u))))"
    and vals: "fits (val (user st)) agg t" "fits (val (user st)) agg s" "fits (val (user st)) agg u"
      "val (user st) g = agg (join d (inorder t) p (join d (inorder s) g (inorder u)))"
      "path_fits (val (user st)) agg k (join d (inorder t) p (join d (inorder s) g (inorder u)))"
  shows "\<exists>st'. do { st \<leftarrow> rb_rotate_set_parents g p (bw c') st; call_back rot g p st } = Some st' \<and>
    holds val agg st' (plug k (mk d c t p (mk d c' s g u))) \<and>
    (\<forall>a. a \<notin> addrs (plug k (mk d c t p (mk d c' s g u))) \<longrightarrow> nodes st' a = nodes st a)"
proof -
  note D = dist [simplified]
  have neq: "g \<noteq> p" "p \<noteq> g" using D by blast+
  have off: "a \<noteq> g \<and> a \<noteq> p \<and> a \<notin> path_addrs k" if "a \<in> addrs t \<or> a \<in> addrs s \<or> a \<in> addrs u" for a
    using D that by blast
  obtain h where h: "rb_rotate_set_parents g p (bw c') st = Some (st\<lparr>nodes := h, root_node := root_of k p\<rparr>)"
    "path_at h k p" "h g = Some (nd d (p OR bw c') (addr s) (addr u))" "h p = Some (nd d (up k OR bw c) (addr t) g)"
    "\<And>a. a \<notin> path_addrs k \<Longrightarrow> a \<noteq> g \<Longrightarrow> a \<noteq> p \<Longrightarrow> h a = nodes st a"
    using rotate_parents_run [of st k g p d c "addr s" "addr u" pc "addr t" g "bw c'"] D root at ok neq trees(4) by auto
  let ?st = "st\<lparr>nodes := h, root_node := root_of k p\<rparr>"
  obtain v where v: "rot ?st g p = Some v" "val v = (val (user st))(p := val (user st) g, g := agg (join d (inorder s) g (inorder u)))"
    using rotates [of g ?st d "p OR bw c'" s u p] h(3) D vals neq ok tree_at_0 [OF trees(2)] tree_at_0 [OF trees(3)] by auto
  have same: "tree_at h q t = tree_at (nodes st) q t" "tree_at h q s = tree_at (nodes st) q s" "tree_at h q u = tree_at (nodes st) q u" for q
    using h(5) off by (intro tree_at_agree; blast)+
  have "holds val agg (?st\<lparr>user := v\<rparr>) (plug k (mk d c t p (mk d c' s g u)))"
    by (rule holds_plugI [OF _ _ _ dist])
      (use same trees h(2-4) ok D vals neq in \<open>simp_all add: v(2) inorder_mk\<close>)
  moreover have "h a = nodes st a" if "a \<notin> addrs (plug k (mk d c t p (mk d c' s g u)))" for a
    using h(5) [of a] that by simp
  ultimately show ?thesis
    by (intro exI [of _ "?st\<lparr>user := v\<rparr>"]) (simp add: h(1) call_back_def v(1))
qed

text \<open>
  The last rotation. The link from the grandparent to the parent and the parent of the inner subtree may be out of date.
\<close>

lemma insert_outer_run:
  assumes ok: "ptr_ok g" "ptr_ok p"
    and at: "nodes st g = Some (nd d (up k OR bw c) w (addr u))" "nodes st p = Some (nd d pc (addr t) w')"
    and trees: "tree_at (nodes st) p t" "tree_at (nodes st) q s" "tree_at (nodes st) g u" "path_at (nodes st) k g"
    and root: "root_node st = root_of k g"
    and dist: "distinct (inorder (plug k (mk d c (mk d Red t p s) g u)))"
    and vals: "fits (val (user st)) agg t" "fits (val (user st)) agg s" "fits (val (user st)) agg u"
      "val (user st) g = agg (join d (join d (inorder t) p (inorder s)) g (inorder u))"
      "path_fits (val (user st)) agg k (join d (join d (inorder t) p (inorder s)) g (inorder u))"
  shows "\<exists>st'. insert_outer rot d (addr s) p g st = Some st' \<and>
    holds val agg st' (plug k (mk d c t p (mk d Red (paint Black s) g u))) \<and>
    (\<forall>a. a \<notin> addrs (plug k (mk d c (mk d Red t p s) g u)) \<longrightarrow> nodes st' a = nodes st a)"
proof -
  note D = dist [simplified]
  have neq: "g \<noteq> p" "p \<noteq> g" using D by blast+
  have off: "a \<noteq> g \<and> a \<noteq> p \<and> a \<notin> addrs s" if "a \<in> addrs t \<or> a \<in> addrs u \<or> a \<in> path_addrs k" for a
    using D that by blast
  define h where "h = (nodes st)(g \<mapsto> nd d (up k OR bw c) (addr s) (addr u), p \<mapsto> nd d pc (addr t) g)"
  have start: "do { st \<leftarrow> set_child d g (addr s) st; st \<leftarrow> set_child (opp d) p g st; f st } = f (st\<lparr>nodes := h\<rparr>)" for f :: "'a rbmem \<Rightarrow> 'b option"
    using ok neq at by (simp add: run h_def)
  have "tree_at h q s" using trees(2) D by (simp add: h_def)
  then obtain h2 where h2: "set_black_child (addr s) g (st\<lparr>nodes := h\<rparr>) = Some (st\<lparr>nodes := h2\<rparr>)" "tree_at h2 g (paint Black s)"
    "\<And>a. a \<notin> addrs s \<Longrightarrow> h2 a = h a"
    using set_black_run [of "st\<lparr>nodes := h\<rparr>" q s g] D by auto
  have h2_off: "h2 a = nodes st a" if "a \<in> addrs t \<or> a \<in> addrs u \<or> a \<in> path_addrs k" for a
    using off [OF that] h2(3) by (simp add: h_def)
  have same: "tree_at h2 q t = tree_at (nodes st) q t" "tree_at h2 q u = tree_at (nodes st) q u" "path_at h2 k q = path_at (nodes st) k q" for q
    using h2_off by (intro tree_at_agree path_at_agree; blast)+
  have order: "inorder (plug k (mk d c t p (mk d Red (paint Black s) g u))) = inorder (plug k (mk d c (mk d Red t p s) g u))"
    by (rule inorder_plug_cong) (simp add: inorder_mk join_assoc)
  let ?t = "plug k (mk d c t p (mk d Red (paint Black s) g u))"
  have "\<exists>st'. do { st \<leftarrow> rb_rotate_set_parents g p (bw Red) (st\<lparr>nodes := h2\<rparr>); call_back rot g p st } = Some st' \<and>
      holds val agg st' ?t \<and> (\<forall>a. a \<notin> addrs ?t \<longrightarrow> nodes st' a = nodes (st\<lparr>nodes := h2\<rparr>) a)"
    by (rule rotate_run)
      (use ok root vals same trees h2(2,3) D neq order dist in \<open>simp_all add: h_def join_assoc\<close>)
  then obtain st' where st': "do { st \<leftarrow> rb_rotate_set_parents g p RB_RED (st\<lparr>nodes := h2\<rparr>); call_back rot g p st } = Some st'"
      "holds val agg st' ?t" "\<forall>a. a \<notin> addrs ?t \<longrightarrow> nodes st' a = h2 a" by (auto simp: bw_def)
  have "nodes st' a = nodes st a" if "a \<notin> addrs (plug k (mk d c (mk d Red t p s) g u))" for a
    using st'(3) h2(3) [of a] that by (simp add: h_def)
  moreover have "insert_outer rot d (addr s) p g st = Some st'" unfolding insert_outer_def start h2(1) using st'(1) by simp
  ultimately show ?thesis using st'(2) by blast
qed

lemma insert_outer_holds:
  assumes "holds val agg st (plug k (mk d c (mk d Red t p s) g u))"
  shows "\<exists>st'. insert_outer rot d (addr s) p g st = Some st' \<and>
    holds val agg st' (plug k (mk d c t p (mk d Red (paint Black s) g u))) \<and>
    (\<forall>a. a \<notin> addrs (plug k (mk d c (mk d Red t p s) g u)) \<longrightarrow> nodes st' a = nodes st a)"
proof -
  note H = assms [unfolded holds_def mem_plug fits_plug]
  show ?thesis
    by (rule insert_outer_run [where q = p, OF _ _ _ _ _ _ _ _ _ holds_distinct [OF assms]])
      (use H in \<open>simp_all add: inorder_mk\<close>)
qed

lemma insert_inner_run:
  assumes "holds val agg st (plug k (mk d c (mk d Red s p (mk d Red a x b)) g u))"
  shows "\<exists>st'. do { (tmp, st) \<leftarrow> insert_inner rot d x p st; insert_outer rot d tmp x g st } = Some st' \<and>
    holds val agg st' (plug k (mk d c (mk d Red s p (paint Black a)) x (mk d Red (paint Black b) g u))) \<and>
    (\<forall>a'. a' \<notin> addrs (plug k (mk d c (mk d Red s p (mk d Red a x b)) g u)) \<longrightarrow> nodes st' a' = nodes st a')"
proof -
  note H = assms [unfolded holds_def mem_plug fits_plug, simplified]
  have ok: "ptr_ok g" "ptr_ok p" "ptr_ok x" and neq: "g \<noteq> p" "p \<noteq> g" "x \<noteq> p" "p \<noteq> x" "g \<noteq> x" "x \<noteq> g"
    and at: "nodes st g = Some (nd d (up k OR bw c) p (addr u))" "nodes st p = Some (nd d (g OR bw Red) (addr s) x)"
      "nodes st x = Some (nd d (p OR bw Red) (addr a) (addr b))"
    using H by blast+
  define h where "h = (nodes st)(p \<mapsto> nd d (g OR bw Red) (addr s) (addr a), x \<mapsto> nd d (p OR bw Red) p (addr b))"
  have start: "do { tmp \<leftarrow> load (kid d) x st; st \<leftarrow> set_child (opp d) p tmp st; st \<leftarrow> set_child d x p st; f tmp st } =
      f (addr a) (st\<lparr>nodes := h\<rparr>)" for f :: "ptr \<Rightarrow> 'a rbmem \<Rightarrow> 'b option"
    using ok neq at by (simp add: run h_def)
  have "tree_at h x a" using H by (simp add: h_def)
  then obtain h2 where h2: "set_black_child (addr a) p (st\<lparr>nodes := h\<rparr>) = Some (st\<lparr>nodes := h2\<rparr>)" "tree_at h2 p (paint Black a)"
    "\<And>a'. a' \<notin> addrs a \<Longrightarrow> h2 a' = h a'"
    using set_black_run [of "st\<lparr>nodes := h\<rparr>" x a p] H by auto
  have h2_at: "h2 g = Some (nd d (up k OR bw c) p (addr u))" "h2 p = Some (nd d (g OR bw Red) (addr s) (addr a))"
    "h2 x = Some (nd d (p OR bw Red) p (addr b))"
    using h2(3) [of g] h2(3) [of p] h2(3) [of x] H neq by (simp_all add: h_def)
  define h3 where "h3 = h2(p \<mapsto> nd d (x OR RB_RED) (addr s) (addr a))"
  have trees: "tree_at (nodes st) p s" "tree_at (nodes st) x a" using H by blast+
  note nonzero = tree_at_0 [OF trees(1)] tree_at_0 [OF trees(2)]
  obtain v where v: "rot (st\<lparr>nodes := h3\<rparr>) p x = Some v"
      "val v = (val (user st))(x := val (user st) p, p := agg (join d (inorder s) p (inorder a)))"
    using rotates [of p "st\<lparr>nodes := h3\<rparr>" d "x OR RB_RED" s "paint Black a" x] H neq ok nonzero by (auto simp: h3_def)
  let ?st = "st\<lparr>nodes := h3, user := v\<rparr>"
  have inner: "insert_inner rot d x p st = Some (addr b, ?st)"
    unfolding insert_inner_def start h2(1)
    using ok neq h2_at v(1) by (simp add: run call_back_def h3_def)
  have h3: "h3 a' = nodes st a'" if "a' \<noteq> p" "a' \<noteq> x" "a' \<notin> addrs a" for a' using that h2(3) by (simp add: h3_def h_def)
  have sets: "p \<notin> addrs s \<union> addrs b \<union> addrs u \<union> path_addrs k" "x \<notin> addrs s \<union> addrs b \<union> addrs u \<union> path_addrs k"
    "addrs a \<inter> (addrs s \<union> addrs b \<union> addrs u \<union> path_addrs k) = {}" using H by (simp, simp, blast)
  have off: "a' \<noteq> p \<and> a' \<noteq> x \<and> a' \<notin> addrs a" if "a' \<in> addrs s \<or> a' \<in> addrs b \<or> a' \<in> addrs u \<or> a' \<in> path_addrs k" for a'
    using sets that by blast
  have keep: "tree_at h3 q s = tree_at (nodes st) q s" "tree_at h3 q b = tree_at (nodes st) q b"
    "tree_at h3 q u = tree_at (nodes st) q u" "path_at h3 k q = path_at (nodes st) k q" for q
    using h3 off by (intro tree_at_agree path_at_agree; blast)+
  have a3: "tree_at h3 p (paint Black a)" using h2(2) H by (simp add: h3_def)
  have "\<exists>st'. insert_outer rot d (addr b) x g ?st = Some st' \<and>
      holds val agg st' (plug k (mk d c (mk d Red s p (paint Black a)) x (mk d Red (paint Black b) g u))) \<and>
      (\<forall>a'. a' \<notin> addrs (plug k (mk d c (mk d Red (mk d Red s p (paint Black a)) x b) g u)) \<longrightarrow> nodes st' a' = nodes ?st a')"
  proof (rule insert_outer_run)
    show "tree_at (nodes ?st) x (mk d Red s p (paint Black a))" using keep a3 H ok by (simp add: h3_def bw_def)
    show "distinct (inorder (plug k (mk d c (mk d Red (mk d Red s p (paint Black a)) x b) g u)))"
      using assms inorder_plug_cong [of "mk d c (mk d Red s p (mk d Red a x b)) g u" "mk d c (mk d Red (mk d Red s p (paint Black a)) x b) g u" k]
      by (simp only: holds_def mem_def inorder_mk join_assoc paint_simps)
    show "nodes ?st g = Some (nd d (up k OR bw c) p (addr u))" using h2_at neq by (simp add: h3_def)
    show "nodes ?st x = Some (nd d (p OR bw Red) (addr (mk d Red s p (paint Black a))) (addr b))" using h2_at neq by (simp add: h3_def)
    show "tree_at (nodes ?st) x b" "tree_at (nodes ?st) g u" "path_at (nodes ?st) k g" using keep H by simp_all
  qed (use H ok v(2) neq in \<open>simp_all add: inorder_mk join_assoc\<close>)
  then obtain st' where st': "insert_outer rot d (addr b) x g ?st = Some st'"
      "holds val agg st' (plug k (mk d c (mk d Red s p (paint Black a)) x (mk d Red (paint Black b) g u)))"
      "\<forall>a'. a' \<notin> addrs (plug k (mk d c (mk d Red (mk d Red s p (paint Black a)) x b) g u)) \<longrightarrow> nodes st' a' = nodes ?st a'" by blast
  have "nodes st' a' = nodes st a'" if "a' \<notin> addrs (plug k (mk d c (mk d Red s p (mk d Red a x b)) g u))" for a'
    using st'(3) [rule_format, of a'] h3 [of a'] that by simp
  then show ?thesis using inner st'(1,2) by auto
qed

end

lemma insert_flip_run:
  assumes "holds val agg st (plug k (mk d c (mk e Red t p s) g (mk d Red x u y)))"
  shows "\<exists>st'. insert_flip u p g st = Some (up k, st') \<and>
    holds val agg st' (plug k (mk d Red (mk e Black t p s) g (mk d Black x u y))) \<and>
    (\<forall>a. a \<notin> addrs (plug k (mk d c (mk e Red t p s) g (mk d Red x u y))) \<longrightarrow> nodes st' a = nodes st a)"
proof -
  note H = assms [unfolded holds_def mem_plug fits_plug, simplified]
  have ok: "ptr_ok g" "ptr_ok p" "ptr_ok u" and neq: "g \<noteq> p" "p \<noteq> g" "u \<noteq> p" "p \<noteq> u" "g \<noteq> u" "u \<noteq> g"
    and at: "nodes st g = Some (nd d (up k OR bw c) p u)" "nodes st p = Some (nd e (g OR bw Red) (addr t) (addr s))"
      "nodes st u = Some (nd d (g OR bw Red) (addr x) (addr y))"
    using H by blast+
  have "path_at (nodes st) k g" using H by blast
  from up_ok [OF this] have up: "up k AND 3 = 0" by (auto simp: ptr_ok_def)
  define h where "h = (nodes st)(u \<mapsto> nd d (g OR RB_BLACK) (addr x) (addr y), p \<mapsto> nd e (g OR RB_BLACK) (addr t) (addr s),
    g \<mapsto> nd d (up k OR RB_RED) p u)"
  have "insert_flip u p g st = Some (up k, st\<lparr>nodes := h\<rparr>)"
    using ok neq at by (simp add: insert_flip_def run rb_parent_def pc_simps [OF up] h_def)
  moreover have "holds val agg (st\<lparr>nodes := h\<rparr>) (plug k (mk d Red (mk e Black t p s) g (mk d Black x u y)))"
    by (rule holds_plugI [OF _ _ _ holds_distinct [OF assms]])
      (use H ok neq in \<open>simp_all add: h_def bw_def inorder_mk\<close>)
  moreover have "h a = nodes st a" if "a \<notin> addrs (plug k (mk d c (mk e Red t p s) g (mk d Red x u y)))" for a
    using that by (simp add: h_def)
  ultimately show ?thesis by (intro exI [of _ "st\<lparr>nodes := h\<rparr>"]) simp
qed

subsection \<open>The loop\<close>

context augmentation
begin

lemma rb_insert_run:
  assumes "holds val agg st (plug k t)" "color_of t = Red" "invc t" "bht t n" "path_h k n" "path_c k Black"
  shows "\<exists>st' t'. rb_insert rot (addr t) (up k) st = Some st' \<and> holds val agg st' t' \<and> inorder t' = inorder (plug k t) \<and>
    rb_shape t' \<and> (\<forall>a. a \<notin> addrs (plug k t) \<longrightarrow> nodes st' a = nodes st a)"
  using assms
proof (induction "length k" arbitrary: k t n st rule: less_induct)
  case less
  note H = less.prems(1) [unfolded holds_def mem_plug fits_plug]
  obtain l x r where t: "t = Nd Red l x r" using less.prems(2) by (cases t) auto
  show ?case
  proof (cases k)
    case Nil
    define h where "h = (nodes st)(x \<mapsto> nd Lft RB_BLACK (addr l) (addr r))"
    have "rb_insert rot (addr t) (up k) st = Some (st\<lparr>nodes := h\<rparr>)"
      using H by (simp add: Nil t rb_insert.simps run h_def)
    moreover have "holds val agg (st\<lparr>nodes := h\<rparr>) (Nd Black l x r)"
      using less.prems(1) by (simp add: holds_def mem_def Nil t h_def bw_def)
    moreover have "rb_shape (Nd Black l x r)"
      using less.prems(3,4) unfolding rb_shape_def t by (auto intro!: exI [of _ "Suc n"])
    ultimately show ?thesis
      by (intro exI [of _ "st\<lparr>nodes := h\<rparr>"] exI [of _ "Nd Black l x r"]) (simp add: Nil t h_def)
  next
    case (Cons f k')
    obtain d1 c1 p s where f: "f = (d1, c1, p, s)" by (cases f)
    have p: "ptr_ok p" "nodes st p = Some (nd d1 (up k' OR bw c1) x (addr s))" using H by (simp_all add: Cons f t)
    have "path_at (nodes st) k' p" using H by (simp add: Cons f)
    from up_ok [OF this] have up: "up k' AND 3 = 0" by (auto simp: ptr_ok_def)
    have black: "load rb_is_black p st = Some (c1 = Black)" using p by (simp add: run rb_is_black_def pc_simps [OF up])
    show ?thesis
    proof (cases c1)
      case Black
      have "rb_insert rot (addr t) (up k) st = Some st"
        using p(1) black by (simp add: Cons f rb_insert.simps ptr_ok_simps Black)
      moreover have "rb_shape (plug k t)"
        unfolding rb_shape_plug using less.prems Black by (auto simp: Cons f)
      ultimately show ?thesis using less.prems(1) by blast
    next
      case Red
      obtain d g u k'' where k': "k' = (d, Black, g, u) # k''"
        using less.prems(6) by (cases k') (auto simp: Cons f Red)
      have inv: "invc s" "color_of s = Black" "invc u" "path_c k'' Black" "bht s n" "bht u n" "path_h k'' (Suc n)"
        using less.prems(5,6) by (auto simp: Cons f Red k')
      have g: "ptr_ok g" "nodes st g = Some (nd d (up k'' OR bw Black) p (addr u))" using H by (simp_all add: Cons f k')
      have u: "tree_at (nodes st) g u" using H by (simp add: Cons f k')
      have ord: "inorder (plug k t) = inorder (plug k'' (mk d Black (mk d1 Red t p s) g u))" by (simp add: Cons f Red k')
      have all: "holds val agg st (plug k'' (mk d Black (mk d1 Red t p s) g u))" using less.prems(1) by (simp add: Cons f Red k')
      have "p \<noteq> addr u" using H p(1) addr_in [of u] by (cases u) (auto simp: Cons f k' ptr_ok_def)
      then have side: "load rb_right g st = Some r \<Longrightarrow> (if p \<noteq> r then Lft else Rgt) = d" for r
        using g by (cases d) (auto simp: run)
      have red: "(if addr u = 0 then Some False else load rb_is_red (addr u) st) = Some (color_of u = Red)"
        using u g(1) by (cases u) (auto simp: run rb_is_red_def rb_is_black_def pc_simps ptr_ok_simps intro: color.exhaust)
      have first: "rb_insert rot x p st =
        (if color_of u = Red then do {
           (parent, st) \<leftarrow> insert_flip (addr u) p g st;
           rb_insert rot g parent st }
         else if x = kid (opp d) (nd d1 (g OR bw Red) x (addr s)) then do {
           (tmp, st) \<leftarrow> insert_inner rot d x p st;
           insert_outer rot d tmp x g st }
         else insert_outer rot d (kid (opp d) (nd d1 (g OR bw Red) x (addr s))) p g st)"
      proof -
        obtain r where r: "load rb_right g st = Some r" using g by (simp add: run)
        have "load rb_red_parent p st = Some g" using p by (simp add: run rb_red_parent_def Red bw_def RB_RED_def k')
        moreover have "load (kid (opp d)) g st = Some (addr u)" using g by (simp add: run)
        moreover have "load (kid (opp d)) p st = Some (kid (opp d) (nd d1 (g OR bw Red) x (addr s)))" using p by (simp add: run Red k')
        ultimately show ?thesis
          using p(1) black by (subst rb_insert.simps) (simp add: r side [OF r] red Red ptr_ok_simps Let_def)
      qed
      have whole: "rb_insert rot (addr t) (up k) st = rb_insert rot x p st" by (simp add: Cons f t)
      show ?thesis
      proof (cases "color_of u = Red")
        case True
        then obtain y a z where u': "u = mk d Red y a z" by (cases u rule: mk_cases [where d = d]) auto
        let ?t = "mk d Red (mk d1 Black t p s) g (mk d Black y a z)"
        obtain st1 where st1: "insert_flip a p g st = Some (up k'', st1)" "holds val agg st1 (plug k'' ?t)"
          "\<forall>b. b \<notin> addrs (plug k t) \<longrightarrow> nodes st1 b = nodes st b"
          using insert_flip_run [OF all [unfolded u']] by (auto simp: Cons f Red k' u')
        have "\<exists>st' t'. rb_insert rot (addr ?t) (up k'') st1 = Some st' \<and> holds val agg st' t' \<and> inorder t' = inorder (plug k'' ?t) \<and>
            rb_shape t' \<and> (\<forall>a. a \<notin> addrs (plug k'' ?t) \<longrightarrow> nodes st' a = nodes st1 a)"
          by (rule less.hyps [of k'' st1 ?t "Suc n"])
            (use st1(2) less.prems(3,4) inv in \<open>auto simp: Cons k' u'\<close>)
        then obtain st' t' where st': "rb_insert rot g (up k'') st1 = Some st'" "holds val agg st' t'"
            "inorder t' = inorder (plug k'' ?t)" "rb_shape t'" "\<forall>a. a \<notin> addrs (plug k'' ?t) \<longrightarrow> nodes st' a = nodes st1 a" by auto
        have "inorder (plug k'' ?t) = inorder (plug k t)"
          unfolding ord u' by (rule inorder_plug_cong) (simp add: inorder_mk)
        moreover have "rb_insert rot (addr t) (up k) st = Some st'" unfolding whole first using True st1(1) st'(1) by (simp add: u')
        moreover have "addrs (plug k'' ?t) = addrs (plug k t)" by (simp add: Cons f k' u')
        ultimately show ?thesis using st' st1(3) by (intro exI [of _ st'] exI [of _ t']) simp
      next
        case False
        then have uB: "color_of u = Black" by simp
        have x: "x \<noteq> addr s" "ptr_ok x" using H addr_in [of s] by (cases s; auto simp: Cons f t ptr_ok_def)+
        show ?thesis
        proof (cases "d1 = d")
          case True
          let ?t = "mk d Black t p (mk d Red (paint Black s) g u)"
          obtain st' where st': "insert_outer rot d (addr s) p g st = Some st'" "holds val agg st' (plug k'' ?t)"
            "\<forall>a. a \<notin> addrs (plug k t) \<longrightarrow> nodes st' a = nodes st a"
            using insert_outer_holds [OF all [unfolded True]] by (auto simp: Cons f Red k')
          have "rb_insert rot (addr t) (up k) st = Some st'"
            unfolding whole first using uB x st'(1) by (simp add: True)
          moreover have "inorder (plug k'' ?t) = inorder (plug k t)"
            unfolding ord by (rule inorder_plug_cong) (simp add: inorder_mk True join_assoc)
          moreover have "rb_shape (plug k'' ?t)"
            unfolding rb_shape_plug using less.prems(3,4) inv uB by (auto simp: paint_black intro!: exI [of _ "Suc n"])
          ultimately show ?thesis using st'(2,3) by blast
        next
          case False
          then have d1: "d1 = opp d" by (simp add: not_side)
          have "\<exists>a b. t = mk d Red a x b" unfolding t by (cases d) auto
          then obtain a b where t': "t = mk d Red a x b" by blast
          let ?t = "mk d Black (mk d Red s p (paint Black a)) x (mk d Red (paint Black b) g u)"
          have "\<exists>st'. do { (tmp, st) \<leftarrow> insert_inner rot d x p st; insert_outer rot d tmp x g st } = Some st' \<and>
              holds val agg st' (plug k'' ?t) \<and> (\<forall>a. a \<notin> addrs (plug k t) \<longrightarrow> nodes st' a = nodes st a)"
            using insert_inner_run [of st k'' d Black s p a x b g u] all by (simp add: Cons f Red k' d1 t')
          then obtain st' where st': "do { (tmp, st) \<leftarrow> insert_inner rot d x p st; insert_outer rot d tmp x g st } = Some st'"
              "holds val agg st' (plug k'' ?t)" "\<forall>a. a \<notin> addrs (plug k t) \<longrightarrow> nodes st' a = nodes st a" by blast
          have "rb_insert rot (addr t) (up k) st = Some st'"
            unfolding whole first using uB st'(1) by (simp add: d1)
          moreover have "inorder (plug k'' ?t) = inorder (plug k t)"
            unfolding ord by (rule inorder_plug_cong) (simp add: inorder_mk d1 t' join_opp join_assoc)
          moreover have "rb_shape (plug k'' ?t)"
            unfolding rb_shape_plug using less.prems(3,4) inv uB by (auto simp: paint_black t' intro!: exI [of _ "Suc n"])
          ultimately show ?thesis using st'(2,3) by blast
        qed
      qed
    qed
  qed
qed

end

end
