(* ===== verification/Rbtree_Erase.thy ===== *)
theory Rbtree_Erase
  imports Rbtree_Insert
begin

text \<open>
  Erasing a node of a red-black tree in memory: the rebalancing cases, the loop, and taking the node out.
\<close>

subsection \<open>The cases\<close>

lemma set_parent_run:
  assumes "tree_at (nodes st) q t" "distinct (inorder t)" "q AND 3 = 0"
  shows "\<exists>h'. (if addr t \<noteq> 0 then rb_set_parent (addr t) p st else Some st) = Some (st\<lparr>nodes := h'\<rparr>) \<and> tree_at h' p t \<and>
    (\<forall>a. a \<notin> addrs t \<longrightarrow> h' a = nodes st a)"
proof (cases t)
  case Nl
  then show ?thesis by (intro exI [of _ "nodes st"]) simp
next
  case (Nd c l a r)
  then show ?thesis using assms
    by (intro exI [of _ "(nodes st)(a \<mapsto> nd Lft (p OR bw c) (addr l) (addr r))"])
      (auto simp: run ptr_ok_simps pc_simps or.commute)
qed

context augmentation
begin

lemma erase_red_sibling_run:
  assumes "holds val agg st (plug k (mk d c t p (mk d Red sl ss sr)))" "sl \<noteq> Nl"
  shows "\<exists>st'. erase_red_sibling rot d p ss st = Some (addr sl, st') \<and>
    holds val agg st' (plug k (mk d c (mk d Red t p (paint Black sl)) ss sr)) \<and>
    (\<forall>a. a \<notin> addrs (plug k (mk d c t p (mk d Red sl ss sr))) \<longrightarrow> nodes st' a = nodes st a)"
proof -
  note H = assms(1) [unfolded holds_def mem_plug]
  have "load (kid d) ss st = Some (addr sl)" using H by (simp add: run)
  moreover have "addr sl \<noteq> 0" using H assms(2) by (cases sl) (auto simp: ptr_ok_simps)
  ultimately have "erase_red_sibling rot d p ss st = do { st \<leftarrow> insert_outer rot (opp d) (addr sl) ss p st; Some (addr sl, st) }"
    by (simp add: erase_red_sibling_def insert_outer_def set_black_child_def)
  then show ?thesis using insert_outer_holds [of st k "opp d" c sr ss sl p t] assms(1) by (auto simp: Un_ac insert_commute)
qed

lemma erase_outer_run:
  assumes ok: "ptr_ok p" "ptr_ok ss"
    and at: "nodes st p = Some (nd d (up k OR bw c) (addr t) w)" "nodes st ss = Some (nd d pc (addr sl) (addr sr))"
    and trees: "tree_at (nodes st) p t" "tree_at (nodes st) q sl" "tree_at (nodes st) q' sr" "path_at (nodes st) k p"
    and q: "q AND 3 = 0" "sr \<noteq> Nl"
    and root: "root_node st = root_of k p"
    and dist: "distinct (inorder (plug k (mk d c (mk d Black t p sl) ss (paint Black sr))))"
    and vals: "fits (val (user st)) agg t" "fits (val (user st)) agg sl" "fits (val (user st)) agg sr"
      "val (user st) p = agg (join d (join d (inorder t) p (inorder sl)) ss (inorder sr))"
      "path_fits (val (user st)) agg k (join d (join d (inorder t) p (inorder sl)) ss (inorder sr))"
  shows "\<exists>st'. erase_outer rot d p ss (addr sr) st = Some st' \<and>
    holds val agg st' (plug k (mk d c (mk d Black t p sl) ss (paint Black sr))) \<and>
    (\<forall>a. a \<notin> addrs (plug k (mk d c (mk d Black t p sl) ss (paint Black sr))) \<longrightarrow> nodes st' a = nodes st a)"
proof -
  note D = dist [simplified]
  have neq: "p \<noteq> ss" "ss \<noteq> p" using D by blast+
  have off: "a \<noteq> p \<and> a \<noteq> ss \<and> a \<notin> addrs sl \<and> a \<notin> addrs sr" if "a \<in> addrs t \<or> a \<in> path_addrs k" for a
    using D that by blast
  have apart: "addrs sl \<inter> addrs sr = {}" using D by blast
  define h where "h = (nodes st)(p \<mapsto> nd d (up k OR bw c) (addr t) (addr sl), ss \<mapsto> nd d pc p (addr sr))"
  have start: "do { tmp2 \<leftarrow> load (kid d) ss st; st \<leftarrow> set_child (opp d) p tmp2 st; st \<leftarrow> set_child d ss p st; f tmp2 st } =
      f (addr sl) (st\<lparr>nodes := h\<rparr>)" for f :: "ptr \<Rightarrow> 'a rbmem \<Rightarrow> 'b option"
    using ok neq at by (simp add: run h_def)
  have "tree_at h q' sr" using trees(3) D by (simp add: h_def)
  then obtain h2 where h2: "set_black_child (addr sr) ss (st\<lparr>nodes := h\<rparr>) = Some (st\<lparr>nodes := h2\<rparr>)" "tree_at h2 ss (paint Black sr)"
    "\<And>a. a \<notin> addrs sr \<Longrightarrow> h2 a = h a"
    using set_black_run [of "st\<lparr>nodes := h\<rparr>" q' sr ss] D by auto
  have sr: "rb_set_parent_color (addr sr) ss RB_BLACK (st\<lparr>nodes := h\<rparr>) = Some (st\<lparr>nodes := h2\<rparr>)"
  proof -
    have "addr sr \<noteq> 0" using trees(3) q(2) by (cases sr) (auto simp: ptr_ok_simps)
    then show ?thesis using h2(1) by (simp add: set_black_child_def)
  qed
  have "a \<noteq> p \<and> a \<noteq> ss \<and> a \<notin> addrs sr" if "a \<in> addrs sl" for a using D that by blast
  then have "h2 a = nodes st a" if "a \<in> addrs sl" for a using that h2(3) by (simp add: h_def)
  then have "tree_at h2 q sl" using trees(2) tree_at_agree [of sl h2 "nodes st" q] by blast
  then obtain h3 where h3: "(if addr sl \<noteq> 0 then rb_set_parent (addr sl) p (st\<lparr>nodes := h2\<rparr>) else Some (st\<lparr>nodes := h2\<rparr>)) =
      Some (st\<lparr>nodes := h3\<rparr>)" "tree_at h3 p sl" "\<And>a. a \<notin> addrs sl \<Longrightarrow> h3 a = h2 a"
    using set_parent_run [of "st\<lparr>nodes := h2\<rparr>" q sl p] D q(1) by auto
  have h3_off: "h3 a = nodes st a" if "a \<in> addrs t \<or> a \<in> path_addrs k" for a
    using off [OF that] h2(3) h3(3) by (simp add: h_def)
  have same: "tree_at h3 r t = tree_at (nodes st) r t" "path_at h3 k r = path_at (nodes st) k r" for r
    using h3_off by (intro tree_at_agree path_at_agree; blast)+
  have sr3: "tree_at h3 ss (paint Black sr)"
  proof -
    have "h3 a = h2 a" if "a \<in> addrs sr" for a using that apart h3(3) by blast
    then show ?thesis using tree_at_agree [of "paint Black sr" h3 h2 ss] h2(2) by simp
  qed
  have at3: "h3 p = Some (nd d (up k OR bw c) (addr t) (addr sl))" "h3 ss = Some (nd d pc p (addr sr))"
    using h3(3) [of p] h3(3) [of ss] h2(3) [of p] h2(3) [of ss] D neq by (simp_all add: h_def)
  let ?t = "plug k (mk (opp d) c (paint Black sr) ss (mk (opp d) Black sl p t))"
  have "\<exists>st'. do { st \<leftarrow> rb_rotate_set_parents p ss (bw Black) (st\<lparr>nodes := h3\<rparr>); call_back rot p ss st } = Some st' \<and>
      holds val agg st' ?t \<and> (\<forall>a. a \<notin> addrs ?t \<longrightarrow> nodes st' a = nodes (st\<lparr>nodes := h3\<rparr>) a)"
    by (rule rotate_run)
      (use ok root vals same trees h3(2) sr3 at3 dist in \<open>simp_all add: join_opp\<close>)
  then obtain st' where st': "do { st \<leftarrow> rb_rotate_set_parents p ss RB_BLACK (st\<lparr>nodes := h3\<rparr>); call_back rot p ss st } = Some st'"
      "holds val agg st' ?t" "\<forall>a. a \<notin> addrs ?t \<longrightarrow> nodes st' a = h3 a" by (auto simp: bw_def)
  have "nodes st' a = nodes st a" if "a \<notin> addrs ?t" for a
    using st'(3) h2(3) [of a] h3(3) [of a] that by (simp add: h_def)
  moreover have "erase_outer rot d p ss (addr sr) st = Some st'" unfolding erase_outer_def start sr using st'(1) by (simp add: h3(1))
  ultimately show ?thesis using st'(2) by auto
qed

lemma erase_outer_holds:
  assumes "holds val agg st (plug k (mk d c t p (mk d cs sl ss sr)))" "sr \<noteq> Nl"
  shows "\<exists>st'. erase_outer rot d p ss (addr sr) st = Some st' \<and>
    holds val agg st' (plug k (mk d c (mk d Black t p sl) ss (paint Black sr))) \<and>
    (\<forall>a. a \<notin> addrs (plug k (mk d c t p (mk d cs sl ss sr))) \<longrightarrow> nodes st' a = nodes st a)"
proof -
  note H = assms(1) [unfolded holds_def mem_plug fits_plug]
  have "addrs (plug k (mk d c t p (mk d cs sl ss sr))) = addrs (plug k (mk d c (mk d Black t p sl) ss (paint Black sr)))" by auto
  moreover have "distinct (inorder (plug k (mk d c (mk d Black t p sl) ss (paint Black sr))))"
    using holds_distinct [OF assms(1)] inorder_plug_cong [of "mk d c t p (mk d cs sl ss sr)" "mk d c (mk d Black t p sl) ss (paint Black sr)" k]
    by (simp only: inorder_mk join_assoc paint_simps)
  ultimately show ?thesis
    using erase_outer_run [of p ss st d k c t ss "p OR bw cs" sl sr ss ss] H assms(2)
    by (simp add: inorder_mk join_assoc ptr_ok_simps)
qed

lemma erase_inner_run:
  assumes "holds val agg st (plug k (mk d c t p (mk d cs (mk d cl a x b) ss sr)))"
  shows "\<exists>st'. do { st \<leftarrow> erase_inner rot d p ss x st; erase_outer rot d p x ss st } = Some st' \<and>
    holds val agg st' (plug k (mk d c (mk d Black t p a) x (mk d Black (paint Black b) ss sr))) \<and>
    (\<forall>a'. a' \<notin> addrs (plug k (mk d c t p (mk d cs (mk d cl a x b) ss sr))) \<longrightarrow> nodes st' a' = nodes st a')"
proof -
  note H = assms [unfolded holds_def mem_plug fits_plug, simplified]
  have ok: "ptr_ok p" "ptr_ok ss" "ptr_ok x" and neq: "p \<noteq> ss" "ss \<noteq> p" "x \<noteq> p" "p \<noteq> x" "ss \<noteq> x" "x \<noteq> ss"
    and at: "nodes st p = Some (nd d (up k OR bw c) (addr t) ss)" "nodes st ss = Some (nd d (p OR bw cs) x (addr sr))"
      "nodes st x = Some (nd d (ss OR bw cl) (addr a) (addr b))"
    using H by blast+
  define h where "h = (nodes st)(ss \<mapsto> nd d (p OR bw cs) (addr b) (addr sr), x \<mapsto> nd d (ss OR bw cl) (addr a) ss,
    p \<mapsto> nd d (up k OR bw c) (addr t) x)"
  have start: "do { tmp1 \<leftarrow> load (kid (opp d)) x st; st \<leftarrow> set_child d ss tmp1 st; st \<leftarrow> set_child (opp d) x ss st;
      st \<leftarrow> set_child (opp d) p x st; f tmp1 st } = f (addr b) (st\<lparr>nodes := h\<rparr>)" for f :: "ptr \<Rightarrow> 'a rbmem \<Rightarrow> 'b option"
    using ok neq at by (simp add: run h_def)
  have "tree_at h x b" using H by (simp add: h_def)
  then obtain h2 where h2: "set_black_child (addr b) ss (st\<lparr>nodes := h\<rparr>) = Some (st\<lparr>nodes := h2\<rparr>)" "tree_at h2 ss (paint Black b)"
    "\<And>a'. a' \<notin> addrs b \<Longrightarrow> h2 a' = h a'"
    using set_black_run [of "st\<lparr>nodes := h\<rparr>" x b ss] H by auto
  have h2_at: "h2 p = Some (nd d (up k OR bw c) (addr t) x)" "h2 ss = Some (nd d (p OR bw cs) (addr b) (addr sr))"
    "h2 x = Some (nd d (ss OR bw cl) (addr a) ss)"
    using h2(3) [of p] h2(3) [of ss] h2(3) [of x] H neq by (simp_all add: h_def)
  have trees: "tree_at (nodes st) x b" "tree_at (nodes st) ss sr" using H by blast+
  note nonzero = tree_at_0 [OF trees(1)] tree_at_0 [OF trees(2)]
  obtain v where v: "rot (st\<lparr>nodes := h2\<rparr>) ss x = Some v"
      "val v = (val (user st))(x := val (user st) ss, ss := agg (join d (inorder b) ss (inorder sr)))"
    using rotates [of ss "st\<lparr>nodes := h2\<rparr>" d "p OR bw cs" "paint Black b" sr x] H h2_at neq ok nonzero by auto
  let ?st = "st\<lparr>nodes := h2, user := v\<rparr>"
  have inner: "erase_inner rot d p ss x st = Some ?st"
    unfolding erase_inner_def start h2(1) using v(1) by (simp add: call_back_def)
  have sets: "p \<notin> addrs t \<union> addrs a \<union> addrs sr \<union> path_addrs k" "ss \<notin> addrs t \<union> addrs a \<union> addrs sr \<union> path_addrs k"
    "x \<notin> addrs t \<union> addrs a \<union> addrs sr \<union> path_addrs k"
    "addrs b \<inter> (addrs t \<union> addrs a \<union> addrs sr \<union> path_addrs k) = {}" using H by (simp, simp, simp, blast)
  have h2_off: "h2 a' = nodes st a'" if "a' \<in> addrs t \<or> a' \<in> addrs a \<or> a' \<in> addrs sr \<or> a' \<in> path_addrs k" for a'
  proof -
    have "a' \<noteq> p \<and> a' \<noteq> ss \<and> a' \<noteq> x \<and> a' \<notin> addrs b" using sets that by blast
    then show ?thesis using h2(3) by (simp add: h_def)
  qed
  have keep: "tree_at h2 q t = tree_at (nodes st) q t" "tree_at h2 q a = tree_at (nodes st) q a"
    "tree_at h2 q sr = tree_at (nodes st) q sr" "path_at h2 k q = path_at (nodes st) k q" for q
    using h2_off by (intro tree_at_agree path_at_agree; blast)+
  let ?t = "plug k (mk d c (mk d Black t p a) x (paint Black (mk d cs (paint Black b) ss sr)))"
  have "\<exists>st'. erase_outer rot d p x (addr (mk d cs (paint Black b) ss sr)) ?st = Some st' \<and> holds val agg st' ?t \<and>
      (\<forall>a'. a' \<notin> addrs ?t \<longrightarrow> nodes st' a' = nodes ?st a')"
  proof (rule erase_outer_run)
    show "distinct (inorder ?t)"
      using holds_distinct [OF assms] inorder_plug_cong [of "mk d c t p (mk d cs (mk d cl a x b) ss sr)"
          "mk d c (mk d Black t p a) x (paint Black (mk d cs (paint Black b) ss sr))" k]
      by (simp only: inorder_mk join_assoc paint_simps)
    show "nodes ?st p = Some (nd d (up k OR bw c) (addr t) x)" "nodes ?st x = Some (nd d (ss OR bw cl) (addr a) (addr (mk d cs (paint Black b) ss sr)))"
      using h2_at by simp_all
    show "tree_at (nodes ?st) x a" "tree_at (nodes ?st) p (mk d cs (paint Black b) ss sr)" "x AND 3 = 0"
      using keep h2(2) h2_at H ok by (simp_all add: ptr_ok_simps)
  qed (use keep H ok v(2) neq in \<open>simp_all add: inorder_mk join_assoc\<close>)
  then obtain st' where st': "erase_outer rot d p x ss ?st = Some st'" "holds val agg st' ?t"
      "\<forall>a'. a' \<notin> addrs ?t \<longrightarrow> nodes st' a' = h2 a'" by auto
  have "nodes st' a' = nodes st a'" if "a' \<notin> addrs (plug k (mk d c t p (mk d cs (mk d cl a x b) ss sr)))" for a'
    using st'(3) [rule_format, of a'] h2(3) [of a'] that by (simp add: h_def)
  then show ?thesis using inner st'(1,2) by auto
qed

end

lemma recolor_run:
  assumes "holds val agg st (plug k (mk d c x a y))"
  shows "holds val agg (st\<lparr>nodes := (nodes st)(a \<mapsto> nd d (up k OR bw c') (addr x) (addr y))\<rparr>) (plug k (mk d c' x a y))"
proof -
  note H = assms [unfolded holds_def mem_plug fits_plug, simplified]
  show ?thesis by (rule holds_plugI [OF _ _ _ holds_distinct [OF assms]]) (use H in \<open>simp_all add: inorder_mk\<close>)
qed

lemma erase_flip_run:
  assumes "holds val agg st (plug k (mk d c t p (mk d cs sl ss sr)))"
  shows "\<exists>st'. rb_set_parent_color ss p RB_RED st = Some st' \<and> holds val agg st' (plug k (mk d c t p (mk d Red sl ss sr))) \<and>
    (\<forall>a. a \<notin> addrs (plug k (mk d c t p (mk d cs sl ss sr))) \<longrightarrow> nodes st' a = nodes st a)"
proof -
  let ?st = "st\<lparr>nodes := (nodes st)(ss \<mapsto> nd d (p OR RB_RED) (addr sl) (addr sr))\<rparr>"
  have "rb_set_parent_color ss p RB_RED st = Some ?st"
    using assms by (simp add: holds_def mem_plug run)
  moreover have "holds val agg ?st (plug k (mk d c t p (mk d Red sl ss sr)))"
    using recolor_run [of val agg st "(opp d, c, p, t) # k" d cs sl ss sr Red] assms by (simp add: bw_def)
  ultimately show ?thesis by (intro exI [of _ ?st]) simp
qed

lemma blacken_run:
  assumes "holds val agg st (plug k (mk d c t p s))"
  shows "\<exists>st'. rb_set_black p st = Some st' \<and> holds val agg st' (plug k (mk d Black t p s)) \<and>
    (\<forall>a. a \<notin> addrs (plug k (mk d c t p s)) \<longrightarrow> nodes st' a = nodes st a)"
proof -
  let ?st = "st\<lparr>nodes := (nodes st)(p \<mapsto> nd d (up k OR bw Black) (addr t) (addr s))\<rparr>"
  have "path_at (nodes st) k p" using assms by (simp add: holds_def mem_plug)
  from up_ok [OF this] have up: "up k AND 3 = 0" by (auto simp: ptr_ok_def)
  have "rb_set_black p st = Some ?st"
    using assms by (simp add: holds_def mem_plug run pc_simps [OF up])
  moreover have "holds val agg ?st (plug k (mk d Black t p s))" by (rule recolor_run [OF assms])
  ultimately show ?thesis by (intro exI [of _ ?st]) simp
qed

subsection \<open>The loop\<close>

text \<open>One iteration, once the sibling is black.\<close>

definition erase_rest :: "'a callback \<Rightarrow> side \<Rightarrow> ptr \<Rightarrow> ptr \<Rightarrow> 'a rbmem \<Rightarrow> 'a rbmem option" where
  "erase_rest augment_rotate d parent sibling st =
     do {
       tmp1 \<leftarrow> load (kid (opp d)) sibling st;
       black1 \<leftarrow> missing_or_black tmp1 st;
       if black1 then do {
         tmp2 \<leftarrow> load (kid d) sibling st;
         black2 \<leftarrow> missing_or_black tmp2 st;
         if black2 then do {
           st \<leftarrow> rb_set_parent_color sibling parent RB_RED st;
           red \<leftarrow> load rb_is_red parent st;
           if red then rb_set_black parent st
           else do {
             gparent \<leftarrow> load rb_parent parent st;
             if gparent \<noteq> 0 then rb_erase_color augment_rotate parent gparent st else Some st } }
         else do {
           st \<leftarrow> erase_inner augment_rotate d parent sibling tmp2 st;
           erase_outer augment_rotate d parent tmp2 sibling st } }
       else erase_outer augment_rotate d parent sibling tmp1 st }"

lemma rb_erase_color_unfold:
  "rb_erase_color augment_rotate node parent st =
     do {
       right \<leftarrow> load rb_right parent st;
       let d = (if node \<noteq> right then Lft else Rgt);
       sibling \<leftarrow> load (kid (opp d)) parent st;
       red \<leftarrow> load rb_is_red sibling st;
       (sibling, st) \<leftarrow> (if red then erase_red_sibling augment_rotate d parent sibling st else Some (sibling, st));
       erase_rest augment_rotate d parent sibling st }"
  unfolding erase_rest_def by (rule rb_erase_color.simps)

lemma missing_or_black_run: "tree_at (nodes st) q t \<Longrightarrow> q AND 3 = 0 \<Longrightarrow> missing_or_black (addr t) st = Some (color_of t = Black)"
  by (cases t) (auto simp: missing_or_black_def run rb_is_black_def pc_simps ptr_ok_simps)

text \<open>The result of rebalancing: a red-black tree of the same nodes in the same order, and no other change.\<close>

definition rebalances :: "('a \<Rightarrow> ptr \<Rightarrow> 'v) \<Rightarrow> (ptr list \<Rightarrow> 'v) \<Rightarrow> 'a rbmem option \<Rightarrow> 'a rbmem \<Rightarrow> shape \<Rightarrow> bool" where
  "rebalances val agg m st t \<longleftrightarrow> (\<exists>st' t'. m = Some st' \<and> holds val agg st' t' \<and> inorder t' = inorder t \<and> rb_shape t' \<and>
     (\<forall>a. a \<notin> addrs t \<longrightarrow> nodes st' a = nodes st a))"

lemma rebalancesI:
  assumes "m = Some st'" "holds val agg st' (plug k t')" "\<forall>a. a \<notin> addrs t \<longrightarrow> nodes st' a = nodes st a"
    and "inorder (plug k t') = inorder t" "invc t'" "path_c k (color_of t')" "bht t' n" "path_h k n"
  shows "rebalances val agg m st t"
  using assms rb_shape_plug [of k t'] unfolding rebalances_def by blast

lemma rebalances_trans:
  assumes "rebalances val agg m st1 t1" "inorder t1 = inorder t" "\<forall>a. a \<notin> addrs t \<longrightarrow> nodes st1 a = nodes st a"
  shows "rebalances val agg m st t"
  using assms unfolding rebalances_def by fastforce

context augmentation
begin

lemma erase_rest_run:
  assumes start: "holds val agg st (plug k (mk d c t p (mk d Black sl ss sr)))"
    and inv: "invc t" "color_of t = Black" "bht t n" "invc sl" "bht sl n" "invc sr" "bht sr n"
      "path_c k c" "path_h k (case c of Red \<Rightarrow> Suc n | Black \<Rightarrow> Suc (Suc n))"
    and rec: "\<And>st' t'. \<lbrakk>c = Black; k \<noteq> []; holds val agg st' (plug k t'); invc t'; color_of t' = Black; bht t' (Suc n); addr t' = p\<rbrakk> \<Longrightarrow>
      rebalances val agg (rb_erase_color rot p (up k) st') st' (plug k t')"
  shows "rebalances val agg (erase_rest rot d p ss st) st (plug k (mk d c t p (mk d Black sl ss sr)))"
    (is "rebalances _ _ ?m st ?t")
proof -
  note H = start [unfolded holds_def mem_plug]
  have ok: "ss AND 3 = 0" and loads: "load (kid (opp d)) ss st = Some (addr sr)" "load (kid d) ss st = Some (addr sl)"
    using H by (simp_all add: run ptr_ok_simps)
  have black: "missing_or_black (addr sr) st = Some (color_of sr = Black)" "missing_or_black (addr sl) st = Some (color_of sl = Black)"
    using missing_or_black_run [OF _ ok, of st sr] missing_or_black_run [OF _ ok, of st sl] H by simp_all
  show ?thesis
  proof (cases "color_of sr = Red")
    case True
    let ?t' = "mk d c (mk d Black t p sl) ss (paint Black sr)"
    have "sr \<noteq> Nl" using True by auto
    then obtain st' where st': "erase_outer rot d p ss (addr sr) st = Some st'" "holds val agg st' (plug k ?t')"
      "\<forall>a. a \<notin> addrs ?t \<longrightarrow> nodes st' a = nodes st a" using erase_outer_holds [OF start] by blast
    have "erase_rest rot d p ss st = Some st'" using True loads black st'(1) by (simp add: erase_rest_def)
    moreover have "inorder (plug k ?t') = inorder ?t" by (rule inorder_plug_cong) (simp add: inorder_mk join_assoc)
    moreover have "bht ?t' (case c of Red \<Rightarrow> Suc n | Black \<Rightarrow> Suc (Suc n))" using inv bht_paint [OF True inv(7)] by (cases c) auto
    ultimately show ?thesis using st'(2,3) inv by (intro rebalancesI) (auto simp: invc_paint)
  next
    case False
    then have srB: "color_of sr = Black" by simp
    show ?thesis
    proof (cases "color_of sl = Red")
      case True
      then obtain a x b where sl: "sl = mk d Red a x b" by (cases sl rule: mk_cases [where d = d]) auto
      let ?t' = "mk d c (mk d Black t p a) x (mk d Black (paint Black b) ss sr)"
      obtain st' where st': "do { st \<leftarrow> erase_inner rot d p ss x st; erase_outer rot d p x ss st } = Some st'" "holds val agg st' (plug k ?t')"
        "\<forall>a. a \<notin> addrs ?t \<longrightarrow> nodes st' a = nodes st a" using erase_inner_run [OF start [unfolded sl]] unfolding sl by blast
      have "erase_rest rot d p ss st = Some st'" using True srB loads black st'(1) by (simp add: erase_rest_def sl)
      moreover have "inorder (plug k ?t') = inorder ?t" by (rule inorder_plug_cong) (simp add: inorder_mk join_assoc sl)
      moreover have "bht ?t' (case c of Red \<Rightarrow> Suc n | Black \<Rightarrow> Suc (Suc n))" using inv by (cases c) (auto simp: sl paint_black)
      ultimately show ?thesis using st'(2,3) inv by (intro rebalancesI) (auto simp: sl paint_black)
    next
      case False
      then have slB: "color_of sl = Black" by simp
      let ?u = "mk d Red sl ss sr"
      obtain st1 where st1: "rb_set_parent_color ss p RB_RED st = Some st1" "holds val agg st1 (plug k (mk d c t p ?u))"
        "\<forall>a. a \<notin> addrs ?t \<longrightarrow> nodes st1 a = nodes st a" using erase_flip_run [OF start] by blast
      note H1 = st1(2) [unfolded holds_def mem_plug]
      have "path_at (nodes st1) k p" using H1 by simp
      from up_ok [OF this] have up: "up k AND 3 = 0" by (auto simp: ptr_ok_def)
      have red: "load rb_is_red p st1 = Some (c = Red)" "load rb_parent p st1 = Some (up k)"
        using H1 by (simp_all add: run rb_is_red_def rb_is_black_def rb_parent_def pc_simps [OF up])
      have step: "erase_rest rot d p ss st =
          (if c = Red then rb_set_black p st1 else if up k \<noteq> 0 then rb_erase_color rot p (up k) st1 else Some st1)"
        using srB slB loads black st1(1) red by (simp add: erase_rest_def)
      have order: "inorder (plug k (mk d c' t p ?u)) = inorder ?t" for c' by (rule inorder_plug_cong) (simp add: inorder_mk)
      show ?thesis
      proof (cases c)
        case Red
        obtain st' where st': "rb_set_black p st1 = Some st'" "holds val agg st' (plug k (mk d Black t p ?u))"
          "\<forall>a. a \<notin> addrs ?t \<longrightarrow> nodes st' a = nodes st1 a" using blacken_run [OF st1(2)] by auto
        show ?thesis
          by (rule rebalancesI [OF _ st'(2)]) (use step Red st' st1(3) order inv srB slB path_c_Black in \<open>auto simp: Red\<close>)
      next
        case Black
        show ?thesis
        proof (cases k)
          case Nil
          show ?thesis
            by (rule rebalancesI [of _ st1 _ _ "[]" "mk d Black t p ?u" _ _ "Suc n"]) (use step st1 order [of Black] inv srB slB in \<open>auto simp: Black Nil\<close>)
        next
          case (Cons f k')
          have "up k \<noteq> 0" using H1 by (cases f) (auto simp: Cons ptr_ok_simps)
          moreover have "rebalances val agg (rb_erase_color rot p (up k) st1) st1 (plug k (mk d Black t p ?u))"
            by (rule rec) (use st1(2) inv srB slB in \<open>auto simp: Cons Black\<close>)
          ultimately show ?thesis
            using rebalances_trans [of val agg _ st1 "plug k (mk d Black t p ?u)" ?t st] order st1(3) step by (simp add: Black)
        qed
      qed
    qed
  qed
qed

lemma rb_erase_color_run:
  assumes "holds val agg st (plug k t)" "k \<noteq> []" "invc t" "color_of t = Black" "bht t n" "path_c k Black" "path_h k (Suc n)"
  shows "rebalances val agg (rb_erase_color rot (addr t) (up k) st) st (plug k t)"
  using assms
proof (induction "length k" arbitrary: k t n st rule: less_induct)
  case less
  obtain d c p s k' where k: "k = (d, c, p, s) # k'" using less.prems(2) by (cases k) auto
  have inv: "invc s" "c = Red \<longrightarrow> color_of s = Black" "path_c k' c" "bht s (Suc n)" "path_h k' (case c of Red \<Rightarrow> Suc n | Black \<Rightarrow> Suc (Suc n))"
    using less.prems(6,7) by (auto simp: k)
  obtain cs sl ss sr where s: "s = mk d cs sl ss sr" using inv(4) by (cases s rule: mk_cases [where d = d]) auto
  have all: "holds val agg st (plug k' (mk d c t p (mk d cs sl ss sr)))" using less.prems(1) by (simp add: k s)
  note H = all [unfolded holds_def mem_plug]
  have p: "ptr_ok p" "nodes st p = Some (nd d (up k' OR bw c) (addr t) ss)" and ss: "ptr_ok ss" "nodes st ss = Some (nd d (p OR bw cs) (addr sl) (addr sr))"
    using H by simp_all
  have "ss \<noteq> addr t" using H addr_in [of t] by (cases t) (auto simp: ptr_ok_simps)
  then have side: "load rb_right p st = Some r \<Longrightarrow> (if addr t \<noteq> r then Lft else Rgt) = d" for r
    using p by (cases d) (auto simp: run)
  obtain r where r: "load rb_right p st = Some r" using p by (simp add: run)
  have "load rb_is_red ss st = Some (cs = Red)"
    using ss p(1) by (simp add: run rb_is_red_def rb_is_black_def pc_simps ptr_ok_simps)
  then have step: "rb_erase_color rot (addr t) p st =
      do { (sibling, st) \<leftarrow> (if cs = Red then erase_red_sibling rot d p ss st else Some (ss, st)); erase_rest rot d p sibling st }"
    using p by (subst rb_erase_color_unfold) (simp add: r side [OF r] run Let_def)
  have rec: "rebalances val agg (rb_erase_color rot p (up k') st') st' (plug k' t')"
    if "c = Black" "k' \<noteq> []" "holds val agg st' (plug k' t')" "invc t'" "color_of t' = Black" "bht t' (Suc n)" "addr t' = p" for st' t'
    using less.hyps [of k' st' t' "Suc n"] that inv by (auto simp: k)
  show ?case
  proof (cases cs)
    case Black
    have "rebalances val agg (erase_rest rot d p ss st) st (plug k' (mk d c t p (mk d Black sl ss sr)))"
      by (rule erase_rest_run) (use all less.prems(3-5) inv rec in \<open>auto simp: s Black\<close>)
    then show ?thesis using step by (simp add: k s Black)
  next
    case Red
    then have cB: "c = Black" and kids: "color_of sl = Black" "color_of sr = Black" "invc sl" "invc sr" "bht sl (Suc n)" "bht sr (Suc n)"
      using inv by (auto simp: s)
    obtain tl x tr where sl: "sl = mk d Black tl x tr" using kids(1,5) by (cases sl rule: mk_cases [where d = d]) auto
    have "sl \<noteq> Nl" by (simp add: sl)
    then obtain st1 where st1: "erase_red_sibling rot d p ss st = Some (x, st1)"
      "holds val agg st1 (plug k' (mk d Black (mk d Red t p (mk d Black tl x tr)) ss sr))"
      "\<forall>a. a \<notin> addrs (plug k t) \<longrightarrow> nodes st1 a = nodes st a"
      using erase_red_sibling_run [of st k' d c t p sl ss sr] all by (auto simp: Red sl cB k s)
    let ?k = "(d, Black, ss, sr) # k'"
    let ?t = "plug ?k (mk d Red t p (mk d Black tl x tr))"
    have "rebalances val agg (erase_rest rot d p x st1) st1 ?t"
      by (rule erase_rest_run) (use st1(2) less.prems(3-5) inv kids in \<open>auto simp: sl cB\<close>)
    moreover have "inorder ?t = inorder (plug k t)"
      using inorder_plug_cong [of "mk d Black (mk d Red t p (mk d Black tl x tr)) ss sr" "mk d c t p s" k']
      by (simp add: k s sl inorder_mk join_assoc)
    ultimately have "rebalances val agg (erase_rest rot d p x st1) st (plug k t)" using st1(3) rebalances_trans by blast
    then show ?thesis using step st1(1) by (simp add: k Red)
  qed
qed

end

end
