(* ===== verification/Rbtree_Unlink.thy ===== *)
theory Rbtree_Unlink
  imports Rbtree_Erase
begin

text \<open>
  Taking a node out of a red-black tree in memory, before the tree is rebalanced, and erasing as a whole.
\<close>

subsection \<open>Segments of paths\<close>

text \<open>A path from a pointer up to a node whose parent is \<open>q\<close>.\<close>

fun above :: "frame list \<Rightarrow> ptr \<Rightarrow> ptr" where
  "above [] q = q"
| "above ((d, c, a, s) # k) q = a"

fun seg_at :: "(ptr \<Rightarrow> rb_node option) \<Rightarrow> frame list \<Rightarrow> ptr \<Rightarrow> ptr \<Rightarrow> bool" where
  "seg_at h [] p q \<longleftrightarrow> True"
| "seg_at h ((d, c, a, s) # k) p q \<longleftrightarrow>
     ptr_ok a \<and> h a = Some (nd d (above k q OR bw c) p (addr s)) \<and> tree_at h a s \<and> seg_at h k a q"

lemma above_0: "above k 0 = up k"
  by (cases k) auto

lemma path_seg: "path_at h k p = seg_at h k p 0"
proof (induction k arbitrary: p)
  case (Cons f k)
  then show ?case by (cases f) (simp add: above_0)
qed simp

lemma above_append: "above (ks @ k) q = above ks (above k q)"
  by (cases ks) auto

lemma root_of_append: "root_of (ks @ k) p = root_of k (root_of ks p)"
  by (induction ks p rule: root_of.induct) auto

lemma plug_not_Nl: "t \<noteq> Nl \<Longrightarrow> plug k t \<noteq> Nl"
proof (induction k t rule: plug.induct)
  case (2 d c a s k t)
  then show ?case by (cases d) auto
qed simp

lemma tree_at_seg: "tree_at h q (plug k t) \<longleftrightarrow> tree_at h (above k q) t \<and> seg_at h k (addr t) q"
proof (induction k arbitrary: t)
  case (Cons f k)
  then show ?case by (cases f) auto
qed simp

lemma seg_at_append: "seg_at h (ks @ k) p q \<longleftrightarrow> seg_at h ks p (above k q) \<and> seg_at h k (root_of ks p) q"
proof (induction ks arbitrary: p)
  case (Cons f ks)
  then show ?case by (cases f) (auto simp: above_append)
qed simp

lemma plug_append: "plug (ks @ k) t = plug k (plug ks t)"
  by (induction ks t rule: plug.induct) auto

lemma path_addrs_append [simp]: "path_addrs (ks @ k) = path_addrs ks \<union> path_addrs k"
proof (induction ks)
  case (Cons f ks)
  then show ?case by (cases f) auto
qed simp

lemma seg_at_agree: "(\<And>a. a \<in> path_addrs k \<Longrightarrow> h' a = h a) \<Longrightarrow> seg_at h' k p q = seg_at h k p q"
proof (induction k arbitrary: p)
  case (Cons f k)
  obtain d c a s where f: "f = (d, c, a, s)" by (cases f)
  have "tree_at h' a s = tree_at h a s" using Cons.prems by (intro tree_at_agree) (auto simp: f)
  then show ?case using Cons by (auto simp: f)
qed simp

lemma seg_at_upd [simp]: "a \<notin> path_addrs k \<Longrightarrow> seg_at (h(a := n)) k p q = seg_at h k p q"
  by (rule seg_at_agree) auto

text \<open>The leftmost node of a subtree is at the end of a path that goes left only.\<close>

definition left_path :: "frame list \<Rightarrow> bool" where
  "left_path k \<longleftrightarrow> (\<forall>(d, c, a, s) \<in> set k. d = Lft)"

lemma leftmost_split:
  assumes "t \<noteq> Nl"
  obtains k c a r where "t = plug k (Nd c Nl a r)" "left_path k"
  using assms
proof (induction t arbitrary: thesis)
  case (Nd c l a r)
  show ?case
  proof (cases "l = Nl")
    case True
    then show ?thesis using Nd.prems(1) [of "[]" c a r] by (simp add: left_path_def)
  next
    case False
    then obtain k c' a' r' where "l = plug k (Nd c' Nl a' r')" "left_path k" using Nd.IH(1) by blast
    then show ?thesis using Nd.prems(1) [of "k @ [(Lft, c, a, r)]" c' a' r'] by (auto simp: plug_append left_path_def)
  qed
qed simp

lemma left_inorder: "left_path k \<Longrightarrow> inorder (plug k t) = inorder t @ inorder (plug k Nl)"
proof (induction k arbitrary: t)
  case (Cons f k)
  obtain c a s where f: "f = (Lft, c, a, s)" using Cons.prems by (cases f) (auto simp: left_path_def)
  have "left_path k" using Cons.prems by (auto simp: left_path_def)
  from Cons.IH [OF this, of "Nd c t a s"] Cons.IH [OF this, of "Nd c Nl a s"] show ?case by (simp add: f)
qed simp

lemma erase_successor_run:
  assumes "tree_at (nodes st) q (plug k (Nd c Nl a r))" "left_path k"
  shows "erase_successor p (addr (plug k (Nd c Nl a r))) st = Some (above k p, a)"
  using assms
proof (induction k arbitrary: p q rule: rev_induct)
  case Nil
  then show ?case by (subst erase_successor.simps) (simp add: run)
next
  case (snoc f k)
  obtain c' a' s where f: "f = (Lft, c', a', s)" using snoc.prems(2) by (cases f) (auto simp: left_path_def)
  let ?t = "plug k (Nd c Nl a r)"
  have t: "ptr_ok a'" "nodes st a' = Some (nd Lft (q OR bw c') (addr ?t) (addr s))" "tree_at (nodes st) a' ?t"
    using snoc.prems(1) by (simp_all add: plug_append f)
  have "?t \<noteq> Nl" by (metis addrs_plug inorder.simps(1) list.set(1) Un_empty inorder.simps(2) append_Nil list.distinct(1) set_empty)
  then have "addr ?t \<noteq> 0" using t(3) addr_in tree_at_ok ptr_ok_simps(1) by blast
  then have "erase_successor p a' st = erase_successor a' (addr ?t) st"
    using t(1,2) by (subst erase_successor.simps) (simp add: run del: addr_plug)
  also have "\<dots> = Some (above k a', a)" using snoc.IH [OF t(3)] snoc.prems(2) by (auto simp: left_path_def)
  finally show ?case by (simp add: plug_append f above_append)
qed


lemma seg_child_run:
  assumes "seg_at (nodes st) k p q" "k \<noteq> []" "left_path k" "path_distinct k"
  shows "\<exists>h'. set_child Lft (up k) p' st = Some (st\<lparr>nodes := h'\<rparr>) \<and> seg_at h' k p' q \<and>
    (\<forall>a. a \<notin> path_addrs k \<longrightarrow> h' a = nodes st a)"
proof -
  obtain c a s k' where k: "k = (Lft, c, a, s) # k'" using assms(2,3) by (cases k) (auto simp: left_path_def)
  show ?thesis using assms(1,4)
    by (intro exI [of _ "(nodes st)(a \<mapsto> nd Lft (above k' q OR bw c) p' (addr s))"]) (auto simp: k run)
qed

lemma seg_parent_run:
  assumes "seg_at (nodes st) k p q" "k \<noteq> []" "path_distinct k" "q AND 3 = 0"
  shows "\<exists>h'. rb_set_parent (root_of k p) q' st = Some (st\<lparr>nodes := h'\<rparr>) \<and> seg_at h' k p q' \<and>
    (\<forall>a. a \<notin> path_addrs k \<longrightarrow> h' a = nodes st a)"
  using assms
proof (induction k arbitrary: p)
  case (Cons f k)
  obtain d c a s where f: "f = (d, c, a, s)" by (cases f)
  show ?case
  proof (cases "k = []")
    case True
    let ?h = "(nodes st)(a \<mapsto> nd d (q' OR bw c) p (addr s))"
    have "rb_set_parent (root_of (f # k) p) q' st = Some (st\<lparr>nodes := ?h\<rparr>)" using Cons.prems True by (simp add: f run pc_simps or.commute)
    moreover have "seg_at ?h (f # k) p q'" using Cons.prems True by (simp add: f)
    moreover have "\<forall>b. b \<notin> path_addrs (f # k) \<longrightarrow> ?h b = nodes st b" by (simp add: f)
    ultimately show ?thesis by (intro exI [of _ ?h] conjI)
  next
    case False
    have "seg_at (nodes st) k a q" "path_distinct k" using Cons.prems by (auto simp: f)
    from Cons.IH [OF this(1) False this(2) Cons.prems(4)] obtain h' where
      h': "rb_set_parent (root_of k a) q' st = Some (st\<lparr>nodes := h'\<rparr>)" "seg_at h' k a q'" "\<And>b. b \<notin> path_addrs k \<Longrightarrow> h' b = nodes st b"
      by auto
    have "a \<notin> path_addrs k" "addrs s \<inter> path_addrs k = {}" using Cons.prems(3) by (auto simp: f)
    then have "h' a = nodes st a" "tree_at h' a s = tree_at (nodes st) a s" using h'(3) by (auto intro!: tree_at_agree)
    moreover have "above k q' = above k q" using False by (cases k) auto
    ultimately show ?thesis using Cons.prems(1) h' by (intro exI [of _ h']) (auto simp: f)
  qed
qed simp

subsection \<open>The callbacks of an erasure\<close>

text \<open>
  The nodes of a path whose values still are those before something below the lowest node changed: each is right
  for some sequence of nodes below it.
\<close>

fun stale :: "(ptr \<Rightarrow> 'v) \<Rightarrow> (ptr list \<Rightarrow> 'v) \<Rightarrow> frame list \<Rightarrow> bool" where
  "stale v agg [] \<longleftrightarrow> True"
| "stale v agg ((d, c, a, s) # k) \<longleftrightarrow> fits v agg s \<and> (\<exists>ys. ys \<noteq> [] \<and> v a = agg ys \<and> path_fits v agg k ys)"

lemma join_not_Nil [simp]: "join d xs a ys \<noteq> []"
  by (cases d) auto

lemma path_fits_stale: "path_fits v agg k xs \<Longrightarrow> stale v agg k"
proof (cases k)
  case (Cons f k')
  obtain d c a s where f: "f = (d, c, a, s)" by (cases f)
  assume "path_fits v agg k xs"
  then show ?thesis by (auto simp: Cons f intro!: exI [of _ "join d xs a (inorder s)"])
qed simp

lemma path_fits_append: "path_fits v agg (k @ k') (inorder t) \<longleftrightarrow> path_fits v agg k (inorder t) \<and> path_fits v agg k' (inorder (plug k t))"
proof (induction k arbitrary: t)
  case (Cons f k)
  obtain d c a s where f: "f = (d, c, a, s)" by (cases f)
  show ?case using Cons.IH [of "mk d c t a s"] by (auto simp: f inorder_mk)
qed simp

text \<open>
  The contracts of the other callbacks: one gives a node the value of another, and one brings the values on a path up
  to the node \<open>stop\<close> up to date.
\<close>

locale augmented_tree = augmentation rot val agg
  for rot :: "'a callback" and val :: "'a \<Rightarrow> ptr \<Rightarrow> 'v" and agg :: "ptr list \<Rightarrow> 'v" +
  fixes cpy pgt :: "'a callback"
  assumes copies: "\<lbrakk>ptr_ok old; ptr_ok new\<rbrakk> \<Longrightarrow> \<exists>u. cpy st old new = Some u \<and> val u = (val (user st))(new := val (user st) old)"
    and propagates: "\<lbrakk>seg_at (nodes st) k (addr t) stop; stop AND 3 = 0; stop \<notin> path_addrs k; path_distinct k; addrs t \<inter> path_addrs k = {};
      t \<noteq> Nl \<Longrightarrow> ptr_ok (addr t); fits (val (user st)) agg t; stale (val (user st)) agg k\<rbrakk> \<Longrightarrow>
    \<exists>u. pgt st (above k stop) stop = Some u \<and> path_fits (val u) agg k (inorder t) \<and>
      (\<forall>a. a \<notin> path_addrs k \<longrightarrow> val u a = val (user st) a)"
begin

text \<open>Propagating to the root.\<close>

lemma propagate_run:
  assumes at: "tree_at (nodes st) (up k) t" "path_at (nodes st) k (addr t)" "root_node st = root_of k (addr t)"
    and dist: "distinct (inorder (plug k t))"
    and vals: "fits (val (user st)) agg t" "stale (val (user st)) agg k"
  shows "\<exists>u. call_back pgt (up k) 0 st = Some (st\<lparr>user := u\<rparr>) \<and> holds val agg (st\<lparr>user := u\<rparr>) (plug k t)"
proof -
  have D: "path_distinct k" "addrs t \<inter> path_addrs k = {}" using dist by auto
  have "0 \<notin> path_addrs k" using path_at_ok [OF at(2)] by (auto simp: ptr_ok_def)
  moreover have "t \<noteq> Nl \<Longrightarrow> ptr_ok (addr t)" using at(1) addr_in tree_at_ok by blast
  ultimately obtain u where u: "pgt st (up k) 0 = Some u" "path_fits (val u) agg k (inorder t)"
    "\<And>a. a \<notin> path_addrs k \<Longrightarrow> val u a = val (user st) a"
    using propagates [of st k t 0] at(2) D vals by (auto simp: path_seg above_0)
  have "fits (val u) agg t" using vals(1) u(3) D(2) fits_agree [of t "val u" "val (user st)" agg] by auto
  then show ?thesis using u(1,2) at dist by (intro exI [of _ u]) (auto simp: call_back_def holds_def mem_def tree_at_plug fits_plug)
qed

end


subsection \<open>Taking a node out\<close>

text \<open>A node with at most one child gives its place and its colour to the child.\<close>

lemma set_pc_run:
  assumes "tree_at (nodes st) q t" "distinct (inorder t)"
  shows "\<exists>h'. (if addr t \<noteq> 0 then set_pc (addr t) (p OR bw c) st else Some st) = Some (st\<lparr>nodes := h'\<rparr>) \<and>
    tree_at h' p (paint c t) \<and> (\<forall>a. a \<notin> addrs t \<longrightarrow> h' a = nodes st a)"
proof (cases t)
  case Nl
  then show ?thesis by (intro exI [of _ "nodes st"]) simp
next
  case (Nd c' l a r)
  then show ?thesis using assms
    by (intro exI [of _ "(nodes st)(a \<mapsto> nd Lft (p OR bw c) (addr l) (addr r))"]) (auto simp: run ptr_ok_simps)
qed

lemma update_swap: "(st :: 'a rbmem)\<lparr>root_node := p, nodes := h\<rparr> = st\<lparr>nodes := h, root_node := p\<rparr>"
  by simp

lemma one_child_memory:
  assumes "mem st (plug k (mk d c t x Nl))"
  shows "\<exists>h1 h2. rb_change_child x (addr t) (up k) st = Some (st\<lparr>nodes := h1, root_node := root_of k (addr t)\<rparr>) \<and>
    (if addr t \<noteq> 0 then set_pc (addr t) (up k OR bw c) (st\<lparr>nodes := h1, root_node := root_of k (addr t)\<rparr>)
     else Some (st\<lparr>nodes := h1, root_node := root_of k (addr t)\<rparr>)) = Some (st\<lparr>nodes := h2, root_node := root_of k (addr t)\<rparr>) \<and>
    tree_at h2 (up k) (paint c t) \<and> path_at h2 k (addr t) \<and>
    (\<forall>a. a \<notin> addrs (plug k (mk d c t x Nl)) \<longrightarrow> h2 a = nodes st a)"
proof -
  note H = assms [unfolded mem_plug, simplified]
  obtain h1 where h1: "rb_change_child x (addr t) (up k) st = Some (st\<lparr>nodes := h1, root_node := root_of k (addr t)\<rparr>)"
    "path_at h1 k (addr t)" "\<And>a. a \<notin> path_addrs k \<Longrightarrow> h1 a = nodes st a"
    using change_child_path [of st k x "addr t"] H by auto
  have "tree_at h1 x t" using H h1(3) tree_at_agree [of t h1 "nodes st" x] by blast
  then obtain h2 where h2: "(if addr t \<noteq> 0 then set_pc (addr t) (up k OR bw c) (st\<lparr>nodes := h1, root_node := root_of k (addr t)\<rparr>)
     else Some (st\<lparr>nodes := h1, root_node := root_of k (addr t)\<rparr>)) = Some (st\<lparr>nodes := h2, root_node := root_of k (addr t)\<rparr>)"
    "tree_at h2 (up k) (paint c t)" "\<And>a. a \<notin> addrs t \<Longrightarrow> h2 a = h1 a"
    using set_pc_run [of "st\<lparr>nodes := h1, root_node := root_of k (addr t)\<rparr>" x t "up k" c] H by (auto simp: update_swap)
  have "path_at h2 k (addr t)" using h1(2) h2(3) H path_at_agree [of k h2 h1] by blast
  then show ?thesis using h1(1,3) h2 H by (intro exI [of _ h1] exI [of _ h2]) simp
qed

lemma erase_one_child_run:
  assumes "mem st (plug k (Nd c Nl x t))"
  shows "\<exists>h'. erase_one_child x (addr t) st =
      Some (up k, if t = Nl \<and> c = Black then up k else 0, st\<lparr>nodes := h', root_node := root_of k (addr t)\<rparr>) \<and>
    tree_at h' (up k) (paint c t) \<and> path_at h' k (addr t) \<and>
    (\<forall>a. a \<notin> addrs (plug k (Nd c Nl x t)) \<longrightarrow> h' a = nodes st a)"
proof -
  note H = assms [unfolded mem_plug, simplified]
  have up: "up k AND 3 = 0" using up_ok [of "nodes st" k x] H by (auto simp: ptr_ok_def)
  have "addr t = 0 \<longleftrightarrow> t = Nl" using H by (cases t) (auto simp: ptr_ok_simps)
  moreover have "load parent_color x st = Some (up k OR bw c)" using H by (simp add: run)
  ultimately show ?thesis using one_child_memory [of st k Rgt c t x] assms
    by (auto simp: erase_one_child_def pc_simps [OF up] Let_def)
qed

lemma erase_left_child_run:
  assumes "mem st (plug k (Nd c t x Nl))" "t \<noteq> Nl"
  shows "\<exists>h'. erase_left_child x (addr t) st = Some (up k, 0, st\<lparr>nodes := h', root_node := root_of k (addr t)\<rparr>) \<and>
    tree_at h' (up k) (paint c t) \<and> path_at h' k (addr t) \<and>
    (\<forall>a. a \<notin> addrs (plug k (Nd c t x Nl)) \<longrightarrow> h' a = nodes st a)"
proof -
  note H = assms [unfolded mem_plug, simplified]
  have up: "up k AND 3 = 0" using up_ok [of "nodes st" k x] H by (auto simp: ptr_ok_def)
  have t: "addr t \<noteq> 0" using H by (cases t) (auto simp: ptr_ok_simps)
  obtain h1 where h1: "set_pc (addr t) (up k OR bw c) st = Some (st\<lparr>nodes := h1\<rparr>)" "tree_at h1 (up k) (paint c t)"
    "\<And>a. a \<notin> addrs t \<Longrightarrow> h1 a = nodes st a"
    using set_pc_run [of st x t "up k" c] H t by auto
  have "path_at h1 k x" using H h1(3) path_at_agree [of k h1 "nodes st" x] by blast
  then obtain h2 where h2: "rb_change_child x (addr t) (up k) (st\<lparr>nodes := h1\<rparr>) = Some (st\<lparr>nodes := h2, root_node := root_of k (addr t)\<rparr>)"
    "path_at h2 k (addr t)" "\<And>a. a \<notin> path_addrs k \<Longrightarrow> h2 a = h1 a"
    using change_child_path [of "st\<lparr>nodes := h1\<rparr>" k x "addr t"] H by auto
  have "load parent_color x st = Some (up k OR bw c)" using H by (simp add: run)
  then have "erase_left_child x (addr t) st = Some (up k, 0, st\<lparr>nodes := h2, root_node := root_of k (addr t)\<rparr>)"
    using h1(1) h2(1) by (simp add: erase_left_child_def pc_simps [OF up] Let_def)
  moreover have "tree_at h2 (up k) (paint c t)"
    using h1(2) h2(3) H tree_at_agree [of "paint c t" h2 h1 "up k"] by (auto simp: paint_simps)
  ultimately show ?thesis using h1(3) h2(2,3) by (intro exI [of _ h2]) simp
qed


text \<open>The memory after the successor has left its place.\<close>

lemma detach_memory:
  assumes r: "tree_at (nodes st) x (plug k (Nd cs Nl s r))" "distinct (inorder (plug k (Nd cs Nl s r)))"
    and k: "left_path k" "k \<noteq> []" and x: "x AND 3 = 0"
  shows "\<exists>h1 h2 h3. set_child Lft (up k) (addr r) st = Some (st\<lparr>nodes := h1\<rparr>) \<and>
    set_child Rgt s (root_of k s) (st\<lparr>nodes := h1\<rparr>) = Some (st\<lparr>nodes := h2\<rparr>) \<and>
    rb_set_parent (root_of k s) s (st\<lparr>nodes := h2\<rparr>) = Some (st\<lparr>nodes := h3\<rparr>) \<and>
    h3 s = Some (nd Rgt (above k x OR bw cs) (root_of k (addr r)) 0) \<and> seg_at h3 k (addr r) s \<and> tree_at h3 s r \<and>
    (\<forall>a. a \<notin> insert s (path_addrs k) \<longrightarrow> h3 a = nodes st a)"
proof -
  have H: "ptr_ok s" "nodes st s = Some (nd Lft (above k x OR bw cs) 0 (addr r))" "tree_at (nodes st) s r" "seg_at (nodes st) k s x"
    and D: "s \<notin> path_addrs k" "s \<notin> addrs r" "path_distinct k" "addrs r \<inter> path_addrs k = {}"
    using r by (auto simp: tree_at_seg)
  have root: "root_of k s = root_of k (addr r)" using k(2) by (auto simp: neq_Nil_conv)
  obtain h1 where h1: "set_child Lft (up k) (addr r) st = Some (st\<lparr>nodes := h1\<rparr>)" "seg_at h1 k (addr r) x"
    "\<And>a. a \<notin> path_addrs k \<Longrightarrow> h1 a = nodes st a"
    using seg_child_run [OF H(4) k(2,1) D(3)] by auto
  define h2 where "h2 = h1(s \<mapsto> nd Rgt (above k x OR bw cs) (root_of k s) 0)"
  have s: "set_child Rgt s (root_of k s) (st\<lparr>nodes := h1\<rparr>) = Some (st\<lparr>nodes := h2\<rparr>)"
    using H D h1(3) by (simp add: run h2_def)
  have "seg_at h2 k (addr r) x" using h1(2) D by (simp add: h2_def)
  then obtain h3 where h3: "rb_set_parent (root_of k (addr r)) s (st\<lparr>nodes := h2\<rparr>) = Some (st\<lparr>nodes := h3\<rparr>)" "seg_at h3 k (addr r) s"
    "\<And>a. a \<notin> path_addrs k \<Longrightarrow> h3 a = h2 a"
    using seg_parent_run [of "st\<lparr>nodes := h2\<rparr>" k "addr r" x s] k D x by auto
  have off: "h3 a = nodes st a" if "a \<notin> insert s (path_addrs k)" for a using that h3(3) h1(3) by (simp add: h2_def)
  have "h3 a = nodes st a" if "a \<in> addrs r" for a by (rule off) (use that D in blast)
  then have "tree_at h3 s r" using H(3) tree_at_agree [of r h3 "nodes st" s] by simp
  moreover have "h3 s = Some (nd Rgt (above k x OR bw cs) (root_of k (addr r)) 0)" using h3(3) D by (simp add: h2_def root)
  ultimately show ?thesis using h1(1) s h3(1,2) off root by (intro exI [of _ h1] exI [of _ h2] exI [of _ h3]) simp
qed

context augmented_tree
begin

abbreviation augment :: "'a rb_augment_callbacks" where
  "augment \<equiv> \<lparr>propagate = pgt, copy = cpy, rotate = rot\<rparr>"

lemma take_successor_run:
  assumes x: "ptr_ok x" "x \<notin> addrs (plug k (Nd cs Nl s r))"
    and at: "tree_at (nodes st) x (plug k (Nd cs Nl s r))" "distinct (inorder (plug k (Nd cs Nl s r)))" "left_path k"
    and vals: "fits (val (user st)) agg (plug k (Nd cs Nl s r))"
  shows "\<exists>h' u. erase_take_successor augment x (root_of k s) st = Some (s, above k s, addr r, st\<lparr>nodes := h', user := u\<rparr>) \<and>
    h' s = Some (nd Rgt (above k x OR bw cs) (root_of k (addr r)) 0) \<and> seg_at h' k (addr r) s \<and> tree_at h' s r \<and>
    (\<forall>a. a \<notin> insert s (path_addrs k) \<longrightarrow> h' a = nodes st a) \<and>
    val u s = val (user st) x \<and> fits (val u) agg r \<and> path_fits (val u) agg k (inorder r) \<and>
    (\<forall>a. a \<notin> insert s (path_addrs k) \<longrightarrow> val u a = val (user st) a)"
proof -
  have H: "ptr_ok s" "nodes st s = Some (nd Lft (above k x OR bw cs) 0 (addr r))" "tree_at (nodes st) s r" "seg_at (nodes st) k s x"
    and D: "s \<notin> path_addrs k" "s \<notin> addrs r" "path_distinct k" "addrs r \<inter> path_addrs k = {}"
    and V: "fits (val (user st)) agg r" "path_fits (val (user st)) agg k (s # inorder r)"
    using at vals by (auto simp: tree_at_seg fits_plug)
  show ?thesis
  proof (cases "k = []")
    case True
    obtain u where u: "cpy st x s = Some u" "val u = (val (user st))(s := val (user st) x)" using copies [OF x(1) H(1)] by blast
    have "erase_take_successor augment x s st = Some (s, s, addr r, st\<lparr>nodes := nodes st, user := u\<rparr>)"
      using H u(1) True by (simp add: erase_take_successor_def run call_back_def)
    then show ?thesis using H D V u(2) True by (intro exI [of _ "nodes st"] exI [of _ u]) simp
  next
    case False
    obtain h1 h2 h3 where h: "set_child Lft (up k) (addr r) st = Some (st\<lparr>nodes := h1\<rparr>)"
        "set_child Rgt s (root_of k s) (st\<lparr>nodes := h1\<rparr>) = Some (st\<lparr>nodes := h2\<rparr>)"
        "rb_set_parent (root_of k s) s (st\<lparr>nodes := h2\<rparr>) = Some (st\<lparr>nodes := h3\<rparr>)"
      and h3: "h3 s = Some (nd Rgt (above k x OR bw cs) (root_of k (addr r)) 0)" "seg_at h3 k (addr r) s" "tree_at h3 s r"
        "\<forall>a. a \<notin> insert s (path_addrs k) \<longrightarrow> h3 a = nodes st a"
      using detach_memory [OF at(1,2,3) False ptr_ok_simps(2) [OF x(1)]] by blast
    obtain u where u: "cpy (st\<lparr>nodes := h3\<rparr>) x s = Some u" "val u = (val (user st))(s := val (user st) x)"
      using copies [OF x(1) H(1), of "st\<lparr>nodes := h3\<rparr>"] by auto
    have "fits (val u) agg r" "stale (val u) agg k" using V D u(2) by (simp_all add: path_fits_stale [of _ _ _ "s # inorder r"])
    moreover have "r \<noteq> Nl \<Longrightarrow> ptr_ok (addr r)" using H(3) addr_in tree_at_ok by blast
    ultimately obtain w where w: "pgt (st\<lparr>nodes := h3, user := u\<rparr>) (above k s) s = Some w" "path_fits (val w) agg k (inorder r)"
      "\<And>a. a \<notin> path_addrs k \<Longrightarrow> val w a = val u a"
      using propagates [of "st\<lparr>nodes := h3, user := u\<rparr>" k r s] h3(2) H(1) D by (auto simp: ptr_ok_simps)
    obtain k' f where k: "k = k' @ [f]" using False rev_exhaust by blast
    obtain c a s' where f: "f = (Lft, c, a, s')" using at(3) by (cases f) (auto simp: k left_path_def)
    let ?t = "plug k' (Nd cs Nl s r)"
    have top: "ptr_ok a" "nodes st a = Some (nd Lft (x OR bw c) (addr ?t) (addr s'))" "tree_at (nodes st) a ?t" "root_of k s = a"
      using at(1) by (simp_all add: k f plug_append root_of_append)
    have "addr ?t \<noteq> 0" using top(3) tree_at_ok [OF top(3)] addr_in [of ?t] plug_not_Nl [of "Nd cs Nl s r" k'] by (auto simp: ptr_ok_simps simp del: addr_plug)
    then have "load rb_left (root_of k s) st = Some (addr ?t)" "addr ?t \<noteq> 0" using top by (simp_all add: run)
    moreover have "erase_successor (root_of k s) (addr ?t) st = Some (above k s, s)"
      using erase_successor_run [OF top(3), of a] at(3) top(4) by (auto simp: k f above_append left_path_def)
    moreover have "load rb_right s st = Some (addr r)" "above k s = up k" using H False by (auto simp: run neq_Nil_conv)
    ultimately have "erase_take_successor augment x (root_of k s) st = Some (s, above k s, addr r, st\<lparr>nodes := h3, user := w\<rparr>)"
      using h u(1) w(1) by (simp add: erase_take_successor_def call_back_def del: addr_plug)
    moreover have "fits (val w) agg r = fits (val u) agg r" by (rule fits_agree) (use w(3) D(4) in blast)
    ultimately show ?thesis using h3 u(2) w D(1,2) V(1) by (intro exI [of _ h3] exI [of _ w]) simp
  qed
qed

end


text \<open>The successor takes the place, the left child and the colour of the node.\<close>

lemma put_successor_run:
  assumes x: "ptr_ok x" "nodes st x = Some (nd Lft (up k OR bw c) (addr l) y)" "x \<notin> addrs (plug k (Nd c l s (plug ks r)))"
    and l: "tree_at (nodes st) x l" "l \<noteq> Nl"
    and k: "path_at (nodes st) k x" "root_node st = root_of k x"
    and s: "ptr_ok s" "nodes st s = Some (nd Rgt (q OR bw cs) (root_of ks (addr r)) 0)" "q AND 3 = 0"
    and r: "seg_at (nodes st) ks (addr r) s" "tree_at (nodes st) s r"
    and dist: "distinct (inorder (plug k (Nd c l s (plug ks r))))"
  shows "\<exists>h'. erase_put_successor x s (above ks s) (addr r) st =
      Some (s, if r = Nl \<and> cs = Black then above ks s else 0, st\<lparr>nodes := h', root_node := root_of k s\<rparr>) \<and>
    tree_at h' (up k) (Nd c l s (plug ks (paint Black r))) \<and> path_at h' k s \<and>
    (\<forall>a. a \<notin> addrs (plug k (Nd c l s (plug ks r))) \<longrightarrow> h' a = nodes st a)"
proof -
  note D = dist [simplified]
  have up: "up k AND 3 = 0" using up_ok [OF k(1)] by (auto simp: ptr_ok_def)
  have xs: "x \<noteq> s" "x \<notin> addrs l" "x \<notin> path_addrs k" "s \<notin> addrs l" "s \<notin> path_addrs k" "s \<notin> addrs r" "s \<notin> path_addrs ks" using x(3) D by auto
  have l0: "addr l \<noteq> 0" using l by (cases l) (auto simp: ptr_ok_simps)
  have r0: "addr r = 0 \<longleftrightarrow> r = Nl" using r(2) by (cases r) (auto simp: ptr_ok_simps)
  let ?h1 = "(nodes st)(s \<mapsto> nd Rgt (q OR bw cs) (root_of ks (addr r)) (addr l))"
  have 1: "set_child Lft s (addr l) st = Some (st\<lparr>nodes := ?h1\<rparr>)" using s by (simp add: run)
  have "tree_at ?h1 x l" using l(1) xs by simp
  then obtain h2 where h2: "rb_set_parent (addr l) s (st\<lparr>nodes := ?h1\<rparr>) = Some (st\<lparr>nodes := h2\<rparr>)" "tree_at h2 s l"
      "\<forall>a. a \<notin> addrs l \<longrightarrow> h2 a = ?h1 a"
    using set_parent_run [of "st\<lparr>nodes := ?h1\<rparr>" x l s] l0 D x(1) by (auto simp: ptr_ok_simps)
  have "path_at h2 k x"
    using k(1) xs h2(3) D path_at_agree [of k h2 ?h1 x] by (metis IntI Un_iff empty_iff insert_iff path_at_upd)
  then obtain h3 where h3: "rb_change_child x s (up k) (st\<lparr>nodes := h2\<rparr>) = Some (st\<lparr>nodes := h3, root_node := root_of k s\<rparr>)"
      "path_at h3 k s" "\<forall>a. a \<notin> path_addrs k \<longrightarrow> h3 a = h2 a"
    using change_child_path [of "st\<lparr>nodes := h2\<rparr>" k x s] D k(2) x(1) xs(3) by auto
  have h3s: "h3 s = ?h1 s" "h2 x = nodes st x" using h3(3) h2(3) xs by auto
  let ?h4 = "h3(s \<mapsto> nd Rgt (up k OR bw c) (root_of ks (addr r)) (addr l))"
  have off: "?h4 a = nodes st a" if "a \<notin> path_addrs k" "a \<notin> addrs l" "a \<noteq> s" for a using that h3(3) h2(3) by simp
  have "?h4 a = nodes st a" if "a \<in> addrs r" for a by (rule off) (use that D in auto)
  then have r4: "tree_at ?h4 s r" using r(2) tree_at_agree [of r ?h4 "nodes st" s] by simp
  have "?h4 a = nodes st a" if "a \<in> path_addrs ks" for a by (rule off) (use that D in auto)
  then have ks4: "seg_at ?h4 ks (addr r) s" using r(1) seg_at_agree [of ks ?h4 "nodes st"] by simp
  have "h3 a = h2 a" if "a \<in> addrs l" for a using h3(3) D that by blast
  then have l4: "tree_at ?h4 s l" using h2(2) xs tree_at_agree [of l h3 h2 s] by simp
  obtain h5 where h5: "set_black_child (addr r) (above ks s) (st\<lparr>nodes := ?h4, root_node := root_of k s\<rparr>) = Some (st\<lparr>nodes := h5, root_node := root_of k s\<rparr>)"
      "tree_at h5 (above ks s) (paint Black r)" "\<forall>a. a \<notin> addrs r \<longrightarrow> h5 a = ?h4 a"
    using set_black_run [of "st\<lparr>nodes := ?h4, root_node := root_of k s\<rparr>" s r "above ks s"] r4 D by (auto simp: update_swap)
  have "h5 a = ?h4 a" if "a \<in> addrs l \<or> a \<in> path_addrs k \<or> a \<in> path_addrs ks" for a using h5(3) D that by blast
  then have 5: "tree_at h5 s l" "path_at h5 k s" "seg_at h5 ks (addr r) s" "h5 s = ?h4 s"
    using l4 h3(2) ks4 xs h5(3) tree_at_agree [of l h5 ?h4 s] path_at_agree [of k h5 ?h4 s] seg_at_agree [of ks h5 ?h4] by simp_all
  have "erase_put_successor x s (above ks s) (addr r) st =
      Some (s, if r = Nl \<and> cs = Black then above ks s else 0, st\<lparr>nodes := h5, root_node := root_of k s\<rparr>)"
    using x s 1 h2(1) h3(1) h3s h5(1) xs(1) r0 pc_simps [OF up] pc_simps(3) [OF s(3)]
    by (cases "r = Nl") (simp_all add: erase_put_successor_def run set_black_child_def update_swap)
  moreover have "tree_at h5 (up k) (Nd c l s (plug ks (paint Black r)))" using 5 h5(2) s(1) by (simp add: tree_at_seg)
  moreover have "\<forall>a. a \<notin> addrs (plug k (Nd c l s (plug ks r))) \<longrightarrow> h5 a = nodes st a" using h5(3) off by simp
  ultimately show ?thesis using 5(2) by (intro exI [of _ h5]) simp
qed


subsection \<open>Erasing\<close>

text \<open>Taking a node out does not make a node appear in memory or disappear from it.\<close>

definition allocated :: "'a rbmem \<Rightarrow> ptr set" where
  "allocated st = dom (nodes st)"

lemma allocated_simps [simp]: "allocated (st\<lparr>user := u\<rparr>) = allocated st" "allocated (st\<lparr>root_node := p\<rparr>) = allocated st"
  by (simp_all add: allocated_def)

lemma modify_dom: "modify f p st = Some st' \<Longrightarrow> allocated st' = allocated st"
  by (auto simp: modify_def load_def allocated_def bind_eq_Some_conv split: if_splits)

lemma simple_dom:
  "set_child d p v st = Some st' \<Longrightarrow> allocated st' = allocated st"
  "set_pc p pc st = Some st' \<Longrightarrow> allocated st' = allocated st"
  "rb_set_parent p q st = Some st' \<Longrightarrow> allocated st' = allocated st"
  "rb_set_parent_color p q c st = Some st' \<Longrightarrow> allocated st' = allocated st"
  "rb_set_black p st = Some st' \<Longrightarrow> allocated st' = allocated st"
  "set_black_child p q st = Some st' \<Longrightarrow> allocated st' = allocated st"
  "rb_change_child p q r st = Some st' \<Longrightarrow> allocated st' = allocated st"
  "call_back cb p q st = Some st' \<Longrightarrow> allocated st' = allocated st"
  by (auto simp: set_child_def set_pc_def rb_set_parent_def rb_set_parent_color_def rb_set_black_def set_black_child_def
      rb_change_child_def call_back_def bind_eq_Some_conv dest: modify_dom split: if_splits)

lemma unlink_dom: "rb_erase_unlink x aug st = Some (r, st') \<Longrightarrow> allocated st' = allocated st"
proof -
  have "erase_one_child x y st = Some (p, q, st') \<Longrightarrow> allocated st' = allocated st" for x y p q and st st' :: "'a rbmem"
    by (auto simp: erase_one_child_def Let_def bind_eq_Some_conv dest!: simple_dom split: if_splits)
  moreover have "erase_left_child x y st = Some (p, q, st') \<Longrightarrow> allocated st' = allocated st" for x y p q and st st' :: "'a rbmem"
    by (auto simp: erase_left_child_def Let_def bind_eq_Some_conv dest!: simple_dom)
  moreover have "erase_take_successor aug x y st = Some (p, q, v, st') \<Longrightarrow> allocated st' = allocated st" for x y p q v and st st' :: "'a rbmem"
    by (auto simp: erase_take_successor_def bind_eq_Some_conv dest!: simple_dom split: if_splits)
  moreover have "erase_put_successor x y z v st = Some (p, q, st') \<Longrightarrow> allocated st' = allocated st" for x y z p q v and st st' :: "'a rbmem"
    by (auto simp: erase_put_successor_def bind_eq_Some_conv dest!: simple_dom split: if_splits)
  ultimately show "rb_erase_unlink x aug st = Some (r, st') \<Longrightarrow> allocated st' = allocated st"
    by (auto simp: rb_erase_unlink_def erase_two_children_def bind_eq_Some_conv dest!: simple_dom(8) split: if_splits)
qed

lemma inorder_plug_split: "\<exists>xs ys. \<forall>t. inorder (plug k t) = xs @ inorder t @ ys"
proof (induction k)
  case Nil
  show ?case by (intro exI [of _ "[]"]) simp
next
  case (Cons f k)
  obtain d c a s where f: "f = (d, c, a, s)" by (cases f)
  obtain xs ys where k: "\<And>t. inorder (plug k t) = xs @ inorder t @ ys" using Cons by blast
  have "inorder (plug (f # k) t) = xs @ (case d of Lft \<Rightarrow> [] | Rgt \<Rightarrow> inorder s @ [a]) @ inorder t @ (case d of Lft \<Rightarrow> a # inorder s | Rgt \<Rightarrow> []) @ ys" for t
    by (cases d) (simp_all add: f k)
  then show ?case by (metis append_assoc)
qed

lemma inorder_removed:
  assumes "distinct (inorder (plug k (Nd c l x r)))" "inorder t' = inorder l @ inorder r"
  shows "inorder (plug k t') = remove1 x (inorder (plug k (Nd c l x r)))"
proof -
  obtain xs ys where k: "\<And>t. inorder (plug k t) = xs @ inorder t @ ys" using inorder_plug_split by blast
  have "x \<notin> set xs" "x \<notin> set (inorder l)" using assms(1) unfolding k by auto
  then show ?thesis using assms(2) by (simp add: k remove1_append)
qed

text \<open>
  The tree without the node is a red-black tree, or one black node is missing on the path to the place that is now empty.
\<close>

definition unlinks :: "('a \<Rightarrow> ptr \<Rightarrow> 'v) \<Rightarrow> (ptr list \<Rightarrow> 'v) \<Rightarrow> (ptr \<times> 'a rbmem) option \<Rightarrow> 'a rbmem \<Rightarrow> shape \<Rightarrow> ptr \<Rightarrow> bool" where
  "unlinks val agg m st t x \<longleftrightarrow>
     (\<exists>rebalance st' k t'. m = Some (rebalance, st') \<and> (\<forall>a. a \<notin> addrs t \<longrightarrow> nodes st' a = nodes st a) \<and>
        holds val agg st' (plug k t') \<and> inorder (plug k t') = remove1 x (inorder t) \<and>
        (rebalance = 0 \<and> rb_shape (plug k t') \<or>
         rebalance = up k \<and> k \<noteq> [] \<and> t' = Nl \<and> path_c k Black \<and> path_h k 1))"

lemma bht_unique: "bht t n \<Longrightarrow> bht t m \<Longrightarrow> n = m"
proof (induction t arbitrary: n m)
  case (Nd c l a r)
  then show ?case by (cases c) (auto, metis Suc_pred)
qed simp

lemma black_child: "bht t 0 \<Longrightarrow> invc t \<Longrightarrow> color_of t = Black \<Longrightarrow> t = Nl"
  by (cases t) auto

text \<open>The height and colour of what is left in the place of a node.\<close>

lemma lone_child:
  assumes "rb_shape (plug k (Nd c l x r))" "l = Nl \<and> t = r \<or> r = Nl \<and> t = l"
  shows "t \<noteq> Nl \<or> c = Red \<Longrightarrow> rb_shape (plug k (paint c t))"
    and "t = Nl \<Longrightarrow> c = Black \<Longrightarrow> path_c k Black \<and> path_h k 1"
proof -
  obtain n where inv: "invc (Nd c l x r)" "path_c k c" "bht (Nd c l x r) n" "path_h k n"
    using assms(1) by (auto simp: rb_shape_plug)
  have t: "invc t" "c = Red \<Longrightarrow> color_of t = Black" "bht t 0" "n = (case c of Red \<Rightarrow> 0 | Black \<Rightarrow> 1)"
    using inv(1,3) assms(2) by (cases c; auto)+
  show "rb_shape (plug k (paint c t))" if "t \<noteq> Nl \<or> c = Red"
  proof (cases "t = Nl")
    case True
    then show ?thesis using that inv t path_c_Black by (cases c) (auto simp: rb_shape_plug)
  next
    case False
    then have red: "color_of t = Red" using t black_child by (cases "color_of t") auto
    then have c: "c = Black" using t(2) by (cases c) auto
    then show ?thesis using inv t red bht_paint [of t 0] invc_paint by (auto simp: rb_shape_plug)
  qed
  show "path_c k Black \<and> path_h k 1" if "t = Nl" "c = Black" using that inv t by simp
qed

lemma lone_successor:
  assumes "rb_shape (plug k (Nd cs Nl s r))"
  shows "r \<noteq> Nl \<or> cs = Red \<Longrightarrow> rb_shape (plug k (paint Black r))"
    and "r = Nl \<Longrightarrow> cs = Black \<Longrightarrow> path_c k Black \<and> path_h k 1"
proof -
  show "rb_shape (plug k (paint Black r))" if "r \<noteq> Nl \<or> cs = Red"
  proof (cases cs)
    case Red
    then have "r = Nl" using assms by (auto simp: rb_shape_plug intro: black_child)
    then show ?thesis using lone_child(1) [OF assms, of r] Red by simp
  next
    case Black
    then show ?thesis using lone_child(1) [OF assms, of r] that by simp
  qed
  show "path_c k Black \<and> path_h k 1" if "r = Nl" "cs = Black" using lone_child(2) [OF assms, of r] that by simp
qed


lemma node_split:
  assumes "x \<in> addrs t"
  obtains k c l r where "t = plug k (Nd c l x r)"
  using assms
proof (induction t arbitrary: thesis)
  case (Nd c l a r)
  consider "x = a" | "x \<in> addrs l" | "x \<in> addrs r" using Nd.prems(2) by auto
  then show ?case
  proof cases
    case 1
    then show ?thesis using Nd.prems(1) [of "[]"] by simp
  next
    case 2
    then obtain k c' l' r' where "l = plug k (Nd c' l' x r')" using Nd.IH(1) by blast
    then show ?thesis using Nd.prems(1) [of "k @ [(Lft, c, a, r)]"] by (simp add: plug_append)
  next
    case 3
    then obtain k c' l' r' where "r = plug k (Nd c' l' x r')" using Nd.IH(2) by blast
    then show ?thesis using Nd.prems(1) [of "k @ [(Rgt, c, a, l)]"] by (simp add: plug_append)
  qed
qed simp

lemma path_rename:
  "path_c (ks @ (d, c, x, t) # k) col = path_c (ks @ (d, c, y, t) # k) col"
  "path_h (ks @ (d, c, x, t) # k) n = path_h (ks @ (d, c, y, t) # k) n"
proof -
  show "path_c (ks @ (d, c, x, t) # k) col = path_c (ks @ (d, c, y, t) # k) col"
    by (induction ks col rule: path_c.induct) auto
  show "path_h (ks @ (d, c, x, t) # k) n = path_h (ks @ (d, c, y, t) # k) n"
    by (induction ks n rule: path_h.induct) auto
qed

context augmented_tree
begin

text \<open>A node with at most one child.\<close>

lemma unlink_lone:
  assumes all: "holds val agg st (plug k (Nd c l x r))" "rb_shape (plug k (Nd c l x r))"
    and t: "l = Nl \<and> t = r \<or> r = Nl \<and> t = l"
    and st': "tree_at (nodes st') (up k) (paint c t)" "path_at (nodes st') k (addr t)" "root_node st' = root_of k (addr t)" "user st' = user st"
      "\<forall>a. a \<notin> addrs (plug k (Nd c l x r)) \<longrightarrow> nodes st' a = nodes st a"
  shows "unlinks val agg
    (do { st \<leftarrow> call_back pgt (up k) 0 st'; Some (if t = Nl \<and> c = Black then up k else 0, st) }) st (plug k (Nd c l x r)) x"
proof -
  have D: "distinct (inorder (plug k (Nd c l x r)))" and V: "fits (val (user st)) agg t" "stale (val (user st)) agg k"
    using all t by (auto simp: holds_def mem_def fits_plug intro: path_fits_stale)
  have in': "inorder (plug k (paint c t)) = remove1 x (inorder (plug k (Nd c l x r)))"
    using t by (intro inorder_removed D) auto
  then have "distinct (inorder (plug k (paint c t)))" using D distinct_remove1 by metis
  then obtain u where u: "call_back pgt (up k) 0 st' = Some (st'\<lparr>user := u\<rparr>)" "holds val agg (st'\<lparr>user := u\<rparr>) (plug k (paint c t))"
    using propagate_run [of st' k "paint c t"] st' V by auto
  consider "t \<noteq> Nl \<or> c = Red" | "t = Nl" "c = Black" "k = []" | "t = Nl" "c = Black" "k \<noteq> []" by (cases c) auto
  then show ?thesis
  proof cases
    case 1
    then have "rb_shape (plug k (paint c t))" using lone_child(1) [OF all(2) t] by blast
    then show ?thesis unfolding unlinks_def using u in' st'(5) 1
      by (intro exI [of _ "0"] exI [of _ "st'\<lparr>user := u\<rparr>"] exI [of _ k] exI [of _ "paint c t"]) auto
  next
    case 2
    then show ?thesis unfolding unlinks_def using u in' st'(5)
      by (intro exI [of _ "0"] exI [of _ "st'\<lparr>user := u\<rparr>"] exI [of _ k] exI [of _ "paint c t"]) (auto simp: rb_shape_def)
  next
    case 3
    then have "path_c k Black \<and> path_h k 1" using lone_child(2) [OF all(2) t] by blast
    then show ?thesis unfolding unlinks_def using u in' st'(5) 3
      by (intro exI [of _ "up k"] exI [of _ "st'\<lparr>user := u\<rparr>"] exI [of _ k] exI [of _ "paint c t"]) auto
  qed
qed


text \<open>A node with two children.\<close>

lemma two_children_run:
  assumes all: "holds val agg st (plug k (Nd c l x (plug ks (Nd cs Nl s r))))" and l: "l \<noteq> Nl" and ks: "left_path ks"
  shows "\<exists>st'. erase_two_children augment x (root_of ks s) st = Some (s, if r = Nl \<and> cs = Black then above ks s else 0, st') \<and>
    tree_at (nodes st') (up k) (Nd c l s (plug ks (paint Black r))) \<and> path_at (nodes st') k s \<and> root_node st' = root_of k s \<and>
    fits (val (user st')) agg l \<and> fits (val (user st')) agg (plug ks (paint Black r)) \<and> stale (val (user st')) agg ((Rgt, c, s, l) # k) \<and>
    (\<forall>a. a \<notin> addrs (plug k (Nd c l x (plug ks (Nd cs Nl s r)))) \<longrightarrow> nodes st' a = nodes st a)"
proof -
  let ?r = "plug ks (Nd cs Nl s r)"
  note H = all [unfolded holds_def mem_plug fits_plug [of _ _ k]]
  have x: "ptr_ok x" "nodes st x = Some (nd Lft (up k OR bw c) (addr l) (addr ?r))" "tree_at (nodes st) x l" "tree_at (nodes st) x ?r"
    "path_at (nodes st) k x" "root_node st = root_of k x"
    and V: "val (user st) x = agg (inorder l @ x # inorder ?r)" "fits (val (user st)) agg l" "fits (val (user st)) agg ?r"
      "path_fits (val (user st)) agg k (inorder l @ x # inorder ?r)"
    and D: "distinct (inorder ?r)" "x \<notin> addrs ?r" "x \<notin> addrs l" "x \<notin> path_addrs k" "addrs l \<inter> addrs ?r = {}"
      "addrs l \<inter> path_addrs k = {}" "addrs ?r \<inter> path_addrs k = {}" "distinct (inorder l)" "path_distinct k"
    using H by (auto simp del: addrs_plug distinct_plug addr_plug)
  have s: "s \<in> addrs ?r" "ptr_ok s" "path_addrs ks \<subseteq> addrs ?r" using tree_at_ok [OF x(4), of s] by auto
  from take_successor_run [OF x(1) D(2) x(4) D(1) ks V(3)] obtain h1 u where
    take: "erase_take_successor augment x (root_of ks s) st = Some (s, above ks s, addr r, st\<lparr>nodes := h1, user := u\<rparr>)"
    and h1: "h1 s = Some (nd Rgt (above ks x OR bw cs) (root_of ks (addr r)) 0)" "seg_at h1 ks (addr r) s" "tree_at h1 s r"
      "\<forall>a. a \<notin> insert s (path_addrs ks) \<longrightarrow> h1 a = nodes st a"
    and u: "val u s = val (user st) x" "fits (val u) agg r" "path_fits (val u) agg ks (inorder r)"
      "\<forall>a. a \<notin> insert s (path_addrs ks) \<longrightarrow> val u a = val (user st) a"
    by blast
  have "a \<notin> insert s (path_addrs ks)" if "a \<in> addrs l \<or> a \<in> path_addrs k \<or> a = x" for a
    using that s(1,3) D(2,5,7) by blast
  then have same: "h1 a = nodes st a" "val u a = val (user st) a" if "a \<in> addrs l \<or> a \<in> path_addrs k \<or> a = x" for a
    using h1(4) u(4) that by simp_all
  have h1': "h1 x = nodes st x" "tree_at h1 x l" "path_at h1 k x"
    using x(3,5) same tree_at_agree [of l h1 "nodes st" x] path_at_agree [of k h1 "nodes st" x] by simp_all
  have u': "fits (val u) agg l" "path_fits (val u) agg k (inorder l @ x # inorder ?r)"
    using V(2,4) same fits_agree [of l "val u" "val (user st)" agg] path_fits_agree [of k "val u" "val (user st)" agg] by simp_all
  have ks_ok: "above ks x AND 3 = 0" using x(1,4) tree_at_seg [of "nodes st" x ks] by (cases ks) (auto simp: ptr_ok_simps)
  have "distinct (inorder (plug k (Nd c l s (plug ks r))))" "x \<notin> addrs (plug k (Nd c l s (plug ks r)))" using D by auto
  from put_successor_run [of x "st\<lparr>nodes := h1, user := u\<rparr>" k c l "addr ?r" s ks r "above ks x" cs, OF x(1) _ this(2) _ l _ _ s(2) _ ks_ok _ _ this(1)]
  obtain h2 where put: "erase_put_successor x s (above ks s) (addr r) (st\<lparr>nodes := h1, user := u\<rparr>) =
      Some (s, if r = Nl \<and> cs = Black then above ks s else 0, st\<lparr>nodes := h1, user := u, nodes := h2, root_node := root_of k s\<rparr>)"
    and h2: "tree_at h2 (up k) (Nd c l s (plug ks (paint Black r)))" "path_at h2 k s"
      "\<forall>a. a \<notin> addrs (plug k (Nd c l s (plug ks r))) \<longrightarrow> h2 a = h1 a"
    using h1 h1' x(2,6) by auto
  have "stale (val u) agg ((Rgt, c, s, l) # k)" using u' u(1) V(1) by (auto intro!: exI [of _ "inorder l @ x # inorder ?r"])
  moreover have "fits (val u) agg (plug ks (paint Black r))" using u(2,3) by (simp add: fits_plug)
  moreover have "\<forall>a. a \<notin> addrs (plug k (Nd c l x ?r)) \<longrightarrow> h2 a = nodes st a" using h1(4) h2(3) by simp
  ultimately show ?thesis using take put h2(1,2) u'(1)
    by (intro exI [of _ "st\<lparr>nodes := h1, user := u, nodes := h2, root_node := root_of k s\<rparr>"]) (simp add: erase_two_children_def)
qed


lemma unlink_two:
  assumes all: "holds val agg st (plug k (Nd c l x (plug ks (Nd cs Nl s r))))" "rb_shape (plug k (Nd c l x (plug ks (Nd cs Nl s r))))"
    and l: "l \<noteq> Nl" and ks: "left_path ks"
  shows "unlinks val agg
    (do { (tmp, rebalance, st) \<leftarrow> erase_two_children augment x (root_of ks s) st; st \<leftarrow> call_back pgt tmp 0 st; Some (rebalance, st) })
    st (plug k (Nd c l x (plug ks (Nd cs Nl s r)))) x"
    (is "unlinks val agg ?m st ?t x")
proof -
  let ?r = "plug ks (paint Black r)" and ?k = "ks @ (Rgt, c, s, l) # k" and ?reb = "if r = Nl \<and> cs = Black then above ks s else 0"
  obtain st' where run: "erase_two_children augment x (root_of ks s) st = Some (s, ?reb, st')"
    and at: "tree_at (nodes st') (up k) (Nd c l s ?r)" "path_at (nodes st') k s" "root_node st' = root_of k s"
    and vals: "fits (val (user st')) agg l" "fits (val (user st')) agg ?r" "stale (val (user st')) agg ((Rgt, c, s, l) # k)"
    and off: "\<forall>a. a \<notin> addrs ?t \<longrightarrow> nodes st' a = nodes st a"
    using two_children_run [OF all(1) l ks] by blast
  have whole: "plug ((Rgt, c, s, l) # k) ?r = plug ?k (paint Black r)" by (simp add: plug_append)
  have D: "distinct (inorder ?t)" using holds_distinct [OF all(1)] .
  have in': "inorder (plug ?k (paint Black r)) = remove1 x (inorder ?t)"
    unfolding whole [symmetric] plug.simps mk.simps by (rule inorder_removed [OF D])
      (use left_inorder [OF ks, of "paint Black r"] left_inorder [OF ks, of "Nd cs Nl s r"] in simp)
  then have "distinct (inorder (plug ((Rgt, c, s, l) # k) ?r))" using D distinct_remove1 whole by metis
  then obtain u where u: "call_back pgt s 0 st' = Some (st'\<lparr>user := u\<rparr>)" "holds val agg (st'\<lparr>user := u\<rparr>) (plug ?k (paint Black r))"
    using propagate_run [of st' "(Rgt, c, s, l) # k" ?r] at vals unfolding whole by auto
  have old: "rb_shape (plug (ks @ (Rgt, c, x, l) # k) (Nd cs Nl s r))" using all(2) by (simp add: plug_append)
  consider "r \<noteq> Nl \<or> cs = Red" | "r = Nl" "cs = Black" by (cases cs) auto
  then show ?thesis
  proof cases
    case 1
    then have "rb_shape (plug ?k (paint Black r))"
      using lone_successor(1) [OF old] path_rename [of ks Rgt c x l k _ s] by (simp add: rb_shape_plug)
    then show ?thesis unfolding unlinks_def using run u in' off 1
      by (intro exI [of _ "0"] exI [of _ "st'\<lparr>user := u\<rparr>"] exI [of _ ?k] exI [of _ "paint Black r"]) auto
  next
    case 2
    then have "path_c ?k Black \<and> path_h ?k 1"
      using lone_successor(2) [OF old] path_rename [of ks Rgt c x l k _ s] by simp
    moreover have "above ks s = up ?k" by (cases ks) auto
    ultimately show ?thesis unfolding unlinks_def using run u in' off 2
      by (intro exI [of _ "up ?k"] exI [of _ "st'\<lparr>user := u\<rparr>"] exI [of _ ?k] exI [of _ "Nl"]) simp
  qed
qed

lemma rb_erase_unlink_run:
  assumes "holds val agg st (plug k (Nd c l x r))" "rb_shape (plug k (Nd c l x r))"
  shows "unlinks val agg (rb_erase_unlink x augment st) st (plug k (Nd c l x r)) x"
proof -
  have M: "mem st (plug k (Nd c l x r))" using assms(1) by (simp add: holds_def)
  have loads: "load rb_right x st = Some (addr r)" "load rb_left x st = Some (addr l)"
    and 0: "addr l = 0 \<longleftrightarrow> l = Nl" "addr r = 0 \<longleftrightarrow> r = Nl"
    using M by (cases l; cases r; simp add: mem_plug run ptr_ok_simps)+
  consider "l = Nl" | "l \<noteq> Nl" "r = Nl" | "l \<noteq> Nl" "r \<noteq> Nl" by blast
  then show ?thesis
  proof cases
    case 1
    obtain h' where "erase_one_child x (addr r) st =
        Some (up k, if r = Nl \<and> c = Black then up k else 0, st\<lparr>nodes := h', root_node := root_of k (addr r)\<rparr>)"
      "tree_at h' (up k) (paint c r)" "path_at h' k (addr r)" "\<forall>a. a \<notin> addrs (plug k (Nd c l x r)) \<longrightarrow> h' a = nodes st a"
      using erase_one_child_run [of st k c x r] M 1 by auto
    then show ?thesis using unlink_lone [OF assms, of r "st\<lparr>nodes := h', root_node := root_of k (addr r)\<rparr>"] loads 1
      by (simp add: rb_erase_unlink_def)
  next
    case 2
    obtain h' where "erase_left_child x (addr l) st = Some (up k, 0, st\<lparr>nodes := h', root_node := root_of k (addr l)\<rparr>)"
      "tree_at h' (up k) (paint c l)" "path_at h' k (addr l)" "\<forall>a. a \<notin> addrs (plug k (Nd c l x r)) \<longrightarrow> h' a = nodes st a"
      using erase_left_child_run [of st k c l x] M 2 by auto
    then show ?thesis using unlink_lone [OF assms, of l "st\<lparr>nodes := h', root_node := root_of k (addr l)\<rparr>"] loads 0 2
      by (simp add: rb_erase_unlink_def)
  next
    case 3
    obtain ks cs s r' where r: "r = plug ks (Nd cs Nl s r')" "left_path ks" using leftmost_split 3(2) by blast
    have "addr r = root_of ks s" by (simp add: r)
    then show ?thesis using unlink_two [OF assms [unfolded r(1)] 3(1) r(2)] loads 0 3 by (simp add: rb_erase_unlink_def r(1))
  qed
qed

lemma rb_erase_augmented_run:
  assumes "holds val agg st t" "rb_shape t" "x \<in> addrs t"
  shows "\<exists>st' t'. rb_erase_augmented x augment st = Some st' \<and> holds val agg st' t' \<and> inorder t' = remove1 x (inorder t) \<and> rb_shape t' \<and>
    nodes st' x \<noteq> None \<and> (\<forall>a. a \<notin> addrs t \<longrightarrow> nodes st' a = nodes st a)"
proof -
  obtain k c l r where t: "t = plug k (Nd c l x r)" using node_split [OF assms(3)] .
  obtain rebalance st1 k t1 where un: "rb_erase_unlink x augment st = Some (rebalance, st1)" "\<forall>a. a \<notin> addrs t \<longrightarrow> nodes st1 a = nodes st a"
    "holds val agg st1 (plug k t1)" "inorder (plug k t1) = remove1 x (inorder t)"
    "rebalance = 0 \<and> rb_shape (plug k t1) \<or> rebalance = up k \<and> k \<noteq> [] \<and> t1 = Nl \<and> path_c k Black \<and> path_h k 1"
    using rb_erase_unlink_run [of st k c l x r] assms(1,2) unfolding t unlinks_def by blast
  have "nodes st x \<noteq> None" using assms(1) by (simp add: t holds_def mem_plug)
  then have x: "nodes st1 x \<noteq> None" using unlink_dom [OF un(1)] unfolding allocated_def by blast
  from un(5) show ?thesis
  proof
    assume "rebalance = 0 \<and> rb_shape (plug k t1)"
    then show ?thesis using un x by (intro exI [of _ st1] exI [of _ "plug k t1"]) (simp add: rb_erase_augmented_def)
  next
    assume k: "rebalance = up k \<and> k \<noteq> [] \<and> t1 = Nl \<and> path_c k Black \<and> path_h k 1"
    then have "up k \<noteq> 0" using un(3) by (auto simp: neq_Nil_conv holds_def mem_plug ptr_ok_simps)
    then have "rb_erase_augmented x augment st = rb_erase_color rot 0 (up k) st1" using un(1) k by (simp add: rb_erase_augmented_def)
    moreover have "rebalances val agg (rb_erase_color rot 0 (up k) st1) st1 (plug k Nl)"
      using rb_erase_color_run [of st1 k Nl 0] un(3) k by simp
    then obtain st' t' where st': "rb_erase_color rot 0 (up k) st1 = Some st'" "holds val agg st' t'" "inorder t' = inorder (plug k Nl)"
      "rb_shape t'" "\<forall>a. a \<notin> addrs (plug k Nl) \<longrightarrow> nodes st' a = nodes st1 a"
      unfolding rebalances_def by blast
    have "addrs (plug k Nl) \<subseteq> addrs t" using un(4) k set_remove1_subset [of x "inorder t"] by simp
    then have "\<forall>a. a \<notin> addrs t \<longrightarrow> nodes st' a = nodes st a" using un(2) st'(5) by fastforce
    moreover have "nodes st' x = nodes st1 x" using un(4) k holds_distinct [OF assms(1)] st'(5) by simp
    ultimately show ?thesis using un(4) k st' x by (intro exI [of _ st'] exI [of _ t']) simp
  qed
qed

end

end
