(* ===== verification/Rbtree_Walk.thy ===== *)
theory Rbtree_Walk
  imports Rbtree_Unlink
begin

text \<open>
  Walking through a red-black tree in memory: in order, in postorder, and down to a place or to a node.
\<close>

subsection \<open>The nodes before and after a subtree\<close>

fun before :: "frame list \<Rightarrow> ptr list" where
  "before [] = []"
| "before ((d, c, a, s) # k) = before k @ (case d of Lft \<Rightarrow> [] | Rgt \<Rightarrow> inorder s @ [a])"

fun after :: "frame list \<Rightarrow> ptr list" where
  "after [] = []"
| "after ((d, c, a, s) # k) = (case d of Lft \<Rightarrow> a # inorder s | Rgt \<Rightarrow> []) @ after k"

lemma inorder_plug: "inorder (plug k t) = before k @ inorder t @ after k"
proof (induction k arbitrary: t)
  case (Cons f k)
  obtain d c a s where "f = (d, c, a, s)" by (cases f)
  then show ?case by (cases d) (simp_all add: Cons)
qed simp

text \<open>The first node of a list, or NULL; the last one.\<close>

definition hd0 :: "ptr list \<Rightarrow> ptr" where
  "hd0 xs = (case xs of [] \<Rightarrow> 0 | x # _ \<Rightarrow> x)"

definition last0 :: "ptr list \<Rightarrow> ptr" where
  "last0 xs = (if xs = [] then 0 else last xs)"

lemma hd0_simps [simp]: "hd0 [] = 0" "hd0 (x # xs) = x" "hd0 (xs @ ys) = (if xs = [] then hd0 ys else hd0 xs)"
  by (cases xs; simp add: hd0_def)+

lemma last0_simps [simp]: "last0 [] = 0" "last0 [x] = x" "last0 (xs @ ys) = (if ys = [] then last0 xs else last0 ys)"
  "last0 (x # y # ys) = last0 (y # ys)"
  by (simp_all add: last0_def)

lemma inorder_Nil [simp]: "inorder t = [] \<longleftrightarrow> t = Nl"
  by (cases t) auto

fun edge :: "side \<Rightarrow> ptr list \<Rightarrow> ptr" where
  "edge Lft xs = hd0 xs"
| "edge Rgt xs = last0 xs"

lemma down_run:
  assumes "tree_at (nodes st) q t" "t \<noteq> Nl"
  shows "down d (addr t) st = Some (edge d (inorder t))"
  using assms
proof (induction t arbitrary: q)
  case (Nd c l a r)
  have 0: "addr l = 0 \<longleftrightarrow> l = Nl" "addr r = 0 \<longleftrightarrow> r = Nl" using Nd.prems by (cases l; cases r; simp add: ptr_ok_simps)+
  show ?case
  proof (cases d)
    case Lft
    then show ?thesis using Nd 0 by (subst down.simps) (auto simp: run)
  next
    case Rgt
    then show ?thesis using Nd 0 by (subst down.simps) (auto simp: run last0_def)
  qed
qed simp

fun turn :: "side \<Rightarrow> frame list \<Rightarrow> ptr" where
  "turn d [] = 0"
| "turn d ((e, c, a, s) # k) = (if e = d then turn d k else a)"

lemma climb_run:
  assumes "ptr_ok p" "p \<notin> path_addrs k" "nodes st p = Some n" "parent_color n = up k OR bw c" "path_at (nodes st) k p" "path_distinct k"
  shows "climb d p st = Some (turn d k)"
  using assms
proof (induction k arbitrary: p n c)
  case Nil
  have "pc_parent (bw c) = 0" using pc_simps(1) [of 0 c] by simp
  then show ?case using Nil by (subst climb.simps) (simp add: run rb_parent_def)
next
  case (Cons f k)
  obtain e c' a s where f: "f = (e, c', a, s)" by (cases f)
  have a: "ptr_ok a" "nodes st a = Some (nd e (up k OR bw c') p (addr s))" using Cons.prems by (auto simp: f)
  have parent: "load rb_parent p st = Some a" "a \<noteq> 0"
    using Cons.prems(1,3,4) a(1) by (simp_all add: run rb_parent_def f pc_simps ptr_ok_simps)
  show ?case
  proof (cases "e = d")
    case True
    then have "climb d p st = climb d a st" using parent a by (subst climb.simps) (simp add: run)
    moreover have "climb d a st = Some (turn d k)" by (rule Cons.IH) (use Cons.prems a in \<open>auto simp: f\<close>)
    ultimately show ?thesis using True by (simp add: f)
  next
    case False
    then have "kid d (nd e (up k OR bw c') p (addr s)) = addr s" by (cases d; cases e) auto
    moreover have "p \<noteq> addr s" using Cons.prems(1,2) addr_in [of s] by (cases s) (auto simp: f ptr_ok_simps)
    ultimately show ?thesis using False parent a by (subst climb.simps) (simp add: run f)
  qed
qed

lemma turn_after: "turn Rgt k = hd0 (after k)"
  by (induction k rule: after.induct) (auto split: side.splits)

lemma turn_before: "turn Lft k = last0 (before k)"
  by (induction k rule: before.induct) (auto split: side.splits)

lemma not_empty_node:
  assumes "ptr_ok x" "nodes st x = Some n" "parent_color n = q OR bw c" "q AND 3 = 0" "q \<noteq> x"
  shows "RB_EMPTY_NODE x st = Some False"
proof -
  have "q OR bw c \<noteq> x" using pc_simps(1) [OF assms(4), of c] pc_simps(4) [OF ptr_ok_simps(2) [OF assms(1)]] assms(5) by metis
  then show ?thesis using assms by (simp add: RB_EMPTY_NODE_def run)
qed

lemma mem_node:
  assumes "mem st (plug k (Nd c l x r))"
  shows "ptr_ok x" "nodes st x = Some (nd Lft (up k OR bw c) (addr l) (addr r))" "up k AND 3 = 0" "up k \<noteq> x"
    "addr l = 0 \<longleftrightarrow> l = Nl" "addr r = 0 \<longleftrightarrow> r = Nl" "path_at (nodes st) k x" "path_distinct k" "x \<notin> path_addrs k"
    "tree_at (nodes st) x l" "tree_at (nodes st) x r"
proof -
  note H = assms [unfolded mem_plug, simplified]
  show "ptr_ok x" "nodes st x = Some (nd Lft (up k OR bw c) (addr l) (addr r))" "path_at (nodes st) k x" "path_distinct k"
    "x \<notin> path_addrs k" "tree_at (nodes st) x l" "tree_at (nodes st) x r" using H by auto
  show "up k AND 3 = 0" using up_ok [of "nodes st" k x] H by (auto simp: ptr_ok_def)
  show "up k \<noteq> x" using up_in [of k] H by (auto simp: ptr_ok_def)
  show "addr l = 0 \<longleftrightarrow> l = Nl" "addr r = 0 \<longleftrightarrow> r = Nl" using H by (cases l; cases r; simp add: ptr_ok_simps)+
qed

lemma walk_run:
  assumes "mem st (plug k (Nd c l x r))"
  shows "walk Rgt x st = Some (hd0 (inorder r @ after k))" "walk Lft x st = Some (last0 (before k @ inorder l))"
proof -
  note M = mem_node [OF assms]
  have empty: "RB_EMPTY_NODE x st = Some False" by (rule not_empty_node [OF M(1,2)]) (use M in simp_all)
  have climb: "climb d x st = Some (turn d k)" for d by (rule climb_run [OF M(1,9,2)]) (use M in simp_all)
  show "walk Rgt x st = Some (hd0 (inorder r @ after k))" "walk Lft x st = Some (last0 (before k @ inorder l))"
    using M empty climb down_run [OF M(11), of Lft] down_run [OF M(10), of Rgt]
    by (auto simp: walk_def run turn_after turn_before)
qed

lemma split_node:
  assumes "mem st t" "inorder t = xs @ x # ys"
  obtains k c l r where "t = plug k (Nd c l x r)" "xs = before k @ inorder l" "ys = inorder r @ after k"
proof -
  have "x \<in> addrs t" using assms(2) by simp
  then obtain k c l r where t: "t = plug k (Nd c l x r)" using node_split by blast
  have eq: "(before k @ inorder l) @ x # (inorder r @ after k) = xs @ x # ys" using assms(2) by (simp add: t inorder_plug)
  have "distinct (xs @ x # ys)" using assms by (simp add: mem_def)
  then have "x \<notin> set xs" "x \<notin> set ys" by auto
  with eq have "before k @ inorder l = xs \<and> inorder r @ after k = ys"
    by (metis append_Cons_eq_iff)
  then show ?thesis using that t by blast
qed

text \<open>The next and the previous node in the order of the tree.\<close>

lemma rb_next_run: "mem st t \<Longrightarrow> inorder t = xs @ x # ys \<Longrightarrow> rb_next x st = Some (hd0 ys)"
  using walk_run(1) split_node unfolding rb_next_def by metis

lemma rb_prev_run: "mem st t \<Longrightarrow> inorder t = xs @ x # ys \<Longrightarrow> rb_prev x st = Some (last0 xs)"
  using walk_run(2) split_node unfolding rb_prev_def by metis

lemma rb_first_run: "mem st t \<Longrightarrow> rb_first st = Some (hd0 (inorder t))"
  using down_run [of st 0 t Lft] by (cases t) (auto simp: rb_first_def mem_def ptr_ok_simps Let_def)

lemma rb_last_run: "mem st t \<Longrightarrow> rb_last st = Some (last0 (inorder t))"
  using down_run [of st 0 t Rgt] by (cases t) (auto simp: rb_last_def mem_def ptr_ok_simps Let_def)


subsection \<open>Postorder\<close>

primrec postorder :: "shape \<Rightarrow> ptr list" where
  "postorder Nl = []"
| "postorder (Nd c l a r) = postorder l @ postorder r @ [a]"

fun post_after :: "frame list \<Rightarrow> ptr list" where
  "post_after [] = []"
| "post_after ((d, c, a, s) # k) = (case d of Lft \<Rightarrow> postorder s | Rgt \<Rightarrow> []) @ a # post_after k"

lemma postorder_Nil [simp]: "postorder t = [] \<longleftrightarrow> t = Nl"
  by (cases t) auto

lemma postorder_nodes: "mset (postorder t) = mset (inorder t)"
  by (induction t) (auto simp: ac_simps)

lemma left_deepest_run:
  assumes "tree_at (nodes st) q t" "t \<noteq> Nl"
  shows "rb_left_deepest_node (addr t) st = Some (hd0 (postorder t))"
  using assms
proof (induction t arbitrary: q)
  case (Nd c l a r)
  have 0: "addr l = 0 \<longleftrightarrow> l = Nl" "addr r = 0 \<longleftrightarrow> r = Nl" using Nd.prems by (cases l; cases r; simp add: ptr_ok_simps)+
  then show ?case using Nd by (subst rb_left_deepest_node.simps) (auto simp: run)
qed simp

lemma next_postorder_run:
  assumes "mem st (plug k (Nd c l x r))"
  shows "rb_next_postorder x st = Some (hd0 (post_after k))"
proof -
  note M = mem_node [OF assms]
  have parent: "load rb_parent x st = Some (up k)" using M by (simp add: run rb_parent_def pc_simps)
  show ?thesis
  proof (cases k)
    case Nil
    then show ?thesis using parent M(1) by (simp add: rb_next_postorder_def ptr_ok_simps)
  next
    case (Cons f k')
    obtain d c' a s where f: "f = (d, c', a, s)" by (cases f)
    have a: "ptr_ok a" "nodes st a = Some (nd d (up k' OR bw c') x (addr s))" "tree_at (nodes st) a s" using M(7) by (auto simp: Cons f)
    have s: "addr s = 0 \<longleftrightarrow> s = Nl" using a(3) by (cases s) (auto simp: ptr_ok_simps)
    have "x \<noteq> addr s" using M(1,9) addr_in [of s] by (cases s) (auto simp: Cons f ptr_ok_simps)
    then show ?thesis using parent M(1) a s left_deepest_run [OF a(3)]
      by (cases d) (auto simp: rb_next_postorder_def run Cons f ptr_ok_simps)
  qed
qed

lemma postorder_from_run:
  assumes "mem st (plug k t)" "t \<noteq> Nl" "postorder_from (hd0 (post_after k)) st = Some (post_after k)"
  shows "postorder_from (hd0 (postorder t)) st = Some (postorder t @ post_after k)"
  using assms
proof (induction t arbitrary: k)
  case (Nd c l a r)
  let ?kr = "(Rgt, c, a, l) # k" and ?kl = "(Lft, c, a, r) # k"
  have a: "postorder_from a st = Some (a # post_after k)"
    using Nd.prems(3) next_postorder_run [OF Nd.prems(1)] mem_node(1) [OF Nd.prems(1)]
    by (subst postorder_from.simps) (simp add: ptr_ok_simps)
  have r: "postorder_from (hd0 (postorder r @ [a])) st = Some (postorder r @ a # post_after k)"
  proof (cases "r = Nl")
    case False
    have "postorder_from (hd0 (postorder r)) st = Some (postorder r @ post_after ?kr)"
      by (rule Nd.IH(2)) (use Nd.prems(1) False a in simp_all)
    then show ?thesis using False by simp
  qed (simp add: a)
  show ?case
  proof (cases "l = Nl")
    case True
    then show ?thesis using r by simp
  next
    case False
    have "postorder_from (hd0 (postorder l)) st = Some (postorder l @ post_after ?kl)"
      by (rule Nd.IH(1)) (use Nd.prems(1) False r in \<open>auto split: if_splits\<close>)
    then show ?thesis using False by simp
  qed
qed simp

lemma postorder_run:
  assumes "mem st t"
  shows "rbtree_postorder_for_each_entry_safe st = Some (postorder t)"
proof -
  have end_: "postorder_from 0 st = Some []" by (subst postorder_from.simps) simp
  have t: "tree_at (nodes st) 0 t" "root_node st = addr t" using assms by (auto simp: mem_def)
  show ?thesis
  proof (cases t)
    case Nl
    then show ?thesis using t end_ by (simp add: rbtree_postorder_for_each_entry_safe_def rb_first_postorder_def)
  next
    case (Nd c l a r)
    then have "root_node st \<noteq> 0" "t \<noteq> Nl" using t by (auto simp: ptr_ok_simps)
    then show ?thesis using left_deepest_run [OF t(1)] t(2) postorder_from_run [of st "[]" t] assms end_
      by (simp add: rbtree_postorder_for_each_entry_safe_def rb_first_postorder_def)
  qed
qed

text \<open>In postorder the parent of a node comes after it.\<close>

lemma postorder_plug: "\<exists>us. \<forall>t. postorder (plug k t) = us @ postorder t @ post_after k"
proof (induction k)
  case Nil
  show ?case by simp
next
  case (Cons f k)
  obtain d c a s where f: "f = (d, c, a, s)" by (cases f)
  obtain us where "\<And>t. postorder (plug k t) = us @ postorder t @ post_after k" using Cons by blast
  then have "postorder (plug (f # k) t) = (us @ (case d of Lft \<Rightarrow> [] | Rgt \<Rightarrow> postorder s)) @ postorder t @ post_after (f # k)" for t
    by (cases d) (simp_all add: f)
  then show ?case by blast
qed

lemma parent_after:
  assumes "mem st t" "postorder t = us @ p # vs"
  shows "\<exists>q. load rb_parent p st = Some q \<and> (q \<noteq> 0 \<longrightarrow> q \<in> set vs)"
proof -
  have "set (postorder t) = addrs t" using postorder_nodes mset_eq_setD by blast
  then have "p \<in> addrs t" using assms(2) by (metis in_set_conv_decomp)
  then obtain k c l r where t: "t = plug k (Nd c l p r)" using node_split by blast
  have M: "mem st (plug k (Nd c l p r))" using assms(1) t by simp
  note p = mem_node [OF M]
  obtain ws where "\<And>t. postorder (plug k t) = ws @ postorder t @ post_after k" using postorder_plug by blast
  then have eq: "us @ p # vs = (ws @ postorder l @ postorder r) @ p # post_after k" using assms(2) by (simp add: t)
  have "distinct (postorder t)" using assms(1) mset_eq_imp_distinct_iff [OF postorder_nodes] by (auto simp: mem_def)
  then have "p \<notin> set us" "p \<notin> set vs" using assms(2) by auto
  then have "vs = post_after k" using eq by (metis append_Cons_eq_iff)
  moreover have "up k \<noteq> 0 \<Longrightarrow> up k \<in> set (post_after k)" by (cases k) auto
  moreover have "load rb_parent p st = Some (up k)" using p by (simp add: run rb_parent_def pc_simps)
  ultimately show ?thesis by blast
qed

subsection \<open>Going down\<close>

text \<open>A node is looked for with the sign of a comparison, which falls along the order of the tree.\<close>

definition falling :: "(ptr \<Rightarrow> int) \<Rightarrow> ptr list \<Rightarrow> bool" where
  "falling f xs \<longleftrightarrow> sorted_wrt (\<lambda>a b. sgn (f b) \<le> sgn (f a)) xs"

lemma falling_node:
  "falling f (inorder (Nd c l a r)) \<longleftrightarrow> falling f (inorder l) \<and> falling f (inorder r) \<and>
     (\<forall>b \<in> addrs l. sgn (f a) \<le> sgn (f b)) \<and> (\<forall>b \<in> addrs r. sgn (f b) \<le> sgn (f a)) \<and>
     (\<forall>b \<in> addrs l. \<forall>d \<in> addrs r. sgn (f d) \<le> sgn (f b))"
  by (auto simp: falling_def sorted_wrt_append)

lemma find_loop_run:
  assumes "tree_at (nodes st) q t" "falling f (inorder t)"
  shows "\<exists>p. find_loop f (addr t) st = Some p \<and> (p \<in> addrs t \<and> f p = 0 \<or> p = 0 \<and> (\<forall>x \<in> addrs t. f x \<noteq> 0))"
  using assms
proof (induction t arbitrary: q)
  case Nl
  then show ?case by (subst find_loop.simps) simp
next
  case (Nd c l a r)
  note fall = Nd.prems(2) [unfolded falling_node]
  have a: "ptr_ok a" "nodes st a = Some (nd Lft (q OR bw c) (addr l) (addr r))" using Nd.prems by auto
  consider "f a < 0" | "f a > 0" | "f a = 0" by linarith
  then show ?case
  proof cases
    case 1
    have "f b \<noteq> 0" if "b \<in> addrs r" for b using fall 1 that by (force simp: sgn_if split: if_splits)
    moreover have "find_loop f a st = find_loop f (addr l) st" using a 1 by (subst find_loop.simps) (simp add: run ptr_ok_simps)
    ultimately show ?thesis using Nd.IH(1) [of a] Nd.prems(1) fall 1 by auto
  next
    case 2
    have "f b \<noteq> 0" if "b \<in> addrs l" for b using fall 2 that by (force simp: sgn_if split: if_splits)
    moreover have "find_loop f a st = find_loop f (addr r) st" using a 2 by (subst find_loop.simps) (simp add: run ptr_ok_simps)
    ultimately show ?thesis using Nd.IH(2) [of a] Nd.prems(1) fall 2 by auto
  next
    case 3
    then show ?thesis using a by (subst find_loop.simps) (simp add: ptr_ok_simps)
  qed
qed

lemma find_first_run:
  assumes "tree_at (nodes st) q t" "falling f (inorder t)"
  shows "find_first_loop f (addr t) m st = Some (if \<forall>x \<in> addrs t. f x \<noteq> 0 then m else hd0 (filter (\<lambda>x. f x = 0) (inorder t)))"
  using assms
proof (induction t arbitrary: q m)
  case Nl
  then show ?case by (subst find_first_loop.simps) simp
next
  case (Nd c l a r)
  note fall = Nd.prems(2) [unfolded falling_node]
  have a: "ptr_ok a" "nodes st a = Some (nd Lft (q OR bw c) (addr l) (addr r))" using Nd.prems by auto
  consider "f a < 0" | "f a > 0" | "f a = 0" by linarith
  then show ?case
  proof cases
    case 1
    have "f b \<noteq> 0" if "b \<in> addrs r" for b using fall 1 that by (force simp: sgn_if split: if_splits)
    moreover have "find_first_loop f a m st = find_first_loop f (addr l) m st"
      using a 1 by (subst find_first_loop.simps) (simp add: run ptr_ok_simps)
    ultimately show ?thesis using Nd.IH(1) [of a m] Nd.prems(1) fall 1 by (auto simp: filter_empty_conv)
  next
    case 2
    have "f b \<noteq> 0" if "b \<in> addrs l" for b using fall 2 that by (force simp: sgn_if split: if_splits)
    moreover from this have "filter (\<lambda>x. f x = 0) (inorder l) = []" by (simp add: filter_empty_conv)
    moreover have "find_first_loop f a m st = find_first_loop f (addr r) m st"
      using a 2 by (subst find_first_loop.simps) (simp add: run ptr_ok_simps)
    ultimately show ?thesis using Nd.IH(2) [of a m] Nd.prems(1) fall 2 by auto
  next
    case 3
    have "find_first_loop f a m st = find_first_loop f (addr l) a st"
      using a 3 by (subst find_first_loop.simps) (simp add: run ptr_ok_simps)
    then show ?thesis using Nd.IH(1) [of a a] Nd.prems(1) fall 3 by (auto simp: filter_empty_conv)
  qed
qed


lemma matches_run:
  assumes "mem st t" "inorder t = xs @ x # ys"
  shows "matches_from key cmp x st = Some (x # takeWhile (\<lambda>y. cmp key y = 0) ys)"
  using assms(2)
proof (induction ys arbitrary: xs x)
  case Nil
  have x: "x \<noteq> 0" using assms(1) Nil tree_at_ok [of "nodes st" 0 t x] by (auto simp: mem_def ptr_ok_simps)
  have "matches_from key cmp 0 st = Some []" by (subst matches_from.simps) simp
  then show ?case using rb_next_run [OF assms(1) Nil] x by (subst matches_from.simps) (simp add: rb_next_match_def)
next
  case (Cons y ys)
  have x: "x \<noteq> 0" "y \<noteq> 0"
    using assms(1) Cons.prems tree_at_ok [of "nodes st" 0 t] by (auto simp: mem_def ptr_ok_simps)
  have 0: "matches_from key cmp 0 st = Some []" by (subst matches_from.simps) simp
  have "matches_from key cmp y st = Some (y # takeWhile (\<lambda>y. cmp key y = 0) ys)" using Cons.IH [of "xs @ [x]" y] Cons.prems by simp
  then show ?case using rb_next_run [OF assms(1) Cons.prems] x 0 by (subst matches_from.simps) (simp add: rb_next_match_def)
qed

lemma falling_matches:
  assumes "falling f ys" "\<forall>y \<in> set ys. sgn (f y) \<le> 0"
  shows "takeWhile (\<lambda>y. f y = 0) ys = filter (\<lambda>y. f y = 0) ys"
  using assms
proof (induction ys)
  case (Cons y ys)
  show ?case
  proof (cases "f y = 0")
    case True
    then show ?thesis using Cons by (simp add: falling_def)
  next
    case False
    then have "\<forall>z \<in> set ys. f z \<noteq> 0" using Cons.prems by (force simp: falling_def sgn_if split: if_splits)
    then show ?thesis using False by (simp add: filter_empty_conv)
  qed
qed simp

lemma rb_for_each_run:
  assumes "mem st t" "falling (cmp key) (inorder t)"
  shows "rb_for_each key cmp st = Some (filter (\<lambda>y. cmp key y = 0) (inorder t))"
proof -
  have find: "rb_find_first key cmp st = Some (hd0 (filter (\<lambda>y. cmp key y = 0) (inorder t)))"
    using find_first_run [of st 0 t "cmp key" 0] assms by (auto simp: mem_def rb_find_first_def filter_empty_conv)
  show ?thesis
  proof (cases "filter (\<lambda>y. cmp key y = 0) (inorder t)")
    case Nil
    then show ?thesis using find by (subst (asm) Nil, simp add: rb_for_each_def, subst matches_from.simps, simp)
  next
    case (Cons x zs)
    then obtain xs ys where x: "inorder t = xs @ x # ys" "\<forall>y \<in> set xs. cmp key y \<noteq> 0" "cmp key x = 0" "zs = filter (\<lambda>y. cmp key y = 0) ys"
      unfolding filter_eq_Cons_iff by blast
    have "falling (cmp key) ys" "\<forall>y \<in> set ys. sgn (cmp key y) \<le> 0"
      using assms(2) x(3) by (auto simp: x(1) falling_def sorted_wrt_append)
    then have "takeWhile (\<lambda>y. cmp key y = 0) ys = zs" using falling_matches x(4) by blast
    then show ?thesis using find matches_run [OF assms(1) x(1), of key cmp] by (simp add: rb_for_each_def Cons)
  qed
qed

text \<open>The place for a new node: left where the test holds.\<close>

fun place :: "(ptr \<Rightarrow> bool) \<Rightarrow> frame list \<Rightarrow> shape \<Rightarrow> frame list" where
  "place f k Nl = k"
| "place f k (Nd c l a r) = (if f a then place f ((Lft, c, a, r) # k) l else place f ((Rgt, c, a, l) # k) r)"

lemma plug_place: "plug (place f k t) Nl = plug k t"
  by (induction f k t rule: place.induct) auto

lemma takeWhile_cut: "\<not> P a \<Longrightarrow> takeWhile P (xs @ a # ys) = takeWhile P xs" "\<not> P a \<Longrightarrow> dropWhile P (xs @ a # ys) = dropWhile P xs @ a # ys"
  by (induction xs) auto

lemma place_sides:
  assumes "sorted_wrt (\<lambda>a b. f a \<longrightarrow> f b) (inorder t)"
  shows "before (place f k t) = before k @ takeWhile (\<lambda>a. \<not> f a) (inorder t)"
    and "after (place f k t) = dropWhile (\<lambda>a. \<not> f a) (inorder t) @ after k"
proof -
  have "before (place f k t) = before k @ takeWhile (\<lambda>a. \<not> f a) (inorder t) \<and>
    after (place f k t) = dropWhile (\<lambda>a. \<not> f a) (inorder t) @ after k"
    using assms
  proof (induction f k t rule: place.induct)
    case (2 f k c l a r)
    show ?case
    proof (cases "f a")
      case True
      have "takeWhile (\<lambda>a. \<not> f a) (inorder l @ a # inorder r) = takeWhile (\<lambda>a. \<not> f a) (inorder l)"
        "dropWhile (\<lambda>a. \<not> f a) (inorder l @ a # inorder r) = dropWhile (\<lambda>a. \<not> f a) (inorder l) @ a # inorder r"
        using True takeWhile_cut [of "\<lambda>a. \<not> f a" a] by simp_all
      then show ?thesis using 2 True by (simp add: sorted_wrt_append)
    next
      case False
      then have "\<forall>b \<in> addrs l. \<not> f b" using "2.prems" by (auto simp: sorted_wrt_append)
      then show ?thesis using 2 False by (simp add: sorted_wrt_append)
    qed
  qed simp
  then show "before (place f k t) = before k @ takeWhile (\<lambda>a. \<not> f a) (inorder t)"
    "after (place f k t) = dropWhile (\<lambda>a. \<not> f a) (inorder t) @ after k" by auto
qed

fun link_of :: "frame list \<Rightarrow> link" where
  "link_of [] = Root_link"
| "link_of ((d, c, a, s) # k) = Kid_link d a"

lemma read_link_run: "mem st (plug k t) \<Longrightarrow> read_link (link_of k) st = Some (addr t)"
  by (cases k rule: link_of.cases) (auto simp: mem_def tree_at_plug run)

lemma add_loop_run:
  assumes "mem st (plug k t)" "lm \<longleftrightarrow> before k = []"
  shows "add_loop lt x (link_of k) (up k) lm st = Some (link_of (place (lt x) k t), up (place (lt x) k t), before (place (lt x) k t) = [])"
  using assms
proof (induction t arbitrary: k lm)
  case Nl
  then show ?case by (subst add_loop.simps) (simp add: read_link_run)
next
  case (Nd c l a r)
  have a: "read_link (link_of k) st = Some a" "a \<noteq> 0"
    using read_link_run [OF Nd.prems(1)] mem_node(1) [OF Nd.prems(1)] by (auto simp: ptr_ok_simps)
  show ?case
  proof (cases "lt x a")
    case True
    then have "add_loop lt x (link_of k) (up k) lm st = add_loop lt x (link_of ((Lft, c, a, r) # k)) (up ((Lft, c, a, r) # k)) lm st"
      using a by (subst add_loop.simps) simp
    then show ?thesis using Nd.IH(1) [of "(Lft, c, a, r) # k" lm] Nd.prems True by simp
  next
    case False
    then have "add_loop lt x (link_of k) (up k) lm st = add_loop lt x (link_of ((Rgt, c, a, l) # k)) (up ((Rgt, c, a, l) # k)) False st"
      using a by (subst add_loop.simps) simp
    then show ?thesis using Nd.IH(2) [of "(Rgt, c, a, l) # k" False] Nd.prems False by simp
  qed
qed

lemma rb_link_node_run:
  assumes M: "mem st (plug k Nl)" and x: "ptr_ok x" "nodes st x \<noteq> None" "x \<notin> path_addrs k"
  shows "\<exists>st'. rb_link_node x (up k) (link_of k) st = Some st' \<and> mem st' (plug k (Nd Red Nl x Nl)) \<and> user st' = user st \<and>
    (\<forall>a. a \<notin> insert x (path_addrs k) \<longrightarrow> nodes st' a = nodes st a)"
proof -
  let ?n = "nd Lft (up k OR bw Red) 0 0"
  let ?h = "(nodes st)(x \<mapsto> ?n)"
  note H = M [unfolded mem_plug, simplified]
  have red: "up k OR bw Red = up k" by (simp add: bw_def RB_RED_def)
  obtain n where n: "nodes st x = Some n" using x(2) by blast
  have start: "rb_link_node x (up k) (link_of k) st = write_link (link_of k) x (st\<lparr>nodes := ?h\<rparr>)"
    using x(1) n red by (cases n) (simp add: rb_link_node_def run)
  show ?thesis
  proof (cases k)
    case Nil
    then show ?thesis using start x(1) by (intro exI [of _ "st\<lparr>nodes := ?h, root_node := x\<rparr>"]) (simp add: mem_def)
  next
    case (Cons f k')
    obtain d c a s where f: "f = (d, c, a, s)" by (cases f)
    let ?h' = "?h(a \<mapsto> nd d (up k' OR bw c) x (addr s))"
    have a: "ptr_ok a" "nodes st a = Some (nd d (up k' OR bw c) 0 (addr s))" "tree_at (nodes st) a s" "path_at (nodes st) k' a"
      "root_node st = root_of k' a" "path_distinct k'" "distinct (inorder s)" "a \<notin> addrs s" "a \<notin> path_addrs k'" "addrs s \<inter> path_addrs k' = {}"
      "x \<noteq> a" "x \<notin> addrs s" "x \<notin> path_addrs k'"
      using H x(3) by (auto simp: Cons f)
    then have "rb_link_node x (up k) (link_of k) st = Some (st\<lparr>nodes := ?h'\<rparr>)" using start by (simp add: Cons f run)
    moreover have "mem (st\<lparr>nodes := ?h'\<rparr>) (plug k (Nd Red Nl x Nl))" using a x(1) by (simp add: mem_plug Cons f)
    ultimately show ?thesis by (intro exI [of _ "st\<lparr>nodes := ?h'\<rparr>"]) (simp add: Cons f)
  qed
qed

end
