(* ===== verification/Rbtree_Correct.thy ===== *)
theory Rbtree_Correct
  imports Rbtree_Walk
begin

text \<open>
  What the functions on red-black trees promise, over the sequence of the nodes of a tree.
\<close>

subsection \<open>A new leaf\<close>

context augmentation
begin

lemma insert_leaf_run:
  assumes "holds val agg st (plug k (Nd Red Nl x Nl))" "rb_shape (plug k Nl)"
  shows "\<exists>st' t'. rb_insert_augmented x rot st = Some st' \<and> holds val agg st' t' \<and> inorder t' = inorder (plug k (Nd Red Nl x Nl)) \<and> rb_shape t' \<and>
    (\<forall>a. a \<notin> addrs (plug k (Nd Red Nl x Nl)) \<longrightarrow> nodes st' a = nodes st a)"
proof -
  have "mem st (plug k (Nd Red Nl x Nl))" using assms(1) by (simp add: holds_def)
  note M = mem_node [OF this]
  have "up k OR bw Red = up k" by (simp add: bw_def RB_RED_def)
  then have "rb_insert_augmented x rot st = rb_insert rot x (up k) st" using M(1,2) by (simp add: rb_insert_augmented_def run rb_red_parent_def)
  then show ?thesis using rb_insert_run [of st k "Nd Red Nl x Nl" 0] assms by (simp add: rb_shape_plug)
qed

end

subsection \<open>Trees without augmented data\<close>

lemma fits_unit [simp]: "fits v agg t" for v :: "ptr \<Rightarrow> unit"
  by (induction t) auto

lemma path_fits_unit [simp]: "path_fits v agg k xs" for v :: "ptr \<Rightarrow> unit"
proof (induction k arbitrary: xs)
  case (Cons f k)
  then show ?case by (cases f) simp
qed simp

interpretation plain: augmented_tree "rotate dummy_callbacks" "\<lambda>_ _. ()" "\<lambda>_. ()" "copy dummy_callbacks" "propagate dummy_callbacks"
  by unfold_locales (auto simp: dummy_callbacks_def)

lemma plain_augment: "plain.augment = dummy_callbacks"
  by (simp add: dummy_callbacks_def)

lemma plain_holds [simp]: "holds (\<lambda>_ _. ()) (\<lambda>_. ()) st t \<longleftrightarrow> mem st t"
  by (simp add: holds_def)

text \<open>Memory holds a red-black tree with these nodes in this order.\<close>

definition rbtree_of :: "'a rbmem \<Rightarrow> ptr list \<Rightarrow> bool" where
  "rbtree_of st xs \<longleftrightarrow> (\<exists>t. mem st t \<and> rb_shape t \<and> inorder t = xs)"

lemma rbtree_of_distinct: "rbtree_of st xs \<Longrightarrow> distinct xs"
  by (auto simp: rbtree_of_def mem_def)

lemma rbtree_of_ok: "rbtree_of st xs \<Longrightarrow> x \<in> set xs \<Longrightarrow> ptr_ok x"
  using tree_at_ok by (fastforce simp: rbtree_of_def mem_def)

lemma rb_erase_run:
  assumes "rbtree_of st xs" "x \<in> set xs"
  shows "\<exists>st'. rb_erase x st = Some st' \<and> rbtree_of st' (remove1 x xs) \<and> nodes st' x \<noteq> None \<and>
    (\<forall>a. a \<notin> set xs \<longrightarrow> nodes st' a = nodes st a)"
proof -
  obtain t where t: "mem st t" "rb_shape t" "inorder t = xs" using assms(1) by (auto simp: rbtree_of_def)
  then show ?thesis using plain.rb_erase_augmented_run [of st t x] assms(2)
    unfolding plain_augment rb_erase_def plain_holds rbtree_of_def by auto
qed

text \<open>The order of a tree: no node comes before one that is less.\<close>

definition in_order :: "(ptr \<Rightarrow> ptr \<Rightarrow> bool) \<Rightarrow> ptr list \<Rightarrow> bool" where
  "in_order lt xs \<longleftrightarrow> sorted_wrt (\<lambda>a b. \<not> lt b a) xs"

definition strict_weak :: "(ptr \<Rightarrow> ptr \<Rightarrow> bool) \<Rightarrow> bool" where
  "strict_weak lt \<longleftrightarrow> (\<forall>a b. lt a b \<longrightarrow> \<not> lt b a) \<and> (\<forall>a b c. lt a b \<longrightarrow> lt a c \<or> lt c b)"

definition insert_after :: "(ptr \<Rightarrow> bool) \<Rightarrow> ptr \<Rightarrow> ptr list \<Rightarrow> ptr list" where
  "insert_after f x xs = takeWhile (\<lambda>a. \<not> f a) xs @ x # dropWhile (\<lambda>a. \<not> f a) xs"

lemma rising: "strict_weak lt \<Longrightarrow> in_order lt xs \<Longrightarrow> sorted_wrt (\<lambda>a b. lt x a \<longrightarrow> lt x b) xs"
  unfolding in_order_def by (erule sorted_wrt_mono_rel [rotated]) (unfold strict_weak_def, blast)

lemma place_inorder:
  assumes "sorted_wrt (\<lambda>a b. f a \<longrightarrow> f b) (inorder t)"
  shows "inorder (plug (place f [] t) (Nd c Nl x Nl)) = insert_after f x (inorder t)"
  using place_sides [OF assms, of "[]"] by (simp add: inorder_plug insert_after_def)

lemma set_insert_after [simp]: "set (insert_after f x xs) = insert x (set xs)"
  unfolding insert_after_def by (metis Un_insert_right list.simps(15) set_append takeWhile_dropWhile_id)

lemma insert_after_order:
  assumes "strict_weak lt" "in_order lt xs"
  shows "in_order lt (insert_after (lt x) x xs)"
proof -
  let ?as = "takeWhile (\<lambda>a. \<not> lt x a) xs" and ?bs = "dropWhile (\<lambda>a. \<not> lt x a) xs"
  have xs: "in_order lt (?as @ ?bs)" using assms(2) by simp
  have bs: "\<forall>b \<in> set ?bs. lt x b"
  proof (cases ?bs)
    case Nil
    then show ?thesis by (simp only: Nil) simp
  next
    case (Cons y ys)
    then have "lt x y" by (metis hd_dropWhile list.discI list.sel(1))
    moreover have "sorted_wrt (\<lambda>a b. lt x a \<longrightarrow> lt x b) ?bs" using rising [OF assms, of x] by (metis sorted_wrt_append takeWhile_dropWhile_id)
    ultimately show ?thesis by (auto simp: Cons)
  qed
  have "\<forall>b \<in> set ?bs. \<not> lt b x" using bs assms(1) unfolding strict_weak_def by blast
  moreover have "\<forall>a \<in> set ?as. \<not> lt x a" using set_takeWhileD by fastforce
  ultimately show ?thesis using xs unfolding in_order_def insert_after_def sorted_wrt_append sorted_wrt.simps list.set by blast
qed

lemma link_insert_run:
  assumes t: "mem st t" "rb_shape t" and f: "sorted_wrt (\<lambda>a b. f a \<longrightarrow> f b) (inorder t)"
    and x: "ptr_ok x" "nodes st x \<noteq> None" "x \<notin> addrs t"
  shows "\<exists>st1 st'. rb_link_node x (up (place f [] t)) (link_of (place f [] t)) st = Some st1 \<and> rb_insert_color x st1 = Some st' \<and>
    rbtree_of st' (insert_after f x (inorder t)) \<and> (\<forall>a. a \<notin> insert x (addrs t) \<longrightarrow> nodes st' a = nodes st a)"
proof -
  let ?k = "place f [] t"
  have k: "plug ?k Nl = t" by (simp add: plug_place)
  then have addrs: "addrs t = path_addrs ?k" using addrs_plug [of ?k Nl] by simp
  obtain st1 where st1: "rb_link_node x (up ?k) (link_of ?k) st = Some st1" "mem st1 (plug ?k (Nd Red Nl x Nl))"
    "\<forall>a. a \<notin> insert x (addrs t) \<longrightarrow> nodes st1 a = nodes st a"
    using rb_link_node_run [of st ?k x] t x k addrs by auto
  obtain st' t' where st': "rb_insert_color x st1 = Some st'" "mem st' t'" "inorder t' = inorder (plug ?k (Nd Red Nl x Nl))" "rb_shape t'"
    "\<forall>a. a \<notin> insert x (addrs t) \<longrightarrow> nodes st' a = nodes st1 a"
    using plain.insert_leaf_run [of st1 ?k x] st1(2) t(2) k addrs by (auto simp: rb_insert_color_def)
  then have "rbtree_of st' (insert_after f x (inorder t))" using place_inorder [OF f] by (auto simp: rbtree_of_def)
  then show ?thesis using st1 st' by (intro exI [of _ st1] exI [of _ st']) simp
qed

lemma rb_add_run:
  assumes "rbtree_of st xs" "strict_weak lt" "in_order lt xs" and x: "ptr_ok x" "nodes st x \<noteq> None" "x \<notin> set xs"
  shows "\<exists>st'. rb_add x lt st = Some st' \<and> rbtree_of st' (insert_after (lt x) x xs) \<and>
    (\<forall>a. a \<notin> insert x (set xs) \<longrightarrow> nodes st' a = nodes st a)"
proof -
  obtain t where t: "mem st t" "rb_shape t" "inorder t = xs" using assms(1) by (auto simp: rbtree_of_def)
  have "sorted_wrt (\<lambda>a b. lt x a \<longrightarrow> lt x b) (inorder t)" using rising [OF assms(2,3)] t(3) by simp
  from link_insert_run [OF t(1,2) this x(1,2)] x(3) t(3) show ?thesis
    using add_loop_run [of st "[]" t True lt x] t(1) by (auto simp: rb_add_def)
qed


text \<open>Replacing a node by one that is not in the tree.\<close>

lemma rb_replace_run:
  assumes "rbtree_of st (xs @ v # ys)" and x: "ptr_ok x" "nodes st x \<noteq> None" "x \<notin> set (xs @ v # ys)"
  shows "\<exists>st'. rb_replace_node v x st = Some st' \<and> rbtree_of st' (xs @ x # ys) \<and>
    (\<forall>a. a \<notin> insert x (set (xs @ v # ys)) \<longrightarrow> nodes st' a = nodes st a)"
proof -
  obtain t where t: "mem st t" "rb_shape t" "inorder t = xs @ v # ys" using assms(1) by (auto simp: rbtree_of_def)
  obtain k c l r where split: "t = plug k (Nd c l v r)" "xs = before k @ inorder l" "ys = inorder r @ after k"
    using split_node [OF t(1,3)] .
  have M: "mem st (plug k (Nd c l v r))" using t(1) split(1) by simp
  note v = mem_node [OF M] and H = M [unfolded mem_plug, simplified]
  have "addrs t = insert v (addrs l \<union> addrs r \<union> path_addrs k)" by (auto simp: split(1))
  then have xs: "x \<noteq> v" "x \<notin> addrs l" "x \<notin> addrs r" "x \<notin> path_addrs k" using x(3) t(3) by auto
  obtain n where n: "nodes st x = Some n" using x(2) by blast
  let ?n = "nd Lft (up k OR bw c) (addr l) (addr r)"
  let ?h1 = "(nodes st)(x \<mapsto> ?n)"
  have "tree_at ?h1 v l" using v xs by simp
  then obtain h2 where h2: "(if addr l \<noteq> 0 then rb_set_parent (addr l) x (st\<lparr>nodes := ?h1\<rparr>) else Some (st\<lparr>nodes := ?h1\<rparr>)) = Some (st\<lparr>nodes := h2\<rparr>)"
      "tree_at h2 x l" "\<forall>a. a \<notin> addrs l \<longrightarrow> h2 a = ?h1 a"
    using set_parent_run [of "st\<lparr>nodes := ?h1\<rparr>" v l x] H v(1) by (auto simp: ptr_ok_simps)
  have "a \<notin> addrs l \<and> a \<noteq> x" if "a \<in> addrs r" for a using that H xs by blast
  then have "h2 a = nodes st a" if "a \<in> addrs r" for a using h2(3) that by simp
  then have "tree_at h2 v r" using v(11) tree_at_agree [of r h2 "nodes st" v] by simp
  then obtain h3 where h3: "(if addr r \<noteq> 0 then rb_set_parent (addr r) x (st\<lparr>nodes := h2\<rparr>) else Some (st\<lparr>nodes := h2\<rparr>)) = Some (st\<lparr>nodes := h3\<rparr>)"
      "tree_at h3 x r" "\<forall>a. a \<notin> addrs r \<longrightarrow> h3 a = h2 a"
    using set_parent_run [of "st\<lparr>nodes := h2\<rparr>" v r x] H v(1) by (auto simp: ptr_ok_simps)
  have "h3 a = h2 a" if "a \<in> addrs l" for a using h3(3) that H by blast
  then have l3: "tree_at h3 x l" using h2(2) tree_at_agree [of l h3 h2 x] by simp
  have "a \<notin> addrs l \<and> a \<notin> addrs r \<and> a \<noteq> x" if "a \<in> path_addrs k" for a using that H xs by blast
  then have "h3 a = nodes st a" if "a \<in> path_addrs k" for a using h2(3) h3(3) that by simp
  then have "path_at h3 k v" using v(7) path_at_agree [of k h3 "nodes st" v] by simp
  then obtain h4 where h4: "rb_change_child v x (up k) (st\<lparr>nodes := h3\<rparr>) = Some (st\<lparr>nodes := h4, root_node := root_of k x\<rparr>)"
      "path_at h4 k x" "\<forall>a. a \<notin> path_addrs k \<longrightarrow> h4 a = h3 a"
    using change_child_path [of "st\<lparr>nodes := h3\<rparr>" k v x] H by auto
  have "h4 a = h3 a" if "a \<in> addrs l \<or> a \<in> addrs r" for a using h4(3) that H by blast
  then have 4: "tree_at h4 x l" "tree_at h4 x r"
    using l3 h3(2) tree_at_agree [of l h4 h3 x] tree_at_agree [of r h4 h3 x] by simp_all
  have "h2 v = nodes st v" "h4 x = Some ?n" using h2(3) h3(3) h4(3) H xs by auto
  then have "rb_replace_node v x st = Some (st\<lparr>nodes := h4, root_node := root_of k x\<rparr>)"
    using v x(1) n xs(1) h2(1) h3(1) h4(1) by (simp add: rb_replace_node_def run rb_parent_def pc_simps cong: if_cong)
  moreover have "mem (st\<lparr>nodes := h4, root_node := root_of k x\<rparr>) (plug k (Nd c l x r))"
    using 4 h4(2) \<open>h4 x = Some ?n\<close> x(1) H xs by (simp add: mem_plug)
  moreover have "rb_shape (plug k (Nd c l x r))" using t(2) by (simp add: split(1) rb_shape_plug)
  moreover have "\<forall>a. a \<notin> insert x (addrs t) \<longrightarrow> h4 a = nodes st a" using h2(3) h3(3) h4(3) by (simp add: split(1))
  ultimately show ?thesis unfolding rbtree_of_def t(3) [symmetric]
    by (intro exI [of _ "st\<lparr>nodes := h4, root_node := root_of k x\<rparr>"]) (auto simp: split(2,3) inorder_plug)
qed

subsection \<open>Finding\<close>

lemma rb_find_run:
  assumes "rbtree_of st xs" "falling (cmp key) xs"
  shows "\<exists>p. rb_find key cmp st = Some p \<and> (p \<in> set xs \<and> cmp key p = 0 \<or> p = 0 \<and> (\<forall>x \<in> set xs. cmp key x \<noteq> 0))"
proof -
  obtain t where t: "mem st t" "inorder t = xs" using assms(1) by (auto simp: rbtree_of_def)
  then show ?thesis using find_loop_run [of st 0 t "cmp key"] assms(2) by (auto simp: rb_find_def mem_def)
qed

lemma find_add_loop_run:
  assumes "mem st (plug k t)" "falling (cmp x) (inorder t)"
  shows "(\<exists>link p. find_add_loop cmp x (link_of k) (up k) st = Some (link, p, True) \<and> p \<in> addrs t \<and> cmp x p = 0) \<or>
    find_add_loop cmp x (link_of k) (up k) st =
      Some (link_of (place (\<lambda>p. cmp x p < 0) k t), up (place (\<lambda>p. cmp x p < 0) k t), False) \<and> (\<forall>p \<in> addrs t. cmp x p \<noteq> 0)"
  using assms
proof (induction t arbitrary: k)
  case Nl
  then show ?case by (intro disjI2, subst find_add_loop.simps) (simp add: read_link_run)
next
  case (Nd c l a r)
  note fall = Nd.prems(2) [unfolded falling_node]
  have a: "read_link (link_of k) st = Some a" "a \<noteq> 0"
    using read_link_run [OF Nd.prems(1)] mem_node(1) [OF Nd.prems(1)] by (auto simp: ptr_ok_simps)
  consider "cmp x a < 0" | "cmp x a > 0" | "cmp x a = 0" by linarith
  then show ?case
  proof cases
    case 1
    then have step: "find_add_loop cmp x (link_of k) (up k) st = find_add_loop cmp x (link_of ((Lft, c, a, r) # k)) (up ((Lft, c, a, r) # k)) st"
      using a by (subst find_add_loop.simps) simp
    have "cmp x b \<noteq> 0" if "b \<in> addrs r" for b using fall 1 that by (force simp: sgn_if split: if_splits)
    then show ?thesis using Nd.IH(1) [of "(Lft, c, a, r) # k"] Nd.prems(1) fall 1 unfolding step by auto
  next
    case 2
    then have step: "find_add_loop cmp x (link_of k) (up k) st = find_add_loop cmp x (link_of ((Rgt, c, a, l) # k)) (up ((Rgt, c, a, l) # k)) st"
      using a by (subst find_add_loop.simps) simp
    have "cmp x b \<noteq> 0" if "b \<in> addrs l" for b using fall 2 that by (force simp: sgn_if split: if_splits)
    then show ?thesis using Nd.IH(2) [of "(Rgt, c, a, l) # k"] Nd.prems(1) fall 2 unfolding step by auto
  next
    case 3
    then have "find_add_loop cmp x (link_of k) (up k) st = Some (link_of k, a, True)"
      using a by (subst find_add_loop.simps) simp
    then show ?thesis using 3 by simp
  qed
qed

lemma rb_find_add_run:
  assumes "rbtree_of st xs" "falling (cmp x) xs" and x: "ptr_ok x" "nodes st x \<noteq> None" "x \<in> set xs \<Longrightarrow> cmp x x = 0"
  shows "(\<exists>p \<in> set xs. rb_find_add x cmp st = Some (p, st) \<and> cmp x p = 0) \<or>
    (\<exists>st'. rb_find_add x cmp st = Some (0, st') \<and> (\<forall>p \<in> set xs. cmp x p \<noteq> 0) \<and>
      rbtree_of st' (insert_after (\<lambda>p. cmp x p < 0) x xs) \<and> (\<forall>a. a \<notin> insert x (set xs) \<longrightarrow> nodes st' a = nodes st a))"
proof -
  obtain t where t: "mem st t" "rb_shape t" "inorder t = xs" using assms(1) by (auto simp: rbtree_of_def)
  let ?k = "place (\<lambda>p. cmp x p < 0) [] t"
  from find_add_loop_run [of st "[]" t cmp x] t assms(2)
  consider link p where "find_add_loop cmp x Root_link 0 st = Some (link, p, True)" "p \<in> set xs" "cmp x p = 0" |
    "find_add_loop cmp x Root_link 0 st = Some (link_of ?k, up ?k, False)" "\<forall>p \<in> set xs. cmp x p \<noteq> 0" by auto
  then show ?thesis
  proof cases
    case 1
    then show ?thesis by (intro disjI1) (auto simp: rb_find_add_def)
  next
    case 2
    have "sorted_wrt (\<lambda>a b. cmp x a < 0 \<longrightarrow> cmp x b < 0) xs"
      using assms(2) unfolding falling_def by (rule sorted_wrt_mono_rel [rotated]) (auto simp: sgn_if split: if_splits)
    moreover have "x \<notin> set xs" using 2(2) x(3) by blast
    ultimately show ?thesis using link_insert_run [OF t(1,2), of "\<lambda>p. cmp x p < 0" x] t(3) x 2
      by (intro disjI2) (auto simp: rb_find_add_def)
  qed
qed


subsection \<open>The cached leftmost node\<close>

definition cached_of :: "'a cached \<Rightarrow> ptr list \<Rightarrow> bool" where
  "cached_of root xs \<longleftrightarrow> rbtree_of (fst root) xs \<and> snd root = hd0 xs"

lemma rb_next_of: "rbtree_of st (xs @ x # ys) \<Longrightarrow> rb_next x st = Some (hd0 ys)"
  using rb_next_run unfolding rbtree_of_def by blast

lemma hd0_insert_after: "hd0 (insert_after f x xs) = (if takeWhile (\<lambda>a. \<not> f a) xs = [] then x else hd0 xs)"
  by (cases xs) (auto simp: insert_after_def)

lemma rb_add_cached_run:
  assumes "cached_of (st, lm) xs" "strict_weak lt" "in_order lt xs" and x: "ptr_ok x" "nodes st x \<noteq> None" "x \<notin> set xs"
  shows "\<exists>root'. rb_add_cached x lt (st, lm) = Some root' \<and> cached_of root' (insert_after (lt x) x xs)"
proof -
  obtain t where t: "mem st t" "rb_shape t" "inorder t = xs" "lm = hd0 xs" using assms(1) by (auto simp: rbtree_of_def cached_of_def)
  have rise: "sorted_wrt (\<lambda>a b. lt x a \<longrightarrow> lt x b) (inorder t)" using rising [OF assms(2,3)] t(3) by simp
  from link_insert_run [OF t(1,2) this x(1,2)] x(3) t(3) show ?thesis
    using add_loop_run [of st "[]" t True lt x] t(1,4) place_sides(1) [OF rise, of "[]"]
    by (auto simp: rb_add_cached_def rb_insert_color_cached_def cached_of_def hd0_insert_after)
qed

text \<open>Erasing moves the cached pointer when it pointed to the node.\<close>

lemma hd0_remove1:
  assumes "distinct xs" "x \<in> set xs"
  shows "hd0 (remove1 x xs) = (if hd0 xs = x then hd0 (tl xs) else hd0 xs)"
  using assms by (cases xs) auto

lemma move_leftmost:
  assumes "rbtree_of st xs" "x \<in> set xs"
  shows "(if hd0 xs = x then rb_next x st else Some (hd0 xs)) = Some (hd0 (remove1 x xs))"
proof (cases "hd0 xs = x")
  case True
  then obtain ys where ys: "xs = x # ys" using assms(2) by (cases xs) auto
  then show ?thesis using rb_next_of [of st "[]" x ys] assms(1) by simp
next
  case False
  then show ?thesis using hd0_remove1 [OF rbtree_of_distinct [OF assms(1)] assms(2)] by simp
qed

lemma rb_erase_cached_run:
  assumes "cached_of (st, lm) xs" "x \<in> set xs"
  shows "\<exists>root'. rb_erase_cached x (st, lm) = Some root' \<and> cached_of root' (remove1 x xs)"
proof -
  have t: "rbtree_of st xs" "lm = hd0 xs" using assms(1) by (auto simp: cached_of_def)
  then show ?thesis using rb_erase_run [OF t(1) assms(2)] move_leftmost [OF t(1) assms(2)]
    by (auto simp: rb_erase_cached_def cached_of_def)
qed

lemma rb_replace_cached_run:
  assumes "cached_of (st, lm) (xs @ v # ys)" and x: "ptr_ok x" "nodes st x \<noteq> None" "x \<notin> set (xs @ v # ys)"
  shows "\<exists>root'. rb_replace_node_cached v x (st, lm) = Some root' \<and> cached_of root' (xs @ x # ys)"
proof -
  have t: "rbtree_of st (xs @ v # ys)" "lm = hd0 (xs @ v # ys)" using assms(1) by (auto simp: cached_of_def)
  have "(if lm = v then x else lm) = hd0 (xs @ x # ys)"
    using rbtree_of_distinct [OF t(1)] t(2) by (cases xs) auto
  then show ?thesis using rb_replace_run [OF t(1) x] by (auto simp: rb_replace_node_cached_def cached_of_def)
qed

subsection \<open>Height\<close>

primrec depth :: "shape \<Rightarrow> nat" where
  "depth Nl = 0"
| "depth (Nd c l a r) = Suc (max (depth l) (depth r))"

lemma depth_black: "invc t \<Longrightarrow> bht t n \<Longrightarrow> depth t \<le> 2 * n + (if color_of t = Red then 1 else 0)"
proof (induction t arbitrary: n)
  case (Nd c l a r)
  show ?case
  proof (cases c)
    case Red
    then show ?thesis using Nd.IH(1) [of n] Nd.IH(2) [of n] Nd.prems by simp
  next
    case Black
    then obtain m where m: "n = Suc m" "bht l m" "bht r m" using Nd.prems(2) by (cases n) auto
    then show ?thesis using Nd.IH(1) [of m] Nd.IH(2) [of m] Nd.prems(1) Black by (auto split: if_splits)
  qed
qed simp

lemma black_nodes: "bht t n \<Longrightarrow> 2 ^ n \<le> length (inorder t) + 1"
proof (induction t arbitrary: n)
  case (Nd c l a r)
  show ?case
  proof (cases c)
    case Red
    then show ?thesis using Nd.IH(1) [of n] Nd.prems by simp
  next
    case Black
    then obtain m where "n = Suc m" "bht l m" "bht r m" using Nd.prems by (cases n) auto
    then show ?thesis using Nd.IH(1) [of m] Nd.IH(2) [of m] by simp
  qed
qed simp

lemma rb_depth: "rb_shape t \<Longrightarrow> 2 ^ ((depth t + 1) div 2) \<le> length (inorder t) + 1"
proof -
  assume "rb_shape t"
  then obtain n where n: "invc t" "color_of t = Black" "bht t n" by (auto simp: rb_shape_def)
  then have "depth t \<le> 2 * n" using depth_black by fastforce
  then have "(2 :: nat) ^ ((depth t + 1) div 2) \<le> 2 ^ n" by (intro power_increasing) auto
  then show ?thesis using black_nodes [OF n(3)] by linarith
qed

lemma path_depth: "length k + depth t \<le> depth (plug k t)"
proof (induction k arbitrary: t)
  case (Cons f k)
  obtain d c a s where f: "f = (d, c, a, s)" by (cases f)
  show ?case using Cons.IH [of "mk d c t a s"] by (cases d) (simp_all add: f)
qed simp

text \<open>The number of nodes on the way from a node to the root, itself included.\<close>

partial_function (option) levels :: "ptr \<Rightarrow> 'a rbmem \<Rightarrow> nat option" where
  "levels p st = (if p = 0 then Some 0 else do { q \<leftarrow> load rb_parent p st; n \<leftarrow> levels q st; Some (Suc n) })"

lemma levels_run:
  assumes "path_at (nodes st) k p"
  shows "levels (up k) st = Some (length k)"
  using assms
proof (induction k arbitrary: p)
  case Nil
  show ?case by (subst levels.simps) simp
next
  case (Cons f k)
  obtain d c a s where f: "f = (d, c, a, s)" by (cases f)
  have "up k AND 3 = 0" using Cons.prems up_ok [of "nodes st" k a] by (auto simp: f ptr_ok_def)
  then have "load rb_parent a st = Some (up k)" using Cons.prems by (simp add: f run rb_parent_def pc_simps)
  then show ?case using Cons.IH [of a] Cons.prems by (subst levels.simps) (simp add: f ptr_ok_simps)
qed

lemma levels_bound:
  assumes "rbtree_of st xs" "x \<in> set xs"
  shows "\<exists>n. levels x st = Some n \<and> 2 ^ ((n + 1) div 2) \<le> length xs + 1"
proof -
  obtain t where t: "mem st t" "rb_shape t" "inorder t = xs" using assms(1) by (auto simp: rbtree_of_def)
  obtain k c l r where k: "t = plug k (Nd c l x r)" using node_split assms(2) t(3) by blast
  have "path_at (nodes st) ((Lft, c, x, r) # k) (addr l)" using t(1) by (simp add: k mem_plug)
  from levels_run [OF this] have n: "levels x st = Some (Suc (length k))" by simp
  have "Suc (length k) \<le> depth t" using path_depth [of k "Nd c l x r"] by (simp add: k)
  then have "(2 :: nat) ^ ((Suc (length k) + 1) div 2) \<le> 2 ^ ((depth t + 1) div 2)" by (intro power_increasing div_le_mono) auto
  then show ?thesis using rb_depth [OF t(2)] n t(3) by auto
qed

end
