(* ===== verification/Rbtree_Refine.thy ===== *)
theory Rbtree_Refine
  imports Rbtree_Correct
begin

text \<open>
  Sequences of operations on a red-black tree against operations on a set of nodes with distinct keys, and the
  properties of the functions one by one.
\<close>

subsection \<open>The nodes of a tree\<close>

text \<open>The loop from \<^verbatim>\<open>rb_first\<close> with \<^verbatim>\<open>rb_next\<close>.\<close>

partial_function (option) nodes_from :: "ptr \<Rightarrow> 'a rbmem \<Rightarrow> ptr list option" where
  [code]: "nodes_from p st = (if p = 0 then Some [] else do { q \<leftarrow> rb_next p st; ps \<leftarrow> nodes_from q st; Some (p # ps) })"

definition tree_nodes :: "'a rbmem \<Rightarrow> ptr list option" where
  "tree_nodes st = do { p \<leftarrow> rb_first st; nodes_from p st }"

lemma nodes_from_run: "rbtree_of st (xs @ ys) \<Longrightarrow> nodes_from (hd0 ys) st = Some ys"
proof (induction ys arbitrary: xs)
  case Nil
  show ?case by (subst nodes_from.simps) simp
next
  case (Cons y ys)
  have "y \<noteq> 0" using rbtree_of_ok [OF Cons.prems, of y] by (simp add: ptr_ok_simps)
  then show ?case using rb_next_of [OF Cons.prems] Cons.IH [of "xs @ [y]"] Cons.prems by (subst nodes_from.simps) simp
qed

lemma tree_nodes_run: "rbtree_of st xs \<Longrightarrow> tree_nodes st = Some xs"
  using nodes_from_run [of st "[]" xs] rb_first_run by (fastforce simp: tree_nodes_def rbtree_of_def)

subsection \<open>A set of nodes with keys\<close>

definition compare_keys :: "'k :: linorder \<Rightarrow> 'k \<Rightarrow> int" where
  "compare_keys k k' = (if k < k' then -1 else if k = k' then 0 else 1)"

lemma compare_keys_simps [simp]: "compare_keys k k' = 0 \<longleftrightarrow> k = k'" "compare_keys k k' < 0 \<longleftrightarrow> k < k'"
  by (auto simp: compare_keys_def)

definition keys_sorted :: "(ptr \<Rightarrow> 'k :: linorder) \<Rightarrow> ptr list \<Rightarrow> bool" where
  "keys_sorted key xs \<longleftrightarrow> sorted_wrt (\<lambda>a b. key a < key b) xs"

lemma keys_falling: "keys_sorted key xs \<Longrightarrow> falling (\<lambda>p. compare_keys k (key p)) xs"
  unfolding keys_sorted_def falling_def by (erule sorted_wrt_mono_rel [rotated]) (auto simp: compare_keys_def)

datatype 'k rb_op = Op_find_add ptr | Op_find 'k | Op_erase 'k | Op_first

definition rb_step :: "(ptr \<Rightarrow> 'k :: linorder) \<Rightarrow> 'k rb_op \<Rightarrow> 'a rbmem \<Rightarrow> (ptr \<times> 'a rbmem) option" where
  "rb_step key opn st =
     (case opn of
        Op_find_add x \<Rightarrow> rb_find_add x (\<lambda>a b. compare_keys (key a) (key b)) st
      | Op_find k \<Rightarrow> do { p \<leftarrow> rb_find k (\<lambda>k p. compare_keys k (key p)) st; Some (p, st) }
      | Op_erase k \<Rightarrow>
          do {
            p \<leftarrow> rb_find k (\<lambda>k p. compare_keys k (key p)) st;
            if p = 0 then Some (0, st) else do { st \<leftarrow> rb_erase p st; Some (p, st) } }
      | Op_first \<Rightarrow> do { p \<leftarrow> rb_first st; Some (p, st) })"

text \<open>The nodes of a pool are those a client may add.\<close>

fun rb_legal :: "ptr set \<Rightarrow> 'k rb_op \<Rightarrow> bool" where
  "rb_legal pool (Op_find_add x) \<longleftrightarrow> x \<in> pool"
| "rb_legal pool _ \<longleftrightarrow> True"

definition keyed_tree :: "ptr set \<Rightarrow> (ptr \<Rightarrow> 'k :: linorder) \<Rightarrow> 'a rbmem \<Rightarrow> bool" where
  "keyed_tree pool key st \<longleftrightarrow>
     (\<exists>xs. rbtree_of st xs \<and> keys_sorted key xs) \<and> (\<forall>p \<in> pool. ptr_ok p \<and> nodes st p \<noteq> None)"

definition node_set :: "'a rbmem \<Rightarrow> ptr set" where
  "node_set st = set (the (tree_nodes st))"

lemma node_set_run: "rbtree_of st xs \<Longrightarrow> node_set st = set xs"
  by (simp add: node_set_def tree_nodes_run)

text \<open>What the operations do to the set; the result 0 says that there is no such node.\<close>

fun rb_spec :: "(ptr \<Rightarrow> 'k :: linorder) \<Rightarrow> 'k rb_op \<Rightarrow> ptr set \<Rightarrow> ptr \<Rightarrow> ptr set \<Rightarrow> bool" where
  "rb_spec key (Op_find_add x) S r S' \<longleftrightarrow>
     (if key x \<in> key ` S then r \<in> S \<and> key r = key x \<and> S' = S else r = 0 \<and> S' = insert x S)"
| "rb_spec key (Op_find k) S r S' \<longleftrightarrow> (if k \<in> key ` S then r \<in> S \<and> key r = k else r = 0) \<and> S' = S"
| "rb_spec key (Op_erase k) S r S' \<longleftrightarrow> (if k \<in> key ` S then r \<in> S \<and> key r = k else r = 0) \<and> S' = {x \<in> S. key x \<noteq> k}"
| "rb_spec key Op_first S r S' \<longleftrightarrow> (if S = {} then r = 0 else r \<in> S \<and> (\<forall>x \<in> S. key r \<le> key x)) \<and> S' = S"

lemma keyed_find:
  assumes "rbtree_of st xs" "keys_sorted key xs"
  shows "\<exists>p. rb_find k (\<lambda>k p. compare_keys k (key p)) st = Some p \<and> (if k \<in> key ` set xs then p \<in> set xs \<and> key p = k else p = 0)"
  using rb_find_run [where cmp = "\<lambda>k p. compare_keys k (key p)", OF assms(1) keys_falling [OF assms(2)], of k] by auto

lemma keys_sorted_inj:
  assumes "keys_sorted key xs"
  shows "inj_on key (set xs)"
proof -
  have "sorted_wrt (<) (map key xs)" using assms by (simp add: keys_sorted_def sorted_wrt_map)
  then have "distinct (map key xs)" by (simp add: strict_sorted_iff)
  then show ?thesis by (simp add: distinct_map)
qed

lemma keys_sorted_insert:
  assumes "keys_sorted key xs" "key x \<notin> key ` set xs"
  shows "keys_sorted key (insert_after (\<lambda>p. key x < key p) x xs)"
  using assms
proof (induction xs)
  case (Cons y ys)
  show ?case
  proof (cases "key x < key y")
    case True
    then show ?thesis using Cons.prems by (fastforce simp: keys_sorted_def insert_after_def)
  next
    case False
    then have "key y < key x" using Cons.prems(2) by (metis image_eqI linorder_neqE list.set_intros(1))
    moreover have "insert_after (\<lambda>p. key x < key p) x (y # ys) = y # insert_after (\<lambda>p. key x < key p) x ys"
      using False by (simp add: insert_after_def)
    ultimately show ?thesis using Cons by (simp add: keys_sorted_def)
  qed
qed (simp add: keys_sorted_def insert_after_def)

lemma keys_sorted_remove: "keys_sorted key xs \<Longrightarrow> keys_sorted key (remove1 x xs)"
  unfolding keys_sorted_def by (induction xs) (auto dest: set_remove1_subset [THEN subsetD])


lemma rbtree_of_nodes: "rbtree_of st xs \<Longrightarrow> x \<in> set xs \<Longrightarrow> nodes st x \<noteq> None"
proof -
  assume "rbtree_of st xs" "x \<in> set xs"
  then obtain t where t: "mem st t" "x \<in> addrs t" by (auto simp: rbtree_of_def)
  then obtain k c l r where "t = plug k (Nd c l x r)" using node_split by blast
  then show ?thesis using mem_node(2) t(1) by fastforce
qed

lemma find_add_simulates:
  assumes "rbtree_of st xs" "keys_sorted key xs" "x \<in> pool" "\<forall>p \<in> pool. ptr_ok p \<and> nodes st p \<noteq> None"
  shows "\<exists>r st'. rb_step key (Op_find_add x) st = Some (r, st') \<and> keyed_tree pool key st' \<and> rb_spec key (Op_find_add x) (set xs) r (node_set st')"
proof -
  let ?cmp = "\<lambda>a b. compare_keys (key a) (key b)"
  have fall: "falling (?cmp x) xs" by (rule keys_falling [OF assms(2)])
  have x: "ptr_ok x" "nodes st x \<noteq> None" "x \<in> set xs \<Longrightarrow> ?cmp x x = 0" using assms(3,4) by auto
  from rb_find_add_run [where cmp = ?cmp, OF assms(1) fall x] consider
    p where "p \<in> set xs" "rb_find_add x ?cmp st = Some (p, st)" "key x = key p" |
    st' where "rb_find_add x ?cmp st = Some (0, st')" "key x \<notin> key ` set xs" "rbtree_of st' (insert_after (\<lambda>p. key x < key p) x xs)"
      "\<forall>a. a \<notin> insert x (set xs) \<longrightarrow> nodes st' a = nodes st a"
    by auto
  then show ?thesis
  proof cases
    case 1
    then have "key x \<in> key ` set xs" by force
    then show ?thesis using 1 assms node_set_run [OF assms(1)] by (auto simp: rb_step_def keyed_tree_def)
  next
    case 2
    have "nodes st' p \<noteq> None" if "p \<in> pool" for p
      using rbtree_of_nodes [OF 2(3), of p] 2(4) assms(4) that by (cases "p \<in> insert x (set xs)") auto
    then have "keyed_tree pool key st'" using 2(3) keys_sorted_insert [OF assms(2) 2(2)] assms(4) unfolding keyed_tree_def by blast
    then show ?thesis using 2 node_set_run [OF 2(3)] by (simp add: rb_step_def)
  qed
qed

lemma erase_simulates:
  assumes "rbtree_of st xs" "keys_sorted key xs" "\<forall>p \<in> pool. ptr_ok p \<and> nodes st p \<noteq> None"
  shows "\<exists>r st'. rb_step key (Op_erase k) st = Some (r, st') \<and> keyed_tree pool key st' \<and> rb_spec key (Op_erase k) (set xs) r (node_set st')"
proof -
  obtain p where p: "rb_find k (\<lambda>k p. compare_keys k (key p)) st = Some p" "if k \<in> key ` set xs then p \<in> set xs \<and> key p = k else p = 0"
    using keyed_find [OF assms(1,2)] by blast
  show ?thesis
  proof (cases "k \<in> key ` set xs")
    case True
    then have k: "p \<in> set xs" "key p = k" "p \<noteq> 0" using p(2) rbtree_of_ok [OF assms(1), of p] by (auto simp: ptr_ok_simps)
    obtain st' where st': "rb_erase p st = Some st'" "rbtree_of st' (remove1 p xs)" "nodes st' p \<noteq> None"
      "\<forall>a. a \<notin> set xs \<longrightarrow> nodes st' a = nodes st a"
      using rb_erase_run [OF assms(1) k(1)] by blast
    have "nodes st' a \<noteq> None" if "a \<in> pool" for a
      using rbtree_of_nodes [OF st'(2), of a] st'(3,4) assms(3) that by (cases "a \<in> set xs"; cases "a = p") auto
    then have "keyed_tree pool key st'" using st'(2) keys_sorted_remove [OF assms(2)] assms(3) unfolding keyed_tree_def by blast
    moreover have "node_set st' = {x \<in> set xs. key x \<noteq> k}"
      using node_set_run [OF st'(2)] set_remove1_eq [OF rbtree_of_distinct [OF assms(1)]] inj_onD [OF keys_sorted_inj [OF assms(2)]] k by auto
    ultimately show ?thesis using p(1) k st'(1) True by (simp add: rb_step_def)
  next
    case False
    then have "{x \<in> set xs. key x \<noteq> k} = set xs" by auto
    then show ?thesis using p False assms node_set_run [OF assms(1)] by (auto simp: rb_step_def keyed_tree_def)
  qed
qed

lemma first_simulates:
  assumes "rbtree_of st xs" "keys_sorted key xs"
  shows "\<exists>r. rb_step key Op_first st = Some (r, st) \<and> rb_spec key Op_first (set xs) r (set xs)"
proof -
  have "rb_first st = Some (hd0 xs)" using assms(1) rb_first_run by (auto simp: rbtree_of_def)
  then show ?thesis using assms(2) by (cases xs) (auto simp: rb_step_def keys_sorted_def)
qed

interpretation set_refinement: simulation "rb_step key" "rb_legal pool" "keyed_tree pool key" node_set "rb_spec key" for key pool
proof
  fix st :: "'b rbmem" and opn :: "'a rb_op"
  assume inv: "keyed_tree pool key st" and legal: "rb_legal pool opn"
  then obtain xs where xs: "rbtree_of st xs" "keys_sorted key xs" and pool: "\<forall>p \<in> pool. ptr_ok p \<and> nodes st p \<noteq> None"
    by (auto simp: keyed_tree_def)
  note set = node_set_run [OF xs(1)]
  show "\<exists>r st'. rb_step key opn st = Some (r, st') \<and> keyed_tree pool key st' \<and> rb_spec key opn (node_set st) r (node_set st')"
  proof (cases opn)
    case (Op_find_add x)
    then show ?thesis using find_add_simulates [OF xs _ pool] legal set by simp
  next
    case (Op_find k)
    then show ?thesis using keyed_find [OF xs, of k] inv set by (auto simp: rb_step_def)
  next
    case (Op_erase k)
    then show ?thesis using erase_simulates [OF xs pool] set by simp
  next
    case Op_first
    then show ?thesis using first_simulates [OF xs] inv set by fastforce
  qed
qed


subsection \<open>The properties\<close>

text \<open>A tree of three nodes, and one more node that is not in it.\<close>

definition example_memory :: "unit rbmem" where
  "example_memory =
     \<lparr>nodes = [8 \<mapsto> \<lparr>parent_color = 16, rb_right = 0, rb_left = 0\<rparr>, 16 \<mapsto> \<lparr>parent_color = 1, rb_right = 24, rb_left = 8\<rparr>,
        24 \<mapsto> \<lparr>parent_color = 16, rb_right = 0, rb_left = 0\<rparr>, 32 \<mapsto> \<lparr>parent_color = 0, rb_right = 0, rb_left = 0\<rparr>],
      root_node = 16, user = ()\<rparr>"

lemma example_tree: "rbtree_of example_memory [8, 16, 24]"
  unfolding rbtree_of_def
  by (rule exI [of _ "Nd Black (Nd Red Nl 8 Nl) 16 (Nd Red Nl 24 Nl)"])
    (simp add: mem_def example_memory_def ptr_ok_def bw_def RB_RED_def RB_BLACK_def rb_shape_def exI [of _ "Suc 0"])

lemma less_is_weak: "strict_weak (<)"
  by (auto simp: strict_weak_def)

text \<open>
  C8: every sequence of searching with insertion, searching, erasing by key and asking for the first node, on an empty tree,
  runs without using a pointer that is not a node, and its results and the nodes of the final tree are those of the same
  operations on a set of nodes with distinct keys.
\<close>

theorem rb_refines_set:
  assumes "list_all (rb_legal pool) ops" "\<forall>p \<in> pool. ptr_ok p \<and> h p \<noteq> None"
  shows "\<exists>rs st. run_ops (rb_step key) ops \<lparr>nodes = h, root_node = 0, user = u\<rparr> = Some (rs, st) \<and>
    spec_run (rb_spec key) ops {} rs (node_set st) \<and> (\<exists>xs. rbtree_of st xs \<and> keys_sorted key xs \<and> tree_nodes st = Some xs)"
proof -
  have "rbtree_of \<lparr>nodes = h, root_node = 0, user = u\<rparr> []"
    unfolding rbtree_of_def by (rule exI [of _ Nl]) (simp add: mem_def rb_shape_def)
  note empty = this node_set_run [OF this]
  have "keyed_tree pool key \<lparr>nodes = h, root_node = 0, user = u\<rparr>"
    unfolding keyed_tree_def using empty(1) assms(2) by (auto simp: keys_sorted_def)
  from set_refinement.run_refines [OF this assms(1)] show ?thesis
    unfolding empty(2) using tree_nodes_run by (fastforce simp: keyed_tree_def)
qed

theorem rb_refines_set_witness:
  "\<exists>rs st. run_ops (rb_step (\<lambda>p. unat p)) [Op_find_add 16, Op_find_add 8, Op_find_add 16, Op_erase 16, Op_first]
      \<lparr>nodes = nodes example_memory, root_node = 0, user = ()\<rparr> = Some (rs, st) \<and>
    spec_run (rb_spec (\<lambda>p. unat p)) [Op_find_add 16, Op_find_add 8, Op_find_add 16, Op_erase 16, Op_first] {} rs (node_set st) \<and>
    (\<exists>xs. rbtree_of st xs \<and> keys_sorted (\<lambda>p. unat p) xs \<and> tree_nodes st = Some xs)"
  by (rule rb_refines_set [of "{8, 16}"]) (simp_all add: example_memory_def ptr_ok_def)

text \<open>
  C10: adding a node with a strict weak order puts it after all nodes it is not less than, keeps the tree a red-black tree
  in order, and changes nothing else in memory.
\<close>

theorem rb_add_correct:
  assumes "rbtree_of st xs" "strict_weak lt" "in_order lt xs" "ptr_ok x" "nodes st x \<noteq> None" "x \<notin> set xs"
  shows "\<exists>st'. rb_add x lt st = Some st' \<and> rbtree_of st' (insert_after (lt x) x xs) \<and> in_order lt (insert_after (lt x) x xs) \<and>
    (\<forall>a. a \<notin> insert x (set xs) \<longrightarrow> nodes st' a = nodes st a)"
  using rb_add_run [OF assms] insert_after_order [OF assms(2,3)] by blast

theorem rb_add_correct_witness:
  "\<exists>st'. rb_add 32 (<) example_memory = Some st' \<and> rbtree_of st' (insert_after (\<lambda>a. 32 < a) 32 [8, 16, 24]) \<and>
    in_order (<) (insert_after (\<lambda>a. 32 < a) 32 [8, 16, 24]) \<and>
    (\<forall>a. a \<notin> insert 32 (set [8, 16, 24]) \<longrightarrow> nodes st' a = nodes example_memory a)"
  by (rule rb_add_correct [OF example_tree less_is_weak]) (simp_all add: in_order_def example_memory_def ptr_ok_def)

text \<open>
  C9: erasing a node of a red-black tree gives a red-black tree of the other nodes in the same order, and changes nothing
  else in memory.
\<close>

theorem rb_erase_correct:
  assumes "rbtree_of st xs" "x \<in> set xs"
  shows "\<exists>st'. rb_erase x st = Some st' \<and> rbtree_of st' (remove1 x xs) \<and> (\<forall>a. a \<notin> set xs \<longrightarrow> nodes st' a = nodes st a)"
  using rb_erase_run [OF assms] by blast

theorem rb_erase_correct_witness:
  "\<exists>st'. rb_erase 16 example_memory = Some st' \<and> rbtree_of st' (remove1 16 [8, 16, 24]) \<and>
    (\<forall>a. a \<notin> set [8, 16, 24] \<longrightarrow> nodes st' a = nodes example_memory a)"
  by (rule rb_erase_correct [OF example_tree]) simp

text \<open>
  C29: the first, the last, the next and the previous node are those of the order of the tree, and NULL comes before the first
  and after the last.
\<close>

theorem rb_walk_correct:
  assumes "rbtree_of st (xs @ x # ys)"
  shows "rb_first st = Some (hd0 (xs @ [x])) \<and> rb_last st = Some (last0 (x # ys)) \<and>
    rb_next x st = Some (hd0 ys) \<and> rb_prev x st = Some (last0 xs) \<and> tree_nodes st = Some (xs @ x # ys)"
proof -
  obtain t where t: "mem st t" "inorder t = xs @ x # ys" using assms by (auto simp: rbtree_of_def)
  then show ?thesis
    using rb_first_run [OF t(1)] rb_last_run [OF t(1)] rb_next_run [OF t] rb_prev_run [OF t] tree_nodes_run [OF assms] by simp
qed

theorem rb_walk_correct_witness:
  "rb_first example_memory = Some 8 \<and> rb_last example_memory = Some 24 \<and> rb_next 16 example_memory = Some 24 \<and>
    rb_prev 16 example_memory = Some 8 \<and> tree_nodes example_memory = Some [8, 16, 24]"
  using rb_walk_correct [of example_memory "[8]" 16 "[24]"] example_tree by simp



text \<open>
  C27: searching finds a node with the key when there is one and NULL otherwise, and the loop over all nodes with the key visits
  exactly those, in the order of the tree.
\<close>

theorem rb_search_correct:
  assumes "rbtree_of st xs" "falling (cmp key) xs"
  shows "(\<exists>p. rb_find key cmp st = Some p \<and> (p \<in> set xs \<and> cmp key p = 0 \<or> p = 0 \<and> (\<forall>x \<in> set xs. cmp key x \<noteq> 0))) \<and>
    rb_find_first key cmp st = Some (hd0 (filter (\<lambda>x. cmp key x = 0) xs)) \<and>
    rb_for_each key cmp st = Some (filter (\<lambda>x. cmp key x = 0) xs)"
proof -
  obtain t where t: "mem st t" "inorder t = xs" using assms by (auto simp: rbtree_of_def)
  have "rb_find_first key cmp st = Some (hd0 (filter (\<lambda>x. cmp key x = 0) xs))"
    using find_first_run [of st 0 t "cmp key" 0] t assms(2) by (auto simp: mem_def rb_find_first_def filter_empty_conv)
  then show ?thesis using rb_find_run [of st xs cmp key] assms(1) rb_for_each_run [OF t(1), of cmp key] t(2) assms(2) by simp
qed

theorem rb_search_correct_witness:
  "(\<exists>p. rb_find 1 (\<lambda>k p. k - int (unat p div 16)) example_memory = Some p \<and>
      (p \<in> set [8, 16, 24] \<and> 1 - int (unat p div 16) = 0 \<or> p = 0 \<and> (\<forall>x \<in> set [8, 16, 24]. 1 - int (unat (x :: ptr) div 16) \<noteq> 0))) \<and>
    rb_find_first 1 (\<lambda>k p. k - int (unat p div 16)) example_memory = Some 16 \<and>
    rb_for_each 1 (\<lambda>k p. k - int (unat p div 16)) example_memory = Some [16, 24]"
  using rb_search_correct [OF example_tree, of "\<lambda>k p. k - int (unat p div 16)" 1] by (simp add: falling_def)



text \<open>
  C28: adding, erasing and replacing with a cached leftmost pointer keep it at the first node.
\<close>

theorem rb_cached_correct:
  assumes "cached_of (st, lm) (xs @ v # ys)" "strict_weak lt" "in_order lt (xs @ v # ys)"
    "ptr_ok x" "nodes st x \<noteq> None" "x \<notin> set (xs @ v # ys)"
  shows "(\<exists>root. rb_add_cached x lt (st, lm) = Some root \<and> cached_of root (insert_after (lt x) x (xs @ v # ys))) \<and>
    (\<exists>root. rb_erase_cached v (st, lm) = Some root \<and> cached_of root (remove1 v (xs @ v # ys))) \<and>
    (\<exists>root. rb_replace_node_cached v x (st, lm) = Some root \<and> cached_of root (xs @ x # ys))"
  using rb_add_cached_run [OF assms] rb_erase_cached_run [OF assms(1)] rb_replace_cached_run [OF assms(1,4,5,6)] by simp

theorem rb_cached_correct_witness:
  "(\<exists>root. rb_add_cached 32 (<) (example_memory, 8) = Some root \<and> cached_of root (insert_after (\<lambda>a. 32 < a) 32 [8, 16, 24])) \<and>
    (\<exists>root. rb_erase_cached 8 (example_memory, 8) = Some root \<and> cached_of root (remove1 8 [8, 16, 24])) \<and>
    (\<exists>root. rb_replace_node_cached 8 32 (example_memory, 8) = Some root \<and> cached_of root [32, 16, 24])"
  using rb_cached_correct [of example_memory 8 "[]" 8 "[16, 24]" "(<)" 32] example_tree less_is_weak
  by (simp add: cached_of_def in_order_def example_memory_def ptr_ok_def)

end
