(* ===== verification/Rbtree_Max.thy ===== *)
theory Rbtree_Max
  imports Rbtree_Correct
begin

text \<open>
  The callbacks of \<^verbatim>\<open>RB_DECLARE_CALLBACKS_MAX\<close> keep the greatest value of the nodes below each node.
\<close>

definition greatest :: "(ptr \<Rightarrow> 'v :: linorder) \<Rightarrow> ptr list \<Rightarrow> 'v" where
  "greatest f xs = Max (f ` set xs)"

lemma greatest_join:
  "greatest f (join d xs a ys) =
     (let m = f a;
          m = (if xs \<noteq> [] \<and> greatest f xs > m then greatest f xs else m)
      in if ys \<noteq> [] \<and> greatest f ys > m then greatest f ys else m)"
proof -
  have "f ` set (join d xs a ys) = insert (f a) (f ` set xs \<union> f ` set ys)" by (cases d) auto
  then have "greatest f (join d xs a ys) =
      (if xs = [] then if ys = [] then f a else max (f a) (greatest f ys)
       else if ys = [] then max (f a) (greatest f xs) else max (f a) (max (greatest f xs) (greatest f ys)))"
    by (simp add: greatest_def Max_Un)
  then show ?thesis by (auto simp: Let_def max_def)
qed

lemma greatest_join_swap: "greatest f (join d xs a ys) = greatest f (join d ys a xs)"
  by (cases d) (auto simp: greatest_def insert_commute Un_commute intro: arg_cong [where f = Max])

lemma compute_max_run:
  assumes "ptr_ok a" "nodes st a = Some (nd d pc (addr x) (addr y))"
    and x: "x \<noteq> Nl \<Longrightarrow> addr x \<noteq> 0 \<and> user st (addr x) = greatest f (inorder x)"
    and y: "y \<noteq> Nl \<Longrightarrow> addr y \<noteq> 0 \<and> user st (addr y) = greatest f (inorder y)"
  shows "compute_max f a quit st =
    (let m = greatest f (join d (inorder x) a (inorder y))
     in Some (if quit \<and> user st a = m then (True, user st) else (False, (user st)(a := m))))"
proof -
  have x0: "x = Nl \<Longrightarrow> addr x = 0" "y = Nl \<Longrightarrow> addr y = 0" by auto
  have "greatest f (join d (inorder x) a (inorder y)) =
      (let m = f a;
           m = (if addr x \<noteq> 0 \<and> user st (addr x) > m then user st (addr x) else m)
       in if addr y \<noteq> 0 \<and> user st (addr y) > m then user st (addr y) else m)"
    using x y x0 by (cases "x = Nl"; cases "y = Nl") (simp_all add: greatest_join Let_def)
  moreover have "greatest f (join d (inorder x) a (inorder y)) =
      (let m = f a;
           m = (if addr y \<noteq> 0 \<and> user st (addr y) > m then user st (addr y) else m)
       in if addr x \<noteq> 0 \<and> user st (addr x) > m then user st (addr x) else m)"
    using x y x0 unfolding greatest_join_swap [of f d "inorder x"]
    by (cases "x = Nl"; cases "y = Nl") (simp_all add: greatest_join Let_def)
  ultimately show ?thesis using assms(1,2) by (cases d) (simp_all add: compute_max_def run Let_def)
qed

lemma fits_root: "fits v agg t \<Longrightarrow> t \<noteq> Nl \<Longrightarrow> v (addr t) = agg (inorder t)"
  by (cases t) auto

lemma greatest_join_cong: "xs \<noteq> [] \<Longrightarrow> ys \<noteq> [] \<Longrightarrow> greatest f xs = greatest f ys \<Longrightarrow> greatest f (join d xs a zs) = greatest f (join d ys a zs)"
  by (simp add: greatest_join Let_def)

lemma path_fits_greatest:
  assumes "greatest f xs = greatest f ys" "xs \<noteq> []" "ys \<noteq> []" "path_fits v (greatest f) k xs"
  shows "path_fits v (greatest f) k ys"
  using assms
proof (induction k arbitrary: xs ys)
  case (Cons fr k)
  obtain d c a s where fr: "fr = (d, c, a, s)" by (cases fr)
  have eq: "greatest f (join d xs a (inorder s)) = greatest f (join d ys a (inorder s))" using greatest_join_cong Cons.prems by blast
  then have "path_fits v (greatest f) k (join d ys a (inorder s))" using Cons.IH [OF eq] Cons.prems(4) by (simp add: fr)
  then show ?case using Cons.prems(4) eq by (simp add: fr)
qed simp

lemma propagate_max:
  assumes "seg_at (nodes st) k (addr t) stop" "stop AND 3 = 0" "stop \<notin> path_addrs k" "path_distinct k" "addrs t \<inter> path_addrs k = {}"
    and "t \<noteq> Nl \<Longrightarrow> ptr_ok (addr t)" "fits (user st) (greatest f) t" "stale (user st) (greatest f) k"
  shows "\<exists>u. callbacks_propagate (compute_max f) st (above k stop) stop = Some u \<and> path_fits u (greatest f) k (inorder t) \<and>
    (\<forall>a. a \<notin> path_addrs k \<longrightarrow> u a = user st a)"
  using assms
proof (induction k arbitrary: st t)
  case Nil
  then show ?case by (subst callbacks_propagate.simps) simp
next
  case (Cons fr k)
  obtain d c a s where fr: "fr = (d, c, a, s)" by (cases fr)
  let ?m = "greatest f (join d (inorder t) a (inorder s))"
  have a: "ptr_ok a" "nodes st a = Some (nd d (above k stop OR bw c) (addr t) (addr s))" "tree_at (nodes st) a s" "seg_at (nodes st) k a stop"
    "a \<noteq> stop" "stop \<notin> path_addrs k" "path_distinct k"
    and D: "a \<notin> addrs s" "a \<notin> path_addrs k" "addrs s \<inter> path_addrs k = {}" "a \<notin> addrs t" "addrs t \<inter> path_addrs k = {}"
    using Cons.prems by (auto simp: fr)
  obtain ys where ys: "fits (user st) (greatest f) s" "ys \<noteq> []" "user st a = greatest f ys" "path_fits (user st) (greatest f) k ys"
    using Cons.prems(8) by (auto simp: fr)
  have s: "s \<noteq> Nl \<Longrightarrow> addr s \<noteq> 0" using tree_at_0 [OF a(3)] addr_in by metis
  have compute: "compute_max f a True st = Some (if user st a = ?m then (True, user st) else (False, (user st)(a := ?m)))"
    by (subst compute_max_run [OF a(1,2)])
      (use Cons.prems(6) fits_root [OF Cons.prems(7)] s fits_root [OF ys(1)] in \<open>auto simp: ptr_ok_simps Let_def\<close>)
  show ?case
  proof (cases "user st a = ?m")
    case True
    have "path_fits (user st) (greatest f) k (join d (inorder t) a (inorder s))"
      by (rule path_fits_greatest [OF _ ys(2) join_not_Nil ys(4)]) (use True ys(3) in simp)
    then show ?thesis using True compute a(5) ys(1) by (subst callbacks_propagate.simps) (simp add: fr)
  next
    case False
    let ?st = "st\<lparr>user := (user st)(a := ?m)\<rparr>" and ?t = "mk d c t a s"
    have "above k stop AND 3 = 0" using a(4) Cons.prems(2) by (cases k) (auto simp: ptr_ok_simps)
    then have parent: "load rb_parent a st = Some (above k stop)" using a(1,2) by (simp add: run rb_parent_def pc_simps)
    have "path_fits ((user st)(a := ?m)) (greatest f) k ys" using ys(4) D(2) by simp
    from path_fits_stale [OF this] have old: "stale (user ?st) (greatest f) k" by simp
    have IH: "seg_at (nodes ?st) k (addr ?t) stop" "addrs ?t \<inter> path_addrs k = {}" "ptr_ok (addr ?t)" "fits (user ?st) (greatest f) ?t"
      using a(1,4) D ys(1) Cons.prems(7) by (simp_all add: Int_Un_distrib2)
    obtain u where u: "callbacks_propagate (compute_max f) ?st (above k stop) stop = Some u"
      "path_fits u (greatest f) k (join d (inorder t) a (inorder s))" "\<forall>b. b \<notin> path_addrs k \<longrightarrow> u b = (user ?st) b"
      using Cons.IH [OF IH(1) Cons.prems(2) a(6,7) IH(2,3,4) old] unfolding inorder_mk by blast
    have "fits u (greatest f) s = fits (user st) (greatest f) s" by (rule fits_agree) (use u(3) D in auto)
    then show ?thesis using False compute parent a(5) u ys(1) D(2) by (subst callbacks_propagate.simps) (simp add: fr)
  qed
qed

interpretation maximum: augmented_tree "rotate (declare_callbacks_max f)" "\<lambda>u. u" "greatest f"
  "copy (declare_callbacks_max f)" "propagate (declare_callbacks_max f)" for f
proof (unfold_locales, goal_cases)
  case (1 old st d pc x y new)
  let ?u = "(user st)(new := user st old)"
  have "compute_max f old False (st\<lparr>user := ?u\<rparr>) = Some (False, ?u(old := greatest f (join d (inorder x) old (inorder y))))"
    by (subst compute_max_run [OF 1(1), of _ d pc x y])
      (use 1 addr_in [of x] addr_in [of y] fits_root [OF 1(3)] fits_root [OF 1(4)] in \<open>auto simp: Let_def\<close>)
  then show ?case by (simp add: declare_callbacks_max_def declare_callbacks_def callbacks_rotate_def)
next
  case (2 old new st)
  then show ?case by (simp add: declare_callbacks_max_def declare_callbacks_def callbacks_copy_def)
next
  case (3 st k t stop)
  then show ?case using propagate_max [of st k t stop f] by (simp add: declare_callbacks_max_def declare_callbacks_def)
qed

lemma maximum_augment: "maximum.augment f = declare_callbacks_max f"
  by (simp add: declare_callbacks_max_def declare_callbacks_def)

end
