(* ===== verification/Interval_Tree.thy ===== *)
theory Interval_Tree
  imports Rbtree_Max
begin

text \<open>
  Interval trees, \<^verbatim>\<open>tools/include/linux/interval_tree_generic.h\<close>: red-black trees of intervals in the order of their
  start, where every node holds the greatest end of the intervals below it. The functions \<open>itstart\<close> and \<open>itlast\<close>
  give the two ends of the interval of a node; the field \<^verbatim>\<open>ITSUBTREE\<close> is the augmented data.
\<close>

subsection \<open>The code\<close>

definition interval_augment :: "(ptr \<Rightarrow> 'k :: linorder) \<Rightarrow> (ptr \<Rightarrow> 'k) rb_augment_callbacks" where
  "interval_augment itlast = declare_callbacks_max itlast"

partial_function (option) insert_loop ::
  "(ptr \<Rightarrow> 'k :: linorder) \<Rightarrow> 'k \<Rightarrow> 'k \<Rightarrow> link \<Rightarrow> ptr \<Rightarrow> bool \<Rightarrow> (ptr \<Rightarrow> 'k) rbmem \<Rightarrow> (link \<times> ptr \<times> bool \<times> (ptr \<Rightarrow> 'k) rbmem) option" where
  [code]: "insert_loop itstart start till link parent leftmost st =
     do {
       p \<leftarrow> read_link link st;
       if p = 0 then Some (link, parent, leftmost, st)
       else let st = (if user st p < till then st\<lparr>user := (user st)(p := till)\<rparr> else st) in
         if start < itstart p then insert_loop itstart start till (Kid_link Lft p) p leftmost st
         else insert_loop itstart start till (Kid_link Rgt p) p False st }"

definition interval_insert :: "(ptr \<Rightarrow> 'k :: linorder) \<Rightarrow> (ptr \<Rightarrow> 'k) \<Rightarrow> ptr \<Rightarrow> (ptr \<Rightarrow> 'k) cached \<Rightarrow> (ptr \<Rightarrow> 'k) cached option" where
  "interval_insert itstart itlast node root =
     (case root of (st, lm) \<Rightarrow>
        do {
          (link, parent, leftmost, st) \<leftarrow> insert_loop itstart (itstart node) (itlast node) Root_link 0 True st;
          let st = st\<lparr>user := (user st)(node := itlast node)\<rparr>;
          st \<leftarrow> rb_link_node node parent link st;
          rb_insert_augmented_cached node leftmost (interval_augment itlast) (st, lm) })"

definition interval_remove :: "(ptr \<Rightarrow> 'k :: linorder) \<Rightarrow> ptr \<Rightarrow> (ptr \<Rightarrow> 'k) cached \<Rightarrow> (ptr \<Rightarrow> 'k) cached option" where
  "interval_remove itlast node root = rb_erase_augmented_cached node (interval_augment itlast) root"

text \<open>The leftmost interval below a node that meets the interval from \<open>start\<close> to \<open>till\<close>, or NULL.\<close>

partial_function (option) subtree_search ::
  "(ptr \<Rightarrow> 'k :: linorder) \<Rightarrow> (ptr \<Rightarrow> 'k) \<Rightarrow> ptr \<Rightarrow> 'k \<Rightarrow> 'k \<Rightarrow> (ptr \<Rightarrow> 'k) rbmem \<Rightarrow> ptr option" where
  [code]: "subtree_search itstart itlast node start till st =
     do {
       l \<leftarrow> load rb_left node st;
       if l \<noteq> 0 \<and> start \<le> user st l then subtree_search itstart itlast l start till st
       else if itstart node \<le> till then
         if start \<le> itlast node then Some node
         else do {
           r \<leftarrow> load rb_right node st;
           if r \<noteq> 0 \<and> start \<le> user st r then subtree_search itstart itlast r start till st else Some 0 }
       else Some 0 }"

definition iter_first :: "(ptr \<Rightarrow> 'k :: linorder) \<Rightarrow> (ptr \<Rightarrow> 'k) \<Rightarrow> (ptr \<Rightarrow> 'k) cached \<Rightarrow> 'k \<Rightarrow> 'k \<Rightarrow> ptr option" where
  "iter_first itstart itlast root start till =
     (case root of (st, leftmost) \<Rightarrow>
        let node = root_node st in
        if node = 0 then Some 0
        else if user st node < start then Some 0
        else if itstart leftmost > till then Some 0
        else subtree_search itstart itlast node start till st)"

text \<open>From a node and its right child: below the child, or up to the next node on the left of which the path lies.\<close>

partial_function (option) iter_loop ::
  "(ptr \<Rightarrow> 'k :: linorder) \<Rightarrow> (ptr \<Rightarrow> 'k) \<Rightarrow> ptr \<Rightarrow> ptr \<Rightarrow> 'k \<Rightarrow> 'k \<Rightarrow> (ptr \<Rightarrow> 'k) rbmem \<Rightarrow> ptr option" where
  [code]: "iter_loop itstart itlast node rb start till st =
     (if rb \<noteq> 0 \<and> start \<le> user st rb then subtree_search itstart itlast rb start till st
      else do {
        node \<leftarrow> climb Rgt node st;
        if node = 0 then Some 0
        else do {
          rb \<leftarrow> load rb_right node st;
          if till < itstart node then Some 0
          else if start \<le> itlast node then Some node
          else iter_loop itstart itlast node rb start till st } })"

definition iter_next :: "(ptr \<Rightarrow> 'k :: linorder) \<Rightarrow> (ptr \<Rightarrow> 'k) \<Rightarrow> ptr \<Rightarrow> 'k \<Rightarrow> 'k \<Rightarrow> (ptr \<Rightarrow> 'k) rbmem \<Rightarrow> ptr option" where
  "iter_next itstart itlast node start till st =
     do { rb \<leftarrow> load rb_right node st; iter_loop itstart itlast node rb start till st }"

text \<open>The nodes a loop over \<open>iter_first\<close> and \<open>iter_next\<close> visits.\<close>

partial_function (option) iter_from ::
  "(ptr \<Rightarrow> 'k :: linorder) \<Rightarrow> (ptr \<Rightarrow> 'k) \<Rightarrow> ptr \<Rightarrow> 'k \<Rightarrow> 'k \<Rightarrow> (ptr \<Rightarrow> 'k) rbmem \<Rightarrow> ptr list option" where
  [code]: "iter_from itstart itlast node start till st =
     (if node = 0 then Some []
      else do {
        n \<leftarrow> iter_next itstart itlast node start till st;
        rest \<leftarrow> iter_from itstart itlast n start till st;
        Some (node # rest) })"

definition iter_all :: "(ptr \<Rightarrow> 'k :: linorder) \<Rightarrow> (ptr \<Rightarrow> 'k) \<Rightarrow> (ptr \<Rightarrow> 'k) cached \<Rightarrow> 'k \<Rightarrow> 'k \<Rightarrow> ptr list option" where
  "iter_all itstart itlast root start till =
     do { n \<leftarrow> iter_first itstart itlast root start till; iter_from itstart itlast n start till (fst root) }"

subsection \<open>The invariant\<close>

definition starts_sorted :: "(ptr \<Rightarrow> 'k :: linorder) \<Rightarrow> ptr list \<Rightarrow> bool" where
  "starts_sorted itstart xs \<longleftrightarrow> sorted_wrt (\<lambda>a b. itstart a \<le> itstart b) xs"

definition interval_tree :: "(ptr \<Rightarrow> 'k :: linorder) \<Rightarrow> (ptr \<Rightarrow> 'k) \<Rightarrow> (ptr \<Rightarrow> 'k) cached \<Rightarrow> ptr list \<Rightarrow> bool" where
  "interval_tree itstart itlast root xs \<longleftrightarrow>
     (\<exists>t. holds (\<lambda>u. u) (greatest itlast) (fst root) t \<and> rb_shape t \<and> inorder t = xs) \<and> snd root = hd0 xs \<and> starts_sorted itstart xs"

definition meets :: "(ptr \<Rightarrow> 'k :: linorder) \<Rightarrow> (ptr \<Rightarrow> 'k) \<Rightarrow> 'k \<Rightarrow> 'k \<Rightarrow> ptr \<Rightarrow> bool" where
  "meets itstart itlast start till x \<longleftrightarrow> itstart x \<le> till \<and> start \<le> itlast x"

lemma greatest_cong: "set xs = set ys \<Longrightarrow> greatest f xs = greatest f ys"
  by (simp add: greatest_def)

lemma greatest_ge: "xs \<noteq> [] \<Longrightarrow> m \<le> greatest f xs \<longleftrightarrow> (\<exists>x \<in> set xs. m \<le> f x)"
  by (simp add: greatest_def Max_ge_iff)

subsection \<open>Searching\<close>

text \<open>When an interval ends late enough and does not meet the other one, it starts too late, and so do all after it.\<close>

lemma none_after:
  assumes "starts_sorted itstart (xs @ ys)" "x \<in> set xs" "start \<le> itlast x" "filter (meets itstart itlast start till) xs = []"
  shows "filter (meets itstart itlast start till) ys = []"
proof -
  have "till < itstart x" using assms(2-4) by (auto simp: filter_empty_conv meets_def)
  moreover have "itstart x \<le> itstart y" if "y \<in> set ys" for y using assms(1,2) that by (auto simp: starts_sorted_def sorted_wrt_append)
  ultimately show ?thesis by (force simp: filter_empty_conv meets_def)
qed

lemma none_below:
  assumes "xs \<noteq> [] \<Longrightarrow> \<not> start \<le> greatest itlast xs"
  shows "filter (meets itstart itlast start till) xs = []"
  using assms greatest_ge [of xs start itlast] by (cases "xs = []") (auto simp: filter_empty_conv meets_def)

lemma none_late: "\<forall>x \<in> set xs. m \<le> itstart x \<Longrightarrow> \<not> m \<le> till \<Longrightarrow> filter (meets itstart itlast start till) xs = []"
  unfolding filter_empty_conv meets_def using order_trans by blast

lemma subtree_search_run:
  assumes "tree_at (nodes st) q t" "fits (user st) (greatest itlast) t" "starts_sorted itstart (inorder t)" "t \<noteq> Nl"
  shows "subtree_search itstart itlast (addr t) start till st = Some (hd0 (filter (meets itstart itlast start till) (inorder t)))"
  using assms
proof (induction t arbitrary: q)
  case (Nd c l a r)
  let ?M = "meets itstart itlast start till"
  have a: "ptr_ok a" "nodes st a = Some (nd Lft (q OR bw c) (addr l) (addr r))" and trees: "tree_at (nodes st) a l" "tree_at (nodes st) a r"
    and fits: "fits (user st) (greatest itlast) l" "fits (user st) (greatest itlast) r" using Nd.prems by auto
  have 0: "addr l = 0 \<longleftrightarrow> l = Nl" "addr r = 0 \<longleftrightarrow> r = Nl" using trees by (cases l; cases r; simp add: ptr_ok_simps)+
  have sorted: "starts_sorted itstart (inorder l)" "starts_sorted itstart (inorder r)" "\<forall>x \<in> addrs r. itstart a \<le> itstart x"
    using Nd.prems(3) by (auto simp: starts_sorted_def sorted_wrt_append)
  let ?L = "l \<noteq> Nl \<and> start \<le> greatest itlast (inorder l)" and ?R = "r \<noteq> Nl \<and> start \<le> greatest itlast (inorder r)"
  have tests: "addr l \<noteq> 0 \<and> start \<le> user st (addr l) \<longleftrightarrow> ?L" "addr r \<noteq> 0 \<and> start \<le> user st (addr r) \<longleftrightarrow> ?R"
    using 0 fits_root [OF fits(1)] fits_root [OF fits(2)] by auto
  have step: "subtree_search itstart itlast a start till st =
      (if ?L then subtree_search itstart itlast (addr l) start till st
       else if itstart a \<le> till then
         if start \<le> itlast a then Some a else if ?R then subtree_search itstart itlast (addr r) start till st else Some 0
       else Some 0)"
    using a by (subst subtree_search.simps) (simp add: run tests)
  show ?case
  proof (cases ?L)
    case True
    then obtain x where x: "x \<in> addrs l" "start \<le> itlast x" using greatest_ge [of "inorder l" start itlast] by auto
    have "filter ?M (inorder l) = [] \<Longrightarrow> filter ?M (a # inorder r) = []"
      using none_after [of itstart "inorder l" "a # inorder r" x start itlast till] x Nd.prems(3) by simp
    then have "hd0 (filter ?M (inorder l)) = hd0 (filter ?M (inorder l @ a # inorder r))" by (auto split: if_splits)
    then show ?thesis using step True Nd.IH(1) [OF trees(1) fits(1) sorted(1)] by simp
  next
    case False
    then have l: "filter ?M (inorder l) = []" by (intro none_below) auto
    have r: "\<not> ?R \<Longrightarrow> filter ?M (inorder r) = []" by (intro none_below) auto
    have late: "\<not> itstart a \<le> till \<Longrightarrow> filter ?M (a # inorder r) = []" using sorted(3) by (intro none_late) auto
    show ?thesis
    proof (cases "itstart a \<le> till \<and> start \<le> itlast a")
      case True
      then have "?M a" by (simp add: meets_def)
      then show ?thesis using step False l True by simp
    next
      case False
      then have "\<not> ?M a" by (simp add: meets_def)
      then show ?thesis using step \<open>\<not> ?L\<close> l r late False Nd.IH(2) [OF trees(2) fits(2) sorted(2)] by auto
    qed
  qed
qed simp


subsection \<open>Iterating\<close>

text \<open>The next node above a subtree that comes after it, with its right subtree and its path.\<close>

lemma after_split:
  assumes "after k \<noteq> []"
  obtains k' c l a r where "\<And>t. \<exists>l. plug k t = plug k' (Nd c l a r)" "turn Rgt k = a" "after k = a # inorder r @ after k'" "length k' < length k"
  using assms
proof (induction k arbitrary: thesis)
  case (Cons f k)
  obtain d c a s where f: "f = (d, c, a, s)" by (cases f)
  show ?case
  proof (cases d)
    case Lft
    then show ?thesis using Cons.prems(1) [of k c a s] by (auto simp: f)
  next
    case Rgt
    then have "after k \<noteq> []" using Cons.prems(2) by (simp add: f)
    from Cons.IH [OF _ this] obtain k' c' a' r' where k': "\<And>t. \<exists>l. plug k t = plug k' (Nd c' l a' r')" "turn Rgt k = a'"
      "after k = a' # inorder r' @ after k'" "length k' < length k" by metis
    have "\<exists>l. plug (f # k) t = plug k' (Nd c' l a' r')" for t using k'(1) by (simp add: f)
    then show ?thesis using Cons.prems(1) [of k' c' a' r'] k'(2-4) Rgt by (simp add: f)
  qed
qed simp

lemma iter_loop_run:
  assumes "holds (\<lambda>u. u) (greatest itlast) st (plug k (Nd c l x r))" "starts_sorted itstart (inorder (plug k (Nd c l x r)))"
  shows "iter_loop itstart itlast x (addr r) start till st = Some (hd0 (filter (meets itstart itlast start till) (inorder r @ after k)))"
  using assms
proof (induction "length k" arbitrary: k c l x r rule: less_induct)
  case less
  let ?M = "meets itstart itlast start till"
  have M: "mem st (plug k (Nd c l x r))" and V: "fits (user st) (greatest itlast) r" using less.prems(1) by (auto simp: holds_def fits_plug)
  note x = mem_node [OF M]
  have sorted: "starts_sorted itstart (inorder r)" "starts_sorted itstart (inorder r @ after k)"
    using less.prems(2) by (auto simp: starts_sorted_def sorted_wrt_append inorder_plug)
  let ?R = "r \<noteq> Nl \<and> start \<le> greatest itlast (inorder r)"
  have test: "addr r \<noteq> 0 \<and> start \<le> user st (addr r) \<longleftrightarrow> ?R" using x(6) fits_root [OF V] by auto
  show ?case
  proof (cases ?R)
    case True
    then obtain y where y: "y \<in> addrs r" "start \<le> itlast y" using greatest_ge [of "inorder r" start itlast] by auto
    have "filter ?M (inorder r) = [] \<Longrightarrow> filter ?M (after k) = []"
      using none_after [of itstart "inorder r" "after k" y start itlast till] y sorted(2) by simp
    then have "hd0 (filter ?M (inorder r)) = hd0 (filter ?M (inorder r @ after k))" by simp
    then show ?thesis using True test subtree_search_run [OF x(11) V sorted(1)] by (subst iter_loop.simps) simp
  next
    case False
    then have r: "filter ?M (inorder r) = []" by (intro none_below) auto
    have skip: "\<not> (addr r \<noteq> 0 \<and> start \<le> user st (addr r))" using False test by blast
    have climb: "climb Rgt x st = Some (turn Rgt k)" by (rule climb_run [OF x(1,9,2)]) (use x in simp_all)
    show ?thesis
    proof (cases "after k = []")
      case True
      then show ?thesis using skip climb r by (subst iter_loop.simps) (simp only: skip turn_after, simp)
    next
      case False
      then obtain k' c' a r' where k': "\<And>t. \<exists>l. plug k t = plug k' (Nd c' l a r')" "turn Rgt k = a"
        "after k = a # inorder r' @ after k'" "length k' < length k" using after_split by metis
      obtain l' where l': "plug k (Nd c l x r) = plug k' (Nd c' l' a r')" using k'(1) by blast
      have M': "mem st (plug k' (Nd c' l' a r'))" using M l' by simp
      note a = mem_node [OF M']
      have IH: "iter_loop itstart itlast a (addr r') start till st = Some (hd0 (filter ?M (inorder r' @ after k')))"
        using less.hyps [OF k'(4)] less.prems unfolding l' by blast
      have "\<forall>b \<in> set (after k). itstart a \<le> itstart b" using sorted(2) by (auto simp: k'(3) starts_sorted_def sorted_wrt_append)
      then have late: "\<not> itstart a \<le> till \<Longrightarrow> filter ?M (after k) = []" by (rule none_late)
      have step: "iter_loop itstart itlast x (addr r) start till st =
          (if till < itstart a then Some 0 else if start \<le> itlast a then Some a else iter_loop itstart itlast a (addr r') start till st)"
        using climb a(1,2) k'(2) by (subst iter_loop.simps, simp only: skip, simp add: run ptr_ok_simps)
      consider "till < itstart a" | "itstart a \<le> till" "start \<le> itlast a" | "itstart a \<le> till" "\<not> start \<le> itlast a" by fastforce
      then show ?thesis
      proof cases
        case 1
        then show ?thesis using step r late by simp
      next
        case 2
        then have "?M a" by (simp add: meets_def)
        then show ?thesis using step r k'(3) 2 by (simp add: not_less [symmetric])
      next
        case 3
        then have "\<not> ?M a" by (simp add: meets_def)
        then show ?thesis using step r k'(3) 3 IH by (simp add: not_less [symmetric])
      qed
    qed
  qed
qed

lemma iter_next_run:
  assumes "interval_tree itstart itlast (st, lm) (xs @ x # ys)"
  shows "iter_next itstart itlast x start till st = Some (hd0 (filter (meets itstart itlast start till) ys))"
proof -
  obtain t where t: "holds (\<lambda>u. u) (greatest itlast) st t" "inorder t = xs @ x # ys" "starts_sorted itstart (inorder t)"
    using assms by (auto simp: interval_tree_def)
  have M: "mem st t" using t(1) by (simp add: holds_def)
  obtain k c l r where k: "t = plug k (Nd c l x r)" "ys = inorder r @ after k" using split_node [OF M t(2)] by metis
  have "load rb_right x st = Some (addr r)" using mem_node [of st k c l x r] M k(1) by (simp add: run)
  then show ?thesis using iter_loop_run [of itlast st k c l x r itstart start till] t(1,3) unfolding k by (simp add: iter_next_def)
qed

lemma iter_first_run:
  assumes "interval_tree itstart itlast root xs"
  shows "iter_first itstart itlast root start till = Some (hd0 (filter (meets itstart itlast start till) xs))"
proof -
  let ?M = "meets itstart itlast start till"
  obtain st lm where root: "root = (st, lm)" by (cases root)
  obtain t where t: "holds (\<lambda>u. u) (greatest itlast) st t" "inorder t = xs" "lm = hd0 xs" "starts_sorted itstart (inorder t)"
    using assms by (auto simp: interval_tree_def root)
  have at: "tree_at (nodes st) 0 t" "root_node st = addr t" "fits (user st) (greatest itlast) t" using t(1) by (auto simp: holds_def mem_def)
  show ?thesis
  proof (cases t)
    case Nl
    then show ?thesis using at(2) t(2) by (auto simp: iter_first_def root)
  next
    case (Nd c l a r)
    then have ne: "t \<noteq> Nl" "addr t \<noteq> 0" "xs \<noteq> []" using at(1) t(2) by (auto simp: ptr_ok_simps)
    have "user st (addr t) < start \<Longrightarrow> filter ?M xs = []" using fits_root [OF at(3) ne(1)] t(2) by (intro none_below) auto
    moreover have "till < itstart lm \<Longrightarrow> filter ?M xs = []"
      using t(2-4) ne(3) by (cases xs) (auto simp: filter_empty_conv meets_def starts_sorted_def)
    ultimately show ?thesis using subtree_search_run [OF at(1,3) t(4) ne(1), of start till] ne(2) at(2) t(2)
      by (auto simp: iter_first_def root Let_def)
  qed
qed

lemma iter_from_run:
  assumes "interval_tree itstart itlast (st, lm) (xs @ ys)"
  shows "iter_from itstart itlast (hd0 (filter (meets itstart itlast start till) ys)) start till st = Some (filter (meets itstart itlast start till) ys)"
  using assms
proof (induction ys arbitrary: xs)
  case Nil
  show ?case by (subst iter_from.simps) simp
next
  case (Cons y ys)
  let ?M = "meets itstart itlast start till"
  have IH: "iter_from itstart itlast (hd0 (filter ?M ys)) start till st = Some (filter ?M ys)" using Cons.IH [of "xs @ [y]"] Cons.prems by simp
  show ?case
  proof (cases "?M y")
    case True
    have "y \<noteq> 0" using Cons.prems by (auto simp: interval_tree_def holds_def mem_def ptr_ok_simps dest!: tree_at_0)
    then show ?thesis using iter_next_run [OF Cons.prems, of start till] IH True by (subst iter_from.simps) simp
  qed (simp add: IH)
qed


subsection \<open>Inserting and removing\<close>

lemma mem_user [simp]: "mem (st\<lparr>user := u\<rparr>) t = mem st t"
  by (simp add: mem_def)

text \<open>On the way down every node is told the end of the new interval.\<close>

lemma insert_loop_run:
  fixes itstart itlast :: "ptr \<Rightarrow> 'k :: linorder" and start :: 'k
  assumes "mem st (plug k t)" "lm \<longleftrightarrow> before k = []" "fits (user st) (greatest itlast) t" "path_fits (user st) (greatest itlast) k (x # inorder t)"
  defines "k' \<equiv> place (\<lambda>p. start < itstart p) k t"
  shows "\<exists>u. insert_loop itstart start (itlast x) (link_of k) (up k) lm st = Some (link_of k', up k', before k' = [], st\<lparr>user := u\<rparr>) \<and>
    path_fits u (greatest itlast) k' [x]"
  using assms(1-4) unfolding k'_def
proof (induction t arbitrary: k lm st)
  case Nl
  then show ?case by (subst insert_loop.simps, intro exI [of _ "user st"]) (simp add: read_link_run)
next
  case (Nd c l a r)
  note a = mem_node [OF Nd.prems(1)]
  have D: "a \<notin> addrs l" "a \<notin> addrs r" "a \<notin> path_addrs k" using Nd.prems(1) by (auto simp: mem_plug)
  let ?m = "greatest itlast (x # inorder (Nd c l a r))"
  define u where "u = (if user st a < itlast x then (user st)(a := itlast x) else user st)"
  have "greatest itlast (x # inorder (Nd c l a r)) = max (itlast x) (greatest itlast (inorder (Nd c l a r)))" by (simp add: greatest_def)
  moreover have "user st a = greatest itlast (inorder (Nd c l a r))" using Nd.prems(3) by simp
  ultimately have u: "u = (user st)(a := ?m)" by (auto simp: u_def max_def)
  have read: "read_link (link_of k) st = Some a" "a \<noteq> 0" using read_link_run [OF Nd.prems(1)] a(1) by (auto simp: ptr_ok_simps)
  have fits: "fits u (greatest itlast) l" "fits u (greatest itlast) r" using Nd.prems(3) D by (simp_all add: u)
  have path: "path_fits u (greatest itlast) k (x # inorder (Nd c l a r))" using Nd.prems(4) D(3) by (simp add: u)
  have same: "greatest itlast (join Lft (x # inorder l) a (inorder r)) = ?m" "greatest itlast (join Rgt (x # inorder r) a (inorder l)) = ?m"
    by (rule greatest_cong, auto)+
  show ?case
  proof (cases "start < itstart a")
    case True
    have "insert_loop itstart start (itlast x) (link_of k) (up k) lm st =
        insert_loop itstart start (itlast x) (link_of ((Lft, c, a, r) # k)) (up ((Lft, c, a, r) # k)) lm (st\<lparr>user := u\<rparr>)"
      using read True by (subst insert_loop.simps) (simp add: u_def)
    moreover have "path_fits u (greatest itlast) ((Lft, c, a, r) # k) (x # inorder l)"
      using path_fits_greatest [OF same(1) [symmetric] _ join_not_Nil path] fits(2) same(1) by (simp add: u)
    ultimately show ?thesis using Nd.IH(1) [of "st\<lparr>user := u\<rparr>" "(Lft, c, a, r) # k" lm] Nd.prems(1,2) fits(1) True by simp
  next
    case False
    have "insert_loop itstart start (itlast x) (link_of k) (up k) lm st =
        insert_loop itstart start (itlast x) (link_of ((Rgt, c, a, l) # k)) (up ((Rgt, c, a, l) # k)) False (st\<lparr>user := u\<rparr>)"
      using read False by (subst insert_loop.simps) (simp add: u_def)
    moreover have "path_fits u (greatest itlast) ((Rgt, c, a, l) # k) (x # inorder r)"
      using path_fits_greatest [OF same(2) [symmetric] _ join_not_Nil path] fits(1) same(2) by (simp add: u)
    ultimately show ?thesis using Nd.IH(2) [of "st\<lparr>user := u\<rparr>" "(Rgt, c, a, l) # k" False] Nd.prems(1,2) fits(2) False by simp
  qed
qed

lemma starts_insert: "starts_sorted itstart xs \<Longrightarrow> starts_sorted itstart (insert_after (\<lambda>p. itstart x < itstart p) x xs)"
proof (induction xs)
  case (Cons y ys)
  show ?case
  proof (cases "itstart x < itstart y")
    case True
    then have "\<forall>z \<in> set (y # ys). itstart x \<le> itstart z" using Cons.prems by (auto simp: starts_sorted_def)
    moreover have "insert_after (\<lambda>p. itstart x < itstart p) x (y # ys) = x # y # ys" using True by (simp add: insert_after_def)
    ultimately show ?thesis using Cons.prems by (simp add: starts_sorted_def)
  next
    case False
    then have "insert_after (\<lambda>p. itstart x < itstart p) x (y # ys) = y # insert_after (\<lambda>p. itstart x < itstart p) x ys" by (simp add: insert_after_def)
    then show ?thesis using Cons False by (simp add: starts_sorted_def)
  qed
qed (simp add: starts_sorted_def insert_after_def)

lemma interval_insert_run:
  assumes tree: "interval_tree itstart itlast (st, lm) xs" and x: "ptr_ok x" "nodes st x \<noteq> None" "x \<notin> set xs"
  shows "\<exists>root'. interval_insert itstart itlast x (st, lm) = Some root' \<and>
    interval_tree itstart itlast root' (insert_after (\<lambda>p. itstart x < itstart p) x xs)"
proof -
  obtain t where t: "holds (\<lambda>u. u) (greatest itlast) st t" "rb_shape t" "inorder t = xs" "lm = hd0 xs" "starts_sorted itstart xs"
    using tree by (auto simp: interval_tree_def)
  let ?k = "place (\<lambda>p. itstart x < itstart p) [] t" and ?f = "\<lambda>p. itstart x < itstart p"
  have M: "mem st t" "fits (user st) (greatest itlast) t" using t(1) by (auto simp: holds_def)
  have rise: "sorted_wrt (\<lambda>a b. ?f a \<longrightarrow> ?f b) (inorder t)"
    using t(3,5) unfolding starts_sorted_def by (auto intro: sorted_wrt_mono_rel [rotated])
  have k: "plug ?k Nl = t" by (simp add: plug_place)
  then have addrs: "x \<notin> path_addrs ?k" using addrs_plug [of ?k Nl] x(3) t(3) by simp
  obtain u where u: "insert_loop itstart (itstart x) (itlast x) Root_link 0 True st = Some (link_of ?k, up ?k, before ?k = [], st\<lparr>user := u\<rparr>)"
    "path_fits u (greatest itlast) ?k [x]"
    using insert_loop_run [where st = st and k = "[]" and t = t and lm = True and itlast = itlast and x = x and start = "itstart x" and itstart = itstart] M by auto
  let ?st = "st\<lparr>user := u(x := itlast x)\<rparr>"
  obtain st1 where st1: "rb_link_node x (up ?k) (link_of ?k) ?st = Some st1" "mem st1 (plug ?k (Nd Red Nl x Nl))" "user st1 = u(x := itlast x)"
    using rb_link_node_run [of ?st ?k x] M(1) k x addrs by auto
  have "holds (\<lambda>u. u) (greatest itlast) st1 (plug ?k (Nd Red Nl x Nl))"
    using st1(2,3) u(2) addrs by (simp add: holds_def fits_plug greatest_def)
  then obtain st' t' where st': "rb_insert_augmented x (rotate (declare_callbacks_max itlast)) st1 = Some st'"
    "holds (\<lambda>u. u) (greatest itlast) st' t'" "inorder t' = inorder (plug ?k (Nd Red Nl x Nl))" "rb_shape t'"
    using maximum.insert_leaf_run [of itlast st1 ?k x] t(2) k by auto
  have "interval_insert itstart itlast x (st, lm) = Some (st', if before ?k = [] then x else lm)"
    using u(1) st1(1) st'(1) by (simp add: interval_insert_def rb_insert_augmented_cached_def interval_augment_def)
  moreover have "(if before ?k = [] then x else lm) = hd0 (insert_after ?f x xs)"
    using place_sides(1) [OF rise, of "[]"] t(3,4) by (simp add: hd0_insert_after)
  moreover have "inorder t' = insert_after ?f x xs" using st'(3) place_inorder [OF rise] t(3) by simp
  ultimately show ?thesis using st' starts_insert [OF t(5), of x]
    by (intro exI [of _ "(st', if before ?k = [] then x else lm)"]) (auto simp: interval_tree_def)
qed

lemma starts_remove: "starts_sorted itstart xs \<Longrightarrow> starts_sorted itstart (remove1 x xs)"
  unfolding starts_sorted_def by (induction xs) (auto dest: set_remove1_subset [THEN subsetD])

lemma interval_remove_run:
  assumes tree: "interval_tree itstart itlast (st, lm) xs" and x: "x \<in> set xs"
  shows "\<exists>root'. interval_remove itlast x (st, lm) = Some root' \<and> interval_tree itstart itlast root' (remove1 x xs)"
proof -
  obtain t where t: "holds (\<lambda>u. u) (greatest itlast) st t" "rb_shape t" "inorder t = xs" "lm = hd0 xs" "starts_sorted itstart xs"
    using tree by (auto simp: interval_tree_def)
  have "rbtree_of st xs" using t(1-3) by (auto simp: rbtree_of_def holds_def)
  note lm = move_leftmost [OF this x]
  obtain st' t' where st': "rb_erase_augmented x (declare_callbacks_max itlast) st = Some st'" "holds (\<lambda>u. u) (greatest itlast) st' t'"
    "inorder t' = remove1 x xs" "rb_shape t'"
    using maximum.rb_erase_augmented_run [of itlast st t x] t(1-3) x unfolding maximum_augment by auto
  have "interval_remove itlast x (st, lm) = Some (st', hd0 (remove1 x xs))"
    using lm st'(1) t(4) by (auto simp: interval_remove_def rb_erase_augmented_cached_def interval_augment_def)
  then show ?thesis using st' starts_remove [OF t(5)] by (auto simp: interval_tree_def)
qed


subsection \<open>The properties\<close>

text \<open>The intervals from 8 to 28, from 16 to 20 and from 24 to 26, and a node for one more.\<close>

definition example_last :: "ptr \<Rightarrow> u64" where
  "example_last p = (if p = 8 then 28 else if p = 16 then 20 else p + 2)"

definition example_intervals :: "(ptr \<Rightarrow> u64) cached" where
  "example_intervals =
     (\<lparr>nodes = [8 \<mapsto> \<lparr>parent_color = 16, rb_right = 0, rb_left = 0\<rparr>, 16 \<mapsto> \<lparr>parent_color = 1, rb_right = 24, rb_left = 8\<rparr>,
        24 \<mapsto> \<lparr>parent_color = 16, rb_right = 0, rb_left = 0\<rparr>, 32 \<mapsto> \<lparr>parent_color = 0, rb_right = 0, rb_left = 0\<rparr>],
      root_node = 16, user = (\<lambda>p. if p = 24 then 26 else 28)\<rparr>, 8)"

lemma example_interval_tree: "interval_tree (\<lambda>p. p) example_last example_intervals [8, 16, 24]"
proof -
  have "holds (\<lambda>u. u) (greatest example_last) (fst example_intervals) (Nd Black (Nd Red Nl 8 Nl) 16 (Nd Red Nl 24 Nl))"
    by (simp add: holds_def mem_def example_intervals_def ptr_ok_def bw_def RB_RED_def RB_BLACK_def greatest_def example_last_def max_def)
  then show ?thesis unfolding interval_tree_def
    by (intro conjI exI [of _ "Nd Black (Nd Red Nl 8 Nl) 16 (Nd Red Nl 24 Nl)"])
      (simp_all add: rb_shape_def exI [of _ "Suc 0"] starts_sorted_def example_intervals_def)
qed

text \<open>
  C12: inserting an interval and removing one keep the tree a red-black tree in the order of the starts in which every node
  holds the greatest end below it, and keep the cached pointer at the first node. The new interval comes after those
  that do not start later.
\<close>

theorem interval_updates_correct:
  assumes "interval_tree itstart itlast (st, lm) xs" "ptr_ok x" "nodes st x \<noteq> None" "x \<notin> set xs" "y \<in> set xs"
  shows "(\<exists>root. interval_insert itstart itlast x (st, lm) = Some root \<and>
      interval_tree itstart itlast root (insert_after (\<lambda>p. itstart x < itstart p) x xs)) \<and>
    (\<exists>root. interval_remove itlast y (st, lm) = Some root \<and> interval_tree itstart itlast root (remove1 y xs))"
  using interval_insert_run [OF assms(1-4)] interval_remove_run [OF assms(1,5)] by blast

theorem interval_updates_correct_witness:
  "(\<exists>root. interval_insert (\<lambda>p. p) example_last 32 example_intervals = Some root \<and>
      interval_tree (\<lambda>p. p) example_last root (insert_after (\<lambda>p. 32 < p) 32 [8, 16, 24])) \<and>
    (\<exists>root. interval_remove example_last 16 example_intervals = Some root \<and>
      interval_tree (\<lambda>p. p) example_last root (remove1 16 [8, 16, 24]))"
  using interval_updates_correct [of "\<lambda>p. p" example_last "fst example_intervals" "snd example_intervals" "[8, 16, 24]" 32 16] example_interval_tree
  by (simp add: example_intervals_def ptr_ok_def)

text \<open>
  C11: the loop over the intervals that meet a given one visits exactly those, in the order of the tree, although it looks
  only at subtrees whose greatest end is late enough.
\<close>

theorem interval_iter_correct:
  assumes "interval_tree itstart itlast root xs"
  shows "iter_all itstart itlast root start till = Some (filter (meets itstart itlast start till) xs)"
proof -
  obtain st lm where root: "root = (st, lm)" by (cases root)
  show ?thesis using iter_first_run [OF assms] iter_from_run [of itstart itlast st lm "[]" xs start till] assms
    by (simp add: iter_all_def root)
qed

theorem interval_iter_correct_witness:
  "iter_all (\<lambda>p. p) example_last example_intervals 21 24 = Some [8, 24]"
  using interval_iter_correct [OF example_interval_tree, of 21 24] by (simp add: meets_def example_last_def)

end
