(* ===== verification/Spec2Isabelle.thy ===== *)
theory Spec2Isabelle
  imports E820_Boot_Correct List_Sort Kconfig_Correct Strset_Correct Kconfig_Cycles Kconfig_Table Kconfig_Roundtrip Bitmap_Print
    Rbtree_Refine Interval_Tree
begin

text \<open>
  \<^bold>\<open>A stripped Linux 6.6 tree: memory map, containers and configuration\<close>

  The repository is a Linux 6.6 tree reduced to what a small x86 kernel needs to be configured and built. Most of it
  is hardware access whose effects lie outside of the C program. This development models the parts that compute:
  the physical memory map the kernel boots with, the configuration program that decides what is built, and the
  containers of the libraries under \<^verbatim>\<open>tools/lib\<close>.

  \<^bold>\<open>Conventions.\<close> Machine integers are words of their width (\<open>u8\<close>, \<open>u16\<close>, \<open>u32\<close>, \<open>u64\<close> of \<open>Prelude\<close>), so that
  sums wrap as in C. State is passed explicitly in records named after the structures. A result \<open>None\<close> is where the C
  program stops or has no defined behaviour: \<^verbatim>\<open>BUG_ON\<close>, \<^verbatim>\<open>panic\<close>, \<^verbatim>\<open>exit\<close>, a NULL pointer, an access outside of an array,
  or a loop that does not end. Theorems that a function returns state \<open>Some\<close>. Routines that are not part of the
  tree (the C library, the sorting routine of the kernel, the allocator, system calls) are arguments of the definitions or
  fields of a record, with what is required of them as hypotheses; each such theorem has a concrete instance.
  Names keep those of the sources; a leading underscore becomes a prefix such as \<open>tab_\<close>, \<open>slow_\<close> or \<open>sw_\<close>.

  \<^bold>\<open>The memory map\<close>, \<^verbatim>\<open>arch/x86/kernel/e820.c\<close>. The firmware passes a table of typed address ranges, which may
  overlap. The kernel imports it, lets boot options and reserved data change ranges, sanitizes it, and hands it to the
  allocator, to the resource tree, to hibernation and to PCI.
  \<^item> \<open>E820\<close>: the table with its capacity, the queries, adding, updating and removing a range, and the
    sanitizing sweep \<open>e820__update_table\<close>. The array keeps its length: an entry that does not fit is dropped as in C.
  \<^item> \<open>E820_Sanitize\<close>: the sweep gives every address the highest of its types, in a sorted table without overlaps in
    which equal neighbours are merged (C1, \<open>update_table_merges\<close>); when the table overflows it never invents a type (C2). It uses the locale
    \<open>list_cmp\<close> of \<open>List_Sort\<close> on \<open>cpcompare\<close>.
  \<^item> \<open>E820_Ranges\<close>: the locale \<open>range_pass\<close> is the shape of a pass over a table that grows while it is walked; it is
    interpreted for updating and for removing (C3, C4, \<open>range_update_full_is_safe\<close>). Queries on a sanitized table are exact (\<open>mapped_all_iff\<close>).
  \<^item> \<open>E820_Boot\<close>, \<open>E820_Boot_Correct\<close>: all other functions of the file, over a record of the three tables and what the
    kernel reports to other parts. Setup data is never RAM (C35), the PCI gap is free and largest (C38), the pages left
    out of hibernation are exact (\<open>nosave_regions_exact\<close>), the end of memory is the maximum (\<open>end_pfn_is_maximum\<close>), \<^verbatim>\<open>mem=\<close> removes what it says (\<open>memopt_limits_ram\<close>),
    \<^verbatim>\<open>memmap=\<close> with equal types stops the kernel (C40).

  \<^bold>\<open>Containers\<close>, \<^verbatim>\<open>tools/lib\<close>.
  \<^item> \<open>List_Sort\<close>: the merge sort of \<^verbatim>\<open>list_sort.c\<close> on lists for linked chains; sorted, stable and without a missing
    sublist (C5), for every comparison in the locale \<open>list_cmp\<close>.
  \<^item> \<open>Hashmap\<close>, \<open>Hashmap_Correct\<close>: \<^verbatim>\<open>bpf/hashmap.c\<close>. Chains are lists, allocation results are arguments. Every
    sequence of operations refines a finite map (C6, by the locale \<open>simulation\<close> of \<open>Prelude\<close>); single insertions with
    any functions for keys in the locale \<open>hash_keys\<close> (\<open>hashmap_insert_find\<close>), the order after growing (C37), the load (\<open>hashmap_insert_keeps_load\<close>).
  \<^item> \<open>Strset\<close>, \<open>Strset_Correct\<close>: \<^verbatim>\<open>bpf/strset.c\<close> over the growable arrays of \<^verbatim>\<open>bpf/btf.c\<close>. Its keys are offsets
    into data that moves, so \<open>hash_keys\<close> is interpreted for every content of the data. Refinement of a finite map from
    strings to offsets (C7), creation from a block of strings (\<open>strset_new_correct\<close>), bounds of the array (C36).
  \<^item> \<open>Bitops\<close>: first and last bit, the population counts of \<^verbatim>\<open>hweight.c\<close> by sums of digits (C22), single bits in memory.
  \<^item> \<open>Bitmap\<close>, \<open>Bitmap_Correct\<close>, \<open>Bitmap_Sets\<close>, \<open>Bitmap_Print\<close>: \<^verbatim>\<open>find_bit.c\<close>, \<^verbatim>\<open>bitmap.c\<close> and their headers. The locale
    \<open>bit_source\<close> is an array of words that holds a set; it is interpreted for a bitmap, for two of them and for a
    complement, and gives the six searches (C23). Operations on bitmaps are operations on sets on every path and also in
    place (C24, C25), printing yields the maximal ranges (C26).
  \<^item> \<open>Rbtree\<close>: \<^verbatim>\<open>rbtree.c\<close> and its headers \<^verbatim>\<open>rbtree.h\<close> and \<^verbatim>\<open>rbtree_augmented.h\<close>, over a memory that maps addresses to nodes, with
    the colour in the lowest bit of the pointer to the parent. The mirrored halves of the rebalancing code are one
    definition with the side as argument. Callbacks of augmented trees are functions on what they maintain.
  \<^item> \<open>Rbtree_Shape\<close>: trees as values, a path from a node to the root as a list of frames, when memory holds a tree or a
    path, and what is left of that after a store elsewhere; the rules of red-black trees for trees and for paths.
  \<^item> \<open>Rbtree_Insert\<close>, \<open>Rbtree_Erase\<close>, \<open>Rbtree_Unlink\<close>: every case of rebalancing turns one shape into another. The locale
    \<open>augmentation\<close> is the contract of the callback of a rotation, \<open>augmented_tree\<close> adds those for erasing; both are interpreted
    for plain trees in \<open>Rbtree_Correct\<close> and for greatest values (\<^verbatim>\<open>RB_DECLARE_CALLBACKS_MAX\<close>) in \<open>Rbtree_Max\<close>.
  \<^item> \<open>Rbtree_Walk\<close>, \<open>Rbtree_Correct\<close>, \<open>Rbtree_Refine\<close>: sequences of operations refine operations on a set of nodes with keys
    (C8); erasing and adding (C9, C10), the cached leftmost node (C28), walking in order and in
    postorder (C29, C30), searching (C27), the height (C31).
  \<^item> \<open>Interval_Tree\<close>: the template \<^verbatim>\<open>interval_tree_generic.h\<close> on augmented trees. Inserting and removing keep the invariant
    (C12), and iterating visits exactly the intervals that meet a given one (C11).

  \<^bold>\<open>Configuration\<close>, \<^verbatim>\<open>scripts/kconfig\<close>. Kconfig files declare symbols with types, defaults, dependencies and selects;
  the program calculates the values of all symbols from what the user sets, and reads and writes the configuration.
  \<^item> \<open>Kconfig_Expr\<close>, \<open>Kconfig_Simplify\<close>, \<open>Kconfig_Correct\<close>: \<^verbatim>\<open>expr.c\<close>. Values of expressions with the number parsing of C,
    equality, joins, removal of duplicates and transformation; the last two are loops that run on their own results and
    are proved to end by measures. They keep the value in every configuration (C32, C33, C34, \<open>depends_symbol_sound\<close>), with the
    exception of constants that look different and are equal (C39). \<open>tri_semilattice\<close> holds for both operators.
  \<^item> \<open>Kconfig_Symbol\<close>: \<^verbatim>\<open>symbol.c\<close>, over a memory of symbols with flags. \<open>sym_calc_value\<close> calls itself through
    visibility, defaults, ranges, reverse dependencies and choices; it takes the depth of nested calls as fuel.
  \<^item> \<open>Kconfig_Symbol_Steps\<close>, \<open>Kconfig_Symbol_Correct\<close>: a call is a sequence of small steps (inductive relation
    \<open>calculates\<close>), which keeps declarations, types and valid values (locale \<open>calculation\<close>). Three times the number of
    symbols is enough fuel, for cyclic dependencies as well, and more fuel does not change a result (locale
    \<open>more_fuel\<close>) (C13). Expressions are calculated to their plain value (C14), values fit their types (C16), are calculated
    once (C17), and are not below what selects the symbol (C18).
  \<^item> \<open>Kconfig_Cycles\<close>: the check for recursive dependencies is a depth first search (locale \<open>marking\<close>) and finds exactly
    the reachable cycles outside of choices (C15).
  \<^item> \<open>Kconfig_Table\<close>: the table of names (C21) and toggling (C20).
  \<^item> \<open>Kconfig_Confdata\<close>: \<^verbatim>\<open>confdata.c\<close>, over a record of files and a record of what the system answers.
    Reading lines, escapes, unknown symbols, choices; the configuration, the minimal one, the dependency file and the
    generated headers.
  \<^item> \<open>Kconfig_Confdata_Correct\<close>, \<open>Kconfig_Roundtrip\<close>: the text that the walk over the menus writes (locale \<open>menu_walk\<close>)
    is read back with the same values (C19).

  \<^bold>\<open>Bounds.\<close> Only \<open>sym_calc_value\<close>, the calls below it and \<open>sym_check_deps\<close> take fuel; C13 and C15 state that enough
  of it exists in terms of the number of symbols. Loops whose end depends on the state are \<open>partial_function\<close>s, where
  not ending is \<open>None\<close>; all other recursions are total. Hypotheses on sizes are those of the machine: bitmaps of less
  than \<open>2 ^ 31\<close> bits where the C code has an \<open>int\<close>, and tables whose number of entries fits their array.

  \<^bold>\<open>Not modelled.\<close> Freeing memory, locks, and messages that nothing reads back. The Kconfig lexer and
  parser (\<^verbatim>\<open>lexer.l\<close>, \<^verbatim>\<open>parser.y\<close>) are inputs of generators; the front ends \<^verbatim>\<open>conf.c\<close> and \<^verbatim>\<open>nconf.c\<close> are terminal
  dialogues. The rest of \<^verbatim>\<open>arch/x86\<close> (CPU setup, interrupts, paging, KVM, drivers, boot stage) works through
  registers, page tables, assembly and subsystems that are not in the tree. libbpf above its containers, libperf,
  libsubcmd and objtool work on ELF files and system calls through libraries that are not in the tree.
\<close>

end
